(* ===== verification/Prelude.thy ===== *)
theory Prelude
  imports Main "HOL-Library.Word" "HOL-Library.Signed_Division"
begin

text \<open>
  Shared vocabulary of the development: the engine's machine types (\<open>UCHAR\<close>, \<open>USHORT\<close>,
  \<open>ULONG\<close>), the memory routines of \<open>src/include/memory_routines.h\<close> that store shorts and
  longs in byte buffers, bounded buffer writes, and the list and word lemmas that the
  component theories rewrite with.
\<close>

unbundle bit_operations_syntax

subsection \<open>Machine types\<close>

type_synonym uchar = "8 word"
type_synonym ushort = "16 word"
type_synonym ulong = "32 word"

text \<open>Rewrite rules that turn bit operations on small numbers into arithmetic.\<close>

named_theorems bits_arith

text \<open>Facts on encoders and decoders of byte sequences: lengths and round trips.\<close>

named_theorems codec_simps

text \<open>
  \<open>BUGCHECK (n)\<close> stops the request with message \<open>n\<close> of the message file; a routine that
  can reach one returns a sum, \<open>Inl\<close> the message number. An access to memory beyond a buffer, which
  C leaves undefined, is an error value of its own: theorems exclude it.
\<close>

datatype bugcheck = BUGCHECK nat | Overrun

subsection \<open>Bits and arithmetic\<close>

lemma and_127_nat [bits_arith]: "(n::nat) AND 127 = n mod 128"
  using take_bit_eq_mask [of 7 n] by (simp add: take_bit_eq_mod mask_eq_exp_minus_1)

lemma and_127_int [bits_arith]: "(n::int) AND 127 = n mod 128"
  using take_bit_eq_mask [of 7 n] by (simp add: take_bit_eq_mod mask_eq_exp_minus_1)

lemma and_31_int [bits_arith]: "(n::int) AND 31 = n mod 32"
  using take_bit_eq_mask [of 5 n] by (simp add: take_bit_eq_mod mask_eq_exp_minus_1)

lemma and_255_int [bits_arith]: "(n::int) AND 255 = n mod 256"
  using take_bit_eq_mask [of 8 n] by (simp add: take_bit_eq_mod mask_eq_exp_minus_1)

lemma and_15_int [bits_arith]: "(n::int) AND 15 = n mod 16"
  using take_bit_eq_mask [of 4 n] by (simp add: take_bit_eq_mod mask_eq_exp_minus_1)

lemma and_3_nat [bits_arith]: "(n::nat) AND 3 = n mod 4"
  using take_bit_eq_mask [of 2 n] by (simp add: take_bit_eq_mod mask_eq_exp_minus_1)

lemma and_31_nat [bits_arith]: "(n::nat) AND 31 = n mod 32"
  using take_bit_eq_mask [of 5 n] by (simp add: take_bit_eq_mod mask_eq_exp_minus_1)

lemma and_7_nat [bits_arith]: "(n::nat) AND 7 = n mod 8"
  using take_bit_eq_mask [of 3 n] by (simp add: take_bit_eq_mod mask_eq_exp_minus_1)

lemma drop_bit_7_nat [bits_arith]: "drop_bit 7 (n::nat) = n div 128"
  by (simp add: drop_bit_eq_div)

lemma drop_bit_7_int [bits_arith]: "drop_bit 7 (n::int) = n div 128"
  by (simp add: drop_bit_eq_div)

lemma drop_bit_5_int [bits_arith]: "drop_bit 5 (n::int) = n div 32"
  by (simp add: drop_bit_eq_div)

subsection \<open>Reading a byte as a signed character\<close>

text \<open>\<open>(signed char) *input\<close>: the byte read as two's complement.\<close>

definition schar :: "uchar \<Rightarrow> int" where
  "schar b = sint b"

text \<open>\<open>(UCHAR) i\<close>: the low eight bits of an integer.\<close>

definition uchar_of :: "int \<Rightarrow> uchar" where
  "uchar_of i = word_of_int i"

lemma schar_uchar_of:
  assumes "-128 \<le> i" "i \<le> 127"
  shows "schar (uchar_of i) = i"
  using assms unfolding schar_def uchar_of_def
  by (simp add: sint_sbintrunc' signed_take_bit_int_eq_self)

lemma schar_range: "-128 \<le> schar b" "schar b \<le> 127"
  using sint_range_size [of b] by (simp_all add: schar_def word_size)

subsection \<open>Shorts and longs in a byte buffer\<close>

text \<open>
  \<open>put_short\<close> and \<open>put_long\<close> copy the bytes of the value (\<open>memcpy\<close>), least significant
  byte first on the little-endian hosts the engine is built for. The readers return
  \<open>None\<close> where the buffer ends before the value does.
\<close>

definition put_short :: "ushort \<Rightarrow> uchar list" where
  "put_short v = [ucast v, ucast (drop_bit 8 v)]"

definition put_long :: "ulong \<Rightarrow> uchar list" where
  "put_long v = [ucast v, ucast (drop_bit 8 v), ucast (drop_bit 16 v), ucast (drop_bit 24 v)]"

fun get_short :: "uchar list \<Rightarrow> (ushort \<times> uchar list) option" where
  "get_short (a # b # r) = Some (ucast a OR push_bit 8 (ucast b), r)"
| "get_short _ = None"

fun get_long :: "uchar list \<Rightarrow> (ulong \<times> uchar list) option" where
  "get_long (a # b # c # d # r) =
     Some (ucast a OR push_bit 8 (ucast b) OR push_bit 16 (ucast c) OR push_bit 24 (ucast d), r)"
| "get_long _ = None"

lemma length_put_short [simp]: "length (put_short v) = 2"
  by (simp add: put_short_def)

lemma length_put_long [simp]: "length (put_long v) = 4"
  by (simp add: put_long_def)

lemma get_short_shorter: "get_short xs = Some (v, r) \<Longrightarrow> length r < length xs"
  by (cases xs rule: get_short.cases) auto

lemma get_long_shorter: "get_long xs = Some (v, r) \<Longrightarrow> length r < length xs"
  by (cases xs rule: get_long.cases) auto

lemma join_short: "(ucast (ucast (v::ushort) :: uchar) :: ushort) OR
    push_bit 8 (ucast (ucast (drop_bit 8 v) :: uchar)) = v"
  by (rule bit_word_eqI) (auto simp: bit_or_iff bit_ucast_iff bit_push_bit_iff bit_drop_bit_eq)

lemma join_long: "(ucast (ucast (v::ulong) :: uchar) :: ulong) OR
    push_bit 8 (ucast (ucast (drop_bit 8 v) :: uchar)) OR
    push_bit 16 (ucast (ucast (drop_bit 16 v) :: uchar)) OR
    push_bit 24 (ucast (ucast (drop_bit 24 v) :: uchar)) = v"
proof (rule bit_word_eqI)
  fix n assume n: "n < LENGTH(32)"
  consider "n < 8" | "8 \<le> n" "n < 16" | "16 \<le> n" "n < 24" | "24 \<le> n" by linarith
  then show "bit ((ucast (ucast v :: uchar) :: ulong) OR
    push_bit 8 (ucast (ucast (drop_bit 8 v) :: uchar)) OR
    push_bit 16 (ucast (ucast (drop_bit 16 v) :: uchar)) OR
    push_bit 24 (ucast (ucast (drop_bit 24 v) :: uchar))) n = bit v n"
    using n by cases (auto simp: bit_or_iff bit_ucast_iff bit_push_bit_iff bit_drop_bit_eq)
qed

lemma get_put_short [simp, codec_simps]: "get_short (put_short v @ r) = Some (v, r)"
  by (simp add: put_short_def join_short)

lemma get_put_long [simp, codec_simps]: "get_long (put_long v @ r) = Some (v, r)"
  by (simp add: put_long_def join_long)

subsection \<open>Bounded buffers\<close>

text \<open>\<open>memcpy (buf + p, bs, length bs)\<close>: the bytes from position \<open>p\<close> are replaced.\<close>

definition write_at :: "'a list \<Rightarrow> nat \<Rightarrow> 'a list \<Rightarrow> 'a list" where
  "write_at buf p bs = take p buf @ bs @ drop (p + length bs) buf"

text \<open>
  \<open>memcpy\<close> and \<open>memset\<close> in two halves: the bytes that are read, and a store within a buffer or one
  that fills it up, given what it holds already and the space it has.
\<close>

definition load_bytes :: "nat \<Rightarrow> 'a list \<Rightarrow> bugcheck + 'a list" where
  "load_bytes n src = (if n \<le> length src then Inr (take n src) else Inl Overrun)"

definition store_at :: "'a list \<Rightarrow> nat \<Rightarrow> 'a list \<Rightarrow> bugcheck + 'a list" where
  "store_at buf p bs = (if p + length bs \<le> length buf then Inr (write_at buf p bs) else Inl Overrun)"

definition append_to :: "nat \<Rightarrow> 'a list \<Rightarrow> 'a list \<Rightarrow> bugcheck + 'a list" where
  "append_to space out bs = (if length out + length bs \<le> space then Inr (out @ bs) else Inl Overrun)"

lemma length_write_at [simp]:
  "p + length bs \<le> length buf \<Longrightarrow> length (write_at buf p bs) = length buf"
  by (simp add: write_at_def)

lemma take_write_at [simp]:
  "p + length bs \<le> length buf \<Longrightarrow> take (p + length bs) (write_at buf p bs) = take p buf @ bs"
  by (simp add: write_at_def)

lemma drop_write_at [simp]:
  "p + length bs \<le> length buf \<Longrightarrow> drop (p + length bs) (write_at buf p bs) = drop (p + length bs) buf"
  by (cases "bs = []") (auto simp: write_at_def length_greater_0_conv [symmetric] simp del: length_greater_0_conv)

lemma write_at_Nil [simp]: "write_at buf p [] = buf"
  by (simp add: write_at_def)

subsection \<open>Lists\<close>

lemma take_eq_replicate_takeWhile:
  "take (length (takeWhile (\<lambda>x. x = c) xs)) xs = replicate (length (takeWhile (\<lambda>x. x = c) xs)) c"
  by (induction xs) auto

lemma length_takeWhile_hd: "xs \<noteq> [] \<Longrightarrow> 0 < length (takeWhile (\<lambda>x. x = hd xs) xs)"
  by (cases xs) auto

lemma length_takeWhile_le: "length (takeWhile P xs) \<le> length xs"
  by (induction xs) auto

subsection \<open>Codecs\<close>

text \<open>
  The interface of everything the engine stores in a page or record and reads back: an encoder
  to bytes, a decoder that returns what it read and the bytes behind it, and the values the
  encoder is meant for. The law is that decoding undoes encoding whatever follows. It makes
  encodings prefix-free, and sequences of them decodable.
\<close>

fun decode_many :: "(uchar list \<Rightarrow> ('a \<times> uchar list) option) \<Rightarrow> nat \<Rightarrow> uchar list \<Rightarrow>
    ('a list \<times> uchar list) option" where
  "decode_many dec 0 bytes = Some ([], bytes)"
| "decode_many dec (Suc n) bytes =
     (case dec bytes of None \<Rightarrow> None
      | Some (x, r) \<Rightarrow> (case decode_many dec n r of None \<Rightarrow> None
          | Some (xs, r') \<Rightarrow> Some (x # xs, r')))"

definition encode_many :: "('a \<Rightarrow> uchar list) \<Rightarrow> 'a list \<Rightarrow> uchar list" where
  "encode_many enc xs = concat (map enc xs)"

locale codec =
  fixes enc :: "'a \<Rightarrow> uchar list"
    and dec :: "uchar list \<Rightarrow> ('a \<times> uchar list) option"
    and ok :: "'a \<Rightarrow> bool"
  assumes dec_enc: "ok x \<Longrightarrow> dec (enc x @ r) = Some (x, r)"
begin

lemma prefix_free:
  assumes "ok x" "ok y" "enc x @ r = enc y @ s"
  shows "x = y \<and> r = s"
  using dec_enc [OF assms(1), of r] dec_enc [OF assms(2), of s] unfolding assms(3) by simp

lemma enc_inject: "ok x \<Longrightarrow> ok y \<Longrightarrow> enc x = enc y \<Longrightarrow> x = y"
  using prefix_free [of x y "[]" "[]"] by simp

lemma decode_encode_many:
  "list_all ok xs \<Longrightarrow> decode_many dec (length xs) (encode_many enc xs @ r) = Some (xs, r)"
  by (induction xs) (simp_all add: encode_many_def dec_enc)

end

text \<open>Sequences of a known length are again a codec.\<close>

locale codec_array = codec enc dec ok
  for enc :: "'a \<Rightarrow> uchar list" and dec ok +
  fixes count :: nat

sublocale codec_array \<subseteq> many: codec "encode_many enc" "decode_many dec count"
    "\<lambda>xs. length xs = count \<and> list_all ok xs"
proof unfold_locales
  fix xs r
  assume "length xs = count \<and> list_all ok xs"
  then show "decode_many dec count (encode_many enc xs @ r) = Some (xs, r)"
    using decode_encode_many [of xs r] by auto
qed

interpretation shorts: codec put_short get_short "\<lambda>_. True"
  by unfold_locales simp

interpretation longs: codec put_long get_long "\<lambda>_. True"
  by unfold_locales simp

end
