(* ===== verification/Compressor.thy ===== *)
theory Compressor
  imports Prelude
begin

text \<open>
  The record compressor of \<open>src/jrd/sqz.cpp\<close>: the constructor that splits a record into
  copied and repeated runs, \<open>pack\<close>, \<open>unpack\<close>, \<open>getUnpackedLength\<close>, and the two truncations
  that cut a record into fragments. A run is a signed length as in \<open>m_runs\<close>: positive for
  bytes copied as they are, negative for one byte repeated. Pointers into the record are
  the list of the bytes that follow them.
\<close>

subsection \<open>Constants and state\<close>

definition MIN_COMPRESS_RUN :: nat where [simp]: "MIN_COMPRESS_RUN = 8"
definition MAX_NONCOMP_RUN :: nat where [simp]: "MAX_NONCOMP_RUN = 127"
definition MAX_SHORT_RUN :: nat where [simp]: "MAX_SHORT_RUN = 128"
definition MAX_MEDIUM_RUN :: nat where [simp]: "MAX_MEDIUM_RUN = 65535"
definition MAX_LONG_RUN :: nat where [simp]: "MAX_LONG_RUN = 2147483647"

record compressor =
  m_runs :: "int list"
  m_length :: nat
  m_allowLongRuns :: bool
  m_allowUnpacked :: bool

definition adjustRunLength :: "nat \<Rightarrow> nat" where
  "adjustRunLength len =
     (if len \<le> MAX_SHORT_RUN then 0 else if len \<le> MAX_MEDIUM_RUN then 2 else 4)"

definition isPacked :: "compressor \<Rightarrow> bool" where
  "isPacked c \<longleftrightarrow> m_runs c \<noteq> []"

definition getPackedLength :: "compressor \<Rightarrow> nat" where
  "getPackedLength c = m_length c"

subsection \<open>Construction: finding the runs\<close>

text \<open>
  Adds a copied run, merged into a copied run before it that has room. The result is the
  number of bytes by which the packed length grows.
\<close>

definition nonCompressableRun :: "nat \<Rightarrow> compressor \<Rightarrow> nat \<times> compressor" where
  "nonCompressableRun len c =
     (let (rest, runs) =
        (if m_runs c \<noteq> [] \<and> 0 < last (m_runs c) \<and> last (m_runs c) < int MAX_NONCOMP_RUN
         then let mx = min (nat (int MAX_NONCOMP_RUN - last (m_runs c))) len
              in (len - mx, butlast (m_runs c) @ [last (m_runs c) + int mx])
         else (len, m_runs c))
      in if rest \<noteq> 0 then (len + 1, c\<lparr>m_runs := runs @ [int rest]\<rparr>)
         else (len, c\<lparr>m_runs := runs\<rparr>))"

text \<open>The loop that stores \<open>count\<close> bytes as copied runs of at most 127.\<close>

fun store_noncomp :: "nat \<Rightarrow> compressor \<Rightarrow> compressor" where
  "store_noncomp count c =
     (if count = 0 then c
      else let mx = min count MAX_NONCOMP_RUN;
               (r, c') = nonCompressableRun mx c
           in store_noncomp (count - mx) (c'\<lparr>m_length := m_length c' + r\<rparr>))"

text \<open>
  The loop that stores a repeated run for a database older than ODS 13.1, in pieces of at
  most 128; a piece of one or two bytes is given back (\<open>data -= max\<close>), and the first
  component is how many bytes are given back.
\<close>

fun store_short_runs :: "nat \<Rightarrow> compressor \<Rightarrow> nat \<times> compressor" where
  "store_short_runs count c =
     (if count = 0 then (0, c)
      else let mx = min count MAX_SHORT_RUN
           in if mx < 3 then (mx, c)
              else store_short_runs (count - mx)
                     (c\<lparr>m_runs := m_runs c @ [- int mx], m_length := m_length c + 2\<rparr>))"

text \<open>The distance to the first three equal bytes, or to the end of the data.\<close>

fun find_run :: "uchar list \<Rightarrow> nat" where
  "find_run (a # b # c # r) = (if a = b \<and> a = c then 0 else Suc (find_run (b # c # r)))"
| "find_run xs = length xs"

declare store_noncomp.simps [simp del] store_short_runs.simps [simp del]

lemma store_short_runs_left: "fst (store_short_runs n c) \<le> 2 \<and> fst (store_short_runs n c) \<le> n"
proof (induction n c rule: store_short_runs.induct)
  case (1 n c)
  then show ?case
    by (subst (1 2) store_short_runs.simps) (force simp: Let_def intro: le_trans)
qed

lemma find_run_le: "find_run xs \<le> length xs"
  by (induction xs rule: find_run.induct) auto

function compress_loop :: "uchar list \<Rightarrow> compressor \<Rightarrow> compressor" where
  "compress_loop data c =
     (if data = [] then c
      else let count = (if MIN_COMPRESS_RUN \<le> length data then find_run data else length data);
               c1 = store_noncomp count c;
               data1 = drop count data
           in if length data1 < MIN_COMPRESS_RUN then compress_loop data1 c1
              else let run = length (takeWhile (\<lambda>x. x = hd data1) data1)
                   in if run < MIN_COMPRESS_RUN
                      then let (r, c2) = nonCompressableRun run c1
                           in compress_loop (drop run data1) (c2\<lparr>m_length := m_length c2 + r\<rparr>)
                      else if m_allowLongRuns c1
                      then compress_loop (drop run data1)
                             (c1\<lparr>m_runs := m_runs c1 @ [- int run],
                                 m_length := m_length c1 + (2 + adjustRunLength run)\<rparr>)
                      else let (left, c2) = store_short_runs run c1
                           in compress_loop (drop (run - left) data1) c2)"
  by pat_completeness auto
termination
proof (relation "measure (\<lambda>(data, c). length data)", goal_cases)
  case 1
  show ?case by simp
next
  case (2 data c x xa xb)
  then show ?case by (cases "8 \<le> length data") auto
next
  case (3 data c x xa xb xc xd y z)
  then have "0 < xc" "xb \<noteq> []" using length_takeWhile_hd [of xb] by auto
  then have "length (drop xc xb) < length xb" by simp
  also have "length xb \<le> length data" using 3 by simp
  finally show ?case by simp
next
  case (4 data c x xa xb xc)
  then show ?case by auto
next
  case (5 data c x xa xb xc xd y z)
  then have "store_short_runs xc xa = (y, z)" by simp
  then have "y \<le> 2" using store_short_runs_left [of xc xa] by simp
  moreover have "8 \<le> xc" "0 < length xb" using 5 by auto
  ultimately have "length (drop (xc - y) xb) < length xb" by (simp del: length_greater_0_conv)
  also have "length xb \<le> length data" using 5 by simp
  finally show ?case by simp
qed

declare compress_loop.simps [simp del]

definition make_compressor :: "bool \<Rightarrow> bool \<Rightarrow> uchar list \<Rightarrow> compressor" where
  "make_compressor allowLongRuns allowUnpacked data =
     (let c = compress_loop data \<lparr>m_runs = [], m_length = 0,
                m_allowLongRuns = allowLongRuns, m_allowUnpacked = allowUnpacked\<rparr>
      in if allowUnpacked \<and> length data \<le> m_length c
         then c\<lparr>m_runs := [], m_length := length data\<rparr> else c)"

subsection \<open>Packing\<close>

text \<open>
  The control bytes of a run. The code asserts that no repeated run is longer than
  \<open>MAX_LONG_RUN\<close> and writes nothing then.
\<close>

definition run_control :: "int \<Rightarrow> uchar list" where
  "run_control l =
     (if l < 0
      then let zipLength = nat (- l)
           in if zipLength \<le> MAX_SHORT_RUN then [uchar_of l]
              else if zipLength \<le> MAX_MEDIUM_RUN then uchar_of (-1) # put_short (of_nat zipLength)
              else if zipLength \<le> MAX_LONG_RUN then uchar_of (-2) # put_long (of_nat zipLength)
              else []
      else [uchar_of l])"

text \<open>\<open>None\<close> is a read past the end of the input, which the code does not check for.\<close>

fun pack_runs :: "int list \<Rightarrow> uchar list \<Rightarrow> uchar list option" where
  "pack_runs [] input = Some []"
| "pack_runs (l # ls) input =
     (let n = nat \<bar>l\<bar>
      in if input = [] \<or> length input < n then None
         else map_option
                (\<lambda>rest. run_control l @ (if l < 0 then [hd input] else take n input) @ rest)
                (pack_runs ls (drop n input)))"

definition pack :: "compressor \<Rightarrow> uchar list \<Rightarrow> uchar list option" where
  "pack c input =
     (if m_runs c = []
      then if length input < m_length c then None else Some (take (m_length c) input)
      else pack_runs (m_runs c) input)"

subsection \<open>Unpacking\<close>

text \<open>
  The length of a repeated run, from its control byte and the bytes that follow it.
  \<open>None\<close> stands for a counter cut off by the end of the input: the code reads the bytes
  beyond it, and the test \<open>input >= end\<close> that follows then fails whatever they were.
\<close>

definition zip_length :: "int \<Rightarrow> uchar list \<Rightarrow> (nat \<times> uchar list) option" where
  "zip_length l input =
     (if l = -1 then map_option (\<lambda>(v, r). (unat v, r)) (get_short input)
      else if l = -2 then map_option (\<lambda>(v, r). (unat v, r)) (get_long input)
      else Some (nat (- l), input))"

lemma zip_length_shorter:
  "zip_length l input = Some (z, r) \<Longrightarrow> length r \<le> length input"
  by (auto simp: zip_length_def split: if_splits dest: get_short_shorter get_long_shorter)

function getUnpackedLength_loop :: "uchar list \<Rightarrow> nat \<Rightarrow> nat" where
  "getUnpackedLength_loop input result =
     (case input of [] \<Rightarrow> result
      | b # input1 \<Rightarrow>
          let l = schar b
          in if l < 0
             then case zip_length l input1 of
                    None \<Rightarrow> 0
                  | Some (z, input2) \<Rightarrow>
                      if input2 = [] then 0
                      else getUnpackedLength_loop (tl input2) (result + z)
             else getUnpackedLength_loop (drop (nat l) input1) (result + nat l))"
  by pat_completeness auto
termination
  by (relation "measure (\<lambda>(input, r). length input)")
    (auto dest: zip_length_shorter)

declare getUnpackedLength_loop.simps [simp del]

definition getUnpackedLength :: "uchar list \<Rightarrow> nat" where
  "getUnpackedLength input = getUnpackedLength_loop input 0"

text \<open>
  \<open>out\<close> is what has been written to the output so far, \<open>outLength\<close> the space it has.
\<close>

function unpack_loop :: "nat \<Rightarrow> uchar list \<Rightarrow> uchar list \<Rightarrow> bugcheck + uchar list" where
  "unpack_loop outLength input out =
     (case input of [] \<Rightarrow> Inr out
      | b # input1 \<Rightarrow>
          let l = schar b
          in if l < 0
             then case zip_length l input1 of
                    None \<Rightarrow> Inl (BUGCHECK 179)
                  | Some (z, input2) \<Rightarrow>
                      if input2 = [] \<or> outLength < length out + z then Inl (BUGCHECK 179)
                      else (case load_bytes 1 input2 of
                          Inl e \<Rightarrow> Inl e
                        | Inr c \<Rightarrow> (case append_to outLength out (replicate z (hd c)) of
                              Inl e \<Rightarrow> Inl e
                            | Inr out' \<Rightarrow> unpack_loop outLength (tl input2) out'))
             else if length input1 < nat l \<or> outLength < length out + nat l
                  then Inl (BUGCHECK 179)
                  else (case load_bytes (nat l) input1 of
                      Inl e \<Rightarrow> Inl e
                    | Inr bs \<Rightarrow> (case append_to outLength out bs of
                          Inl e \<Rightarrow> Inl e
                        | Inr out' \<Rightarrow> unpack_loop outLength (drop (nat l) input1) out')))"
  by pat_completeness auto
termination
  by (relation "measure (\<lambda>(n, input, r). length input)")
    (auto dest: zip_length_shorter)

declare unpack_loop.simps [simp del]

definition unpack :: "uchar list \<Rightarrow> nat \<Rightarrow> bugcheck + uchar list" where
  "unpack input outLength =
     (case unpack_loop outLength input [] of
        Inl e \<Rightarrow> Inl e
      | Inr out \<Rightarrow> if outLength < length out then Inl (BUGCHECK 179) else Inr out)"

text \<open>A turn of the loop, with the copies within their bounds by the checks before them.\<close>

lemma unpack_loop_Nil: "unpack_loop outLength [] out = Inr out"
  by (simp add: unpack_loop.simps)

lemma unpack_loop_Cons:
  "unpack_loop outLength (b # input1) out =
     (let l = schar b
      in if l < 0
         then case zip_length l input1 of
                None \<Rightarrow> Inl (BUGCHECK 179)
              | Some (z, input2) \<Rightarrow>
                  if input2 = [] \<or> outLength < length out + z then Inl (BUGCHECK 179)
                  else unpack_loop outLength (tl input2) (out @ replicate z (hd input2))
         else if length input1 < nat l \<or> outLength < length out + nat l
              then Inl (BUGCHECK 179)
              else unpack_loop outLength (drop (nat l) input1) (out @ take (nat l) input1))"
  by (subst unpack_loop.simps)
    (auto simp: Let_def load_bytes_def append_to_def Suc_le_eq hd_take not_less split: option.split)


subsection \<open>Truncation\<close>

fun truncate_loop :: "int list \<Rightarrow> int \<Rightarrow> nat \<Rightarrow> nat \<Rightarrow> int list \<times> nat \<times> nat" where
  "truncate_loop [] space len inLength = ([], len, inLength)"
| "truncate_loop (l # ls) space len inLength =
     (if space - 1 \<le> 0 then ([], len, inLength)
      else if l < 0
      then let zipLength = nat (- l);
               runLength = 1 + adjustRunLength zipLength;
               space' = space - 1 - int runLength
           in if space' < 0 then ([], len, inLength)
              else let (kept, len', inLength') =
                     truncate_loop ls space' (len + runLength + 1) (inLength + zipLength)
                   in (l # kept, len', inLength')
      else let space' = space - 1 - l
           in if space' < 0
              then let l' = l + space' in ([l'], len + nat l' + 1, inLength + nat l')
              else let (kept, len', inLength') =
                     truncate_loop ls space' (len + nat l + 1) (inLength + nat l)
                   in (l # kept, len', inLength'))"

definition truncate :: "nat \<Rightarrow> compressor \<Rightarrow> bugcheck + (nat \<times> compressor)" where
  "truncate outLength c =
     (if m_runs c = [] then Inr (outLength, c\<lparr>m_length := outLength\<rparr>)
      else let (kept, len, inLength) = truncate_loop (m_runs c) (int outLength) 0 0
           in if outLength < len then Inl (BUGCHECK 178)
              else if m_allowUnpacked c \<and> inLength \<le> len
              then Inr (outLength, c\<lparr>m_runs := [], m_length := outLength\<rparr>)
              else Inr (inLength, c\<lparr>m_runs := kept, m_length := len\<rparr>))"

function truncateTail_loop :: "int list \<Rightarrow> int \<Rightarrow> nat \<Rightarrow> nat \<Rightarrow> int list \<times> nat \<times> nat" where
  "truncateTail_loop runs space len inLength =
     (if runs = [] \<or> space - 1 \<le> 0 then (runs, len, inLength)
      else let l = last runs
           in if l < 0
              then let zipLength = nat (- l);
                       runLength = 1 + adjustRunLength zipLength;
                       space' = space - 1 - int runLength
                   in if space' < 0 then (runs, len, inLength)
                      else truncateTail_loop (butlast runs) space'
                             (len - (runLength + 1)) (inLength + zipLength)
              else let space' = space - 1 - l
                   in if space' < 0
                      then let fit = l + space'
                           in (butlast runs @ [l - fit], len - nat fit, inLength + nat fit)
                      else truncateTail_loop (butlast runs) space'
                             (len - (nat l + 1)) (inLength + nat l))"
  by pat_completeness auto
termination
  by (relation "measure (\<lambda>(runs, r). length runs)") auto

declare truncateTail_loop.simps [simp del]

definition truncateTail :: "nat \<Rightarrow> compressor \<Rightarrow> nat \<times> compressor" where
  "truncateTail outLength c =
     (if m_runs c = []
      then let inLength = min outLength (m_length c)
           in (inLength, c\<lparr>m_length := m_length c - inLength\<rparr>)
      else let (runs, len, inLength) =
                 truncateTail_loop (m_runs c) (int outLength) (m_length c) 0;
               orgLength = sum_list (map (\<lambda>l. nat \<bar>l\<bar>) runs)
           in if m_allowUnpacked c \<and> orgLength \<le> len
              then (inLength, c\<lparr>m_runs := [], m_length := orgLength\<rparr>)
              else (inLength, c\<lparr>m_runs := runs, m_length := len\<rparr>))"

subsection \<open>What a list of runs stands for\<close>

definition run_ok :: "int \<Rightarrow> bool" where
  "run_ok l \<longleftrightarrow> (if l < 0 then 3 \<le> - l \<and> - l \<le> int MAX_LONG_RUN
                   else 0 < l \<and> l \<le> int MAX_NONCOMP_RUN)"

definition run_cost :: "int \<Rightarrow> nat" where
  "run_cost l = (if l < 0 then 2 + adjustRunLength (nat (- l)) else 1 + nat l)"

text \<open>The runs split the data: every repeated run is one byte over its whole length.\<close>

fun covers :: "int list \<Rightarrow> uchar list \<Rightarrow> bool" where
  "covers [] d = (d = [])"
| "covers (l # ls) d =
     (run_ok l \<and> nat \<bar>l\<bar> \<le> length d \<and>
      (l < 0 \<longrightarrow> take (nat \<bar>l\<bar>) d = replicate (nat \<bar>l\<bar>) (hd d)) \<and>
      covers ls (drop (nat \<bar>l\<bar>) d))"

abbreviation runs_length :: "int list \<Rightarrow> nat" where
  "runs_length rs \<equiv> sum_list (map (\<lambda>l. nat \<bar>l\<bar>) rs)"

abbreviation runs_cost :: "int list \<Rightarrow> nat" where
  "runs_cost rs \<equiv> sum_list (map run_cost rs)"

lemma covers_length: "covers rs d \<Longrightarrow> length d = runs_length rs"
  by (induction rs d rule: covers.induct) auto

lemma run_ok_pos: "run_ok l \<Longrightarrow> 0 < nat \<bar>l\<bar>"
  by (auto simp: run_ok_def split: if_splits)

lemma hd_take_eq: "0 < n \<Longrightarrow> hd (take n d) = hd d"
  by (cases d; cases n) auto

lemma covers_append_iff:
  "covers (rs @ rs') d \<longleftrightarrow>
     runs_length rs \<le> length d \<and>
     covers rs (take (runs_length rs) d) \<and> covers rs' (drop (runs_length rs) d)"
proof (induction rs d rule: covers.induct)
  case (1 d)
  then show ?case by simp
next
  case (2 l ls d)
  show ?case
  proof (cases "run_ok l")
    case True
    then have pos: "0 < nat \<bar>l\<bar>" by (rule run_ok_pos)
    with 2 show ?thesis
      by (auto simp: hd_take_eq drop_take ac_simps)
  qed simp
qed

lemma covers_append:
  "covers rs d \<Longrightarrow> covers rs' d' \<Longrightarrow> covers (rs @ rs') (d @ d')"
  by (simp add: covers_append_iff covers_length)

lemma covers_single_copy: "0 < length e \<Longrightarrow> length e \<le> 127 \<Longrightarrow> covers [int (length e)] e"
  by (simp add: run_ok_def)

lemma covers_single_repeat:
  "3 \<le> n \<Longrightarrow> n \<le> 2147483647 \<Longrightarrow> covers [- int n] (replicate n c)"
  by (simp add: run_ok_def)

lemma covers_last_copy:
  assumes "covers rs d" "rs \<noteq> []" "0 < last rs" "last rs + int (length e) \<le> 127"
  shows "covers (butlast rs @ [last rs + int (length e)]) (d @ e)"
proof -
  obtain bs x where rs: "rs = bs @ [x]" using assms(2) by (metis append_butlast_last_id)
  let ?n = "runs_length bs"
  have c: "?n \<le> length d" "covers bs (take ?n d)" "covers [x] (drop ?n d)"
    using assms(1) by (auto simp: rs covers_append_iff)
  then have x: "x = int (length (drop ?n d))" using assms(3) by (auto simp: rs)
  then have eq: "x + int (length e) = int (length (drop ?n d @ e))" by simp
  have "covers [x + int (length e)] (drop ?n d @ e)"
    unfolding eq using assms(3,4) eq by (intro covers_single_copy) (auto simp: rs)
  with c(2) have "covers (bs @ [x + int (length e)]) (take ?n d @ (drop ?n d @ e))"
    by (rule covers_append)
  moreover have "take ?n d @ (drop ?n d @ e) = d @ e" by (simp flip: append_assoc)
  ultimately show ?thesis by (simp add: rs del: append_take_drop_id)
qed

subsection \<open>The constructor's runs split the data\<close>

definition compress_inv :: "compressor \<Rightarrow> uchar list \<Rightarrow> bool" where
  "compress_inv c d \<longleftrightarrow> covers (m_runs c) d \<and> m_length c = runs_cost (m_runs c)"

lemma nonCompressableRun_inv:
  assumes inv: "compress_inv c d" and e: "0 < length e" "length e \<le> 127"
    and r: "nonCompressableRun (length e) c = (r, c')"
  shows "compress_inv (c'\<lparr>m_length := m_length c' + r\<rparr>) (d @ e)"
    and "m_allowLongRuns c' = m_allowLongRuns c \<and> m_allowUnpacked c' = m_allowUnpacked c"
proof -
  show "m_allowLongRuns c' = m_allowLongRuns c \<and> m_allowUnpacked c' = m_allowUnpacked c"
    using r by (auto simp: nonCompressableRun_def Let_def split: if_splits)
  show "compress_inv (c'\<lparr>m_length := m_length c' + r\<rparr>) (d @ e)"
  proof (cases "m_runs c \<noteq> [] \<and> 0 < last (m_runs c) \<and> last (m_runs c) < 127")
    case False
    then have "r = length e + 1" "c' = c\<lparr>m_runs := m_runs c @ [int (length e)]\<rparr>"
      using r e by (auto simp: nonCompressableRun_def)
    with inv e show ?thesis
      by (auto simp: compress_inv_def run_cost_def intro!: covers_append covers_single_copy
        simp del: covers.simps)
  next
    case True
    obtain bs x where rs: "m_runs c = bs @ [x]" using True by (metis append_butlast_last_id)
    define k where "k = min (nat (127 - x)) (length e)"
    have x: "0 < x" "x < 127" using True by (auto simp: rs)
    have k: "k \<le> length e" "x + int k \<le> 127" using x by (auto simp: k_def)
    have r': "(r, c') = (if length e - k \<noteq> 0
        then (length e + 1, c\<lparr>m_runs := bs @ [x + int k] @ [int (length e - k)]\<rparr>)
        else (length e, c\<lparr>m_runs := bs @ [x + int k]\<rparr>))"
      using r x by (cases "k < length e")
        (auto simp: nonCompressableRun_def rs k_def [symmetric] Let_def)
    have lk: "length (take k e) = k" using k(1) by simp
    have c: "covers (bs @ [x]) d" "m_length c = runs_cost bs + run_cost x"
      using inv by (auto simp: compress_inv_def rs)
    have ext: "covers (bs @ [x + int k]) (d @ take k e)"
      using covers_last_copy [OF c(1), of "take k e", unfolded lk] x k by simp
    have cost: "run_cost (x + int k) = run_cost x + k" using x by (simp add: run_cost_def nat_add_distrib)
    show ?thesis
    proof (cases "length e - k = 0")
      case True
      then have "take k e = e" "length e = k" using k by auto
      with True r' ext c cost show ?thesis by (simp add: compress_inv_def)
    next
      case False
      have "covers ((bs @ [x + int k]) @ [int (length (drop k e))]) ((d @ take k e) @ drop k e)"
        using False e by (intro covers_append [OF ext] covers_single_copy) auto
      moreover have "run_cost (int (length e - k)) = 1 + (length e - k)" by (simp add: run_cost_def)
      ultimately show ?thesis using False r' c cost k
        by (simp add: compress_inv_def)
    qed
  qed
qed

lemma store_noncomp_inv:
  "compress_inv c d \<Longrightarrow>
     compress_inv (store_noncomp (length e) c) (d @ e) \<and>
     m_allowLongRuns (store_noncomp (length e) c) = m_allowLongRuns c \<and>
     m_allowUnpacked (store_noncomp (length e) c) = m_allowUnpacked c"
proof (induction e arbitrary: c d rule: length_induct)
  case (1 e)
  show ?case
  proof (cases "e = []")
    case True
    with 1 show ?thesis by (simp add: store_noncomp.simps)
  next
    case False
    define e1 where "e1 = take 127 e"
    define e2 where "e2 = drop 127 e"
    have e: "e = e1 @ e2" "0 < length e1" "length e1 \<le> 127" "length e2 < length e"
      "min (length e) 127 = length e1" "length e - length e1 = length e2"
      using False by (auto simp: e1_def e2_def)
    obtain r c' where r: "nonCompressableRun (length e1) c = (r, c')" by fastforce
    have step: "store_noncomp (length e) c =
        store_noncomp (length e2) (c'\<lparr>m_length := m_length c' + r\<rparr>)"
      using False r by (subst store_noncomp.simps) (simp add: Let_def e(5,6))
    note inv = nonCompressableRun_inv [OF "1.prems" e(2,3) r]
    have "d @ e = (d @ e1) @ e2" using e(1) by simp
    with "1.IH" [rule_format, OF e(4) inv(1)] inv(2) show ?thesis
      unfolding step by simp
  qed
qed

lemma store_short_runs_inv:
  assumes "compress_inv c d" "store_short_runs n c = (left, c')"
  shows "left \<le> n \<and> compress_inv c' (d @ replicate (n - left) b) \<and>
     m_allowLongRuns c' = m_allowLongRuns c \<and> m_allowUnpacked c' = m_allowUnpacked c"
  using assms
proof (induction n c arbitrary: d rule: store_short_runs.induct)
  case (1 n c)
  show ?case
  proof (cases "min n 128 < 3")
    case True
    with "1.prems" show ?thesis
      by (auto simp: store_short_runs.simps [of n c] Let_def split: if_splits)
  next
    case False
    let ?mx = "min n 128"
    let ?c = "c\<lparr>m_runs := m_runs c @ [- int ?mx], m_length := m_length c + 2\<rparr>"
    have "store_short_runs (n - ?mx) ?c = (left, c')"
      using "1.prems"(2) False by (auto simp: store_short_runs.simps [of n c] Let_def split: if_splits)
    moreover have "compress_inv ?c (d @ replicate ?mx b)"
      using "1.prems"(1) False
      by (auto simp: compress_inv_def run_cost_def adjustRunLength_def
        simp del: covers.simps intro!: covers_append covers_single_repeat)
    ultimately have IH: "left \<le> n - ?mx \<and>
        compress_inv c' ((d @ replicate ?mx b) @ replicate (n - ?mx - left) b) \<and>
        m_allowLongRuns c' = m_allowLongRuns c \<and> m_allowUnpacked c' = m_allowUnpacked c"
      using "1.IH" [where d = "d @ replicate ?mx b", of ?mx] False by auto
    then have "?mx + (n - ?mx - left) = n - left" by auto
    then have "replicate ?mx b @ replicate (n - ?mx - left) b = replicate (n - left) b"
      by (simp only: flip: replicate_add)
    with IH show ?thesis by (metis append_assoc diff_le_self le_trans)
  qed
qed

lemma compress_loop_inv:
  "compress_inv c d \<Longrightarrow> length d + length data \<le> MAX_LONG_RUN \<Longrightarrow>
     compress_inv (compress_loop data c) (d @ data) \<and>
     m_allowUnpacked (compress_loop data c) = m_allowUnpacked c"
proof (induction data arbitrary: c d rule: length_induct)
  case (1 data)
  show ?case
  proof (cases "data = []")
    case True
    with "1.prems" show ?thesis by (simp add: compress_loop.simps)
  next
    case False
    define count where "count = (if 8 \<le> length data then find_run data else length data)"
    define c1 where "c1 = store_noncomp count c"
    define data1 where "data1 = drop count data"
    define run where "run = length (takeWhile (\<lambda>x. x = hd data1) data1)"
    note unf = compress_loop.simps [of data c, unfolded Let_def MIN_COMPRESS_RUN_def,
        folded count_def, folded c1_def data1_def, folded run_def]
    have count: "count = length (take count data)"
      using find_run_le [of data] by (simp add: count_def)
    have c1: "compress_inv c1 (d @ take count data)" "m_allowUnpacked c1 = m_allowUnpacked c"
      using store_noncomp_inv [OF "1.prems"(1), of "take count data"] count
      by (simp_all add: c1_def)
    have run: "take run data1 = replicate run (hd data1)" "run \<le> length data1"
      unfolding run_def by (rule take_eq_replicate_takeWhile) (rule length_takeWhile_le)
    have rep: "data1 = replicate n (hd data1) @ drop n data1" if "n \<le> run" for n
      using append_take_drop_id [of n data1] arg_cong [OF run(1), of "take n"] that
      by (simp add: min_absorb1) (metis append_take_drop_id)
    have pos: "data1 \<noteq> [] \<Longrightarrow> 0 < run" by (simp add: run_def length_takeWhile_hd del: length_greater_0_conv)
    have le: "length data1 \<le> length data" by (simp add: data1_def)
    have step: "compress_inv (compress_loop data2 c2) (d @ data) \<and>
        m_allowUnpacked (compress_loop data2 c2) = m_allowUnpacked c"
      if "compress_inv c2 (d @ take count data @ e)" "m_allowUnpacked c2 = m_allowUnpacked c"
        "data1 = e @ data2" "length data2 < length data" for data2 c2 e
    proof -
      have "d @ data = (d @ take count data @ e) @ data2" using that(3) append_take_drop_id [of count data] by (simp add: data1_def)
      moreover have "length (d @ take count data @ e) + length data2 \<le> MAX_LONG_RUN"
        using "1.prems"(2) arg_cong [OF that(3), of length] count by (simp add: data1_def)
      ultimately show ?thesis using "1.IH" that by metis
    qed
    consider (short) "length data1 < 8"
      | (small) "8 \<le> length data1" "run < 8"
      | (long) "8 \<le> length data1" "8 \<le> run" "m_allowLongRuns c1"
      | (legacy) "8 \<le> length data1" "8 \<le> run" "\<not> m_allowLongRuns c1" by linarith
    then show ?thesis
    proof cases
      case short
      have "length data1 < length data"
        using False short by (cases "8 \<le> length data") (auto simp: data1_def count_def)
      with step [of c1 "[]" data1] short c1 False show ?thesis by (simp add: unf)
    next
      case small
      obtain r c2 where r: "nonCompressableRun run c1 = (r, c2)" by fastforce
      note inv = nonCompressableRun_inv [OF c1(1), of "take run data1" r c2]
      have "0 < run" using small pos by (cases data1) auto
      with step [of "c2\<lparr>m_length := m_length c2 + r\<rparr>" "take run data1" "drop run data1"]
        inv r small c1(2) run(2) le False show ?thesis by (simp add: unf min_absorb2)
    next
      case long
      let ?c2 = "c1\<lparr>m_runs := m_runs c1 @ [- int run],
        m_length := m_length c1 + (2 + adjustRunLength run)\<rparr>"
      have "run \<le> MAX_LONG_RUN" using run le "1.prems"(2) by simp
      then have "compress_inv ?c2 ((d @ take count data) @ replicate run (hd data1))"
        using c1(1) long by (auto simp: compress_inv_def run_cost_def
          simp del: covers.simps append_assoc intro!: covers_append covers_single_repeat)
      with step [of ?c2 "replicate run (hd data1)" "drop run data1"] rep [of run] run(2) le long c1(2) False
      show ?thesis by (simp add: unf)
    next
      case legacy
      obtain left c2 where s: "store_short_runs run c1 = (left, c2)" by fastforce
      have left: "left \<le> 2" using store_short_runs_left [of run c1] s by simp
      note inv = store_short_runs_inv [OF c1(1) s, of "hd data1"]
      with step [of c2 "replicate (run - left) (hd data1)" "drop (run - left) data1"]
        inv left legacy rep [of "run - left"] run(2) le c1(2) False show ?thesis by (simp add: unf s)
    qed
  qed
qed

lemmas compress_defs = make_compressor_def Let_def

lemma make_compressor_cases:
  assumes "length data \<le> MAX_LONG_RUN"
  shows "m_runs (make_compressor lr up data) = [] \<and> m_length (make_compressor lr up data) = length data
    \<or> compress_inv (make_compressor lr up data) data \<and>
      (up \<longrightarrow> m_length (make_compressor lr up data) < length data)"
  using compress_loop_inv [of "\<lparr>m_runs = [], m_length = 0, m_allowLongRuns = lr, m_allowUnpacked = up\<rparr>" "[]" data]
    assms
  by (auto simp: make_compressor_def Let_def compress_inv_def)

subsection \<open>Packing what the runs cover\<close>

lemma length_run_control: "run_ok l \<Longrightarrow> length (run_control l) = (if l < 0 then 1 + adjustRunLength (nat (- l)) else 1)"
  by (auto simp: run_ok_def run_control_def adjustRunLength_def Let_def split: if_splits)

lemma pack_runs_covers:
  "covers rs d \<Longrightarrow> \<exists>p. pack_runs rs (d @ e) = Some p \<and> length p = runs_cost rs"
proof (induction rs d rule: covers.induct)
  case (1 d)
  then show ?case by simp
next
  case (2 l ls d)
  then obtain p where "pack_runs ls (drop (nat \<bar>l\<bar>) d @ e) = Some p" "length p = runs_cost ls" by auto
  with 2 run_ok_pos [of l] length_run_control [of l] show ?case
    by (auto simp: run_cost_def Let_def)
qed

lemma zip_length_control:
  assumes "run_ok l" "l < 0"
  obtains b r where "run_control l @ rest = b # r" "schar b < 0"
    "zip_length (schar b) r = Some (nat (- l), rest)"
proof -
  consider "nat (- l) \<le> 128" | "128 < nat (- l)" "nat (- l) \<le> 65535" | "65535 < nat (- l)" by linarith
  then show ?thesis
  proof cases
    case 1
    then have "schar (uchar_of l) = l" using assms by (intro schar_uchar_of) (auto simp: run_ok_def)
    then show ?thesis using 1 assms
      by (intro that [of "uchar_of l" rest]) (auto simp: run_control_def zip_length_def run_ok_def)
  next
    case 2
    have "unat (of_nat (nat (- l)) :: ushort) = nat (- l)"
      using 2 by (simp only: unat_of_nat) simp
    then show ?thesis using 2 assms
      by (intro that [of "uchar_of (-1)" "put_short (of_nat (nat (- l))) @ rest"])
        (auto simp: run_control_def zip_length_def schar_uchar_of)
  next
    case 3
    have "unat (of_nat (nat (- l)) :: ulong) = nat (- l)"
      using assms by (simp only: unat_of_nat) (auto simp: run_ok_def intro!: mod_less)
    then show ?thesis using 3 assms
      by (intro that [of "uchar_of (-2)" "put_long (of_nat (nat (- l))) @ rest"])
        (auto simp: run_control_def zip_length_def schar_uchar_of run_ok_def Let_def)
  qed
qed

text \<open>The round trip over runs, for an output that has something written already.\<close>

lemma unpack_pack_runs:
  "covers rs d \<Longrightarrow> pack_runs rs d' = Some p \<Longrightarrow> take (length d) d' = d \<Longrightarrow>
     length out + length d \<le> outLength \<Longrightarrow>
     unpack_loop outLength p out = Inr (out @ d)"
proof (induction rs d arbitrary: d' p out rule: covers.induct)
  case (1 d)
  then show ?case by (simp add: unpack_loop_Nil)
next
  case (2 l ls d)
  let ?n = "nat \<bar>l\<bar>"
  have l: "run_ok l" "?n \<le> length d" "0 < ?n" "covers ls (drop ?n d)"
    using "2.prems"(1) run_ok_pos by auto
  have d': "take ?n d' = take ?n d" "take (length d - ?n) (drop ?n d') = drop ?n d"
    using "2.prems"(3) l(2) by (metis min.absorb2 min.commute take_take, metis drop_take)
  have hd: "hd d' = hd d" using d'(1) l(3) by (metis hd_take_eq)
  obtain q where q: "pack_runs ls (drop ?n d') = Some q"
    "p = run_control l @ (if l < 0 then [hd d'] else take ?n d') @ q"
    using "2.prems"(2) by (auto simp: Let_def split: if_splits)
  have IH: "unpack_loop outLength q (out @ take ?n d) = Inr (out @ d)"
    using "2.IH" [OF l(4) q(1), of "out @ take ?n d"] d' l(2) "2.prems"(4) by simp
  show ?case
  proof (cases "l < 0")
    case True
    obtain b r where b: "run_control l @ [hd d'] @ q = b # r" "schar b < 0"
      "zip_length (schar b) r = Some (nat (- l), [hd d'] @ q)"
      using zip_length_control [OF l(1) True, of "[hd d'] @ q"] by blast
    have "replicate (nat (- l)) (hd d') = take ?n d"
      using "2.prems"(1) True hd by simp
    with b q(2) True IH "2.prems"(4) l(2) show ?thesis
      by (simp add: unpack_loop_Cons [of outLength b r])
  next
    case False
    then have "schar (uchar_of l) = l" using l(1) by (intro schar_uchar_of) (auto simp: run_ok_def)
    moreover have "length d = length (take (length d) d')" using "2.prems"(3) by simp
    ultimately show ?thesis using False q(2) IH "2.prems"(4) l(2) d'(1)
      by (auto simp: unpack_loop_Cons run_control_def)
  qed
qed


subsection \<open>What a truncated compressor stands for\<close>

text \<open>
  A compressor stands for the data \<open>d\<close>: raw when it has no runs (the record-level flag of
  unpacked data is then set by the caller), else through runs that split \<open>d\<close>.
\<close>

definition encodes :: "compressor \<Rightarrow> uchar list \<Rightarrow> bool" where
  "encodes c d \<longleftrightarrow> (if m_runs c = [] then m_length c = length d else compress_inv c d)"

lemma make_compressor_encodes:
  "length data \<le> MAX_LONG_RUN \<Longrightarrow> encodes (make_compressor lr up data) data"
  using make_compressor_cases [of data lr up]
  by (auto simp: encodes_def compress_inv_def)

lemma encodes_pack:
  assumes "encodes c d"
  shows "\<exists>p. pack c (d @ e) = Some p \<and> length p = getPackedLength c \<and>
    (if isPacked c then unpack p (length d) = Inr d else p = d)"
proof (cases "m_runs c = []")
  case True
  with assms show ?thesis by (simp add: encodes_def pack_def getPackedLength_def isPacked_def)
next
  case False
  then have c: "covers (m_runs c) d" "m_length c = runs_cost (m_runs c)"
    using assms by (auto simp: encodes_def compress_inv_def)
  obtain p where p: "pack_runs (m_runs c) (d @ e) = Some p" "length p = runs_cost (m_runs c)"
    using pack_runs_covers [OF c(1)] by blast
  have "unpack p (length d) = Inr d"
    using unpack_pack_runs [OF c(1) p(1), of "[]"] by (simp add: unpack_def)
  with False p c(2) show ?thesis by (simp add: pack_def getPackedLength_def isPacked_def)
qed

lemma truncate_loop_spec:
  "covers rs d \<Longrightarrow> truncate_loop rs space len il = (kept, len', il') \<Longrightarrow>
   il \<le> il' \<and> il' - il \<le> length d \<and> covers kept (take (il' - il) d) \<and>
   len' = len + runs_cost kept \<and> int (runs_cost kept) \<le> max space 0"
proof (induction rs arbitrary: d space len il kept len' il')
  case Nil
  then show ?case by simp
next
  case (Cons l ls)
  have l: "run_ok l" "nat \<bar>l\<bar> \<le> length d" "covers ls (drop (nat \<bar>l\<bar>) d)"
    "l < 0 \<Longrightarrow> take (nat \<bar>l\<bar>) d = replicate (nat \<bar>l\<bar>) (hd d)" "0 < nat \<bar>l\<bar>"
    using Cons.prems(1) run_ok_pos by auto
  show ?case
  proof (cases "space - 1 \<le> 0 \<or> (l < 0 \<and> space - 1 < 1 + int (adjustRunLength (nat (- l)))) ")
    case True
    with Cons.prems(2) show ?thesis by (auto simp: Let_def split: if_splits)
  next
    case False
    show ?thesis
    proof (cases "0 \<le> l \<and> space - 1 - l < 0")
      case True
      then have "kept = [space - 1]" "il' = il + nat (space - 1)" "len' = len + nat (space - 1) + 1"
        using Cons.prems(2) False by (auto simp: Let_def)
      then show ?thesis using True False l(1,2) by (auto simp: run_ok_def run_cost_def)
    next
      case 2: False
      let ?sp = "space - int (run_cost l)" and ?len = "len + run_cost l" and ?il = "il + nat \<bar>l\<bar>"
      obtain k where k: "truncate_loop ls ?sp ?len ?il = (k, len', il')" "kept = l # k"
        using Cons.prems(2) False 2
        by (auto simp: Let_def run_cost_def [of l] algebra_simps split: if_splits prod.splits)
      have sp: "0 \<le> ?sp" using False 2 by (auto simp: run_cost_def)
      from Cons.IH [OF l(3) k(1)] sp l show ?thesis
        by (auto simp: k(2) hd_take_eq drop_take min_absorb1 min_absorb2) linarith+
    qed
  qed
qed

lemma truncateTail_loop_spec:
  "covers rs d \<Longrightarrow> truncateTail_loop rs space (runs_cost rs) il = (kept, len', il') \<Longrightarrow>
   \<exists>k. il' = il + k \<and> k \<le> length d \<and> covers kept (take (length d - k) d) \<and>
     len' = runs_cost kept"
proof (induction rs arbitrary: d space il rule: rev_induct)
  case Nil
  then show ?case by (simp add: truncateTail_loop.simps)
next
  case (snoc l bs)
  let ?n = "runs_length bs"
  have c: "?n \<le> length d" "covers bs (take ?n d)" "covers [l] (drop ?n d)"
    using snoc.prems(1) by (auto simp: covers_append_iff)
  then have l: "run_ok l" "length d = ?n + nat \<bar>l\<bar>" "0 < nat \<bar>l\<bar>" using run_ok_pos by auto
  note unf = truncateTail_loop.simps [of "bs @ [l]"]
  show ?case
  proof (cases "space - 1 \<le> 0 \<or> (l < 0 \<and> space - 1 < 1 + int (adjustRunLength (nat (- l)))) ")
    case True
    with snoc.prems show ?thesis by (auto simp: unf Let_def split: if_splits)
  next
    case False
    show ?thesis
    proof (cases "0 \<le> l \<and> space - 1 - l < 0")
      case True
      let ?k = "nat (space - 1)"
      have k: "kept = bs @ [l - (space - 1)]" "il' = il + ?k"
        "len' = runs_cost (bs @ [l]) - ?k"
        using snoc.prems(2) False True by (auto simp: unf Let_def)
      have "covers [int (nat l - ?k)] (take (nat l - ?k) (drop ?n d))"
        using True False l covers_single_copy [of "take (nat l - ?k) (drop ?n d)"]
        by (auto simp: run_ok_def)
      moreover have eqs: "int (nat l - ?k) = l - (space - 1)" "?n + (nat l - ?k) = length d - ?k"
        using True False l by auto
      ultimately have "covers kept (take (length d - ?k) d)"
        using covers_append [OF c(2)] by (metis k(1) take_add)
      moreover have "len' = runs_cost kept" using k True False by (auto simp: run_cost_def)
      ultimately show ?thesis using k(2) True l by auto
    next
      case 2: False
      have "truncateTail_loop bs (space - int (run_cost l)) (runs_cost bs) (il + nat \<bar>l\<bar>) = (kept, len', il')"
        using snoc.prems(2) False 2
        by (auto simp: unf Let_def run_cost_def [of l] algebra_simps split: if_splits)
      from snoc.IH [OF c(2) this] c(1) l(2) obtain k where
        "il' = il + nat \<bar>l\<bar> + k" "k \<le> ?n" "covers kept (take (?n - k) d)" "len' = runs_cost kept"
        by auto
      then show ?thesis using l(2) by (intro exI [of _ "nat \<bar>l\<bar> + k"]) auto
    qed
  qed
qed


lemma unpack_loop_induct [case_names Nil Cons]:
  assumes nil: "\<And>out. P [] out"
    and cons: "\<And>b input1 out. (\<And>z input2 out'. zip_length (schar b) input1 = Some (z, input2) \<Longrightarrow> P (tl input2) out') \<Longrightarrow>
      (\<And>out'. P (drop (nat (schar b)) input1) out') \<Longrightarrow> P (b # input1) out"
  shows "P input out"
proof (induction input arbitrary: out rule: length_induct)
  case (1 input)
  show ?case
  proof (cases input)
    case (Cons b input1)
    have "P (tl input2) out'" if "zip_length (schar b) input1 = Some (z, input2)" for z input2 out'
      using 1 zip_length_shorter [OF that] by (simp add: Cons)
    moreover have "P (drop (nat (schar b)) input1) out'" for out' using 1 by (simp add: Cons)
    ultimately show ?thesis unfolding Cons by (rule cons)
  qed (simp add: nil)
qed

lemma unpack_loop_bound:
  "unpack_loop n input out = Inr r \<Longrightarrow> length out \<le> n \<Longrightarrow> length r \<le> n"
  by (induction input out rule: unpack_loop_induct)
    (auto simp: unpack_loop_Nil unpack_loop_Cons Let_def split: if_splits option.splits)

lemma unpack_loop_length:
  "unpack_loop n input out = Inr r \<Longrightarrow> getUnpackedLength_loop input (length out) = length r"
proof (induction input out rule: unpack_loop_induct)
  case (Nil out)
  then show ?case by (simp add: unpack_loop_Nil getUnpackedLength_loop.simps)
next
  case (Cons b input1 out)
  have "getUnpackedLength_loop (tl input2) (length out + z) = length r"
    if "zip_length (schar b) input1 = Some (z, input2)" "unpack_loop n (tl input2) (out @ replicate z (hd input2)) = Inr r" for z input2
    using Cons.IH(1) [OF that] by simp
  moreover have "getUnpackedLength_loop (drop (nat (schar b)) input1) (length out + nat (schar b)) = length r"
    if "nat (schar b) \<le> length input1" "unpack_loop n (drop (nat (schar b)) input1) (out @ take (nat (schar b)) input1) = Inr r"
    using Cons.IH(2) [OF that(2)] that(1) by simp
  ultimately show ?case using Cons.prems
    by (subst getUnpackedLength_loop.simps) (auto simp: unpack_loop_Cons Let_def not_less split: if_splits option.splits)
qed

lemma unpack_loop_error: "unpack_loop n input out = Inl e \<Longrightarrow> e = BUGCHECK 179"
  by (induction input out rule: unpack_loop_induct)
    (auto simp: unpack_loop_Nil unpack_loop_Cons Let_def split: if_splits option.splits)

subsection \<open>Runs for older databases\<close>

lemma covers_run_ok: "covers rs d \<Longrightarrow> l \<in> set rs \<Longrightarrow> run_ok l"
  by (induction rs d rule: covers.induct) auto

definition legacy_runs :: "compressor \<Rightarrow> bool" where
  "legacy_runs c \<longleftrightarrow> \<not> m_allowLongRuns c \<and> (\<forall>l \<in> set (m_runs c). - 128 \<le> l)"

lemma legacy_nonCompressableRun:
  assumes "legacy_runs c" "nonCompressableRun n c = (r, c')"
  shows "legacy_runs (c'\<lparr>m_length := k\<rparr>)"
proof (cases "m_runs c = []")
  case True
  with assms show ?thesis by (auto simp: legacy_runs_def nonCompressableRun_def split: if_splits)
next
  case False
  then have "last (m_runs c) \<in> set (m_runs c)" "set (butlast (m_runs c)) \<subseteq> set (m_runs c)"
    by (auto dest: in_set_butlastD)
  with assms show ?thesis
    by (fastforce simp: legacy_runs_def nonCompressableRun_def Let_def split: if_splits)
qed

lemma legacy_store_noncomp: "legacy_runs c \<Longrightarrow> legacy_runs (store_noncomp n c)"
proof (induction n c rule: store_noncomp.induct)
  case (1 n c)
  obtain r c' where r: "nonCompressableRun (min n 127) c = (r, c')" by fastforce
  then have "legacy_runs (c'\<lparr>m_length := m_length c' + r\<rparr>)"
    by (rule legacy_nonCompressableRun [OF "1.prems"])
  with 1 r show ?case by (auto simp: store_noncomp.simps [of n c] Let_def)
qed

lemma legacy_store_short_runs: "legacy_runs c \<Longrightarrow> legacy_runs (snd (store_short_runs n c))"
proof (induction n c rule: store_short_runs.induct)
  case (1 n c)
  then show ?case
    by (auto simp: store_short_runs.simps [of n c] legacy_runs_def Let_def)
qed

lemma legacy_compress_loop: "legacy_runs c \<Longrightarrow> legacy_runs (compress_loop data c)"
proof (induction data c rule: compress_loop.induct)
  case (1 data c)
  define n where "n = (if MIN_COMPRESS_RUN \<le> length data then find_run data else length data)"
  define c1 where "c1 = store_noncomp n c"
  define d1 where "d1 = drop n data"
  define run where "run = length (takeWhile (\<lambda>x. x = hd d1) d1)"
  have c1: "legacy_runs c1" using "1.prems" unfolding c1_def by (rule legacy_store_noncomp)
  then have nl: "\<not> m_allowLongRuns c1" by (simp add: legacy_runs_def)
  obtain r c2 where r: "nonCompressableRun run c1 = (r, c2)" by fastforce
  obtain l c3 where s: "store_short_runs run c1 = (l, c3)" by fastforce
  have step: "legacy_runs (c2\<lparr>m_length := m_length c2 + r\<rparr>)" "legacy_runs c3"
    using legacy_nonCompressableRun [OF c1 r] legacy_store_short_runs [OF c1, of run]
    by (simp_all add: s)
  show ?case
  proof (cases "data = []")
    case True
    with "1.prems" show ?thesis by (simp add: compress_loop.simps)
  next
    case False
    note IH = "1.IH"(1) [OF False n_def c1_def d1_def _ c1]
      "1.IH"(2) [OF False n_def c1_def d1_def _ run_def _ refl r [symmetric] step(1)]
      "1.IH"(4) [OF False n_def c1_def d1_def _ run_def _ nl refl s [symmetric] step(2)]
    show ?thesis
      using False nl IH by (simp add: compress_loop.simps [of data c, unfolded Let_def,
          folded n_def, folded c1_def d1_def, folded run_def] r s del: drop_drop)
  qed
qed

subsection \<open>Properties\<close>

text \<open>
  C11. A record survives compression: packing writes exactly the announced number of bytes, and
  unpacking them (or copying them, when the compressor gave up) yields the record again, for
  every combination of the two compatibility options.
\<close>

theorem compress_roundtrip:
  assumes "length data \<le> MAX_LONG_RUN"
  shows "\<exists>packed. pack (make_compressor lr up data) data = Some packed \<and>
    length packed = getPackedLength (make_compressor lr up data) \<and>
    (if isPacked (make_compressor lr up data) then unpack packed (length data) = Inr data
     else packed = data)"
  using encodes_pack [OF make_compressor_encodes [OF assms], of lr up "[]"] by simp

theorem compress_roundtrip_witness:
  "pack (make_compressor True True (replicate 9 7)) (replicate 9 7) = Some [247, 7] \<and>
   unpack [247, 7] 9 = Inr (replicate 9 7)"
proof -
  have "make_compressor True True (replicate 9 7) =
      \<lparr>m_runs = [-9], m_length = 2, m_allowLongRuns = True, m_allowUnpacked = True\<rparr>"
    by (simp add: make_compressor_def compress_loop.simps [of "_ # _"] compress_loop.simps [of "[]"]
        store_noncomp.simps [of 0] adjustRunLength_def numeral_eq_Suc)
  then have "pack (make_compressor True True (replicate 9 7)) (replicate 9 7) = Some [247, 7]"
    "isPacked (make_compressor True True (replicate 9 7))"
    by (simp_all add: pack_def run_control_def uchar_of_def isPacked_def)
  with compress_roundtrip [of "replicate 9 7" True True] show ?thesis by simp
qed

text \<open>
  For a database older than ODS 13.1 every repeated run is between 3 and 128 bytes long, so
  the two lengths that newer decoders read as long-run markers never appear.
\<close>

theorem legacy_runs_have_no_markers:
  assumes "length data \<le> MAX_LONG_RUN" "l \<in> set (m_runs (make_compressor False up data))" "l < 0"
  shows "- 128 \<le> l \<and> l \<le> - 3"
proof -
  let ?c = "make_compressor False up data"
  have ne: "m_runs ?c \<noteq> []" using assms(2) by auto
  then have "covers (m_runs ?c) data"
    using make_compressor_encodes [OF assms(1), of False up] by (simp add: encodes_def compress_inv_def)
  then have "run_ok l" using assms(2) by (rule covers_run_ok)
  moreover have "legacy_runs ?c"
    using legacy_compress_loop [of "\<lparr>m_runs = [], m_length = 0, m_allowLongRuns = False, m_allowUnpacked = up\<rparr>" data] ne
    by (auto simp: make_compressor_def legacy_runs_def Let_def)
  ultimately show ?thesis using assms(2,3) by (auto simp: run_ok_def legacy_runs_def)
qed

theorem legacy_runs_have_no_markers_witness:
  "set (m_runs (make_compressor False True (replicate 9 7))) = {-9} \<and> - 128 \<le> (-9::int)"
proof -
  have "m_runs (make_compressor False True (replicate 9 7)) = [-9]"
    by (simp add: make_compressor_def compress_loop.simps [of "_ # _"] compress_loop.simps [of "[]"]
        store_noncomp.simps [of 0] store_short_runs.simps adjustRunLength_def numeral_eq_Suc)
  with legacy_runs_have_no_markers [of "replicate 9 7" "-9" True] show ?thesis by simp
qed

text \<open>
  C15. Truncating a compressor to fewer bytes than it needs leaves one that packs a leading
  fragment of the same input: the returned number of input bytes is within the record, the
  packed fragment fits the space, and it unpacks to those leading bytes.
\<close>

theorem truncate_leading_fragment:
  assumes "length data \<le> MAX_LONG_RUN"
    and "outLength < getPackedLength (make_compressor lr up data)"
  shows "\<exists>n c packed. truncate outLength (make_compressor lr up data) = Inr (n, c) \<and>
    n \<le> length data \<and> getPackedLength c \<le> outLength \<and>
    pack c data = Some packed \<and> length packed = getPackedLength c \<and>
    (if isPacked c then unpack packed n = Inr (take n data) else packed = take n data)"
proof -
  let ?c = "make_compressor lr up data"
  have "\<exists>n c. truncate outLength ?c = Inr (n, c) \<and> n \<le> length data \<and> m_length c \<le> outLength \<and>
      encodes c (take n data)"
  proof (cases "m_runs ?c = []")
    case True
    with assms make_compressor_encodes [OF assms(1), of lr up] show ?thesis
      by (auto simp: truncate_def encodes_def getPackedLength_def)
  next
    case False
    then have cov: "covers (m_runs ?c) data" and
      up: "m_allowUnpacked ?c \<longrightarrow> m_length ?c < length data"
      using make_compressor_cases [OF assms(1), of lr up]
        compress_loop_inv [of "\<lparr>m_runs = [], m_length = 0, m_allowLongRuns = lr, m_allowUnpacked = up\<rparr>" "[]" data] assms(1)
      by (auto simp: compress_inv_def make_compressor_def Let_def split: if_splits)
    obtain kept len il where t: "truncate_loop (m_runs ?c) (int outLength) 0 0 = (kept, len, il)"
      using prod_cases3 by blast
    from truncate_loop_spec [OF cov t] up assms(2) False t show ?thesis
      by (auto simp: truncate_def encodes_def compress_inv_def getPackedLength_def)
  qed
  then obtain n c where "truncate outLength ?c = Inr (n, c)" "n \<le> length data"
    "m_length c \<le> outLength" "encodes c (take n data)" by blast
  with encodes_pack [of c "take n data" "drop n data"] show ?thesis
    by (auto simp: getPackedLength_def)
qed

theorem truncate_leading_fragment_witness:
  "\<exists>n c packed. truncate 3 (make_compressor True True [1, 2, 3, 4]) = Inr (n, c) \<and>
    n \<le> length [1, 2, 3, 4 :: uchar] \<and> getPackedLength c \<le> 3 \<and>
    pack c [1, 2, 3, 4] = Some packed \<and> length packed = getPackedLength c \<and>
    (if isPacked c then unpack packed n = Inr (take n [1, 2, 3, 4]) else packed = take n [1, 2, 3, 4])"
proof (rule truncate_leading_fragment)
  show "3 < getPackedLength (make_compressor True True [1, 2, 3, 4])"
    by (simp add: make_compressor_def compress_loop.simps store_noncomp.simps
        nonCompressableRun_def getPackedLength_def)
qed simp

text \<open>
  Cutting off a tail leaves a compressor for the rest of the record: with \<open>n\<close> the returned
  number of trailing bytes, it packs the first \<open>length data - n\<close> bytes, whatever the space given.
\<close>

theorem truncateTail_leaves_head:
  assumes "length data \<le> MAX_LONG_RUN"
    and "truncateTail outLength (make_compressor lr up data) = (n, c)"
  shows "n \<le> length data \<and> (\<exists>packed. pack c data = Some packed \<and>
    length packed = getPackedLength c \<and>
    (if isPacked c then unpack packed (length data - n) = Inr (take (length data - n) data)
     else packed = take (length data - n) data))"
proof -
  let ?c = "make_compressor lr up data"
  have "n \<le> length data \<and> encodes c (take (length data - n) data)"
  proof (cases "m_runs ?c = []")
    case True
    with assms make_compressor_encodes [OF assms(1), of lr up] show ?thesis
      by (auto simp: truncateTail_def encodes_def Let_def)
  next
    case False
    then have inv: "covers (m_runs ?c) data" "m_length ?c = runs_cost (m_runs ?c)"
      using make_compressor_encodes [OF assms(1), of lr up] by (auto simp: encodes_def compress_inv_def)
    obtain kept len il where t:
      "truncateTail_loop (m_runs ?c) (int outLength) (m_length ?c) 0 = (kept, len, il)"
      using prod_cases3 by blast
    from truncateTail_loop_spec [OF inv(1) t [unfolded inv(2)]] obtain k where k:
      "il = k" "k \<le> length data" "covers kept (take (length data - k) data)" "len = runs_cost kept"
      by auto
    with covers_length [OF k(3)] assms(2) False t show ?thesis
      by (auto simp: truncateTail_def encodes_def compress_inv_def Let_def split: if_splits)
  qed
  with encodes_pack [of c "take (length data - n) data" "drop (length data - n) data"] show ?thesis
    by auto
qed

theorem truncateTail_leaves_head_witness:
  "fst (truncateTail 2 (make_compressor True True [5, 6, 7])) \<le> length [5, 6, 7 :: uchar]"
  using truncateTail_leaves_head [of "[5, 6, 7]" 2 True True, OF _ prod.collapse [symmetric]] by simp

text \<open>
  C16. Unpacking any bytes, damaged ones included, copies nothing beyond the output or from beyond the
  input, which would be \<open>Overrun\<close>: it stops with bugcheck 179 before, or writes no more than the output has
  room for, and then \<open>getUnpackedLength\<close> predicts the length exactly. The bytes of a run length are the
  exception: they are read before it is known that they are there.
\<close>

theorem unpack_within_bounds:
  "unpack input outLength = Inl (BUGCHECK 179) \<or>
   (\<exists>out. unpack input outLength = Inr out \<and> length out \<le> outLength \<and>
      getUnpackedLength input = length out)"
  using unpack_loop_bound [of outLength input "[]"] unpack_loop_length [of outLength input "[]"]
    unpack_loop_error [of outLength input "[]"]
  by (cases "unpack_loop outLength input []") (auto simp: unpack_def getUnpackedLength_def)

end
