(* ===== verification/DiffRec.thy ===== *)
theory DiffRec
  imports Prelude
begin

text \<open>
  The difference records of \<open>src/jrd/sqz.cpp\<close> (class \<open>Difference\<close>): a back version of a
  record is kept as the differences to the newer one. A difference record is a sequence of
  control bytes, positive for bytes to copy (which follow it), zero or negative for bytes to
  skip. \<open>m_differences\<close> is the list of the bytes made or given.
\<close>

subsection \<open>Applying differences\<close>

definition MAX_DIFFERENCES :: nat where [simp]: "MAX_DIFFERENCES = 1024"

text \<open>
  The main loop of \<open>apply\<close>: \<open>diff\<close> is what is left of the differences, \<open>p\<close> the position in
  the output buffer, which may run past its end over skipped bytes.
\<close>

function apply_loop :: "uchar list \<Rightarrow> nat \<Rightarrow> uchar list \<Rightarrow> bugcheck + (uchar list \<times> nat \<times> uchar list)"
  where
  "apply_loop diff p output =
     (case diff of [] \<Rightarrow> Inr (diff, p, output)
      | b # diff1 \<Rightarrow>
          if length output \<le> p then Inr (diff, p, output)
          else let l = schar b
               in if 0 < l
                  then if length output < p + nat l then Inl (BUGCHECK 177)
                       else if length diff1 < nat l then Inl (BUGCHECK 176)
                       else case load_bytes (nat l) diff1 of
                           Inl e \<Rightarrow> Inl e
                         | Inr bs \<Rightarrow> (case store_at output p bs of
                               Inl e \<Rightarrow> Inl e
                             | Inr output' \<Rightarrow> apply_loop (drop (nat l) diff1) (p + nat l) output')
                  else apply_loop diff1 (p + nat (- l)) output)"
  by pat_completeness auto
termination
  by (relation "measure (\<lambda>(diff, r). length diff)") auto

declare apply_loop.simps [simp del]

text \<open>
  \<open>output\<close> is the buffer of \<open>outLength\<close> bytes. Differences left over when the buffer is full
  may only be zero.
\<close>

definition apply_diff :: "uchar list \<Rightarrow> uchar list \<Rightarrow> bugcheck + (nat \<times> uchar list)" where
  "apply_diff diff output =
     (if MAX_DIFFERENCES < length diff then Inl (BUGCHECK 176)
      else case apply_loop diff 0 output of
        Inl e \<Rightarrow> Inl e
      | Inr (rest, p, output') \<Rightarrow>
          if \<exists>b \<in> set rest. b \<noteq> 0 then Inl (BUGCHECK 177)
          else if length output < p then Inl (BUGCHECK 177)
          else Inr (p, output'))"

subsection \<open>Making differences\<close>

text \<open>
  The control bytes that skip \<open>count\<close> bytes, in steps of at most 127, after \<open>out\<close>; \<open>None\<close>
  when the buffer is full (the routines return 0 then).
\<close>

fun skip_bytes :: "nat \<Rightarrow> uchar list \<Rightarrow> uchar list option" where
  "skip_bytes count out =
     (if count = 0 then Some out
      else if MAX_DIFFERENCES \<le> length out then None
      else let mx = min count 127 in skip_bytes (count - mx) (out @ [uchar_of (- int mx)]))"

declare skip_bytes.simps [simp del]

definition makeNoDiff :: "nat \<Rightarrow> uchar list option" where
  "makeNoDiff len = skip_bytes len []"

text \<open>
  The loop that collects differing bytes, at most \<open>window\<close> of them (the distance to \<open>yellow\<close>,
  which is included): it goes on while a byte differs or the one after it does. \<open>n\<close> is how
  many bytes of the buffer are used, \<open>acc\<close> the bytes copied from the second record.
\<close>

fun differing :: "nat \<Rightarrow> nat \<Rightarrow> uchar list \<Rightarrow> uchar list \<Rightarrow> uchar list \<Rightarrow> uchar list option" where
  "differing 0 n rec1 rec2 acc = Some acc"
| "differing (Suc window) n (a # rec1) (b # rec2) acc =
     (if a \<noteq> b \<or> (0 < window \<and> rec1 \<noteq> [] \<and> rec2 \<noteq> [] \<and> hd rec1 \<noteq> hd rec2)
      then if MAX_DIFFERENCES \<le> n then None
           else differing window (Suc n) rec1 rec2 (acc @ [b])
      else Some acc)"
| "differing (Suc window) n rec1 rec2 acc = Some acc"

text \<open>The length of the common prefix of the two records (the counting loop).\<close>

fun equal_run :: "uchar list \<Rightarrow> uchar list \<Rightarrow> nat" where
  "equal_run (a # rec1) (b # rec2) = (if a = b then Suc (equal_run rec1 rec2) else 0)"
| "equal_run _ _ = 0"

lemma differing_length:
  "differing w n rec1 rec2 acc = Some r \<Longrightarrow> length acc \<le> length r"
  by (induction w n rec1 rec2 acc arbitrary: r rule: differing.induct)
    (fastforce split: if_splits)+

lemma differing_progress:
  assumes d: "differing w n rec1 rec2 [] = Some r" and w: "2 \<le> w"
    and r: "rec1 = a # a' # r1" "rec2 = b # b' # r2" "a \<noteq> b \<or> a' \<noteq> b'"
  shows "0 < length r"
proof -
  obtain k where "w = Suc (Suc k)"
    using w by (metis Suc_le_D numeral_2_eq_2 Suc_le_mono)
  then show ?thesis
    using d r by (auto split: if_splits dest: differing_length)
qed

lemma equal_run_le: "equal_run rec1 rec2 \<le> length rec1" "equal_run rec1 rec2 \<le> length rec2"
  by (induction rec1 rec2 rule: equal_run.induct) auto

text \<open>
  The main loop of \<open>make\<close>, while more than two bytes of the common part are left: the bytes
  that differ are collected behind a control byte with their number, which is filled in
  last; a common run is skipped. \<open>rec1\<close> ends at \<open>end1\<close>, and \<open>out\<close> is what is in the buffer.
\<close>

function diff_loop ::
  "uchar list \<Rightarrow> uchar list \<Rightarrow> uchar list \<Rightarrow> (uchar list \<times> uchar list) option" where
  "diff_loop rec1 rec2 out =
     (case (rec1, rec2) of
        (a # a' # x # _, b # b' # _) \<Rightarrow>
          if a \<noteq> b \<or> a' \<noteq> b'
          then case differing (min (length rec1) 127) (Suc (length out)) rec1 rec2 [] of
              None \<Rightarrow> None
            | Some bs \<Rightarrow> diff_loop (drop (length bs) rec1) (drop (length bs) rec2)
                (out @ uchar_of (int (length bs)) # bs)
          else case skip_bytes (equal_run rec1 rec2) out of
              None \<Rightarrow> None
            | Some out' \<Rightarrow> diff_loop (drop (equal_run rec1 rec2) rec1)
                (drop (equal_run rec1 rec2) rec2) out'
      | _ \<Rightarrow> Some (rec2, out))"
  by pat_completeness auto
termination
proof (relation "measure (\<lambda>(rec1, rec2, out). length rec1)", goal_cases)
  case 1 then show ?case by simp
next
  case (2 rec1 rec2 out x y a r a' r' u v b s b' t bs)
  then have "0 < length bs"
    by - (rule differing_progress, assumption, auto)
  with 2 show ?case by auto
next
  case (3 rec1 rec2 out)
  then show ?case by auto
qed

declare diff_loop.simps [simp del]

text \<open>What is left of the second record is copied in pieces of at most 127 bytes.\<close>

function copy_rest :: "uchar list \<Rightarrow> uchar list \<Rightarrow> uchar list option" where
  "copy_rest rec2 out =
     (if rec2 = [] then Some out
      else if MAX_DIFFERENCES < Suc (length out) + length (take 127 rec2) then None
      else copy_rest (drop 127 rec2)
             (out @ uchar_of (int (length (take 127 rec2))) # take 127 rec2))"
  by pat_completeness auto
termination
  by (relation "measure (\<lambda>(rec2, out). length rec2)") auto

declare copy_rest.simps [simp del]

text \<open>\<open>make\<close> returns the differences, or \<open>None\<close> where the code returns 0.\<close>

definition make_diff :: "uchar list \<Rightarrow> uchar list \<Rightarrow> uchar list option" where
  "make_diff rec1 rec2 =
     (case diff_loop (take (min (length rec1) (length rec2)) rec1) rec2 [] of
        None \<Rightarrow> None
      | Some (rec2', out) \<Rightarrow>
          (case copy_rest rec2' out of
             None \<Rightarrow> None
           | Some diff \<Rightarrow> if length diff \<le> MAX_DIFFERENCES then Some diff else None))"

subsection \<open>Differences applied to the record they were made from\<close>

lemma differing_take:
  "differing w n rec1 rec2 acc = Some r \<Longrightarrow>
   \<exists>k \<le> w. k \<le> length rec1 \<and> k \<le> length rec2 \<and> r = acc @ take k rec2"
proof (induction w n rec1 rec2 acc arbitrary: r rule: differing.induct)
  case (2 w n a rec1 b rec2 acc)
  show ?case
  proof (cases "differing w (Suc n) rec1 rec2 (acc @ [b]) = Some r")
    case True
    show ?thesis
    proof (cases "r = acc")
      case False
      then have "\<exists>k\<le>w. k \<le> length rec1 \<and> k \<le> length rec2 \<and> r = (acc @ [b]) @ take k rec2"
        using 2 True by (auto split: if_splits)
      then show ?thesis by (auto intro: exI [of _ "Suc k" for k])
    qed (auto intro: exI [of _ 0])
  qed (use 2 in \<open>auto split: if_splits\<close>)
qed auto

lemma equal_run_take: "take (equal_run rec1 rec2) rec1 = take (equal_run rec1 rec2) rec2"
  by (induction rec1 rec2 rule: equal_run.induct) auto

text \<open>The differences \<open>out\<close> turn the buffer \<open>buf\<close> into \<open>buf'\<close> up to position \<open>p\<close>.\<close>

definition patches :: "uchar list \<Rightarrow> nat \<Rightarrow> uchar list \<Rightarrow> uchar list \<Rightarrow> bool" where
  "patches out p buf buf' \<longleftrightarrow>
     length buf' = length buf \<and> (\<forall>rest. apply_loop (out @ rest) 0 buf = apply_loop rest p buf')"

lemma patches_Nil: "patches [] 0 buf buf"
  by (simp add: patches_def)

lemma patches_copy:
  assumes "patches out p buf buf'" "0 < length bs" "length bs \<le> 127" "p + length bs \<le> length buf"
  shows "patches (out @ uchar_of (int (length bs)) # bs) (p + length bs) buf (write_at buf' p bs)"
  using assms by (simp add: patches_def apply_loop.simps [of "b # r" for b r] Let_def schar_uchar_of
    load_bytes_def store_at_def del: length_greater_0_conv)

lemma patches_skip:
  assumes "patches out p buf buf'" "skip_bytes count out = Some out'" "p + count \<le> length buf"
  shows "patches out' (p + count) buf buf'"
  using assms
proof (induction count out arbitrary: p rule: skip_bytes.induct)
  case (1 count out)
  show ?case
  proof (cases "count = 0")
    case False
    let ?m = "min count 127"
    have "patches (out @ [uchar_of (- int ?m)]) (p + ?m) buf buf'"
      using 1 False
      by (simp add: patches_def apply_loop.simps [of "b # r" for b r] Let_def schar_uchar_of)
    moreover have "skip_bytes (count - ?m) (out @ [uchar_of (- int ?m)]) = Some out'"
      "length out < MAX_DIFFERENCES"
      using 1(3) False by (auto simp: skip_bytes.simps [of count out] Let_def split: if_splits)
    ultimately have "patches out' (p + ?m + (count - ?m)) buf buf'"
      using 1 False by (intro "1.IH" [OF False _ refl]) auto
    then show ?thesis by simp
  qed (use 1 in \<open>simp add: skip_bytes.simps\<close>)
qed


text \<open>The buffer after \<open>p\<close> bytes of \<open>rec2\<close> have been made good.\<close>

abbreviation patched :: "nat \<Rightarrow> uchar list \<Rightarrow> uchar list \<Rightarrow> uchar list" where
  "patched p rec2 buf \<equiv> take p rec2 @ drop p buf"

lemma patched_write:
  assumes "p + k \<le> length rec2" "length rec2 \<le> length buf"
  shows "write_at (patched p rec2 buf) p (take k (drop p rec2)) = patched (p + k) rec2 buf"
  using assms by (simp add: write_at_def take_add [of p k rec2] min_absorb1 min_absorb2 add.commute [of k p])

lemma patched_skip:
  assumes "take k (drop p buf) = take k (drop p rec2)"
  shows "patched p rec2 buf = patched (p + k) rec2 buf"
proof -
  have "drop p buf = take k (drop p rec2) @ drop k (drop p buf)"
    using assms by (metis append_take_drop_id)
  then show ?thesis by (simp add: take_add [of p k rec2] add.commute [of k p])
qed

lemma diff_loop_patches:
  assumes "diff_loop (drop p (take n rec1)) (drop p rec2) out = Some (rec2', out')"
    and "patches out p buf (patched p rec2 buf)"
    and "take n buf = take n rec1" "n \<le> length rec1" "n \<le> length rec2"
    and "length rec2 \<le> length buf" "p \<le> n"
  shows "\<exists>q \<le> n. rec2' = drop q rec2 \<and> patches out' q buf (patched q rec2 buf)"
  using assms(1,2,7)
proof (induction "n - p" arbitrary: p out rule: less_induct)
  case less
  let ?r1 = "drop p (take n rec1)" and ?r2 = "drop p rec2"
  note step = less.prems(1) [unfolded diff_loop.simps [of ?r1]]
  show ?case
  proof (cases "\<exists>a a' x r1 b b' r2. ?r1 = a # a' # x # r1 \<and> ?r2 = b # b' # r2")
    case False
    then show ?thesis using step less.prems
      by (auto split: list.splits)
  next
    case True
    then obtain a a' x r1 b b' r2 where e1: "?r1 = a # a' # x # r1" and e2: "?r2 = b # b' # r2"
      by blast
    show ?thesis
    proof (cases "a \<noteq> b \<or> a' \<noteq> b'")
      case ne: True
      obtain bs where bs: "differing (min (length ?r1) 127) (Suc (length out)) ?r1 ?r2 [] = Some bs"
        and st: "diff_loop (drop (length bs) ?r1) (drop (length bs) ?r2)
                   (out @ uchar_of (int (length bs)) # bs) = Some (rec2', out')"
        using step ne unfolding e1 e2 by (simp split: option.splits)
      have pos: "0 < length bs"
        using bs e1 e2 ne by (intro differing_progress [OF bs _ e1 e2 ne]) auto
      obtain k where k: "k \<le> min (length ?r1) 127" "k \<le> length ?r1" "k \<le> length ?r2"
        "bs = take k ?r2" using differing_take [OF bs] by auto
      have lk: "length bs = k" using k by simp
      have le: "p + k \<le> n" using k(2) less.prems assms by simp
      have "patches (out @ uchar_of (int (length bs)) # bs) (p + k) buf
              (write_at (patched p rec2 buf) p bs)"
        unfolding lk [symmetric]
        using less.prems k lk pos le assms by (intro patches_copy) auto
      then have "patches (out @ uchar_of (int (length bs)) # bs) (p + k) buf (patched (p + k) rec2 buf)"
        using patched_write [of p k rec2 buf] k(4) le assms by simp
      then show ?thesis
        using st pos le lk by (intro less.hyps [of "p + k"]) (auto simp: add.commute)
    next
      case eq: False
      let ?k = "equal_run ?r1 ?r2"
      obtain o1 where sk: "skip_bytes ?k out = Some o1"
        and st: "diff_loop (drop ?k ?r1) (drop ?k ?r2) o1 = Some (rec2', out')"
        using step eq unfolding e1 e2 by (simp split: option.splits)
      have pos: "0 < ?k" unfolding e1 e2 using eq by simp
      have le: "p + ?k \<le> n"
        using equal_run_le(1) [of ?r1 ?r2] less.prems assms by simp
      have "take ?k (drop p buf) = take ?k ?r1"
        using le assms(3) by (metis (no_types, lifting) add.commute drop_take le_add_diff_inverse2 min.absorb1 take_take add_le_imp_le_diff)
      then have "patched p rec2 buf = patched (p + ?k) rec2 buf"
        by (intro patched_skip) (simp add: equal_run_take)
      moreover have "patches o1 (p + ?k) buf (patched p rec2 buf)"
        using less.prems sk le assms by (intro patches_skip [of out p]) auto
      ultimately show ?thesis
        using st pos le by (intro less.hyps [of "p + ?k"]) (auto simp: add.commute)
    qed
  qed
qed

lemma copy_rest_patches:
  assumes "copy_rest (drop p rec2) out = Some out'"
    and "patches out p buf (patched p rec2 buf)" "length rec2 \<le> length buf" "p \<le> length rec2"
  shows "patches out' (length rec2) buf (patched (length rec2) rec2 buf)"
  using assms(1,2,4)
proof (induction "length rec2 - p" arbitrary: p out rule: less_induct)
  case less
  show ?case
  proof (cases "p = length rec2")
    case True
    then show ?thesis using less.prems by (simp add: copy_rest.simps)
  next
    case False
    let ?b = "take 127 (drop p rec2)"
    have st: "copy_rest (drop 127 (drop p rec2)) (out @ uchar_of (int (length ?b)) # ?b) = Some out'"
      using less.prems False by (subst (asm) copy_rest.simps) (simp split: if_splits)
    have lb: "0 < length ?b" "length ?b \<le> 127" "p + length ?b \<le> length rec2"
      using less.prems False by auto
    have dr: "drop 127 (drop p rec2) = drop (p + length ?b) rec2"
      by (auto simp: add.commute min_def)
    have "patches (out @ uchar_of (int (length ?b)) # ?b) (p + length ?b) buf
            (write_at (patched p rec2 buf) p ?b)"
      using less.prems lb assms(3) by (intro patches_copy) auto
    moreover have "?b = take (length ?b) (drop p rec2)" by (simp add: min_def)
    ultimately have "patches (out @ uchar_of (int (length ?b)) # ?b) (p + length ?b) buf
       (patched (p + length ?b) rec2 buf)"
      using patched_write [of p "length ?b" rec2 buf] lb assms(3) by simp
    then show ?thesis
      using st lb unfolding dr by (intro less.hyps [of "p + length ?b"]) auto
  qed
qed


text \<open>C12. A difference record is exact: applied to any buffer that starts with the first record
  and has room for the second, the differences that \<open>make\<close> returned yield the second record and
  leave the bytes behind it untouched, and they fit the difference buffer.
\<close>

theorem make_apply:
  assumes "make_diff rec1 rec2 = Some diff"
    and "take (min (length rec1) (length rec2)) buf = take (min (length rec1) (length rec2)) rec1"
    and "length rec2 \<le> length buf"
  shows "length diff \<le> MAX_DIFFERENCES \<and>
    apply_diff diff buf = Inr (length rec2, rec2 @ drop (length rec2) buf)"
proof -
  let ?n = "min (length rec1) (length rec2)"
  obtain rec2' out where lp: "diff_loop (take ?n rec1) rec2 [] = Some (rec2', out)"
    and cp: "copy_rest rec2' out = Some diff" and le: "length diff \<le> MAX_DIFFERENCES"
    using assms(1) by (auto simp: make_diff_def split: option.splits if_splits)
  obtain q where q: "q \<le> ?n" "rec2' = drop q rec2" "patches out q buf (patched q rec2 buf)"
    using diff_loop_patches [of 0 ?n rec1 rec2 "[]" rec2' out buf] lp assms patches_Nil [of buf]
    by auto
  have "patches diff (length rec2) buf (patched (length rec2) rec2 buf)"
    using copy_rest_patches [of q rec2 out diff buf] cp q assms(3) by simp
  then have "apply_loop (diff @ []) 0 buf = apply_loop [] (length rec2) (patched (length rec2) rec2 buf)"
    unfolding patches_def by blast
  then show ?thesis
    using le assms(3) by (simp add: apply_diff_def apply_loop.simps [of "[]"])
qed

theorem make_apply_witness:
  "apply_diff [uchar_of 2, 9, 8, uchar_of 1, 3] [1, 2, 3, 7] =
     Inr (length [9, 8, 3 :: uchar], [9, 8, 3 :: uchar] @ drop 3 [1, 2, 3, 7])"
proof -
  have d: "differing (Suc (Suc (Suc 0))) (Suc 0) [1, 2, 3] [9, 8, 3] [] = Some [9, 8 :: uchar]"
    by simp
  have "make_diff [1, 2, 3] [9, 8, 3] = Some [uchar_of 2, 9, 8, uchar_of 1, 3]"
    by (simp add: make_diff_def diff_loop.simps copy_rest.simps d del: differing.simps)
  from make_apply [OF this, of "[1, 2, 3, 7]"] show ?thesis by simp
qed

lemma apply_loop_length:
  "apply_loop d p b = Inr (rest, p', b') \<Longrightarrow> length b' = length b"
proof (induction d p b rule: apply_loop.induct)
  case (1 d p b)
  then show ?case
    by (cases d) (auto simp: apply_loop.simps [of "[]"] apply_loop.simps [of "a # r" for a r]
      load_bytes_def store_at_def Let_def split: if_splits)
qed

text \<open>
  C17. Whatever bytes a difference record holds, applying it never copies beyond the output
  buffer or from beyond the record, which would be \<open>Overrun\<close>: the buffer keeps its size and the length
  returned lies within it, or the request stops with bugcheck 176 or 177 before it goes too far.
\<close>

theorem apply_in_bounds:
  "case apply_diff diff output of
     Inl e \<Rightarrow> e = BUGCHECK 176 \<or> e = BUGCHECK 177
   | Inr (n, output') \<Rightarrow> length output' = length output \<and> n \<le> length output"
proof -
  have "apply_loop d p b = Inl e \<Longrightarrow> e = BUGCHECK 176 \<or> e = BUGCHECK 177" for d p b e
  proof (induction d p b rule: apply_loop.induct)
    case (1 d p b)
    then show ?case
      by (cases d) (auto simp: apply_loop.simps [of "[]"] apply_loop.simps [of "a # r" for a r]
        load_bytes_def store_at_def Let_def split: if_splits)
  qed
  then show ?thesis
    by (auto simp: apply_diff_def split: sum.splits prod.splits dest: apply_loop_length)
qed

text \<open>
  A record of no differences has a byte for every 127 bytes of the record, and leaves the
  record as it is.
\<close>

lemma makeNoDiff_apply:
  assumes "makeNoDiff n = Some diff" "n \<le> length buf"
  shows "length diff = (n + 126) div 127 \<and> apply_diff diff buf = Inr (n, buf)"
proof -
  have *: "length out' = length out + (c + 126) div 127 \<and> (length out \<le> MAX_DIFFERENCES \<longrightarrow> length out' \<le> MAX_DIFFERENCES)"
    if "skip_bytes c out = Some out'" for c out out'
    using that
  proof (induction c out rule: skip_bytes.induct)
    case (1 c out)
    show ?case
    proof (cases "c = 0")
      case False
      let ?m = "min c 127"
      have st: "skip_bytes (c - ?m) (out @ [uchar_of (- int ?m)]) = Some out'"
        "length out < MAX_DIFFERENCES"
        using 1(2) False by (auto simp: skip_bytes.simps [of c out] Let_def split: if_splits)
      have "length out' = length (out @ [uchar_of (- int ?m)]) + (c - ?m + 126) div 127 \<and>
          (length (out @ [uchar_of (- int ?m)]) \<le> MAX_DIFFERENCES \<longrightarrow> length out' \<le> MAX_DIFFERENCES)"
        using 1 False st by (intro "1.IH" [OF False _ refl]) auto
      moreover have "(c + 126) div 127 = 1 + (c - ?m + 126) div 127"
      proof (cases "c \<le> 127")
        case True then show ?thesis using False by (simp add: min_absorb1 div_nat_eqI)
      next
        case gt: False
        have "(c + 126) div 127 = ((c - 127 + 126) + 1 * 127) div 127" using gt by simp
        then show ?thesis using gt by (simp only: div_mult_self1 min_absorb2)
      qed
      ultimately show ?thesis using st by simp
    qed (use 1 in \<open>simp add: skip_bytes.simps\<close>)
  qed
  have "patches diff n buf buf"
    using patches_skip [of "[]" 0 buf buf n diff] patches_Nil [of buf] assms
    by (simp add: makeNoDiff_def)
  then have "apply_loop (diff @ []) 0 buf = apply_loop [] n buf"
    unfolding patches_def by blast
  then show ?thesis
    using * [of n "[]" diff] assms
    by (simp add: makeNoDiff_def apply_diff_def apply_loop.simps [of "[]"])
qed

end
