(* ===== verification/IndexNode.thy ===== *)
theory IndexNode
  imports Prelude "HOL-Library.Monad_Syntax"
begin

text \<open>
  The nodes of index pages, \<open>src/jrd/btn.cpp\<close> and \<open>btn.h\<close>: their variable-length format
  (\<open>getNodeSize\<close>, \<open>writeNode\<close>, \<open>readNode\<close>), jump nodes, prefix compression
  (\<open>computePrefix\<close>, \<open>keyEqual\<close>) and the search among duplicates (\<open>findPageInDuplicates\<close>). A
  pointer into a page is a position in the page's bytes when they are written, and the list of
  the bytes from there on when they are read.
\<close>

subsection \<open>Numbers in groups of seven bits\<close>

text \<open>
  The unrolled chains of \<open>writeNode\<close> and \<open>writeJumpNode\<close>: at most \<open>k\<close> bytes carry seven bits
  and the mark that more follow; the byte after them is masked with \<open>lm\<close>.
\<close>

fun put7 :: "nat \<Rightarrow> nat \<Rightarrow> nat \<Rightarrow> uchar list" where
  "put7 0 lm number = [of_nat (number AND lm)]"
| "put7 (Suc k) lm number =
     (if drop_bit 7 number = 0 then [of_nat (number AND 0x7F)]
      else of_nat ((number AND 0x7F) OR 0x80) # put7 k lm (drop_bit 7 number))"

text \<open>The chains of \<open>readNode\<close> and \<open>readJumpNode\<close>.\<close>

fun get7 :: "nat \<Rightarrow> nat \<Rightarrow> nat \<Rightarrow> nat \<Rightarrow> uchar list \<Rightarrow> (nat \<times> uchar list) option" where
  "get7 0 lm shift number (tmp # r) = Some (number OR push_bit shift (unat tmp AND lm), r)"
| "get7 (Suc k) lm shift number (tmp # r) =
     (let number' = number OR push_bit shift (unat tmp AND 0x7F)
      in if 128 \<le> unat tmp then get7 k lm (shift + 7) number' r else Some (number', r))"
| "get7 _ _ _ _ [] = None"

lemma mask7: "(0x7F::nat) = mask 7"
  by (simp add: mask_eq_exp_minus_1)

lemma split7:
  "push_bit s ((n::nat) AND 0x7F) OR push_bit (s + 7) (drop_bit 7 n) = push_bit s n"
proof (rule bit_eqI)
  fix i
  have "7 + (i - (s + 7)) = i - s" if "7 \<le> i - s" using that by arith
  then show "bit (push_bit s (n AND 0x7F) OR push_bit (s + 7) (drop_bit 7 n)) i = bit (push_bit s n) i"
    unfolding mask7 by (cases "7 \<le> i - s") (auto simp: bit_simps)
qed

lemma byte_127: "unat (of_nat (n AND 0x7F) :: uchar) = n AND 0x7F" "(n::nat) AND 0x7F < 128"
proof -
  show le: "n AND 0x7F < 128" by (simp add: bits_arith)
  then show "unat (of_nat (n AND 0x7F) :: uchar) = n AND 0x7F"
    by (simp only: unat_of_nat) simp
qed

lemma or_128: "(n AND 0x7F) OR 0x80 = n mod 128 + (128::nat)"
proof -
  have "(n AND 0x7F) OR 0x80 = (n AND 0x7F) + 0x80"
  proof (rule disjunctive_add [symmetric])
    fix i
    have "bit (0x80::nat) i \<longleftrightarrow> i = 7"
      using bit_exp_iff [where 'a=nat, of 7 i] by (auto simp: possible_bit_def)
    then show "\<not> bit (n AND 0x7F) i \<or> \<not> bit (0x80::nat) i"
      unfolding mask7 by (auto simp: bit_simps)
  qed
  then show ?thesis by (simp add: bits_arith)
qed

lemma byte_128: "unat (of_nat ((n AND 0x7F) OR 0x80) :: uchar) AND 0x7F = n AND 0x7F"
  "128 \<le> unat (of_nat ((n AND 0x7F) OR 0x80) :: uchar)"
proof -
  have "unat (of_nat ((n AND 0x7F) OR 0x80) :: uchar) = n mod 128 + 128"
    by (simp only: unat_of_nat or_128) simp
  then show "unat (of_nat ((n AND 0x7F) OR 0x80) :: uchar) AND 0x7F = n AND 0x7F"
    "128 \<le> unat (of_nat ((n AND 0x7F) OR 0x80) :: uchar)"
    by (simp_all only: bits_arith) simp_all
qed

lemma get7_put7 [codec_simps]:
  assumes "number < 2 ^ (7 * k + m)" "m \<le> 8"
  shows "get7 k (mask m) s acc (put7 k (mask m) number @ r) = Some (acc OR push_bit s number, r)"
  using assms
proof (induction k arbitrary: number s acc)
  case 0
  then have "number AND mask m = number" 
    by (simp add: take_bit_eq_mask [symmetric] take_bit_nat_eq_self)
  moreover have "number < 256"
    using 0 power_increasing [of m 8 "2::nat"] by simp
  ultimately show ?case
    using 0 by (simp add: unat_of_nat take_bit_nat_eq_self)
next
  case (Suc k)
  show ?case
  proof (cases "drop_bit 7 number = 0")
    case True
    have "number AND 0x7F = number" 
      using True by (simp add: bits_arith drop_bit_eq_div div_eq_0_iff)
    then show ?thesis using True byte_127 [of number] by (simp add: Let_def)
  next
    case False
    have "drop_bit 7 number < 2 ^ (7 * k + m)"
      using Suc.prems(1) by (simp add: drop_bit_eq_div power_add less_mult_imp_div_less algebra_simps)
    then show ?thesis
      using False byte_128 [of number] Suc.IH [of "drop_bit 7 number" "s + 7"] Suc.prems(2)
      by (simp add: Let_def or.assoc split7 del: push_bit_and)
  qed
qed

lemma length_put7: "length (put7 k lm n) =
   (if k = 0 \<or> drop_bit 7 n = 0 then 1 else Suc (length (put7 (k - 1) lm (drop_bit 7 n))))"
  by (cases k) auto


subsection \<open>Nodes\<close>

definition BTN_NORMAL_FLAG :: nat where [simp]: "BTN_NORMAL_FLAG = 0"
definition BTN_END_LEVEL_FLAG :: nat where [simp]: "BTN_END_LEVEL_FLAG = 1"
definition BTN_END_BUCKET_FLAG :: nat where [simp]: "BTN_END_BUCKET_FLAG = 2"
definition BTN_ZERO_PREFIX_ZERO_LENGTH_FLAG :: nat where
  [simp]: "BTN_ZERO_PREFIX_ZERO_LENGTH_FLAG = 3"
definition BTN_ZERO_LENGTH_FLAG :: nat where [simp]: "BTN_ZERO_LENGTH_FLAG = 4"
definition BTN_ONE_LENGTH_FLAG :: nat where [simp]: "BTN_ONE_LENGTH_FLAG = 5"

text \<open>
  \<open>struct IndexNode\<close>; \<open>nodePrefix\<close> and \<open>nodeLength\<close> are its \<open>prefix\<close> and \<open>length\<close>, and \<open>data\<close>
  stands for the bytes at the pointer of this name.
\<close>

record index_node =
  nodePrefix :: nat
  nodeLength :: nat
  pageNumber :: nat
  data :: "uchar list"
  recordNumber :: int
  isEndBucket :: bool
  isEndLevel :: bool

definition keyEqual :: "index_node \<Rightarrow> uchar list \<Rightarrow> bool" where
  "keyEqual node key \<longleftrightarrow>
     (if length key \<noteq> nodeLength node + nodePrefix node then False
      else if nodeLength node = 0 then True
      else take (nodeLength node) (data node) = take (nodeLength node) (drop (nodePrefix node) key))"

definition setEndBucket :: "index_node \<Rightarrow> index_node" where
  "setEndBucket node = node\<lparr>isEndBucket := True, isEndLevel := False\<rparr>"

definition setEndLevel :: "index_node \<Rightarrow> index_node" where
  "setEndLevel node = node\<lparr>isEndBucket := False, isEndLevel := True, nodePrefix := 0,
     nodeLength := 0, pageNumber := 0, recordNumber := 0\<rparr>"

definition setNode :: "nat \<Rightarrow> nat \<Rightarrow> int \<Rightarrow> nat \<Rightarrow> bool \<Rightarrow> bool \<Rightarrow> index_node \<Rightarrow> index_node" where
  "setNode prefx len recno page eb el node =
     node\<lparr>isEndBucket := eb, isEndLevel := el, nodePrefix := prefx, nodeLength := len,
       recordNumber := recno, pageNumber := page\<rparr>"

definition computePrefix :: "uchar list \<Rightarrow> uchar list \<Rightarrow> nat" where
  "computePrefix prevString str = length (takeWhile (\<lambda>(a, b). a = b) (zip prevString str))"

definition internalFlags :: "index_node \<Rightarrow> nat" where
  "internalFlags node =
     (if isEndLevel node then BTN_END_LEVEL_FLAG
      else if isEndBucket node then BTN_END_BUCKET_FLAG
      else if nodeLength node = 0
      then if nodePrefix node = 0 then BTN_ZERO_PREFIX_ZERO_LENGTH_FLAG else BTN_ZERO_LENGTH_FLAG
      else if nodeLength node = 1 then BTN_ONE_LENGTH_FLAG
      else BTN_NORMAL_FLAG)"

text \<open>Sizes, from the masks of the source.\<close>

definition size_of_number :: "int \<Rightarrow> nat" where
  "size_of_number number =
     (if number AND 0xFFF0000000 \<noteq> 0 then 5
      else if number AND 0xFFFFE00000 \<noteq> 0 then 4
      else if number AND 0xFFFFFFC000 \<noteq> 0 then 3
      else if number AND 0xFFFFFFFF80 \<noteq> 0 then 2
      else 1)"

definition size_of_page :: "nat \<Rightarrow> nat" where
  "size_of_page number =
     (if number AND 0xF0000000 \<noteq> 0 then 5
      else if number AND 0xFFE00000 \<noteq> 0 then 4
      else if number AND 0xFFFFC000 \<noteq> 0 then 3
      else if number AND 0xFFFFFF80 \<noteq> 0 then 2
      else 1)"

definition size_of_count :: "nat \<Rightarrow> nat" where
  "size_of_count number =
     (if number AND 0xFFFFC000 \<noteq> 0 then 3
      else if number AND 0xFFFFFF80 \<noteq> 0 then 2
      else 1)"

text \<open>The size is a \<open>USHORT\<close>.\<close>

definition getNodeSize :: "index_node \<Rightarrow> bool \<Rightarrow> nat" where
  "getNodeSize node leafNode =
     (let flags = internalFlags node;
          number = (if recordNumber node < 0 then 0 else recordNumber node)
      in if isEndLevel node then 1
         else (1 + size_of_number (drop_bit 5 number)
           + (if \<not> leafNode then size_of_page (pageNumber node) else 0)
           + (if flags \<noteq> BTN_ZERO_PREFIX_ZERO_LENGTH_FLAG then size_of_count (nodePrefix node) else 0)
           + (if flags \<noteq> BTN_ZERO_PREFIX_ZERO_LENGTH_FLAG \<and> flags \<noteq> BTN_ZERO_LENGTH_FLAG \<and>
                flags \<noteq> BTN_ONE_LENGTH_FLAG then size_of_count (nodeLength node) else 0)
           + nodeLength node) mod 65536)"

text \<open>What \<open>writeNode\<close> stores in front of the data.\<close>

definition write_header :: "index_node \<Rightarrow> bool \<Rightarrow> uchar list" where
  "write_header node leafNode =
     (let flags = internalFlags node;
          number = (if recordNumber node < 0 then 0 else recordNumber node);
          first = uchar_of (push_bit 5 (int flags) OR (number AND 0x1F))
      in if isEndLevel node then [first]
         else first # put7 4 0xFF (nat (drop_bit 5 number))
           @ (if \<not> leafNode then put7 4 0x0F (pageNumber node) else [])
           @ (if flags \<noteq> BTN_ZERO_PREFIX_ZERO_LENGTH_FLAG then put7 1 0x7F (nodePrefix node) else [])
           @ (if flags \<noteq> BTN_ZERO_PREFIX_ZERO_LENGTH_FLAG \<and> flags \<noteq> BTN_ZERO_LENGTH_FLAG \<and>
                flags \<noteq> BTN_ONE_LENGTH_FLAG then put7 1 0x7F (nodeLength node) else []))"

text \<open>
  \<open>writeNode\<close> on the bytes of a page, the node at \<open>p\<close>. Without data (\<open>withData\<close> false) the data
  already is in the page, at \<open>dataPos\<close>, and is moved behind the header before this is written.
  The result is the page and the position after the node.
\<close>

definition writeNode :: "uchar list \<Rightarrow> nat \<Rightarrow> index_node \<Rightarrow> bool \<Rightarrow> bool \<Rightarrow> nat \<Rightarrow> uchar list \<times> nat" where
  "writeNode page p node leafNode withData dataPos =
     (let page1 = (if \<not> withData
            then write_at page (p + (getNodeSize node leafNode - nodeLength node))
                   (take (nodeLength node) (drop dataPos page))
            else page);
          header = write_header node leafNode;
          page2 = write_at page1 p header;
          p2 = p + length header
      in if isEndLevel node then (page2, p2)
         else (if withData then write_at page2 p2 (take (nodeLength node) (data node)) else page2,
               p2 + nodeLength node))"

text \<open>
  \<open>readNode\<close> fills the fields of \<open>node\<close> from the bytes and returns the rest of them, \<open>None\<close>
  where it would read beyond their end. On a leaf page the page number is left as it was.
\<close>

definition readNode :: "index_node \<Rightarrow> bool \<Rightarrow> uchar list \<Rightarrow> (index_node \<times> uchar list) option" where
  "readNode node leafNode bytes =
     (case bytes of [] \<Rightarrow> None
      | b # r \<Rightarrow>
        let flags = drop_bit 5 (unat b AND 0xE0);
            node0 = node\<lparr>isEndLevel := (flags = BTN_END_LEVEL_FLAG),
                         isEndBucket := (flags = BTN_END_BUCKET_FLAG)\<rparr>
        in if flags = BTN_END_LEVEL_FLAG
           then Some (node0\<lparr>nodePrefix := 0, nodeLength := 0, recordNumber := 0, pageNumber := 0\<rparr>, r)
           else do {
             (number, r1) \<leftarrow> get7 4 0xFF 5 (unat b AND 0x1F) r;
             (page, r2) \<leftarrow> (if \<not> leafNode then get7 4 0x0F 0 0 r1
                              else Some (pageNumber node, r1));
             (prefx, r3) \<leftarrow> (if flags = BTN_ZERO_PREFIX_ZERO_LENGTH_FLAG then Some (0, r2)
                               else get7 1 0x7F 0 0 r2);
             (len, r4) \<leftarrow> (if flags = BTN_ZERO_LENGTH_FLAG \<or> flags = BTN_ZERO_PREFIX_ZERO_LENGTH_FLAG
                             then Some (0, r3)
                             else if flags = BTN_ONE_LENGTH_FLAG then Some (1, r3)
                             else get7 1 0x7F 0 0 r3);
             (if length r4 < len then None
              else Some (node0\<lparr>recordNumber := int number, pageNumber := page, nodePrefix := prefx,
                           nodeLength := len, data := take len r4\<rparr>, drop len r4))
           })"

subsection \<open>Round trips\<close>

text \<open>The nodes the engine writes.\<close>

definition node_ok :: "bool \<Rightarrow> index_node \<Rightarrow> bool" where
  "node_ok leafNode node \<longleftrightarrow>
     0 \<le> recordNumber node \<and> recordNumber node < 2 ^ 41 \<and> pageNumber node < 2 ^ 32 \<and>
     nodePrefix node < 2 ^ 14 \<and> nodeLength node < 2 ^ 14 \<and> length (data node) = nodeLength node \<and>
     \<not> (isEndBucket node \<and> isEndLevel node) \<and>
     (isEndLevel node \<longrightarrow> nodePrefix node = 0 \<and> nodeLength node = 0 \<and> pageNumber node = 0 \<and>
        recordNumber node = 0) \<and>
     (leafNode \<longrightarrow> pageNumber node = 0)"

definition new_node :: index_node where
  "new_node = \<lparr>nodePrefix = 0, nodeLength = 0, pageNumber = 0, data = [], recordNumber = 0,
     isEndBucket = False, isEndLevel = False\<rparr>"

definition node_bytes :: "bool \<Rightarrow> index_node \<Rightarrow> uchar list" where
  "node_bytes leafNode node = write_header node leafNode @ (if isEndLevel node then [] else data node)"

lemma internalFlags_le: "internalFlags node \<le> 5"
  by (simp add: internalFlags_def)

lemma or_shift5: "push_bit 5 (k::nat) OR (n AND 0x1F) = 32 * k + n mod 32"
proof -
  have m: "(0x1F::nat) = mask 5" by (simp add: mask_eq_exp_minus_1)
  have "push_bit 5 k OR (n AND mask 5) = push_bit 5 k + (n AND mask 5)"
    by (rule disjunctive_add [symmetric]) (auto simp: bit_simps)
  then show ?thesis
    unfolding m [symmetric] by (simp add: bits_arith push_bit_eq_mult)
qed

lemma first_byte:
  assumes "flags \<le> 7"
  shows "drop_bit 5 (unat (uchar_of (push_bit 5 (int flags) OR (int n AND 0x1F))) AND 0xE0) = flags"
    "unat (uchar_of (push_bit 5 (int flags) OR (int n AND 0x1F))) AND 0x1F = n AND 0x1F"
proof -
  define k where "k = 32 * flags + n mod 32"
  have "push_bit 5 (int flags) OR (int n AND 0x1F) = int (push_bit 5 flags OR (n AND 0x1F))"
    by (simp add: of_nat_or_eq of_nat_and_eq of_nat_push_bit)
  also have "\<dots> = int k" by (simp only: or_shift5 k_def)
  finally have "push_bit 5 (int flags) OR (int n AND 0x1F) = int k" .
  moreover have "k < 256" using assms by (simp add: k_def)
  ultimately have u: "unat (uchar_of (push_bit 5 (int flags) OR (int n AND 0x1F))) = 32 * flags + n mod 32"
    by (simp add: uchar_of_def unat_of_nat take_bit_nat_eq_self) (simp add: k_def)
  have "drop_bit 5 (0xE0::nat) = 7" by (simp add: drop_bit_eq_div)
  then show "drop_bit 5 (unat (uchar_of (push_bit 5 (int flags) OR (int n AND 0x1F))) AND 0xE0) = flags"
    unfolding u using assms by (simp only: drop_bit_and bits_arith) (simp add: drop_bit_eq_div)
  show "unat (uchar_of (push_bit 5 (int flags) OR (int n AND 0x1F))) AND 0x1F = n AND 0x1F"
    unfolding u by (simp add: bits_arith)
qed

lemma bits_join: "((n::nat) AND 0x1F) OR push_bit 5 (drop_bit 5 n) = n"
proof -
  have "push_bit 5 (drop_bit 5 n) OR (n AND 0x1F) = n"
    unfolding or_shift5 by (simp add: drop_bit_eq_div)
  then show ?thesis by (simp only: or.commute)
qed

lemma lm_masks: "(0xFF::nat) = mask 8" "(0x0F::nat) = mask 4" "(0x7F::nat) = mask 7"
  by (simp_all add: mask_eq_exp_minus_1)

lemma get_number: "n < 2 ^ 36 \<Longrightarrow> get7 4 0xFF s acc (put7 4 0xFF n @ r) = Some (acc OR push_bit s n, r)"
  unfolding lm_masks by (rule get7_put7) auto

lemma get_page: "n < 2 ^ 32 \<Longrightarrow> get7 4 0x0F 0 0 (put7 4 0x0F n @ r) = Some (n, r)"
  unfolding lm_masks by (subst get7_put7) auto

lemma get_count: "n < 2 ^ 14 \<Longrightarrow> get7 1 0x7F 0 0 (put7 1 0x7F n @ r) = Some (n, r)"
  unfolding lm_masks by (subst get7_put7) auto

text \<open>
  Reading fills every field of the node object, but for the page number on leaf pages and the
  data at the end of a level.
\<close>

lemma readNode_again:
  assumes "node_ok leafNode node"
  shows "readNode old leafNode (node_bytes leafNode node @ r) =
    Some (if isEndLevel node then node\<lparr>data := data old\<rparr>
          else if leafNode then node\<lparr>pageNumber := pageNumber old\<rparr> else node, r)"
proof -
  obtain n where n: "recordNumber node = int n" "n < 2 ^ 41"
    using assms by (metis node_ok_def nonneg_int_cases of_nat_less_numeral_power_cancel_iff)
  have d: "nat (drop_bit 5 (int n)) = drop_bit 5 n" by (simp add: drop_bit_eq_div nat_div_distrib)
  have lt: "drop_bit 5 n < 2 ^ 36" using n(2) by (simp add: drop_bit_eq_div)
  have f: "internalFlags node \<le> 7" using internalFlags_le [of node] by simp
  note fb = first_byte [OF f, of n]
  show ?thesis
  proof (cases "isEndLevel node")
    case True
    then show ?thesis
      using assms fb n by (cases node) (simp add: readNode_def node_bytes_def write_header_def Let_def
          node_ok_def internalFlags_def)
  next
    case False
    have ne: "internalFlags node \<noteq> BTN_END_LEVEL_FLAG"
      using False by (simp add: internalFlags_def)
    note gs = get_number [OF lt] get_page get_count
    have c: "(0::int) \<le> int n" "\<not> int n < 0" by simp_all
    have ok: "pageNumber node < 2 ^ 32" "nodePrefix node < 2 ^ 14" "nodeLength node < 2 ^ 14"
      "length (data node) = nodeLength node" "leafNode \<Longrightarrow> pageNumber node = 0"
      using assms by (auto simp: node_ok_def)
    have fl: "internalFlags node = BTN_END_BUCKET_FLAG \<longleftrightarrow> isEndBucket node"
      "internalFlags node = BTN_ZERO_PREFIX_ZERO_LENGTH_FLAG \<Longrightarrow> nodePrefix node = 0 \<and> nodeLength node = 0"
      "internalFlags node = BTN_ZERO_LENGTH_FLAG \<Longrightarrow> nodeLength node = 0"
      "internalFlags node = BTN_ONE_LENGTH_FLAG \<Longrightarrow> nodeLength node = 1"
      using False by (auto simp: internalFlags_def split: if_splits)
    define b where "b = uchar_of (push_bit 5 (int (internalFlags node)) OR (int n AND 0x1F))"
    have b: "drop_bit 5 (unat b AND 0xE0) = internalFlags node"
      "(unat b AND 0x1F) OR push_bit 5 (drop_bit 5 n) = n"
      using fb bits_join [of n] by (simp_all add: b_def)
    have bytes: "node_bytes leafNode node @ r = b # put7 4 0xFF (drop_bit 5 n) @
        (if \<not> leafNode then put7 4 0x0F (pageNumber node) else []) @
        (if internalFlags node \<noteq> BTN_ZERO_PREFIX_ZERO_LENGTH_FLAG then put7 1 0x7F (nodePrefix node) else []) @
        (if internalFlags node \<noteq> BTN_ZERO_PREFIX_ZERO_LENGTH_FLAG \<and> internalFlags node \<noteq> BTN_ZERO_LENGTH_FLAG \<and>
          internalFlags node \<noteq> BTN_ONE_LENGTH_FLAG then put7 1 0x7F (nodeLength node) else []) @ data node @ r"
      using False by (simp add: node_bytes_def write_header_def Let_def n(1) d b_def del: put7.simps)
    have "readNode old leafNode (node_bytes leafNode node @ r) =
       Some (old\<lparr>isEndLevel := False, isEndBucket := isEndBucket node, recordNumber := int n,
         pageNumber := (if leafNode then pageNumber old else pageNumber node), nodePrefix := nodePrefix node,
         nodeLength := nodeLength node, data := data node\<rparr>, r)"
      unfolding bytes readNode_def list.case Let_def b
      using fl ok ne False
      by (cases leafNode; cases "internalFlags node = BTN_ZERO_PREFIX_ZERO_LENGTH_FLAG";
         cases "internalFlags node = BTN_ZERO_LENGTH_FLAG"; cases "internalFlags node = BTN_ONE_LENGTH_FLAG")
       (simp_all add: gs b(2) del: One_nat_def put7.simps get7.simps, auto)
    then show ?thesis using n(1) False by (cases node) simp
  qed
qed

lemma readNode_bytes:
  assumes "node_ok leafNode node"
  shows "readNode new_node leafNode (node_bytes leafNode node @ r) = Some (node, r)"
  using readNode_again [OF assms, of new_node r] assms
  by (cases node) (auto simp: new_node_def node_ok_def)

subsection \<open>Sizes\<close>

lemma and_high:
  assumes "n < 2 ^ (b + c)"
  shows "(n::nat) AND push_bit b (mask c) = push_bit b (drop_bit b n)"
proof (rule bit_eqI)
  fix i
  have "\<not> bit n i" if "b + c \<le> i"
  proof -
    have "n < 2 ^ i" using assms that by (metis less_le_trans one_le_numeral power_increasing)
    then show ?thesis by (simp add: bit_iff_odd)
  qed
  then show "bit (n AND push_bit b (mask c)) i = bit (push_bit b (drop_bit b n)) i"
    by (cases "b + c \<le> i") (auto simp: bit_simps)
qed

lemma drop_bit_0: "drop_bit k (n::nat) = 0 \<longleftrightarrow> n < 2 ^ k"
  by (simp add: drop_bit_eq_div div_eq_0_iff)

lemma and_high_0:
  "n < 2 ^ (b + c) \<Longrightarrow> (n::nat) AND push_bit b (mask c) = 0 \<longleftrightarrow> n < 2 ^ b"
  by (simp add: and_high drop_bit_0)

lemma and_high_int_0:
  "n < 2 ^ (b + c) \<Longrightarrow> int n AND push_bit b (mask c) = 0 \<longleftrightarrow> n < 2 ^ b"
proof -
  assume "n < 2 ^ (b + c)"
  moreover have "int n AND push_bit b (mask c) = int (n AND push_bit b (mask c))"
    by (simp only: of_nat_and_eq of_nat_push_bit of_nat_mask_eq)
  ultimately show ?thesis by (simp only: and_high_0 of_nat_eq_0_iff)
qed

lemma size_masks:
  "(0xFFF0000000::int) = push_bit 28 (mask 12)" "(0xFFFFE00000::int) = push_bit 21 (mask 19)"
  "(0xFFFFFFC000::int) = push_bit 14 (mask 26)" "(0xFFFFFFFF80::int) = push_bit 7 (mask 33)"
  "(0xF0000000::nat) = push_bit 28 (mask 4)" "(0xFFE00000::nat) = push_bit 21 (mask 11)"
  "(0xFFFFC000::nat) = push_bit 14 (mask 18)" "(0xFFFFFF80::nat) = push_bit 7 (mask 25)"
  by (simp_all add: mask_eq_exp_minus_1 push_bit_eq_mult)

lemma length_put7_4:
  "length (put7 4 lm n) = (if n < 2 ^ 7 then 1 else if n < 2 ^ 14 then 2 else if n < 2 ^ 21 then 3
     else if n < 2 ^ 28 then 4 else 5)"
proof -
  have four: "(4::nat) = Suc (Suc (Suc (Suc 0)))" by simp
  show ?thesis unfolding four by (simp add: drop_bit_0 drop_bit_drop_bit)
qed

lemma length_put7_1: "length (put7 1 lm n) = (if n < 2 ^ 7 then 1 else 2)"
  by (simp add: drop_bit_0)

lemma size_of_number_put7:
  assumes "n < 2 ^ 40" shows "size_of_number (int n) = length (put7 4 lm n)"
  unfolding size_of_number_def size_masks length_put7_4
  using and_high_int_0 [of n 28 12] and_high_int_0 [of n 21 19] and_high_int_0 [of n 14 26]
    and_high_int_0 [of n 7 33] assms by simp

lemma size_of_page_put7:
  assumes "n < 2 ^ 32" shows "size_of_page n = length (put7 4 lm n)"
  unfolding size_of_page_def size_masks length_put7_4
  using and_high_0 [of n 28 4] and_high_0 [of n 21 11] and_high_0 [of n 14 18]
    and_high_0 [of n 7 25] assms by simp

lemma size_of_count_put7:
  assumes "n < 2 ^ 14" shows "size_of_count n = length (put7 1 lm n)"
  unfolding size_of_count_def size_masks length_put7_1
  using and_high_0 [of n 14 18] and_high_0 [of n 7 25] assms by simp

lemma getNodeSize_eq:
  assumes "node_ok leafNode node"
  shows "getNodeSize node leafNode = length (write_header node leafNode) + nodeLength node"
proof -
  obtain n where n: "recordNumber node = int n" "n < 2 ^ 41"
    using assms by (metis node_ok_def nonneg_int_cases of_nat_less_numeral_power_cancel_iff)
  have d: "drop_bit 5 (int n) = int (drop_bit 5 n)" by (simp add: drop_bit_eq_div of_nat_div)
  have nn: "(if int n < 0 then 0 else int n) = int n" by simp
  have lt: "drop_bit 5 n < 2 ^ 40" using n(2) by (simp add: drop_bit_eq_div)
  have ok: "pageNumber node < 2 ^ 32" "nodePrefix node < 2 ^ 14" "nodeLength node < 2 ^ 14"
    using assms by (auto simp: node_ok_def)
  note sz = size_of_number_put7 [OF lt, of 255] size_of_page_put7 [OF ok(1), of 15]
    size_of_count_put7 [OF ok(2), of 127] size_of_count_put7 [OF ok(3), of 127]
  have le: "length (put7 4 lm k) \<le> 5" "length (put7 1 lm k) \<le> 2" for k lm
    unfolding length_put7_4 length_put7_1 by auto
  show ?thesis
  proof (cases "isEndLevel node")
    case True
    then show ?thesis using assms
      by (simp add: getNodeSize_def write_header_def node_ok_def Let_def)
  next
    case False
    have split: "length (if P then xs else ([]::uchar list)) = (if P then length xs else 0)" for P xs
      by simp
    have le': "(if P then length (put7 4 lm k) else 0) \<le> 5" "(if P then length (put7 1 lm k) else 0) \<le> 2"
      for P lm k using le by auto
    have small: "a \<le> 5 \<Longrightarrow> b \<le> 5 \<Longrightarrow> c \<le> 2 \<Longrightarrow> e \<le> 2 \<Longrightarrow> l < 2 ^ 14 \<Longrightarrow> 1 + a + b + c + e + l < 65536"
      for a b c e l :: nat by simp
    have "length (write_header node leafNode) = 1 + length (put7 4 255 (drop_bit 5 n)) +
        (if \<not> leafNode then length (put7 4 15 (pageNumber node)) else 0) +
        (if internalFlags node \<noteq> BTN_ZERO_PREFIX_ZERO_LENGTH_FLAG then length (put7 1 127 (nodePrefix node)) else 0) +
        (if internalFlags node \<noteq> BTN_ZERO_PREFIX_ZERO_LENGTH_FLAG \<and> internalFlags node \<noteq> BTN_ZERO_LENGTH_FLAG \<and>
          internalFlags node \<noteq> BTN_ONE_LENGTH_FLAG then length (put7 1 127 (nodeLength node)) else 0)"
      (is "_ = ?h")
      unfolding write_header_def Let_def n(1) nn d nat_int if_not_P [OF False] length_append list.size split
      by (simp only: add.assoc add.commute [of _ "Suc 0"] add_0_left add_0_right One_nat_def)
    moreover have "?h + nodeLength node < 65536"
      by (rule small [OF le(1) le'(1) le'(2) le'(2) ok(3)])
    ultimately show ?thesis
      unfolding getNodeSize_def Let_def n(1) nn d sz if_not_P [OF False] by (simp only: mod_less)
  qed
qed


lemma length_node_bytes:
  assumes "node_ok leafNode node"
  shows "length (node_bytes leafNode node) = getNodeSize node leafNode"
  using assms getNodeSize_eq [OF assms] by (auto simp: node_bytes_def node_ok_def)

interpretation nodes: codec "node_bytes leaf" "readNode new_node leaf" "node_ok leaf" for leaf
  by unfold_locales (rule readNode_bytes)

subsection \<open>Nodes on a page\<close>

lemma write_at_append: "p + length xs + length ys \<le> length buf \<Longrightarrow>
  write_at (write_at buf p xs) (p + length xs) ys = write_at buf p (xs @ ys)"
  by (simp add: write_at_def ac_simps)

lemma drop_p_write_at: "p + length xs \<le> length buf \<Longrightarrow>
   drop p (write_at buf p xs) = xs @ drop (p + length xs) buf"
  by (simp add: write_at_def)

lemma writeNode_bytes:
  assumes "node_ok leafNode node" "p + getNodeSize node leafNode \<le> length page"
  shows "writeNode page p node leafNode True dataPos =
     (write_at page p (node_bytes leafNode node), p + getNodeSize node leafNode)"
  using assms getNodeSize_eq [OF assms(1)]
  by (simp add: writeNode_def Let_def node_bytes_def node_ok_def write_at_append)

text \<open>
  C13. What \<open>writeNode\<close> stores, \<open>readNode\<close> reads back: every node within the limits of the format
  (41 bits of record number, 32 of page number, 14 of prefix and length) takes
  exactly \<open>getNodeSize\<close> bytes of the page, the bytes around it stay as they were, and reading at
  its position gives the same node and stops where writing stopped.
\<close>

theorem writeNode_readNode:
  assumes "node_ok leafNode node" "p + getNodeSize node leafNode \<le> length page"
    and "writeNode page p node leafNode True dataPos = (page', p')"
  shows "p' = p + getNodeSize node leafNode \<and> length page' = length page \<and>
    take p page' = take p page \<and> drop p' page' = drop p' page \<and>
    readNode new_node leafNode (drop p page') = Some (node, drop p' page')"
proof -
  have w: "page' = write_at page p (node_bytes leafNode node)" "p' = p + getNodeSize node leafNode"
    using writeNode_bytes [OF assms(1,2)] assms(3) by auto
  have l: "p + length (node_bytes leafNode node) \<le> length page"
    using assms(2) length_node_bytes [OF assms(1)] by simp
  have "drop p' page' = drop p' page"
    using drop_write_at [OF l] w length_node_bytes [OF assms(1)] by simp
  moreover have "drop p page' = node_bytes leafNode node @ drop p' page"
    using drop_p_write_at [OF l] w length_node_bytes [OF assms(1)] by simp
  moreover have "take p page' = take p page"
    using l w by (simp add: write_at_def)
  ultimately show ?thesis
    using w l nodes.dec_enc [OF assms(1)] by simp
qed

theorem writeNode_readNode_witness:
  "fst (writeNode [0, 0, 0, 0, 0, 0, 0] 1 (setNode 3 1 300 0 False False new_node\<lparr>data := [65]\<rparr>)
     True True 0) = [0, uchar_of (5 * 32 + 12), 9, 3, 65, 0, 0] \<and>
   readNode new_node True [uchar_of (5 * 32 + 12), 9, 3, 65, 0, 0] =
     Some (setNode 3 1 300 0 False False new_node\<lparr>data := [65]\<rparr>, drop 5 [0, 0, 0, 0, 0, 0, 0])"
proof -
  let ?n = "setNode 3 1 300 0 False False new_node\<lparr>data := [65]\<rparr>"
  have ok: "node_ok True ?n" by (simp add: node_ok_def setNode_def new_node_def)
  have h: "write_header ?n True = [uchar_of (5 * 32 + 12), 9, 3]"
    using put7.simps(2) [of 3 255 9]
    by (simp add: write_header_def setNode_def new_node_def internalFlags_def bits_arith drop_bit_eq_div)
  have sz: "getNodeSize ?n True = 4"
    using getNodeSize_eq [OF ok] h by (simp add: setNode_def)
  have w: "writeNode [0, 0, 0, 0, 0, 0, 0] 1 ?n True True 0 =
      ([0, uchar_of (5 * 32 + 12), 9, 3, 65, 0, 0], 5)"
    using h by (simp add: writeNode_def sz Let_def write_at_def setNode_def new_node_def numeral_eq_Suc)
  show ?thesis
    using writeNode_readNode [OF ok _ w] sz w by simp
qed

text \<open>
  Rewriting a node in place (\<open>withData\<close> false) gives the same page as writing it with its
  data, wherever on the page the data was: the data is moved before the
  header, which may cover it, is written.
\<close>

theorem writeNode_without_data:
  assumes "node_ok leafNode node" "p + getNodeSize node leafNode \<le> length page"
    and "take (nodeLength node) (drop dataPos page) = data node"
  shows "writeNode page p node leafNode False dataPos = writeNode page p node leafNode True dataPos"
proof -
  have s: "getNodeSize node leafNode - nodeLength node = length (write_header node leafNode)"
    using getNodeSize_eq [OF assms(1)] by simp
  let ?h = "write_header node leafNode"
  have l: "length (data node) = nodeLength node" using assms(1) by (simp add: node_ok_def)
  have "write_at (write_at page (p + length ?h) (data node)) p ?h = write_at page p (?h @ data node)"
    using assms(2) getNodeSize_eq [OF assms(1)] l by (simp add: write_at_def add.assoc)
  moreover have "isEndLevel node \<Longrightarrow> data node = []"
    using assms(1) by (auto simp: node_ok_def)
  ultimately show ?thesis
    using assms(2) getNodeSize_eq [OF assms(1)] l
    by (simp add: writeNode_def Let_def s assms(3) write_at_append)
qed


theorem writeNode_without_data_witness:
  "writeNode [0, 65, 0, 0, 0, 0] 0 (setNode 3 1 300 0 False False new_node\<lparr>data := [65]\<rparr>) True False 1 =
   writeNode [0, 65, 0, 0, 0, 0] 0 (setNode 3 1 300 0 False False new_node\<lparr>data := [65]\<rparr>) True True 1"
proof (rule writeNode_without_data)
  let ?n = "setNode 3 1 300 0 False False new_node\<lparr>data := [65]\<rparr>"
  show ok: "node_ok True ?n" by (simp add: node_ok_def setNode_def new_node_def)
  have "length (write_header ?n True) \<le> 3"
    using put7.simps(2) [of 3 255 9]
    by (simp add: write_header_def setNode_def new_node_def internalFlags_def bits_arith drop_bit_eq_div)
  then show "0 + getNodeSize ?n True \<le> length [0, 65, 0, 0, 0, 0 :: uchar]"
    using getNodeSize_eq [OF ok] by (simp add: setNode_def)
qed (simp add: setNode_def)

subsection \<open>Jump nodes\<close>

record index_jump_node =
  jumpPrefix :: nat
  jumpLength :: nat
  jumpOffset :: ushort
  jumpData :: "uchar list"

definition getJumpNodeSize :: "index_jump_node \<Rightarrow> nat" where
  "getJumpNodeSize jn =
     ((if jumpPrefix jn AND 0xC000 \<noteq> 0 then 3 else if jumpPrefix jn AND 0xFF80 \<noteq> 0 then 2 else 1)
      + (if jumpLength jn AND 0xC000 \<noteq> 0 then 3 else if jumpLength jn AND 0xFF80 \<noteq> 0 then 2 else 1)
      + 2 + jumpLength jn) mod 65536"

definition writeJumpNode :: "index_jump_node \<Rightarrow> uchar list" where
  "writeJumpNode jn =
     put7 1 0x7F (jumpPrefix jn) @ put7 1 0x7F (jumpLength jn) @ put_short (jumpOffset jn) @
     take (jumpLength jn) (jumpData jn)"

definition readJumpNode :: "uchar list \<Rightarrow> (index_jump_node \<times> uchar list) option" where
  "readJumpNode bytes = do {
     (prefx, r1) \<leftarrow> get7 1 0x7F 0 0 bytes;
     (len, r2) \<leftarrow> get7 1 0x7F 0 0 r1;
     (off, r3) \<leftarrow> get_short r2;
     (if length r3 < len then None
      else Some (\<lparr>jumpPrefix = prefx, jumpLength = len, jumpOffset = off, jumpData = take len r3\<rparr>,
                 drop len r3))
   }"

definition jump_ok :: "index_jump_node \<Rightarrow> bool" where
  "jump_ok jn \<longleftrightarrow> jumpPrefix jn < 2 ^ 14 \<and> jumpLength jn < 2 ^ 14 \<and> length (jumpData jn) = jumpLength jn"

interpretation jumps: codec writeJumpNode readJumpNode jump_ok
  by unfold_locales (simp add: writeJumpNode_def readJumpNode_def jump_ok_def get_count
      del: put7.simps get7.simps One_nat_def)

lemma jump_masks: "(0xC000::nat) = push_bit 14 (mask 2)" "(0xFF80::nat) = push_bit 7 (mask 9)"
  by (simp_all add: mask_eq_exp_minus_1 push_bit_eq_mult)

lemma getJumpNodeSize_eq:
  assumes "jump_ok jn"
  shows "getJumpNodeSize jn = length (writeJumpNode jn)"
proof -
  have "(if n AND 0xC000 \<noteq> 0 then 3 else if n AND 0xFF80 \<noteq> 0 then 2 else 1) = length (put7 1 0x7F n)"
    if "n < 2 ^ 14" for n
    unfolding jump_masks length_put7_1 using and_high_0 [of n 14 2] and_high_0 [of n 7 9] that by simp
  moreover have "jumpPrefix jn < 2 ^ 14" "jumpLength jn < 2 ^ 14" "length (jumpData jn) = jumpLength jn"
    using assms by (simp_all add: jump_ok_def)
  ultimately show ?thesis
    unfolding getJumpNodeSize_def writeJumpNode_def by (simp add: length_put7_1 del: put7.simps One_nat_def)
qed

text \<open>
  C18. A jump table of any number of entries, written entry after entry, is read back whole, and
  every entry takes the size that \<open>getJumpNodeSize\<close> reserved for it.
\<close>

theorem jump_table_roundtrip:
  assumes "list_all jump_ok jns"
  shows "decode_many readJumpNode (length jns) (encode_many writeJumpNode jns @ r) = Some (jns, r) \<and>
    length (encode_many writeJumpNode jns) = sum_list (map getJumpNodeSize jns)"
proof -
  have "length (encode_many writeJumpNode jns) = sum_list (map getJumpNodeSize jns)"
    using assms by (induction jns) (simp_all add: encode_many_def getJumpNodeSize_eq)
  then show ?thesis using jumps.decode_encode_many [OF assms] by simp
qed

theorem jump_table_roundtrip_witness:
  "decode_many readJumpNode (length [\<lparr>jumpPrefix = 200, jumpLength = 1, jumpOffset = 77, jumpData = [9]\<rparr>])
     (encode_many writeJumpNode [\<lparr>jumpPrefix = 200, jumpLength = 1, jumpOffset = 77, jumpData = [9]\<rparr>] @ [5]) =
     Some ([\<lparr>jumpPrefix = 200, jumpLength = 1, jumpOffset = 77, jumpData = [9]\<rparr>], [5])"
  using jump_table_roundtrip [of "[\<lparr>jumpPrefix = 200, jumpLength = 1, jumpOffset = 77, jumpData = [9]\<rparr>]" "[5]"]
  by (simp add: jump_ok_def)


subsection \<open>Keys and prefixes\<close>

text \<open>The key of a node, given the key before it on the page.\<close>

definition node_key :: "uchar list \<Rightarrow> index_node \<Rightarrow> uchar list" where
  "node_key prevKey node = take (nodePrefix node) prevKey @ data node"

lemma computePrefix_le: "computePrefix a b \<le> length a" "computePrefix a b \<le> length b"
  using length_takeWhile_le [of "\<lambda>(a, b). a = b" "zip a b"] by (simp_all add: computePrefix_def)

lemma computePrefix_Cons: "computePrefix (a # as) (b # bs) = (if a = b then Suc (computePrefix as bs) else 0)"
  by (simp add: computePrefix_def)

lemma computePrefix_take: "take (computePrefix a b) a = take (computePrefix a b) b"
proof (induction a b rule: list_induct2')
  case (4 x xs y ys) then show ?case by (simp add: computePrefix_Cons)
qed (simp_all add: computePrefix_def)

lemma computePrefix_maximal:
  "take n a = take n b \<Longrightarrow> n \<le> length a \<Longrightarrow> n \<le> length b \<Longrightarrow> n \<le> computePrefix a b"
proof (induction a b arbitrary: n rule: list_induct2')
  case (4 x xs y ys) then show ?case by (cases n) (auto simp: computePrefix_Cons)
qed auto

text \<open>
  Prefix compression keeps the key and is the best possible, and \<open>keyEqual\<close> compares the whole key
  although it only looks at the bytes behind the prefix: for a search key that agrees with the
  page's key on the prefix, it holds exactly when the keys are equal.
\<close>

theorem prefix_compression:
  "node_key prev (setNode (computePrefix prev key) (length key - computePrefix prev key) recno page eb el
     node\<lparr>data := drop (computePrefix prev key) key\<rparr>) = key \<and>
   (\<exists>n. computePrefix prev key = n \<and> take n prev = take n key \<and>
     \<not> (n < length prev \<and> n < length key \<and> prev ! n = key ! n)) \<and>
   keyEqual (setNode (computePrefix prev key) (length key - computePrefix prev key) recno page eb el
     node\<lparr>data := drop (computePrefix prev key) key\<rparr>)
     (take (computePrefix prev key) key @ rest) = (take (computePrefix prev key) key @ rest = key)"
proof -
  let ?n = "computePrefix prev key"
  note le = computePrefix_le [where a = prev and b = key]
  have "\<not> (?n < length prev \<and> ?n < length key \<and> prev ! ?n = key ! ?n)"
  proof
    assume "?n < length prev \<and> ?n < length key \<and> prev ! ?n = key ! ?n"
    then have "take (Suc ?n) prev = take (Suc ?n) key" "Suc ?n \<le> length prev" "Suc ?n \<le> length key"
      using le computePrefix_take [of prev key] by (auto simp: take_Suc_conv_app_nth)
    then show False using computePrefix_maximal [of "Suc ?n" prev key] by simp
  qed
  moreover have "keyEqual (setNode ?n (length key - ?n) recno page eb el node\<lparr>data := drop ?n key\<rparr>)
     (take ?n key @ rest) = (take ?n key @ rest = key)"
  proof -
    have "key = take ?n key @ drop ?n key" by simp
    then have "take ?n key @ rest = key \<longleftrightarrow> rest = drop ?n key" by (metis same_append_eq)
    then show ?thesis
      using le(2) by (auto simp: keyEqual_def setNode_def min_absorb2)
  qed
  ultimately show ?thesis
    using computePrefix_take [of prev key] by (simp add: node_key_def setNode_def)
qed

subsection \<open>Finding the page of a record number among duplicates\<close>

lemma get7_shorter: "get7 k lm s n bytes = Some (v, r) \<Longrightarrow> length r < length bytes"
  by (induction k lm s n bytes rule: get7.induct) (force simp: Let_def split: if_splits)+

lemma if_None_Some: "(if P then None else Some x) = Some y \<longleftrightarrow> \<not> P \<and> x = y"
  by simp

lemma bind_shorter:
  "(if P then Some (c, bytes) else get7 k lm s n bytes) = Some (v, r) \<Longrightarrow> length r \<le> length bytes"
  "(if P then get7 k lm s n bytes else Some (c, bytes)) = Some (v, r) \<Longrightarrow> length r \<le> length bytes"
  "(if P then Some (c, bytes) else if Q then Some (d, bytes) else get7 k lm s n bytes) = Some (v, r) \<Longrightarrow>
    length r \<le> length bytes"
  using get7_shorter [of k lm s n bytes v r] by (auto split: if_splits simp del: get7.simps)

lemma readNode_shorter:
  assumes "readNode node leaf bytes = Some (node', r)"
  shows "length r < length bytes"
proof (cases bytes)
  case (Cons b bs)
  define flags where "flags = drop_bit 5 (unat b AND 0xE0)"
  note rd = assms [unfolded Cons readNode_def list.case Let_def, folded flags_def]
  show ?thesis
  proof (cases "flags = BTN_END_LEVEL_FLAG")
    case True
    then show ?thesis using rd Cons by simp
  next
    case False
    obtain number r1 page r2 prefx r3 len r4 where
      steps: "get7 4 0xFF 5 (unat b AND 0x1F) bs = Some (number, r1)"
        "(if \<not> leaf then get7 4 0x0F 0 0 r1 else Some (pageNumber node, r1)) = Some (page, r2)"
        "(if flags = BTN_ZERO_PREFIX_ZERO_LENGTH_FLAG then Some (0, r2) else get7 1 0x7F 0 0 r2) = Some (prefx, r3)"
        "(if flags = BTN_ZERO_LENGTH_FLAG \<or> flags = BTN_ZERO_PREFIX_ZERO_LENGTH_FLAG then Some (0, r3)
          else if flags = BTN_ONE_LENGTH_FLAG then Some (1, r3) else get7 1 0x7F 0 0 r3) = Some (len, r4)"
      and r: "r = drop len r4"
      using rd [unfolded if_not_P [OF False]]
      unfolding bind_eq_Some_conv prod.case_eq_if by (auto simp only: if_None_Some prod.inject fst_conv snd_conv)
    show ?thesis
      using get7_shorter [OF steps(1)] bind_shorter(2) [OF steps(2)] bind_shorter(1) [OF steps(3)]
        bind_shorter(3) [OF steps(4)] r Cons by simp
  qed
qed (use assms in \<open>simp add: readNode_def\<close>)

definition slong_of :: "nat \<Rightarrow> int" where
  "slong_of n = signed_take_bit 31 (int n)"

function find_duplicate :: "bool \<Rightarrow> index_node \<Rightarrow> uchar list \<Rightarrow> int \<Rightarrow> int \<Rightarrow> int option" where
  "find_duplicate leafPage node pointer previousNumber findRecordNumber =
     (if isEndBucket node then Some previousNumber
      else if findRecordNumber \<le> recordNumber node then Some previousNumber
      else case readNode node leafPage pointer of
          None \<Rightarrow> None
        | Some (node', pointer') \<Rightarrow>
            if isEndLevel node' \<or> nodeLength node' \<noteq> 0 \<or>
               nodePrefix node' \<noteq> nodeLength node + nodePrefix node
            then Some (slong_of (pageNumber node))
            else find_duplicate leafPage node' pointer' (slong_of (pageNumber node)) findRecordNumber)"
  by pat_completeness auto
termination
  by (relation "measure (\<lambda>(l, n, pointer, _). length pointer)") (auto dest: readNode_shorter)

declare find_duplicate.simps [simp del]

text \<open>\<open>pointer\<close> is the bytes of the page from the first duplicate on.\<close>

definition findPageInDuplicates :: "bool \<Rightarrow> uchar list \<Rightarrow> int \<Rightarrow> int \<Rightarrow> int option" where
  "findPageInDuplicates leafPage pointer previousNumber findRecordNumber =
     (case readNode new_node leafPage pointer of
        None \<Rightarrow> None
      | Some (node, pointer') \<Rightarrow>
          find_duplicate leafPage node pointer' previousNumber findRecordNumber)"



text \<open>
  The duplicates of \<open>node\<close>: nodes without data whose prefix is the whole key of the node.
\<close>

definition duplicates_of :: "index_node \<Rightarrow> index_node list \<Rightarrow> bool" where
  "duplicates_of node dups \<longleftrightarrow>
     list_all (\<lambda>n. node_ok False n \<and> \<not> isEndBucket n \<and> \<not> isEndLevel n \<and> nodeLength n = 0 \<and>
       nodePrefix n = nodeLength node + nodePrefix node) dups"

text \<open>A node that ends the duplicates of \<open>node\<close>.\<close>

definition ends_duplicates :: "index_node \<Rightarrow> index_node \<Rightarrow> bool" where
  "ends_duplicates node stop \<longleftrightarrow> node_ok False stop \<and>
     (isEndLevel stop \<or> isEndBucket stop \<or> nodeLength stop \<noteq> 0 \<or>
      nodePrefix stop \<noteq> nodeLength node + nodePrefix node)"

lemma find_duplicate_nodes:
  assumes "duplicates_of node dups" "ends_duplicates node stop"
    and "\<not> isEndBucket node" "\<not> isEndLevel node"
  shows "find_duplicate False node (encode_many (node_bytes False) dups @ node_bytes False stop @ r)
      prev recno =
    Some (last (prev # map (slong_of \<circ> pageNumber) (takeWhile (\<lambda>n. recordNumber n < recno) (node # dups))))"
  using assms
proof (induction dups arbitrary: node prev)
  case Nil
  then have "node_ok False stop" by (simp add: ends_duplicates_def)
  from readNode_again [OF this, of node r] Nil show ?case
    by (auto simp: encode_many_def find_duplicate.simps [of _ node] ends_duplicates_def
        find_duplicate.simps [of _ stop] split: if_splits)
next
  case (Cons n dups)
  then have ok: "node_ok False n" and n: "\<not> isEndBucket n" "\<not> isEndLevel n" "nodeLength n = 0"
      "nodePrefix n = nodeLength node + nodePrefix node"
    and d: "duplicates_of n dups" "ends_duplicates n stop"
    by (auto simp: duplicates_of_def ends_duplicates_def)
  let ?rest = "encode_many (node_bytes False) dups @ node_bytes False stop @ r"
  have e: "encode_many (node_bytes False) (n # dups) @ node_bytes False stop @ r = node_bytes False n @ ?rest"
    by (simp add: encode_many_def)
  show ?case
    unfolding e using readNode_again [OF ok, of node ?rest] n Cons.prems(3)
      Cons.IH [OF d n(1,2), of "slong_of (pageNumber node)"]
    by (simp add: find_duplicate.simps [of _ node])
qed

text \<open>
  C14. Among the duplicates of a key on a pointer page, whose record numbers ascend,
  \<open>findPageInDuplicates\<close> descends to the page of the last duplicate below the record number it looks
  for, and to the page passed in when there is none.
\<close>

theorem findPageInDuplicates_last:
  assumes "node_ok False node" "\<not> isEndBucket node" "\<not> isEndLevel node"
    and "duplicates_of node dups" "ends_duplicates node stop"
    and "sorted (map recordNumber (node # dups))"
  shows "findPageInDuplicates False
      (encode_many (node_bytes False) (node # dups) @ node_bytes False stop @ r) prev recno =
    Some (last (prev # map (slong_of \<circ> pageNumber) (filter (\<lambda>n. recordNumber n < recno) (node # dups))))"
proof -
  have "takeWhile (\<lambda>n. recordNumber n < recno) xs = filter (\<lambda>n. recordNumber n < recno) xs"
    if "sorted (map recordNumber xs)" for xs
    using that by (induction xs) (force simp: filter_empty_conv empty_filter_conv)+
  note tw = this [OF assms(6)]
  have "findPageInDuplicates False (encode_many (node_bytes False) (node # dups) @
      node_bytes False stop @ r) prev recno =
    find_duplicate False node (encode_many (node_bytes False) dups @ node_bytes False stop @ r) prev recno"
    using readNode_bytes [OF assms(1)] by (simp add: findPageInDuplicates_def encode_many_def)
  then show ?thesis
    unfolding find_duplicate_nodes [OF assms(4,5,2,3)] tw .
qed

theorem findPageInDuplicates_last_witness:
  "findPageInDuplicates False
     (encode_many (node_bytes False) (setNode 0 1 10 100 False False new_node\<lparr>data := [65]\<rparr> #
        [setNode 1 0 20 101 False False new_node]) @
      node_bytes False (setEndLevel new_node) @ []) 99 15 = Some 100"
proof -
  let ?n = "setNode 0 1 10 100 False False new_node\<lparr>data := [65]\<rparr>"
    and ?d = "[setNode 1 0 20 101 False False new_node]"
  have "findPageInDuplicates False (encode_many (node_bytes False) (?n # ?d) @
      node_bytes False (setEndLevel new_node) @ []) 99 15 =
    Some (last (99 # map (slong_of \<circ> pageNumber) (filter (\<lambda>n. recordNumber n < 15) (?n # ?d))))"
    by (rule findPageInDuplicates_last)
      (simp_all add: node_ok_def setNode_def setEndLevel_def new_node_def duplicates_of_def ends_duplicates_def)
  then show ?thesis
    by (simp add: setNode_def new_node_def slong_of_def signed_take_bit_int_eq_self)
qed

end
