(* ===== verification/TimeStamp.thy ===== *)
theory TimeStamp
  imports Prelude
begin

text \<open>
  Dates and times, \<open>src/common/classes/NoThrowTimeStamp.cpp\<close> and its header: the date is a day
  number counted from 17 November 1858, the time a count of 1/10000 seconds. C's \<open>/\<close> and \<open>%\<close>
  truncate towards zero and are \<open>sdiv\<close> and \<open>smod\<close> here; within the dates the
  engine accepts no operation leaves the range of its C type.
\<close>

subsection \<open>Constants and types\<close>

definition ISC_TIME_SECONDS_PRECISION :: int where [simp]: "ISC_TIME_SECONDS_PRECISION = 10000"
definition ISC_TIME_SECONDS_PRECISION_SCALE :: int where
  [simp]: "ISC_TIME_SECONDS_PRECISION_SCALE = -4"
definition MIN_DATE :: int where "MIN_DATE = -678575"
definition MAX_DATE :: int where "MAX_DATE = 2973483"
definition UNIX_DATE :: int where "UNIX_DATE = 40587"
definition GDS_EPOCH_START :: int where "GDS_EPOCH_START = 40617"
definition SECONDS_PER_DAY :: int where [simp]: "SECONDS_PER_DAY = 24 * 60 * 60"
definition ISC_TICKS_PER_DAY :: int where
  [simp]: "ISC_TICKS_PER_DAY = SECONDS_PER_DAY * ISC_TIME_SECONDS_PRECISION"
definition POW_10_TABLE :: "int list" where
  "POW_10_TABLE = [1, 10, 100, 1000, 10000, 100000, 1000000, 10000000, 100000000, 1000000000]"

record tm =
  tm_sec :: int
  tm_min :: int
  tm_hour :: int
  tm_mday :: int
  tm_mon :: int
  tm_year :: int
  tm_wday :: int
  tm_yday :: int

record isc_timestamp =
  timestamp_date :: int
  timestamp_time :: int

definition isLeapYear :: "int \<Rightarrow> bool" where
  "isLeapYear year \<longleftrightarrow>
     (year smod 4 = 0 \<and> year smod 100 \<noteq> 0) \<or> year smod 400 = 0"

subsection \<open>Dates\<close>

definition yday :: "tm \<Rightarrow> int" where
  "yday tms =
     (let month = tm_mon tms;
          year = tm_year tms + 1900;
          day = tm_mday tms - 1 + (214 * month + 3) sdiv 7
      in if month < 2 then day
         else if (year smod 4 = 0 \<and> year smod 100 \<noteq> 0) \<or> year smod 400 = 0 then day - 1
         else day - 2)"

definition decode_date :: "int \<Rightarrow> tm" where
  "decode_date nday =
     (let wday = (nday + 3) smod 7;
          nday1 = nday + (2400001 - 1721119);
          century = (4 * nday1 - 1) sdiv 146097;
          nday2 = 4 * nday1 - 1 - 146097 * century;
          day1 = nday2 sdiv 4;
          nday3 = (4 * day1 + 3) sdiv 1461;
          day2 = 4 * day1 + 3 - 1461 * nday3;
          day3 = (day2 + 4) sdiv 4;
          month = (5 * day3 - 3) sdiv 153;
          day4 = 5 * day3 - 3 - 153 * month;
          day = (day4 + 5) sdiv 5;
          year = 100 * century + nday3;
          tms = \<lparr>tm_sec = 0, tm_min = 0, tm_hour = 0, tm_mday = day,
            tm_mon = (if month < 10 then month + 3 else month - 9) - 1,
            tm_year = (if month < 10 then year else year + 1) - 1900,
            tm_wday = (if wday < 0 then wday + 7 else wday), tm_yday = 0\<rparr>
      in tms\<lparr>tm_yday := yday tms\<rparr>)"

definition encode_date :: "tm \<Rightarrow> int" where
  "encode_date tms =
     (let day = tm_mday tms;
          month = tm_mon tms + 1;
          year = tm_year tms + 1900;
          month' = (if month > 2 then month - 3 else month + 9);
          year' = (if month > 2 then year else year - 1);
          c = year' sdiv 100;
          ya = year' - 100 * c
      in (146097 * c) sdiv 4 + (1461 * ya) sdiv 4 + (153 * month' + 2) sdiv 5 + day
         + 1721119 - 2400001)"

definition isValidDate :: "int \<Rightarrow> bool" where
  "isValidDate ndate \<longleftrightarrow> MIN_DATE \<le> ndate \<and> ndate \<le> MAX_DATE"

subsection \<open>Times\<close>

text \<open>\<open>ISC_TIME\<close> is unsigned with 32 bits; a time is an integer from 0 below \<open>2 ^ 32\<close>.\<close>

definition decode_time :: "int \<Rightarrow> int \<times> int \<times> int \<times> int" where
  "decode_time ntime =
     (let ntime1 = ntime mod (3600 * ISC_TIME_SECONDS_PRECISION);
          ntime2 = ntime1 mod (60 * ISC_TIME_SECONDS_PRECISION)
      in (ntime div (3600 * ISC_TIME_SECONDS_PRECISION),
          ntime1 div (60 * ISC_TIME_SECONDS_PRECISION),
          ntime2 div ISC_TIME_SECONDS_PRECISION,
          ntime2 mod ISC_TIME_SECONDS_PRECISION))"

definition encode_time :: "int \<Rightarrow> int \<Rightarrow> int \<Rightarrow> int \<Rightarrow> int" where
  "encode_time hours minutes seconds fractions =
     (((hours * 60 + minutes) * 60 + seconds) * ISC_TIME_SECONDS_PRECISION + fractions) mod 2 ^ 32"

definition isValidTime :: "int \<Rightarrow> bool" where
  "isValidTime ntime \<longleftrightarrow> ntime < 24 * 3600 * ISC_TIME_SECONDS_PRECISION"

definition decode_timestamp :: "isc_timestamp \<Rightarrow> tm \<times> int" where
  "decode_timestamp ts =
     (let tms = decode_date (timestamp_date ts);
          (h, m, s, f) = decode_time (timestamp_time ts)
      in (tms\<lparr>tm_hour := h, tm_min := m, tm_sec := s\<rparr>, f))"

definition encode_timestamp :: "tm \<Rightarrow> int \<Rightarrow> isc_timestamp" where
  "encode_timestamp tms fractions =
     \<lparr>timestamp_date = encode_date tms,
      timestamp_time = encode_time (tm_hour tms) (tm_min tms) (tm_sec tms) fractions\<rparr>"

definition isValidTimeStamp :: "isc_timestamp \<Rightarrow> bool" where
  "isValidTimeStamp ts \<longleftrightarrow> isValidDate (timestamp_date ts) \<and> isValidTime (timestamp_time ts)"

text \<open>
  \<open>add10msec\<close>: the day and second parts are narrowed to \<open>int\<close>, the unsigned time wraps.
\<close>

definition add10msec :: "isc_timestamp \<Rightarrow> int \<Rightarrow> int \<Rightarrow> isc_timestamp" where
  "add10msec v msec multiplier =
     (let full = msec * multiplier;
          days = signed_take_bit 31 (full sdiv (SECONDS_PER_DAY * ISC_TIME_SECONDS_PRECISION));
          secs = signed_take_bit 31 (full smod (SECONDS_PER_DAY * ISC_TIME_SECONDS_PRECISION));
          date = timestamp_date v + days;
          time = timestamp_time v;
          day = SECONDS_PER_DAY * ISC_TIME_SECONDS_PRECISION
      in if secs < 0 \<and> - secs > time
         then \<lparr>timestamp_date = date - 1, timestamp_time = (time + (day + secs)) mod 2 ^ 32\<rparr>
         else let time' = (time + secs) mod 2 ^ 32
              in if day \<le> time'
                 then \<lparr>timestamp_date = date + 1, timestamp_time = (time' - day) mod 2 ^ 32\<rparr>
                 else \<lparr>timestamp_date = date, timestamp_time = time'\<rparr>)"

definition round_time :: "int \<Rightarrow> int \<Rightarrow> int" where
  "round_time ntime precision =
     (let scale = - ISC_TIME_SECONDS_PRECISION_SCALE - precision
      in if scale \<le> 0 then ntime
         else ntime - ntime mod (POW_10_TABLE ! nat scale))"

definition timeStampToTicks :: "isc_timestamp \<Rightarrow> int" where
  "timeStampToTicks ts = (timestamp_date ts - MIN_DATE) * ISC_TICKS_PER_DAY + timestamp_time ts"

definition ticksToTimeStamp :: "int \<Rightarrow> isc_timestamp" where
  "ticksToTimeStamp ticks =
     \<lparr>timestamp_date = ticks sdiv ISC_TICKS_PER_DAY + MIN_DATE,
      timestamp_time = (ticks smod ISC_TICKS_PER_DAY) mod 2 ^ 32\<rparr>"

subsection \<open>Weeks and Julian days\<close>

definition convertGregorianDateToWeekDate :: "tm \<Rightarrow> int" where
  "convertGregorianDateToWeekDate tms =
     (let y = tm_year tms + 1900;
          dayOfYearNumber = tm_yday tms + 1;
          yy = (y - 1) smod 100;
          c = (y - 1) - yy;
          g = yy + yy sdiv 4;
          jan1Weekday = 1 + ((((c sdiv 100) smod 4) * 5) + g) smod 7;
          h = dayOfYearNumber + (jan1Weekday - 1);
          weekday = 1 + ((h - 1) smod 7);
          i = (if isLeapYear y then 366 else 365);
          (yearNumber, weekNumber) =
            (if dayOfYearNumber \<le> 8 - jan1Weekday \<and> jan1Weekday > 4
             then (y - 1, if jan1Weekday = 5 \<or> (jan1Weekday = 6 \<and> isLeapYear (y - 1)) then 53 else 52)
             else if i - dayOfYearNumber < 4 - weekday then (y + 1, 1)
             else (y, 0))
      in if yearNumber = y
         then let j = dayOfYearNumber + (7 - weekday) + (jan1Weekday - 1)
              in if jan1Weekday > 4 then j sdiv 7 - 1 else j sdiv 7
         else weekNumber)"

definition convertGregorianDateToJulianDate :: "int \<Rightarrow> int \<Rightarrow> int \<Rightarrow> int" where
  "convertGregorianDateToJulianDate year month day =
     (1461 * (year + 4800 + (month - 14) sdiv 12)) sdiv 4
     + (367 * (month - 2 - 12 * ((month - 14) sdiv 12))) sdiv 12
     - (3 * ((year + 4900 + (month - 14) sdiv 12) sdiv 100)) sdiv 4 + day - 32075"

definition convertJulianDateToGregorianDate :: "int \<Rightarrow> int \<times> int \<times> int" where
  "convertJulianDateToGregorianDate jdn =
     (let a = jdn + 32044;
          b = (4 * a + 3) sdiv 146097;
          c = a - (146097 * b) sdiv 4;
          d = (4 * c + 3) sdiv 1461;
          e = c - (1461 * d) sdiv 4;
          m = (5 * e + 2) sdiv 153
      in (100 * b + d - 4800 + m sdiv 10, m + 3 - 12 * (m sdiv 10), e - (153 * m + 2) sdiv 5 + 1))"

subsection \<open>The calendar\<close>

text \<open>Truncating division where nothing is negative.\<close>

lemma sdiv_nonneg: "0 \<le> a \<Longrightarrow> 0 < b \<Longrightarrow> (a::int) sdiv b = a div b"
  by (simp add: signed_divide_int_def sgn_if)

lemma smod_nonneg: "0 \<le> a \<Longrightarrow> 0 < b \<Longrightarrow> (a::int) smod b = a mod b"
  by (cases "a = 0") (simp_all add: signed_modulo_int_def)

text \<open>The Gregorian calendar: months have their usual lengths.\<close>

definition month_days :: "int \<Rightarrow> int \<Rightarrow> int" where
  "month_days year mon =
     (if mon = 1 then if isLeapYear year then 29 else 28
      else if mon \<in> {3, 5, 8, 10} then 30 else 31)"

definition valid_date :: "tm \<Rightarrow> bool" where
  "valid_date t \<longleftrightarrow> 1 \<le> tm_year t + 1900 \<and> tm_year t + 1900 \<le> 9999 \<and>
     0 \<le> tm_mon t \<and> tm_mon t \<le> 11 \<and>
     1 \<le> tm_mday t \<and> tm_mday t \<le> month_days (tm_year t + 1900) (tm_mon t)"

lemma month_part:
  assumes "0 \<le> (m::int)" "m \<le> 11" "1 \<le> d"
    "d \<le> (if m = 11 then 29 else if m \<in> {1, 3, 6, 8} then 30 else 31)"
  shows "(5 * ((153 * m + 2) div 5 + d) - 3) div 153 = m"
    "((5 * ((153 * m + 2) div 5 + d) - 3) mod 153 + 5) div 5 = d"
proof -
  define s where "s = (153 * m + 2) mod 5"
  have s0: "0 \<le> s" "s \<le> 4" by (auto simp: s_def)
  have "m = 0 \<or> m = 1 \<or> m = 2 \<or> m = 3 \<or> m = 4 \<or> m = 5 \<or> m = 6 \<or> m = 7 \<or> m = 8 \<or> m = 9 \<or> m = 10 \<or> m = 11"
    using assms(1,2) by presburger
  then have s: "d \<le> 30 \<or> d = 31 \<and> 2 \<le> s"
    using assms(4) by (auto simp: s_def)
  have e: "5 * ((153 * m + 2) div 5 + d) - 3 = 153 * m + (5 * d - 1 - s)"
    using minus_mod_eq_mult_div [of "153 * m + 2" 5] by (simp add: s_def [symmetric])
  have r: "0 \<le> 5 * d - 1 - s" "5 * d - 1 - s < 153" using s s0 assms(3) by auto
  show "(5 * ((153 * m + 2) div 5 + d) - 3) div 153 = m"
    unfolding e by (rule int_div_pos_eq [OF refl r])
  have "(5 * ((153 * m + 2) div 5 + d) - 3) mod 153 = 5 * d - 1 - s"
    unfolding e by (rule int_mod_pos_eq [OF refl r])
  moreover have "(5 * d - 1 - s + 5) div 5 = d"
    by (rule int_div_pos_eq [of _ _ _ "4 - s"]) (use s0 in auto)
  ultimately show "((5 * ((153 * m + 2) div 5 + d) - 3) mod 153 + 5) div 5 = d" by simp
qed

lemma year_part:
  assumes "0 \<le> (ya::int)" "1 \<le> D" "D \<le> (if ya mod 4 = 3 then 366 else 365)"
  shows "(4 * ((1461 * ya) div 4 + D - 1) + 3) div 1461 = ya"
    "((4 * ((1461 * ya) div 4 + D - 1) + 3) mod 1461 + 4) div 4 = D"
proof -
  define s where "s = ya mod 4"
  have s: "0 \<le> s" "s \<le> 3" "D \<le> 365 \<or> s = 3 \<and> D \<le> 366"
    using assms(3) by (auto simp: s_def split: if_splits)
  have "(1461 * ya) mod 4 = s"
    using mod_mult_self2 [of ya 4 "365 * ya"] by (simp add: s_def)
  then have e: "4 * ((1461 * ya) div 4 + D - 1) + 3 = 1461 * ya + (4 * D - 1 - s)"
    using mult_div_mod_eq [of 4 "1461 * ya"] by simp
  have r: "0 \<le> 4 * D - 1 - s" "4 * D - 1 - s < 1461" using s assms(2) by auto
  show "(4 * ((1461 * ya) div 4 + D - 1) + 3) div 1461 = ya"
    unfolding e by (rule int_div_pos_eq [OF refl r])
  have "(4 * ((1461 * ya) div 4 + D - 1) + 3) mod 1461 = 4 * D - 1 - s"
    unfolding e by (rule int_mod_pos_eq [OF refl r])
  moreover have "(4 * D - 1 - s + 4) div 4 = D"
    by (rule int_div_pos_eq [of _ _ _ "3 - s"]) (use s in auto)
  ultimately show "((4 * ((1461 * ya) div 4 + D - 1) + 3) mod 1461 + 4) div 4 = D" by simp
qed

lemma century_part:
  assumes "0 \<le> d1" "d1 \<le> (if c mod 4 = 3 then 36524 else 36523)"
  shows "(4 * ((146097 * c) div 4 + d1 + 1) - 1) div 146097 = (c::int)"
    "((4 * ((146097 * c) div 4 + d1 + 1) - 1) mod 146097) div 4 = d1"
proof -
  define s where "s = c mod 4"
  have s: "0 \<le> s" "s \<le> 3" "d1 \<le> 36523 \<or> s = 3 \<and> d1 \<le> 36524"
    using assms(2) by (auto simp: s_def split: if_splits)
  have "(146097 * c) mod 4 = s"
    using mod_mult_self2 [of c 4 "36524 * c"] by (simp add: s_def)
  then have e: "4 * ((146097 * c) div 4 + d1 + 1) - 1 = 146097 * c + (4 * d1 + 3 - s)"
    using mult_div_mod_eq [of 4 "146097 * c"] by simp
  have r: "0 \<le> 4 * d1 + 3 - s" "4 * d1 + 3 - s < 146097" using s assms(1) by auto
  show "(4 * ((146097 * c) div 4 + d1 + 1) - 1) div 146097 = c"
    unfolding e by (rule int_div_pos_eq [OF refl r])
  have "(4 * ((146097 * c) div 4 + d1 + 1) - 1) mod 146097 = 4 * d1 + 3 - s"
    unfolding e by (rule int_mod_pos_eq [OF refl r])
  moreover have "(4 * d1 + 3 - s) div 4 = d1"
    by (rule int_div_pos_eq [of _ _ _ "3 - s"]) (use s in auto)
  ultimately show "((4 * ((146097 * c) div 4 + d1 + 1) - 1) mod 146097) div 4 = d1" by simp
qed

text \<open>
  Both conversions count the years from March on: \<open>shift\<close> gives month, year in its century and
  century, \<open>ordinal\<close> the number of a day.
\<close>

definition march_month :: "tm \<Rightarrow> int" where
  "march_month t = (if tm_mon t < 2 then tm_mon t + 10 else tm_mon t - 2)"

definition march_year :: "tm \<Rightarrow> int" where
  "march_year t = (if tm_mon t < 2 then tm_year t + 1899 else tm_year t + 1900)"

lemma isLeapYear_pos: "0 \<le> y \<Longrightarrow> isLeapYear y \<longleftrightarrow> (y mod 4 = 0 \<and> y mod 100 \<noteq> 0) \<or> y mod 400 = 0"
  by (simp add: isLeapYear_def smod_nonneg)

lemma encode_date_march:
  assumes "0 \<le> march_year t" "0 \<le> tm_mon t"
  shows "encode_date t = (146097 * (march_year t div 100)) div 4 + (1461 * (march_year t mod 100)) div 4 +
    (153 * march_month t + 2) div 5 + tm_mday t - 678882"
proof -
  have y: "0 \<le> march_year t" and m: "0 \<le> march_month t"
    using assms by (auto simp: march_month_def)
  have "march_year t - 100 * (march_year t div 100) = march_year t mod 100"
    by (simp add: minus_mult_div_eq_mod)
  moreover have "(if tm_mon t + 1 > 2 then tm_mon t + 1 - 3 else tm_mon t + 1 + 9) = march_month t"
    "(if tm_mon t + 1 > 2 then tm_year t + 1900 else tm_year t + 1900 - 1) = march_year t"
    by (auto simp: march_month_def march_year_def)
  ultimately show ?thesis
    using y m unfolding encode_date_def Let_def
    by (simp add: sdiv_nonneg div_int_pos_iff)
qed

text \<open>The days that precede January 1 of a year in the Gregorian calendar, from year 1 on.\<close>

definition days_before_year :: "int \<Rightarrow> int" where
  "days_before_year y = 365 * (y - 1) + (y - 1) div 4 - (y - 1) div 100 + (y - 1) div 400"

definition days_before_month :: "int \<Rightarrow> int \<Rightarrow> int" where
  "days_before_month y mon = sum_list (map (\<lambda>i. month_days y (int i)) [0..<nat mon])"

lemma div_step:
  assumes "0 < k"
  shows "(y::int) div k = (y - 1) div k + (if y mod k = 0 then 1 else 0)"
proof -
  have y: "y = k * (y div k) + y mod k" by simp
  have r: "0 \<le> y mod k" "y mod k < k" using assms by auto
  show ?thesis
  proof (cases "y mod k = 0")
    case True
    have "(y - 1) div k = y div k - 1"
      by (rule int_div_pos_eq [of _ _ _ "k - 1"]) (use y True assms in \<open>simp_all add: algebra_simps\<close>)
    then show ?thesis using True by simp
  next
    case False
    have "(y - 1) div k = y div k"
      by (rule int_div_pos_eq [of _ _ _ "y mod k - 1"]) (use y r False in auto)
    then show ?thesis using False by simp
  qed
qed

lemma leap_arith:
  "(Q \<longrightarrow> P) \<Longrightarrow> (R \<longrightarrow> Q) \<Longrightarrow>
   365 * y + (a + (if P then 1 else 0)) - (b + (if Q then 1 else 0)) + (c + (if R then 1 else (0::int))) =
   365 * (y - 1) + a - b + c + (if P \<and> \<not> Q \<or> R then 366 else 365)"
  by auto

lemma days_before_year_Suc:
  assumes "0 \<le> y"
  shows "days_before_year (y + 1) = days_before_year y + (if isLeapYear y then 366 else 365)"
proof -
  have m: "y mod 100 = 0 \<longrightarrow> y mod 4 = 0" "y mod 400 = 0 \<longrightarrow> y mod 100 = 0"
    using mod_mod_cancel [of 4 100 y] mod_mod_cancel [of 100 400 y] by auto
  have "days_before_year (y + 1) = 365 * y + y div 4 - y div 100 + y div 400"
    by (simp only: days_before_year_def add_diff_cancel_right')
  also have "\<dots> = 365 * y + ((y - 1) div 4 + (if y mod 4 = 0 then 1 else 0)) -
      ((y - 1) div 100 + (if y mod 100 = 0 then 1 else 0)) + ((y - 1) div 400 + (if y mod 400 = 0 then 1 else 0))"
    by (simp only: div_step [of 4 y] div_step [of 100 y] div_step [of 400 y] zero_less_numeral)
  also have "\<dots> = days_before_year y + (if isLeapYear y then 366 else 365)"
    unfolding leap_arith [OF m] days_before_year_def isLeapYear_pos [OF assms] by (simp only:)
  finally show ?thesis .
qed

lemma century_days:
  "(146097 * (y div 100)) div 4 + (1461 * (y mod 100)) div 4 = days_before_year (y + 1)"
proof -
  define c where "c = y div 100"
  define a where "a = y mod 100"
  have y: "y = 100 * c + a" by (simp add: c_def a_def)
  have a: "0 \<le> a" "a < 100" by (simp_all add: a_def)
  have 1: "(146097 * c) div 4 = 36524 * c + c div 4"
    using div_mult_self2 [of 4 c "36524 * c"] by simp
  have 2: "(1461 * a) div 4 = 365 * a + a div 4"
    using div_mult_self2 [of 4 a "365 * a"] by simp
  have 3: "y div 4 = 25 * c + a div 4"
    using div_mult_self2 [of 4 a "25 * c"] by (simp add: y)
  have 4: "y div 400 = c div 4"
    using zdiv_zmult2_eq [of 4 y 100] by (simp add: c_def)
  have "(146097 * c) div 4 + (1461 * a) div 4 = 365 * (100 * c + a) + (25 * c + a div 4) - c + c div 4"
    unfolding 1 2 by (simp only: distrib_left mult.assoc [symmetric])
  then show ?thesis
    by (simp only: days_before_year_def add_diff_cancel_right' 3 4 c_def [symmetric] a_def [symmetric] y [symmetric])
qed

lemma months_cases:
  "0 \<le> (m::int) \<Longrightarrow> m \<le> 11 \<Longrightarrow> m = 0 \<or> m = 1 \<or> m = 2 \<or> m = 3 \<or> m = 4 \<or> m = 5 \<or> m = 6 \<or>
    m = 7 \<or> m = 8 \<or> m = 9 \<or> m = 10 \<or> m = 11"
  by presburger

lemma days_before_month_march:
  assumes "0 \<le> mon" "mon \<le> 11"
  shows "days_before_month y mon =
    (if mon < 2 then (153 * (mon + 10) + 2) div 5 - 306
     else (153 * (mon - 2) + 2) div 5 + 59 + (if isLeapYear y then 1 else 0))"
  using months_cases [OF assms]
  by (elim disjE) (simp_all add: days_before_month_def month_days_def upt_conv_Cons)


text \<open>The number of a day, in the calendar.\<close>

definition day_number :: "tm \<Rightarrow> int" where
  "day_number t = MIN_DATE + days_before_year (tm_year t + 1900) +
     days_before_month (tm_year t + 1900) (tm_mon t) + (tm_mday t - 1)"

lemma valid_date_simps:
  assumes "valid_date t"
  shows "0 \<le> tm_year t + 1899" "0 \<le> tm_mon t" "tm_mon t \<le> 11" "1 \<le> tm_mday t"
    "tm_mday t \<le> month_days (tm_year t + 1900) (tm_mon t)"
  using assms by (auto simp: valid_date_def)

lemma encode_date_day_number:
  assumes v: "0 \<le> march_year t" "0 \<le> tm_mon t" "tm_mon t \<le> 11"
  shows "encode_date t = day_number t"
proof -
  define Y where "Y = tm_year t + 1900"
  have Y: "0 \<le> Y" "march_year t = (if tm_mon t < 2 then Y - 1 else Y)"
    using v(1) by (auto simp: Y_def march_year_def split: if_splits)
  have e: "encode_date t = days_before_year (march_year t + 1) + (153 * march_month t + 2) div 5 +
      tm_mday t - 678882"
    using encode_date_march [OF v(1,2)] century_days [of "march_year t"] by simp
  show ?thesis
    unfolding e day_number_def days_before_month_march [OF v(2,3)] Y(2) Y_def [symmetric]
    using days_before_year_Suc [OF Y(1)] by (simp add: march_month_def MIN_DATE_def)
qed

lemma yday_days:
  assumes "valid_date t"
  shows "yday t = days_before_month (tm_year t + 1900) (tm_mon t) + (tm_mday t - 1)"
proof -
  note v = valid_date_simps [OF assms]
  have l: "((tm_year t + 1900) smod 4 = 0 \<and> (tm_year t + 1900) smod 100 \<noteq> 0) \<or>
      (tm_year t + 1900) smod 400 = 0 \<longleftrightarrow> isLeapYear (tm_year t + 1900)"
    by (simp add: isLeapYear_def)
  show ?thesis
    unfolding yday_def Let_def l days_before_month_march [OF v(2,3)] using months_cases [OF v(2,3)]
    by (elim disjE) (simp_all add: sdiv_nonneg)
qed

text \<open>Undoing a scaled division.\<close>

lemma scaled_div:
  assumes "0 < (a::int)" "0 < b" "0 \<le> e" "e < a" "X = a * P + (a - 1 - e)"
  shows "(b * (X div b) + e) div a + (X mod b) div a = P"
proof -
  define u where "u = (X mod b) mod a"
  have u: "0 \<le> u" "u < a" using assms(1) by (simp_all add: u_def)
  have "X mod b = a * ((X mod b) div a) + u" by (simp add: u_def)
  then have "b * (X div b) + e = a * (P - (X mod b) div a) + (a - 1 - u)"
    unfolding right_diff_distrib using assms(5) mult_div_mod_eq [of b X] by linarith
  then have "(b * (X div b) + e) div a = P - (X mod b) div a"
    by (rule int_div_pos_eq) (use u in auto)
  then show ?thesis by simp
qed

lemma decode_bounds:
  assumes "1 \<le> n + (678882::int)"
    and c: "c = (4 * (n + 678882) - 1) div 146097" and d1: "d1 = ((4 * (n + 678882) - 1) mod 146097) div 4"
    and ya: "ya = (4 * d1 + 3) div 1461" and D: "D = ((4 * d1 + 3) mod 1461 + 4) div 4"
    and m: "m = (5 * D - 3) div 153" and d: "d = ((5 * D - 3) mod 153 + 5) div 5"
  shows "0 \<le> c" "0 \<le> d1" "d1 \<le> 36524" "0 \<le> ya" "ya \<le> 99" "1 \<le> D" "D \<le> 366" "0 \<le> m" "m \<le> 11" "1 \<le> d"
proof -
  have r: "0 \<le> (4 * (n + 678882) - 1) mod 146097" "(4 * (n + 678882) - 1) mod 146097 < 146097" by simp_all
  show "0 \<le> c" using assms(1) unfolding c by (intro pos_imp_zdiv_nonneg_iff [THEN iffD2]) auto
  show d10: "0 \<le> d1" using r unfolding d1 by (intro pos_imp_zdiv_nonneg_iff [THEN iffD2]) auto
  have "d1 \<le> 146096 div 4" unfolding d1 by (rule zdiv_mono1) (use r in auto)
  then show d11: "d1 \<le> 36524" by simp
  show "0 \<le> ya" using d10 unfolding ya by (intro pos_imp_zdiv_nonneg_iff [THEN iffD2]) auto
  have "ya \<le> (4 * 36524 + 3) div 1461" unfolding ya by (rule zdiv_mono1) (use d11 in auto)
  then show "ya \<le> 99" by simp
  have r2: "0 \<le> (4 * d1 + 3) mod 1461" "(4 * d1 + 3) mod 1461 < 1461" by simp_all
  have "4 div 4 \<le> D" unfolding D by (rule zdiv_mono1) (use r2 in auto)
  then show D1: "1 \<le> D" by simp
  have "D \<le> 1464 div 4" unfolding D by (rule zdiv_mono1) (use r2 in auto)
  then show D2: "D \<le> 366" by simp
  show "0 \<le> m" using D1 unfolding m by (intro pos_imp_zdiv_nonneg_iff [THEN iffD2]) auto
  have "m \<le> (5 * 366 - 3) div 153" unfolding m by (rule zdiv_mono1) (use D2 in auto)
  then show m2: "m \<le> 11" by simp
  have r3: "0 \<le> (5 * D - 3) mod 153" by simp
  have "5 div 5 \<le> d" unfolding d by (rule zdiv_mono1) (use r3 in auto)
  then show "1 \<le> d" by simp
qed

lemma decode_date_eq:
  assumes "1 \<le> n + (678882::int)"
    and c: "c = (4 * (n + 678882) - 1) div 146097" and d1: "d1 = ((4 * (n + 678882) - 1) mod 146097) div 4"
    and ya: "ya = (4 * d1 + 3) div 1461" and D: "D = ((4 * d1 + 3) mod 1461 + 4) div 4"
    and m: "m = (5 * D - 3) div 153" and d: "d = ((5 * D - 3) mod 153 + 5) div 5"
  shows "tm_mday (decode_date n) = d" "tm_mon (decode_date n) = (if m < 10 then m + 2 else m - 10)"
    "tm_year (decode_date n) = 100 * c + ya - (if m < 10 then 1900 else 1899)"
    "tm_yday (decode_date n) = yday (decode_date n)"
proof -
  note b = decode_bounds [OF assms]
  have 1: "(4 * (n + (2400001 - 1721119)) - 1) sdiv 146097 = c"
    using assms(1) c by (simp add: sdiv_nonneg)
  have 2: "4 * (n + (2400001 - 1721119)) - 1 - 146097 * c = (4 * (n + 678882) - 1) mod 146097"
    using minus_mult_div_eq_mod [of "4 * (n + 678882) - 1" 146097] by (simp add: c)
  have 3: "((4 * (n + 678882) - 1) mod 146097) sdiv 4 = d1"
    by (simp add: sdiv_nonneg d1)
  have 4: "(4 * d1 + 3) sdiv 1461 = ya" using b by (simp add: sdiv_nonneg ya)
  have 5: "4 * d1 + 3 - 1461 * ya = (4 * d1 + 3) mod 1461"
    by (simp add: ya minus_mult_div_eq_mod)
  have 6: "((4 * d1 + 3) mod 1461 + 4) sdiv 4 = D"
    unfolding D by (rule sdiv_nonneg) (auto intro: add_nonneg_nonneg)
  have 7: "(5 * D - 3) sdiv 153 = m" using b by (simp add: sdiv_nonneg m)
  have 8: "5 * D - 3 - 153 * m = (5 * D - 3) mod 153"
    by (simp add: m minus_mult_div_eq_mod)
  have 9: "((5 * D - 3) mod 153 + 5) sdiv 5 = d"
    unfolding d by (rule sdiv_nonneg) (auto intro: add_nonneg_nonneg)
  show "tm_mday (decode_date n) = d" "tm_mon (decode_date n) = (if m < 10 then m + 2 else m - 10)"
    "tm_year (decode_date n) = 100 * c + ya - (if m < 10 then 1900 else 1899)"
    "tm_yday (decode_date n) = yday (decode_date n)"
    unfolding decode_date_def Let_def 1 2 3 4 5 6 7 8 9
    by (auto simp: yday_def)
qed

lemma decode_date_wday: "tm_wday (decode_date n) = (n + 3) mod 7"
proof -
  have "(if x smod 7 < 0 then x smod 7 + 7 else x smod 7) = x mod 7" for x :: int
  proof (cases "0 \<le> x")
    case False
    then have "x smod 7 = - ((- x) mod 7)"
      by (simp add: signed_modulo_int_def sgn_if)
    moreover have "x mod 7 = (if (- x) mod 7 = 0 then 0 else 7 - (- x) mod 7)"
      using zmod_zminus1_eq_if [of "- x" 7] by simp
    ultimately show ?thesis
      using pos_mod_sign [of 7 "- x"] by auto
  qed (simp add: smod_nonneg)
  then show ?thesis by (simp add: decode_date_def Let_def)
qed

lemma encode_decode:
  assumes "1 \<le> n + (678882::int)"
  shows "encode_date (decode_date n) = n"
proof -
  define c where "c = (4 * (n + 678882) - 1) div 146097" 
  define d1 where "d1 = ((4 * (n + 678882) - 1) mod 146097) div 4"
  define ya where "ya = (4 * d1 + 3) div 1461" 
  define D where "D = ((4 * d1 + 3) mod 1461 + 4) div 4"
  define m where "m = (5 * D - 3) div 153" 
  define d where "d = ((5 * D - 3) mod 153 + 5) div 5"
  note defs = c_def d1_def ya_def D_def m_def d_def
  note b = decode_bounds [OF assms defs] and e = decode_date_eq [OF assms defs]
  have y: "march_year (decode_date n) = 100 * c + ya" "march_month (decode_date n) = m"
    using b by (auto simp: march_year_def march_month_def e)
  have y': "(100 * c + ya) div 100 = c" "(100 * c + ya) mod 100 = ya" using b by auto
  have "(153 * m + 2) div 5 + d = D"
  proof -
    have "(153 * ((5 * D - 3) div 153) + 2) div 5 + ((5 * D - 3) mod 153) div 5 = D - 1"
      by (rule scaled_div) auto
    then show ?thesis by (simp add: d_def m_def)
  qed
  moreover have "(1461 * ya) div 4 + D - 1 = d1"
  proof -
    have "(1461 * ((4 * d1 + 3) div 1461) + 0) div 4 + ((4 * d1 + 3) mod 1461) div 4 = d1"
      by (rule scaled_div) auto
    then show ?thesis by (simp add: D_def ya_def)
  qed
  moreover have "(146097 * c) div 4 + d1 = n + 678881"
  proof -
    have "(146097 * ((4 * (n + 678882) - 1) div 146097) + 0) div 4 +
        ((4 * (n + 678882) - 1) mod 146097) div 4 = n + 678881"
      by (rule scaled_div) auto
    then show ?thesis by (simp add: d1_def c_def)
  qed
  moreover have "encode_date (decode_date n) = (146097 * c) div 4 + (1461 * ya) div 4 +
      (153 * m + 2) div 5 + d - 678882"
    using encode_date_march [of "decode_date n"] b unfolding y y' by (auto simp: e(1,2))
  ultimately show ?thesis by linarith
qed


lemma days_before_year_mono:
  assumes "0 \<le> y" "y \<le> z"
  shows "days_before_year y \<le> days_before_year z"
  using assms(2)
proof (induction z rule: int_ge_induct)
  case (step i)
  then show ?case using days_before_year_Suc [of i] assms(1) by (auto split: if_splits)
qed simp

lemma days_before_month_bounds:
  assumes "0 \<le> mon" "mon \<le> 11"
  shows "0 \<le> days_before_month y mon"
    "days_before_month y mon + month_days y mon \<le> (if isLeapYear y then 366 else 365)"
  unfolding days_before_month_march [OF assms] month_days_def using months_cases [OF assms]
  by (elim disjE; simp)+

lemma mod4_pred: "(k + 1) mod 4 = 0 \<Longrightarrow> (k::int) mod 4 = 3"
  by presburger

lemma leap_march:
  assumes "0 \<le> y" "isLeapYear (y + 1)"
  shows "(y mod 100) mod 4 = 3" "y mod 100 = 99 \<Longrightarrow> (y div 100) mod 4 = 3"
proof -
  have l: "((y + 1) mod 4 = 0 \<and> (y + 1) mod 100 \<noteq> 0) \<or> (y + 1) mod 400 = 0"
    using assms isLeapYear_pos [of "y + 1"] by simp
  then have "(y + 1) mod 4 = 0"
    using mod_mod_cancel [of 4 400 "y + 1"] by auto
  then have "y mod 4 = 3" by (rule mod4_pred)
  then show "(y mod 100) mod 4 = 3" by (simp add: mod_mod_cancel)
  assume "y mod 100 = 99"
  then have y: "y + 1 = 100 * (y div 100 + 1)"
    using mult_div_mod_eq [of 100 y] by simp
  then have "(y + 1) mod 100 = 0" by (metis mod_mult_self1_is_0)
  then have "(y + 1) mod 400 = 0" using l by simp
  moreover have "(y + 1) mod 400 = 100 * ((y div 100 + 1) mod 4)"
    using mult_mod_right [of 100 "y div 100 + 1" 4] by (subst y) simp
  ultimately have "(y div 100 + 1) mod 4 = 0" by simp
  then show "(y div 100) mod 4 = 3" by (rule mod4_pred)
qed

lemma days_before_year_limits:
  "days_before_year 0 = -366" "days_before_year 1 = 0" "days_before_year 9999 = 3651694"
  "days_before_year 10000 = 3652059"
  by (simp_all add: days_before_year_def)

lemma encode_date_valid:
  assumes "valid_date t"
  shows "encode_date t = day_number t" "isValidDate (encode_date t)"
proof -
  note v = valid_date_simps [OF assms]
  have "0 \<le> march_year t" using v(1) by (auto simp: march_year_def)
  then show e: "encode_date t = day_number t"
    using encode_date_day_number v by simp
  have "days_before_year 1 \<le> days_before_year (tm_year t + 1900)"
    by (rule days_before_year_mono) (use v(1) in auto)
  moreover have "days_before_year (tm_year t + 1900 + 1) \<le> days_before_year 10000"
    by (rule days_before_year_mono) (use assms v(1) in \<open>auto simp: valid_date_def\<close>)
  moreover have "days_before_year (tm_year t + 1900 + 1) = days_before_year (tm_year t + 1900) +
     (if isLeapYear (tm_year t + 1900) then 366 else 365)"
    by (rule days_before_year_Suc) (use v(1) in simp)
  ultimately show "isValidDate (encode_date t)"
    using days_before_month_bounds [OF v(2,3), of "tm_year t + 1900"] v(4,5)
    unfolding e day_number_def isValidDate_def MIN_DATE_def MAX_DATE_def days_before_year_limits
    by linarith
qed

lemma decode_encode:
  assumes "valid_date t"
  shows "tm_mday (decode_date (encode_date t)) = tm_mday t" "tm_mon (decode_date (encode_date t)) = tm_mon t"
    "tm_year (decode_date (encode_date t)) = tm_year t"
proof -
  note v = valid_date_simps [OF assms]
  define n where "n = encode_date t"
  define c where "c = march_year t div 100"
  define ya where "ya = march_year t mod 100"
  define m where "m = march_month t"
  define D where "D = (153 * m + 2) div 5 + tm_mday t"
  define d1 where "d1 = (1461 * ya) div 4 + D - 1"
  have my: "0 \<le> march_year t" using v(1) by (auto simp: march_year_def)
  have N: "n + 678882 = (146097 * c) div 4 + d1 + 1"
    unfolding n_def encode_date_march [OF my v(2)] by (simp add: c_def ya_def d1_def D_def m_def)
  have m: "0 \<le> m" "m \<le> 11" using v by (auto simp: m_def march_month_def)
  have d: "tm_mday t \<le> (if m = 11 then 29 else if m \<in> {1, 3, 6, 8} then 30 else 31)"
    using v months_cases [OF v(2,3)] by (auto simp: m_def march_month_def month_days_def split: if_splits)
  have "D \<le> 366 \<and> (D = 366 \<longrightarrow> isLeapYear (march_year t + 1))"
    using v months_cases [OF v(2,3)] unfolding D_def m_def march_month_def march_year_def month_days_def
    by (elim disjE) (simp_all add: add.commute [of 1900] split: if_splits)
  then have D: "1 \<le> D" "D \<le> (if ya mod 4 = 3 then 366 else 365)" "D = 366 \<Longrightarrow> ya = 99 \<Longrightarrow> c mod 4 = 3"
    using leap_march [OF my] m(1) v(4) by (auto simp: D_def ya_def c_def intro: add_nonneg_nonneg)
  have ya: "0 \<le> ya" "ya \<le> 99" by (auto simp: ya_def)
  have c0: "0 \<le> c" using my by (simp add: c_def div_int_pos_iff)
  have "(1461 * ya) div 4 = 365 * ya + ya div 4"
    using div_mult_self2 [of 4 ya "365 * ya"] by simp
  moreover have "ya = 99 \<or> ya \<le> 98" using ya by auto
  moreover have "ya div 4 \<le> 99 div 4" by (rule zdiv_mono1) (use ya in auto)
  moreover have "0 \<le> ya div 4" using ya by simp
  ultimately have q: "d1 = 365 * ya + ya div 4 + D - 1" "0 \<le> ya div 4" "ya div 4 \<le> 24" "ya = 99 \<or> ya \<le> 98"
    by (simp_all add: d1_def)
  have "D \<le> 366" using D(2) by (auto split: if_splits)
  then have "d1 \<le> 36524" using q(1,3) ya by linarith
  moreover have "d1 \<le> 36523" if "c mod 4 \<noteq> 3"
  proof -
    have "D \<le> 365 \<or> ya \<le> 98" using D(3) \<open>D \<le> 366\<close> q(4) that by linarith
    then show ?thesis using q(1,3) ya \<open>D \<le> 366\<close> by linarith
  qed
  ultimately have d1: "0 \<le> d1" "d1 \<le> (if c mod 4 = 3 then 36524 else 36523)"
    using q(1,2) ya D(1) by auto
  have N1: "1 \<le> n + 678882"
    unfolding N using c0 d1(1) by (simp add: div_int_pos_iff)
  have e1: "c = (4 * (n + 678882) - 1) div 146097" "d1 = ((4 * (n + 678882) - 1) mod 146097) div 4"
    unfolding N using century_part [OF d1] by simp_all
  have e2: "ya = (4 * d1 + 3) div 1461" "D = ((4 * d1 + 3) mod 1461 + 4) div 4"
    unfolding d1_def using year_part [OF ya(1) D(1,2)] by simp_all
  have e3: "m = (5 * D - 3) div 153" "tm_mday t = ((5 * D - 3) mod 153 + 5) div 5"
    unfolding D_def using month_part [OF m v(4) d] by simp_all
  note dd = decode_date_eq [OF N1 e1 e2 e3]
  show "tm_mday (decode_date (encode_date t)) = tm_mday t" using dd(1) by (simp add: n_def)
  show "tm_mon (decode_date (encode_date t)) = tm_mon t"
    using dd(2) v(2,3) by (auto simp: n_def m_def march_month_def split: if_splits)
  have "100 * c + ya = march_year t" by (simp add: c_def ya_def)
  then show "tm_year (decode_date (encode_date t)) = tm_year t"
    using dd(3) v(2,3) by (auto simp: n_def m_def march_month_def march_year_def split: if_splits)
qed


lemma last_day_leap:
  assumes N: "1 \<le> n + (678882::int)"
    and c: "c = (4 * (n + 678882) - 1) div 146097" and d1: "d1 = ((4 * (n + 678882) - 1) mod 146097) div 4"
    and ya: "ya = (4 * d1 + 3) div 1461" and D: "D = ((4 * d1 + 3) mod 1461 + 4) div 4" "D = 366"
  shows "isLeapYear (100 * c + ya + 1)"
proof -
  note b = decode_bounds [OF N c d1 ya D(1) refl refl]
  define x where "x = (4 * d1 + 3) mod 1461"
  define r where "r = (4 * (n + 678882) - 1) mod 146097"
  have x: "x < 1461" "366 = (x + 4) div 4" using D by (simp_all add: x_def)
  then have "x = 1460"
    using mult_div_mod_eq [of 4 "x + 4"] pos_mod_sign [of 4 "x + 4"] by linarith
  then have y1: "4 * d1 + 3 = 1461 * ya + 1460"
    using mult_div_mod_eq [of 1461 "4 * d1 + 3"] by (simp add: x_def ya)
  then obtain k where "ya = 3 + 4 * k"
    using that [of "d1 - 365 * ya - 365"] by simp
  then have y4: "ya mod 4 = 3" by simp
  define y where "y = 100 * c + ya"
  have y: "y + 1 = 4 * (25 * c) + (ya + 1)" by (simp add: y_def)
  have "(ya + 1) mod 4 = 0" using y4 by presburger
  then have m4: "(y + 1) mod 4 = 0" unfolding y by (simp only: mod_mult_self4)
  show ?thesis
  proof (cases "ya = 99")
    case False
    have "(y + 1) mod 100 = ya + 1"
      by (rule int_mod_pos_eq [of _ _ c]) (use b False in \<open>auto simp: y_def\<close>)
    then show ?thesis
      using m4 b isLeapYear_pos [of "y + 1"] by (simp add: y_def)
  next
    case True
    then have "d1 = 36524" using y1 by simp
    then have "r < 146097" "36524 = r div 4" using d1 by (simp_all add: r_def)
    then have "r = 146096"
      using mult_div_mod_eq [of 4 r] pos_mod_sign [of 4 r] by linarith
    then have "4 * (n + 678882) - 1 = 146097 * c + 146096"
      using mult_div_mod_eq [of 146097 "4 * (n + 678882) - 1"] by (simp add: r_def c)
    then have "c + 1 = 4 * (n + 678882 - 36524 * (c + 1))" by simp
    then have "(c + 1) mod 4 = 0" by (metis mod_mult_self1_is_0)
    moreover have "(y + 1) mod 400 = 100 * ((c + 1) mod 4)"
      using mult_mod_right [of 100 "c + 1" 4] True by (simp add: y_def add.commute)
    ultimately show ?thesis
      using b isLeapYear_pos [of "y + 1"] by (simp add: y_def)
  qed
qed

lemma month_limit:
  assumes "0 \<le> (m::int)" "m \<le> 11" "5 * D - 3 < 153 * (m + 1)" "(153 * m + 2) div 5 + d = D"
    "D \<le> 366" "D = 366 \<Longrightarrow> L"
  shows "d \<le> (if m = 11 then if L then 29 else 28 else if m \<in> {1, 3, 6, 8} then 30 else 31)"
proof (cases "m = 11")
  case True
  then show ?thesis using assms(4,5,6) by (cases "D = 366") auto
next
  case False
  then show ?thesis using months_cases [OF assms(1,2)] assms(3,4)
    by (elim disjE) simp_all
qed

lemma decode_date_valid:
  assumes "isValidDate n"
  shows "valid_date (decode_date n)"
proof -
  have N: "1 \<le> n + (678882::int)" using assms by (simp add: isValidDate_def MIN_DATE_def)
  define c where "c = (4 * (n + 678882) - 1) div 146097"
  define d1 where "d1 = ((4 * (n + 678882) - 1) mod 146097) div 4"
  define ya where "ya = (4 * d1 + 3) div 1461"
  define D where "D = ((4 * d1 + 3) mod 1461 + 4) div 4"
  define m where "m = (5 * D - 3) div 153"
  define d where "d = ((5 * D - 3) mod 153 + 5) div 5"
  note defs = c_def d1_def ya_def D_def m_def d_def
  note b = decode_bounds [OF N defs] and e = decode_date_eq [OF N defs]
  let ?t = "decode_date n"
  have y: "march_year ?t = 100 * c + ya" using b by (auto simp: march_year_def e)
  have mon: "0 \<le> tm_mon ?t" "tm_mon ?t \<le> 11" using b by (auto simp: e)
  have leap: "isLeapYear (100 * c + ya + 1)" if "D = 366"
    by (rule last_day_leap [OF N defs(1,2,3,4) that])
  have "5 * D - 3 < 153 * (m + 1)"
    using mult_div_mod_eq [of 153 "5 * D - 3"] pos_mod_bound [of 153 "5 * D - 3"] unfolding m_def by simp
  moreover have "(153 * m + 2) div 5 + d = D"
  proof -
    have "(153 * ((5 * D - 3) div 153) + 2) div 5 + ((5 * D - 3) mod 153) div 5 = D - 1"
      by (rule scaled_div) auto
    then show ?thesis by (simp add: d_def m_def)
  qed
  ultimately have dl: "d \<le> (if m = 11 then if isLeapYear (100 * c + ya + 1) then 29 else 28
      else if m \<in> {1, 3, 6, 8} then 30 else 31)"
    using month_limit [OF b(8,9) _ _ b(7) leap] by blast
  have "month_days (tm_year ?t + 1900) (tm_mon ?t) = (if m = 11 then if isLeapYear (100 * c + ya + 1) then 29 else 28
      else if m \<in> {1, 3, 6, 8} then 30 else 31)"
    unfolding e(2,3) using months_cases [OF b(8,9)] by (elim disjE) (simp_all add: month_days_def add.commute [of 1])
  then have md: "d \<le> month_days (tm_year ?t + 1900) (tm_mon ?t)" using dl by simp
  have n: "n = day_number ?t"
    using encode_decode [OF N] encode_date_day_number [of ?t] mon b y by simp
  have db: "0 \<le> days_before_month (tm_year ?t + 1900) (tm_mon ?t) + (d - 1)"
     "days_before_month (tm_year ?t + 1900) (tm_mon ?t) + (d - 1) < (if isLeapYear (tm_year ?t + 1900) then 366 else 365)"
    using days_before_month_bounds [OF mon, of "tm_year ?t + 1900"] md b by linarith+
  define Y where "Y = tm_year ?t + 1900"
  have Y0: "0 \<le> Y" using b by (auto simp: Y_def e)
  have nY: "MIN_DATE + days_before_year Y \<le> n" "n < MIN_DATE + days_before_year (Y + 1)"
    using n db days_before_year_Suc [OF Y0] by (auto simp: day_number_def Y_def e(1))
  have "1 \<le> Y"
  proof (rule ccontr)
    assume "\<not> 1 \<le> Y"
    then have "Y = 0" using Y0 by simp
    then show False using nY(2) assms by (simp add: isValidDate_def days_before_year_limits)
  qed
  moreover have "Y \<le> 9999"
  proof (rule ccontr)
    assume "\<not> Y \<le> 9999"
    then have "days_before_year 10000 \<le> days_before_year Y"
      by (intro days_before_year_mono) auto
    then show False
      using nY(1) assms by (simp add: isValidDate_def days_before_year_limits MIN_DATE_def MAX_DATE_def)
  qed
  ultimately show ?thesis
    using mon md b by (simp add: valid_date_def Y_def e(1))
qed


subsection \<open>Dates and day numbers\<close>

lemma day_of_year:
  assumes "valid_date t"
  shows "tm_mday t \<ge> 1" "encode_date t = MIN_DATE + days_before_year (tm_year t + 1900) + yday t"
    "0 \<le> yday t" "yday t < (if isLeapYear (tm_year t + 1900) then 366 else 365)"
proof -
  note v = valid_date_simps [OF assms]
  show "tm_mday t \<ge> 1" by (rule v)
  show "encode_date t = MIN_DATE + days_before_year (tm_year t + 1900) + yday t"
    using encode_date_valid(1) [OF assms] yday_days [OF assms] by (simp add: day_number_def)
  show "0 \<le> yday t" "yday t < (if isLeapYear (tm_year t + 1900) then 366 else 365)"
    using yday_days [OF assms] days_before_month_bounds [OF v(2,3), of "tm_year t + 1900"] v(4,5)
    by linarith+
qed

lemma decode_date_yday:
  assumes "isValidDate n"
  shows "tm_yday (decode_date n) = yday (decode_date n)"
proof -
  have "1 \<le> n + (678882::int)" using assms by (simp add: isValidDate_def MIN_DATE_def)
  from decode_date_eq(4) [OF this refl refl refl refl refl refl] show ?thesis .
qed

text \<open>
  C19. Decoding a day number the engine accepts gives a date of the Gregorian calendar, with the
  month's length respected, that encodes to the same number; the number counts the days of the
  years and months before the date from 1 January 0001 on. The day of the week
  is right (day 0, 17 November 1858, was a Wednesday) and the day of the year counts from
  1 January.
\<close>

theorem decode_date_correct:
  assumes "isValidDate n"
  shows "valid_date (decode_date n) \<and> encode_date (decode_date n) = n \<and>
    day_number (decode_date n) = n \<and> tm_wday (decode_date n) = (n + 3) mod 7 \<and>
    tm_yday (decode_date n) = n - (MIN_DATE + days_before_year (tm_year (decode_date n) + 1900))"
proof -
  have N: "1 \<le> n + (678882::int)" using assms by (simp add: isValidDate_def MIN_DATE_def)
  note v = decode_date_valid [OF assms]
  show ?thesis
    using v encode_decode [OF N] encode_date_valid(1) [OF v] decode_date_wday
      decode_date_yday [OF assms] day_of_year(2) [OF v] by simp
qed

theorem decode_date_correct_witness:
  "encode_date (decode_date 60000) = 60000 \<and> tm_wday (decode_date 60000) = (60000 + 3) mod 7"
  using decode_date_correct [of 60000] by (simp add: isValidDate_def MIN_DATE_def MAX_DATE_def)

text \<open>
  Encoding a date of the calendar from 1 January 0001 to 31 December 9999 gives a day number within the
  engine's limits, which is the calendar's count of days, and decodes to the same date.
\<close>

theorem encode_date_correct:
  assumes "valid_date t"
  shows "isValidDate (encode_date t) \<and> encode_date t = day_number t \<and>
    tm_mday (decode_date (encode_date t)) = tm_mday t \<and>
    tm_mon (decode_date (encode_date t)) = tm_mon t \<and>
    tm_year (decode_date (encode_date t)) = tm_year t"
  using encode_date_valid [OF assms] decode_encode [OF assms] by simp

theorem encode_date_correct_witness:
  "isValidDate (encode_date (\<lparr>tm_sec = 0, tm_min = 0, tm_hour = 0, tm_mday = 29, tm_mon = 1,
     tm_year = 100, tm_wday = 0, tm_yday = 0\<rparr>))"
proof -
  have "valid_date \<lparr>tm_sec = 0, tm_min = 0, tm_hour = 0, tm_mday = 29, tm_mon = 1,
     tm_year = 100, tm_wday = 0, tm_yday = 0\<rparr>"
    by (simp add: valid_date_def month_days_def isLeapYear_def smod_nonneg)
  from encode_date_correct [OF this] show ?thesis by (rule conjunct1)
qed

subsection \<open>Weeks\<close>

lemma jan1_weekday:
  assumes "1 \<le> Y"
  shows "(((((Y - 1) - (Y - 1) smod 100) sdiv 100) smod 4) * 5 +
      ((Y - 1) smod 100 + ((Y - 1) smod 100) sdiv 4)) smod 7 = (MIN_DATE + days_before_year Y + 2) mod 7"
proof -
  define y where "y = Y - 1"
  define C where "C = y div 100"
  define a where "a = y mod 100"
  have y0: "0 \<le> y" using assms by (simp add: y_def)
  then have y: "0 \<le> C" "0 \<le> a" by (simp_all add: C_def a_def div_int_pos_iff)
  have 1: "y smod 100 = a" unfolding a_def by (rule smod_nonneg) (use y0 in auto)
  have "y - a = 100 * C" by (simp add: a_def C_def minus_mod_eq_mult_div)
  then have 2: "(y - a) sdiv 100 = C" using y by (simp add: sdiv_nonneg)
  have 3: "C smod 4 = C mod 4" "a sdiv 4 = a div 4" using y by (simp_all add: smod_nonneg sdiv_nonneg)
  have 4: "(C mod 4 * 5 + (a + a div 4)) smod 7 = (C mod 4 * 5 + (a + a div 4)) mod 7"
    using y by (intro smod_nonneg) (auto intro: add_nonneg_nonneg)
  have d: "days_before_year Y = (146097 * C) div 4 + (1461 * a) div 4"
    using century_days [of y] unfolding C_def [symmetric] a_def [symmetric] by (simp add: y_def)
  have e1: "(146097 * C) div 4 = 146097 * (C div 4) + 36524 * (C mod 4)"
  proof -
    have "(146097 * C) div 4 = 36524 * C + C div 4"
      using div_mult_self2 [of 4 C "36524 * C"] by simp
    then show ?thesis using mult_div_mod_eq [of 4 C] by linarith
  qed
  have e2: "(1461 * a) div 4 = 365 * a + a div 4"
    using div_mult_self2 [of 4 a "365 * a"] by simp
  have "MIN_DATE + days_before_year Y + 2 = (C mod 4 * 5 + (a + a div 4)) +
      7 * (20871 * (C div 4) + 5217 * (C mod 4) + 52 * a - 96939)"
    unfolding d e1 e2 MIN_DATE_def by simp
  then have "(MIN_DATE + days_before_year Y + 2) mod 7 = (C mod 4 * 5 + (a + a div 4)) mod 7"
    by (simp only: mod_mult_self2)
  then show ?thesis unfolding y_def [symmetric] 1 2 3 4 by simp
qed

text \<open>The calculation on the number of the day in its year (\<open>x\<close>) and the weekday of January 1.\<close>

lemma week_of_year:
  assumes "0 \<le> (x::int)" "x < i" "0 \<le> a" "a \<le> 6" "w = (x + a) mod 7" "i = 365 \<or> i = 366" "i' = 365 \<or> i' = 366"
  shows "x + 1 \<le> 7 - a \<and> 3 < a \<Longrightarrow> x - w + 3 < 0 \<and> 0 \<le> i' + (x - w + 3) \<and>
      (i' + (x - w + 3)) div 7 + 1 = (if a = 4 \<or> (a = 5 \<and> i' = 366) then 53 else 52)"
    and "\<not> (x + 1 \<le> 7 - a \<and> 3 < a) \<Longrightarrow> i - (x + 1) < 3 - w \<Longrightarrow>
      i \<le> x - w + 3 \<and> x - w + 3 < i + 365 \<and> (x - w + 3 - i) div 7 + 1 = 1"
    and "\<not> (x + 1 \<le> 7 - a \<and> 3 < a) \<Longrightarrow> \<not> i - (x + 1) < 3 - w \<Longrightarrow>
      0 \<le> x - w + 3 \<and> x - w + 3 < i \<and>
      (x - w + 3) div 7 + 1 = (if 3 < a then (x + 1 + (6 - w) + a) div 7 - 1 else (x + 1 + (6 - w) + a) div 7)"
proof -
  define k where "k = (x + a) div 7"
  have k: "x + a = 7 * k + w" "0 \<le> w" "w \<le> 6" using assms(5) by (simp_all add: k_def)
  note bounds = assms(1-4,6)
  { assume A: "x + 1 \<le> 7 - a \<and> 3 < a"
    then have "w = x + a" using assms by (simp add: mod_pos_pos_trivial)
    then have e: "x - w + 3 = 3 - a" by simp
    have "a = 4 \<or> a = 5 \<or> a = 6" using A assms(4) by linarith
    then have "(i' + (3 - a)) div 7 + 1 = (if a = 4 \<or> (a = 5 \<and> i' = 366) then 53 else 52)"
      using assms(7) by (elim disjE) simp_all
    then show "x - w + 3 < 0 \<and> 0 \<le> i' + (x - w + 3) \<and>
      (i' + (x - w + 3)) div 7 + 1 = (if a = 4 \<or> (a = 5 \<and> i' = 366) then 53 else 52)"
      unfolding e using A assms(4,7) by linarith }
  { assume B: "\<not> (x + 1 \<le> 7 - a \<and> 3 < a)" "i - (x + 1) < 3 - w"
    have le: "i \<le> x - w + 3" "x - w + 3 - i < 7" using B(2) k bounds by linarith+
    then have "(x - w + 3 - i) div 7 = 0" by (intro div_pos_pos_trivial) auto
    then show "i \<le> x - w + 3 \<and> x - w + 3 < i + 365 \<and> (x - w + 3 - i) div 7 + 1 = 1"
      using le by linarith }
  { assume C: "\<not> (x + 1 \<le> 7 - a \<and> 3 < a)" "\<not> i - (x + 1) < 3 - w"
    have e: "x - w + 3 = 7 * k + (3 - a)" "x + 1 + (6 - w) + a = 7 * (k + 1)" using k by auto
    have j: "(x + 1 + (6 - w) + a) div 7 = k + 1" unfolding e by simp
    have lt: "x - w + 3 < i" using C(2) by linarith
    show "0 \<le> x - w + 3 \<and> x - w + 3 < i \<and>
      (x - w + 3) div 7 + 1 = (if 3 < a then (x + 1 + (6 - w) + a) div 7 - 1 else (x + 1 + (6 - w) + a) div 7)"
    proof (cases "3 < a")
      case True
      then have "7 \<le> x + a" using C(1) by auto
      then have k1: "1 \<le> k" using k by linarith
      have "(x - w + 3) div 7 = k - 1"
        by (rule int_div_pos_eq [of _ _ _ "10 - a"]) (use e(1) True bounds(4) in auto)
      moreover have "0 \<le> x - w + 3" unfolding e(1) using k1 bounds by linarith
      ultimately show ?thesis unfolding j using True lt by simp
    next
      case False
      have "(x - w + 3) div 7 = k"
        by (rule int_div_pos_eq [of _ _ _ "3 - a"]) (use e(1) False bounds in linarith)+
      moreover have "0 \<le> k" using k bounds by linarith
      then have "0 \<le> x - w + 3" unfolding e(1) using False by linarith
      ultimately show ?thesis unfolding j using False lt by simp
    qed }
qed

text \<open>
  The week number is that of ISO 8601: weeks run from Monday to Sunday and belong to the
  year of their Thursday, where they are counted from 1.
\<close>

theorem iso_week:
  assumes "isValidDate n"
  shows "\<exists>y. MIN_DATE + days_before_year y \<le> n - (n + 2) mod 7 + 3 \<and>
      n - (n + 2) mod 7 + 3 < MIN_DATE + days_before_year (y + 1) \<and>
      convertGregorianDateToWeekDate (decode_date n) =
        (n - (n + 2) mod 7 + 3 - (MIN_DATE + days_before_year y)) div 7 + 1"
proof -
  define t where "t = decode_date n"
  define Y where "Y = tm_year t + 1900"
  define J where "J = MIN_DATE + days_before_year Y"
  define x where "x = n - J"
  define a where "a = (J + 2) mod 7"
  define w where "w = (n + 2) mod 7"
  define i where "i = (if isLeapYear Y then 366 else 365 :: int)"
  define i' where "i' = (if isLeapYear (Y - 1) then 366 else 365 :: int)"
  have v: "valid_date t" using decode_date_valid [OF assms] by (simp add: t_def)
  have Y1: "1 \<le> Y" using valid_date_simps(1) [OF v] by (simp add: Y_def)
  have doy: "tm_yday t = x" "0 \<le> x" "x < i"
    using decode_date_correct [OF assms] day_of_year [OF v] decode_date_yday [OF assms]
    by (simp_all add: x_def J_def Y_def t_def i_def)
  have w: "w = (x + a) mod 7"
    unfolding a_def w_def x_def by (simp add: mod_simps)
  have a: "0 \<le> a" "a \<le> 6" by (simp_all add: a_def)
  have nxt: "MIN_DATE + days_before_year (Y + 1) = J + i"
    using days_before_year_Suc [of Y] Y1 by (simp add: J_def i_def)
  have prev: "MIN_DATE + days_before_year (Y - 1) = J - i'"
    using days_before_year_Suc [of "Y - 1"] Y1 by (simp add: J_def i'_def)
  have nn: "365 \<le> days_before_year (Y + 1 + 1) - days_before_year (Y + 1)"
    using days_before_year_Suc [of "Y + 1"] Y1 by simp
  have th: "n - w + 3 = J + (x - w + 3)" by (simp add: x_def)
  have jw: "(((((Y - 1) - (Y - 1) smod 100) sdiv 100) smod 4) * 5 +
      ((Y - 1) smod 100 + ((Y - 1) smod 100) sdiv 4)) smod 7 = a"
    using jan1_weekday [OF Y1] by (simp add: a_def J_def)
  have wd: "(x + 1 + (1 + a - 1) - 1) smod 7 = w" using doy a by (simp add: w smod_nonneg)
  have cv: "convertGregorianDateToWeekDate t =
     (if x + 1 \<le> 7 - a \<and> 3 < a then (if a = 4 \<or> (a = 5 \<and> i' = 366) then 53 else 52)
      else if i - (x + 1) < 3 - w then 1
      else if 3 < a then (x + 1 + (6 - w) + a) div 7 - 1 else (x + 1 + (6 - w) + a) div 7)"
  proof -
    have "(x + 1 + (7 - (1 + w)) + (1 + a - 1)) sdiv 7 = (x + 1 + (6 - w) + a) div 7"
      using doy a w by (subst sdiv_nonneg) (auto simp: algebra_simps intro: add_nonneg_nonneg)
    then show ?thesis
      unfolding convertGregorianDateToWeekDate_def Let_def doy(1) Y_def [symmetric] jw wd
      by (auto simp: i_def i'_def)
  qed
  have i: "i = 365 \<or> i = 366" "i' = 365 \<or> i' = 366" by (auto simp: i_def i'_def)
  note wy = week_of_year [OF doy(2,3) a w i]
  define P where "P y \<longleftrightarrow> MIN_DATE + days_before_year y \<le> J + (x - w + 3) \<and>
      J + (x - w + 3) < MIN_DATE + days_before_year (y + 1) \<and>
      convertGregorianDateToWeekDate t = (J + (x - w + 3) - (MIN_DATE + days_before_year y)) div 7 + 1" for y
  have d: "J + (x - w + 3) - (J - i') = i' + (x - w + 3)" "J + (x - w + 3) - (J + i) = x - w + 3 - i"
    "J + (x - w + 3) - J = x - w + 3" by simp_all
  have "P (Y - 1) \<or> P Y \<or> P (Y + 1)"
  proof (cases "x + 1 \<le> 7 - a \<and> 3 < a")
    case True
    then have "P (Y - 1)"
      unfolding P_def prev cv d diff_add_cancel J_def [symmetric] using wy(1) by (simp only: if_P True) linarith
    then show ?thesis by simp
  next
    case no: False
    show ?thesis
    proof (cases "i - (x + 1) < 3 - w")
      case True
      then have "P (Y + 1)"
        unfolding P_def nxt cv d using wy(2) [OF no True] nn nxt by (simp only: if_False if_True no True) linarith
      then show ?thesis by simp
    next
      case False
      then have "P Y"
        unfolding P_def nxt cv J_def [symmetric] d using wy(3) [OF no False] by (simp only: if_not_P no False) linarith
      then show ?thesis by simp
    qed
  qed
  then have "\<exists>y. P y" by blast
  then show ?thesis
    unfolding w_def [symmetric] t_def [symmetric] th P_def .
qed


theorem iso_week_witness:
  "\<exists>y. MIN_DATE + days_before_year y \<le> 40587 - (40587 + 2) mod 7 + 3 \<and>
      40587 - (40587 + 2) mod 7 + 3 < MIN_DATE + days_before_year (y + 1) \<and>
      convertGregorianDateToWeekDate (decode_date 40587) =
        (40587 - (40587 + 2) mod 7 + 3 - (MIN_DATE + days_before_year y)) div 7 + 1"
  by (rule iso_week) (simp add: isValidDate_def MIN_DATE_def MAX_DATE_def)

subsection \<open>Julian days\<close>

lemma convertJulianDateToGregorianDate_decode:
  assumes N: "1 \<le> n + (678882::int)"
  shows "convertJulianDateToGregorianDate (n + 2400001) =
     (tm_year (decode_date n) + 1900, tm_mon (decode_date n) + 1, tm_mday (decode_date n))"
proof -
  define c where "c = (4 * (n + 678882) - 1) div 146097"
  define d1 where "d1 = ((4 * (n + 678882) - 1) mod 146097) div 4"
  define ya where "ya = (4 * d1 + 3) div 1461"
  define D where "D = ((4 * d1 + 3) mod 1461 + 4) div 4"
  define m where "m = (5 * D - 3) div 153"
  define d where "d = ((5 * D - 3) mod 153 + 5) div 5"
  note defs = c_def d1_def ya_def D_def m_def d_def
  note b = decode_bounds [OF N defs] and e = decode_date_eq [OF N defs]
  have D: "(153 * m + 2) div 5 + d = D"
  proof -
    have "(153 * ((5 * D - 3) div 153) + 2) div 5 + ((5 * D - 3) mod 153) div 5 = D - 1"
      by (rule scaled_div) auto
    then show ?thesis by (simp add: d_def m_def)
  qed
  have d1: "(1461 * ya) div 4 + D - 1 = d1"
  proof -
    have "(1461 * ((4 * d1 + 3) div 1461) + 0) div 4 + ((4 * d1 + 3) mod 1461) div 4 = d1"
      by (rule scaled_div) auto
    then show ?thesis by (simp add: D_def ya_def)
  qed
  have c: "(146097 * c) div 4 + d1 = n + 678881"
  proof -
    have "(146097 * ((4 * (n + 678882) - 1) div 146097) + 0) div 4 +
        ((4 * (n + 678882) - 1) mod 146097) div 4 = n + 678881"
      by (rule scaled_div) auto
    then show ?thesis by (simp add: d1_def c_def)
  qed
  have 1: "(4 * (n + 2400001 + 32044) + 3) sdiv 146097 = c + 48"
  proof -
    have "4 * (n + 2400001 + 32044) + 3 = (4 * (n + 678882) - 1) + 48 * 146097" by simp
    then have "(4 * (n + 2400001 + 32044) + 3) div 146097 = c + 48"
      using div_mult_self1 [of 146097 "4 * (n + 678882) - 1" 48] by (simp add: c_def)
    then show ?thesis using N by (simp add: sdiv_nonneg)
  qed
  have 2: "(146097 * (c + 48)) sdiv 4 = (146097 * c) div 4 + 1753164"
  proof -
    have "146097 * (c + 48) = 146097 * c + 1753164 * 4" by simp
    then have "(146097 * (c + 48)) div 4 = (146097 * c) div 4 + 1753164"
      using div_mult_self1 [of 4 "146097 * c" 1753164] by simp
    then show ?thesis using b by (simp add: sdiv_nonneg)
  qed
  have 3: "n + 2400001 + 32044 - ((146097 * c) div 4 + 1753164) = d1" using c by simp
  have 4: "(4 * d1 + 3) sdiv 1461 = ya" using b by (simp add: sdiv_nonneg ya_def)
  have 5: "(1461 * ya) sdiv 4 = (1461 * ya) div 4" using b by (simp add: sdiv_nonneg)
  have 6: "d1 - (1461 * ya) div 4 = D - 1" using d1 by simp
  have 7: "(5 * (D - 1) + 2) sdiv 153 = m" using b by (simp add: sdiv_nonneg m_def)
  have 8: "(153 * m + 2) sdiv 5 = (153 * m + 2) div 5" using b by (simp add: sdiv_nonneg)
  have 9: "m sdiv 10 = (if m < 10 then 0 else 1)"
    using b by (simp add: sdiv_nonneg int_div_pos_eq [of m 10 1 "m - 10"])
  show ?thesis
    unfolding convertJulianDateToGregorianDate_def Let_def 1 2 3 4 5 6 7 8 9 e
    using D by simp
qed

lemma convertGregorianDateToJulianDate_encode:
  assumes "valid_date t"
  shows "convertGregorianDateToJulianDate (tm_year t + 1900) (tm_mon t + 1) (tm_mday t) =
    encode_date t + 2400001"
proof -
  note v = valid_date_simps [OF assms]
  define y where "y = march_year t"
  define m where "m = march_month t"
  have y: "0 \<le> y" using v(1) by (auto simp: y_def march_year_def)
  have mc: "(tm_mon t + 1 - 14) sdiv 12 = (if tm_mon t < 2 then -1 else 0)"
    using months_cases [OF v(2,3)] by (elim disjE) simp_all
  have y1: "tm_year t + 1900 + 4800 + (if tm_mon t < 2 then -1 else 0) = y + 4800"
    "tm_year t + 1900 + 4900 + (if tm_mon t < 2 then -1 else 0) = y + 4900"
    by (auto simp: y_def march_year_def)
  have m1: "tm_mon t + 1 - 2 - 12 * (if tm_mon t < 2 then -1 else 0) = m + 1"
    by (auto simp: m_def march_month_def)
  have mm: "0 \<le> m" "m \<le> 11" using v by (auto simp: m_def march_month_def)
  have m2: "(367 * (m + 1)) sdiv 12 = (153 * m + 2) div 5 + 30"
    using months_cases [OF mm] by (elim disjE) simp_all
  have 1: "(1461 * (y + 4800)) sdiv 4 = 365 * y + y div 4 + 1753200"
  proof -
    have "1461 * (y + 4800) = y + (365 * y + 1753200) * 4" by simp
    then have "(1461 * (y + 4800)) div 4 = y div 4 + (365 * y + 1753200)"
      using div_mult_self1 [of 4 y "365 * y + 1753200"] by simp
    then show ?thesis using y by (simp add: sdiv_nonneg)
  qed
  have 2: "(y + 4900) sdiv 100 = y div 100 + 49" using y by (simp add: sdiv_nonneg)
  have 3: "(3 * (y div 100 + 49)) sdiv 4 = y div 100 - y div 400 + 36"
  proof -
    define C where "C = y div 100"
    have "0 \<le> C" using y by (simp add: C_def div_int_pos_iff)
    have "(3 * (C + 49)) div 4 = C - C div 4 + 36"
    proof (rule int_div_pos_eq)
      show "3 * (C + 49) = 4 * (C - C div 4 + 36) + (3 - C mod 4)"
        unfolding minus_mult_div_eq_mod [of C 4, symmetric] by simp
    qed auto
    moreover have "y div 400 = C div 4" using zdiv_zmult2_eq [of 4 y 100] by (simp add: C_def)
    ultimately show ?thesis using \<open>0 \<le> C\<close> by (simp add: sdiv_nonneg C_def)
  qed
  have "encode_date t = days_before_year (y + 1) + (153 * m + 2) div 5 + tm_mday t - 678882"
    using encode_date_march [of t] v y century_days [of y] by (simp add: y_def m_def)
  also have "days_before_year (y + 1) = 365 * y + y div 4 - y div 100 + y div 400"
    by (simp only: days_before_year_def add_diff_cancel_right')
  finally show ?thesis
    unfolding convertGregorianDateToJulianDate_def mc y1 m1 m2 1 2 3 by simp
qed

text \<open>
  The Julian day conversions are the date conversions shifted by 2400001 days, and undo
  each other.
\<close>

theorem julian_dates:
  assumes "isValidDate n"
  shows "convertJulianDateToGregorianDate (n + 2400001) =
      (tm_year (decode_date n) + 1900, tm_mon (decode_date n) + 1, tm_mday (decode_date n)) \<and>
    convertGregorianDateToJulianDate (tm_year (decode_date n) + 1900) (tm_mon (decode_date n) + 1)
      (tm_mday (decode_date n)) = n + 2400001"
proof -
  have N: "1 \<le> n + (678882::int)" using assms by (simp add: isValidDate_def MIN_DATE_def)
  show ?thesis
    using convertJulianDateToGregorianDate_decode [OF N] encode_decode [OF N]
      convertGregorianDateToJulianDate_encode [OF decode_date_valid [OF assms]] by simp
qed

theorem julian_dates_witness:
  "convertJulianDateToGregorianDate (0 + 2400001) =
     (tm_year (decode_date 0) + 1900, tm_mon (decode_date 0) + 1, tm_mday (decode_date 0))"
  using julian_dates [of 0] by (simp add: isValidDate_def MIN_DATE_def MAX_DATE_def)

subsection \<open>Times and timestamps\<close>

lemma encode_decode_time:
  assumes "0 \<le> t" "isValidTime t" "decode_time t = (h, m, s, f)"
  shows "encode_time h m s f = t" "0 \<le> h" "h < 24" "0 \<le> m" "m < 60" "0 \<le> s" "s < 60" "0 \<le> f" "f < 10000"
proof -
  define t1 where "t1 = t mod 36000000"
  define t2 where "t2 = t1 mod 600000"
  have e: "h = t div 36000000" "m = t1 div 600000" "s = t2 div 10000" "f = t2 mod 10000"
    using assms(3) by (simp_all add: decode_time_def Let_def t1_def t2_def)
  have b: "0 \<le> t1" "t1 < 36000000" "0 \<le> t2" "t2 < 600000" by (simp_all add: t1_def t2_def)
  have t: "t < 864000000" using assms(2) by (simp add: isValidTime_def)
  show "0 \<le> h" using assms(1) by (simp add: e div_int_pos_iff)
  show "h < 24" using t by (simp add: e)
  show "0 \<le> m" "m < 60" "0 \<le> s" "s < 60" "0 \<le> f" "f < 10000"
    using b by (simp_all add: e div_int_pos_iff)
  have "((h * 60 + m) * 60 + s) * 10000 + f = t"
    using mult_div_mod_eq [of 36000000 t] mult_div_mod_eq [of 600000 t1] mult_div_mod_eq [of 10000 t2]
    unfolding e t1_def [symmetric] t2_def [symmetric] by simp
  then show "encode_time h m s f = t"
    using assms(1) t by (simp add: encode_time_def)
qed


text \<open>
  C20. A timestamp in range is decoded to hours, minutes, seconds and fractions in their ranges
  and encoded again to the same timestamp; as a count of ticks it converts back as well.
\<close>

theorem timestamp_roundtrip:
  assumes "isValidTimeStamp ts" "0 \<le> timestamp_time ts" "decode_timestamp ts = (t, f)"
  shows "encode_timestamp t f = ts \<and> ticksToTimeStamp (timeStampToTicks ts) = ts \<and>
    0 \<le> tm_hour t \<and> tm_hour t < 24 \<and> 0 \<le> tm_min t \<and> tm_min t < 60 \<and>
    0 \<le> tm_sec t \<and> tm_sec t < 60 \<and> 0 \<le> f \<and> f < ISC_TIME_SECONDS_PRECISION"
proof -
  obtain h m s where tm: "decode_time (timestamp_time ts) = (h, m, s, f)"
    and t: "t = decode_date (timestamp_date ts)\<lparr>tm_hour := h, tm_min := m, tm_sec := s\<rparr>"
    using assms(3) by (auto simp: decode_timestamp_def split: prod.splits)
  have vd: "isValidDate (timestamp_date ts)" and vt: "isValidTime (timestamp_time ts)"
    using assms(1) by (auto simp: isValidTimeStamp_def)
  have N: "1 \<le> timestamp_date ts + (678882::int)" using vd by (simp add: isValidDate_def MIN_DATE_def)
  note ed = encode_decode_time [OF assms(2) vt tm]
  have "encode_date t = encode_date (decode_date (timestamp_date ts))"
    by (simp add: t encode_date_def)
  then have 1: "encode_timestamp t f = ts"
    using ed(1) encode_decode [OF N] by (cases ts) (simp add: encode_timestamp_def t)
  define a where "a = timestamp_date ts - MIN_DATE"
  define b where "b = timestamp_time ts"
  have ab: "0 \<le> a" "0 \<le> b" "b < 864000000"
    using vd vt assms(2) by (simp_all add: isValidDate_def isValidTime_def a_def b_def)
  have "a * 864000000 + b = b + a * 864000000" by simp
  then have "(a * 864000000 + b) sdiv 864000000 = a" "(a * 864000000 + b) smod 864000000 = b"
    using ab by (simp_all add: sdiv_nonneg smod_nonneg)
  then have "ticksToTimeStamp (timeStampToTicks ts) = ts"
    using ab by (cases ts) (simp add: ticksToTimeStamp_def timeStampToTicks_def a_def b_def)
  then show ?thesis using 1 ed by (simp add: t)
qed

theorem timestamp_roundtrip_witness:
  "decode_timestamp \<lparr>timestamp_date = 0, timestamp_time = 36610001\<rparr> =
     (decode_date 0\<lparr>tm_hour := 1, tm_min := 1, tm_sec := 1\<rparr>, 1) \<and>
   encode_timestamp (decode_date 0\<lparr>tm_hour := 1, tm_min := 1, tm_sec := 1\<rparr>) 1 =
     \<lparr>timestamp_date = 0, timestamp_time = 36610001\<rparr>"
proof -
  have d: "decode_timestamp \<lparr>timestamp_date = 0, timestamp_time = 36610001\<rparr> =
     (decode_date 0\<lparr>tm_hour := 1, tm_min := 1, tm_sec := 1\<rparr>, 1)"
    by (simp add: decode_timestamp_def decode_time_def Let_def)
  show ?thesis
    using timestamp_roundtrip [OF _ _ d] d
    by (simp add: isValidTimeStamp_def isValidDate_def isValidTime_def MIN_DATE_def MAX_DATE_def)
qed

text \<open>
  Adding an interval, positive or negative, to a timestamp adds it to the count of ticks, and
  leaves the time of day in range.
\<close>

theorem add10msec_ticks:
  assumes "0 \<le> timestamp_time v" "isValidTime (timestamp_time v)"
    and "\<bar>msec * multiplier\<bar> < 2 ^ 31 * ISC_TICKS_PER_DAY"
  shows "timeStampToTicks (add10msec v msec multiplier) = timeStampToTicks v + msec * multiplier \<and>
    0 \<le> timestamp_time (add10msec v msec multiplier) \<and>
    isValidTime (timestamp_time (add10msec v msec multiplier))"
proof -
  define full where "full = msec * multiplier"
  define days where "days = full sdiv 864000000"
  define secs where "secs = full smod 864000000"
  have f: "864000000 * days + secs = full"
    unfolding days_def secs_def by (rule mult_sdiv_smod_eq)
  have s: "- 864000000 < secs" "secs < 864000000"
    using smod_int_range [of 864000000 full] by (auto simp: secs_def)
  have ab: "\<bar>full\<bar> < 2 ^ 31 * 864000000" using assms(3) by (simp add: full_def)
  have d: "- (2 ^ 31) < days" "days < 2 ^ 31"
  proof -
    have "0 \<le> full \<Longrightarrow> 0 \<le> secs" "full \<le> 0 \<Longrightarrow> secs \<le> 0"
      unfolding secs_def by (simp_all add: smod_int_compares)
    then show "- (2 ^ 31) < days" "days < 2 ^ 31"
      using f s ab by (cases "0 \<le> full"; simp add: abs_if)+
  qed
  have st: "signed_take_bit 31 secs = secs" "signed_take_bit 31 days = days"
    using s d by (auto intro!: signed_take_bit_int_eq_self)
  define t where "t = timestamp_time v"
  have t: "0 \<le> t" "t < 864000000" using assms by (simp_all add: t_def isValidTime_def)
  have w: "x mod 4294967296 = x" if "0 \<le> x" "x < 4294967296" for x :: int using that by simp
  have un: "add10msec v msec multiplier =
     (if secs < 0 \<and> - secs > t
      then \<lparr>timestamp_date = timestamp_date v + days - 1, timestamp_time = (t + (864000000 + secs)) mod 4294967296\<rparr>
      else if 864000000 \<le> (t + secs) mod 4294967296
      then \<lparr>timestamp_date = timestamp_date v + days + 1,
             timestamp_time = ((t + secs) mod 4294967296 - 864000000) mod 4294967296\<rparr>
      else \<lparr>timestamp_date = timestamp_date v + days, timestamp_time = (t + secs) mod 4294967296\<rparr>)"
    using st unfolding add10msec_def Let_def full_def [symmetric] t_def [symmetric]
    by (simp add: days_def secs_def)
  consider "secs < 0 \<and> - secs > t" | "\<not> (secs < 0 \<and> - secs > t)" "864000000 \<le> t + secs"
    | "\<not> (secs < 0 \<and> - secs > t)" "t + secs < 864000000" by linarith
  then have "timeStampToTicks (add10msec v msec multiplier) = timeStampToTicks v + full \<and>
    0 \<le> timestamp_time (add10msec v msec multiplier) \<and>
    timestamp_time (add10msec v msec multiplier) < 864000000"
  proof cases
    case 1
    then have "(t + (864000000 + secs)) mod 4294967296 = t + 864000000 + secs"
      using s t by (subst w) auto
    then show ?thesis
      using 1 s t f unfolding un if_P [OF 1] by (simp add: timeStampToTicks_def t_def)
  next
    case 2
    then have m: "(t + secs) mod 4294967296 = t + secs" using s t by (subst w) auto
    have "(t + secs - 864000000) mod 4294967296 = t + secs - 864000000" using 2 s t by (subst w) auto
    then show ?thesis
      using 2 s t f unfolding un if_not_P [OF 2(1)] m by (simp add: timeStampToTicks_def t_def)
  next
    case 3
    then have m: "(t + secs) mod 4294967296 = t + secs" using s t by (subst w) auto
    moreover have "0 \<le> t + secs" using 3(1) t by linarith
    ultimately show ?thesis
      using 3 s t f unfolding un if_not_P [OF 3(1)] m by (simp add: timeStampToTicks_def t_def)
  qed
  then show ?thesis by (simp add: full_def isValidTime_def)
qed

theorem add10msec_ticks_witness:
  "timeStampToTicks (add10msec \<lparr>timestamp_date = 5, timestamp_time = 3\<rparr> (- 7) 10) =
   timeStampToTicks \<lparr>timestamp_date = 5, timestamp_time = 3\<rparr> + (- 7) * 10"
  by (rule add10msec_ticks [THEN conjunct1]) (simp_all add: isValidTime_def)

text \<open>
  Rounding a time truncates it to a multiple of the unit of its precision, and changes it by
  less than the unit.
\<close>

lemma round_time_truncates:
  assumes "0 \<le> precision" "precision \<le> 3" "0 \<le> t" "isValidTime t"
  shows "round_time t precision mod 10 ^ nat (4 - precision) = 0 \<and> 0 \<le> round_time t precision \<and>
    round_time t precision \<le> t \<and> t - round_time t precision < 10 ^ nat (4 - precision) \<and>
    isValidTime (round_time t precision)"
proof -
  have "precision = 0 \<or> precision = 1 \<or> precision = 2 \<or> precision = 3" using assms(1,2) by linarith
  then have e: "round_time t precision = t - t mod 10 ^ nat (4 - precision)"
    by (elim disjE) (simp_all add: round_time_def POW_10_TABLE_def Let_def)
  define r where "r = t mod 10 ^ nat (4 - precision)"
  have r: "0 \<le> r" "r < 10 ^ nat (4 - precision)" "r \<le> t"
    using assms(3) by (simp_all add: r_def zmod_le_nonneg_dividend)
  have "(t - r) mod 10 ^ nat (4 - precision) = 0" by (simp add: r_def)
  then show ?thesis
    using r assms(4) unfolding e r_def [symmetric] by (simp add: isValidTime_def)
qed

lemma round_time_truncates_witness:
  "round_time 12345 3 mod 10 ^ nat (4 - 3) = 0 \<and> 0 \<le> round_time 12345 3 \<and>
    round_time 12345 3 \<le> 12345 \<and> 12345 - round_time 12345 3 < 10 ^ nat (4 - 3) \<and>
    isValidTime (round_time 12345 3)"
  by (rule round_time_truncates) (simp_all add: isValidTime_def)

text \<open>
  The first day of the UNIX epoch is \<open>UNIX_DATE\<close>. The enumerator \<open>GDS_EPOCH_START\<close>, which the
  header describes with the same words, is thirty days later. Its one use is \<open>gds__trace\<close>
  (\<open>src/yvalve/gds.cpp\<close>), which prints the year, \<open>tm_mon\<close> as it is and the day of the month.
\<close>

definition gds_trace_date :: "int \<Rightarrow> int \<times> int \<times> int" where
  "gds_trace_date days =
     (let today = decode_date (days + GDS_EPOCH_START)
      in (tm_year today + 1900, tm_mon today, tm_mday today))"

lemma unix_epoch:
  "encode_date \<lparr>tm_sec = 0, tm_min = 0, tm_hour = 0, tm_mday = 1, tm_mon = 0, tm_year = 70,
     tm_wday = 0, tm_yday = 0\<rparr> = UNIX_DATE"
  "GDS_EPOCH_START = UNIX_DATE + 30"
  by (simp_all add: encode_date_def UNIX_DATE_def GDS_EPOCH_START_def)

text \<open>The date traced on 1 January 1970 is 1970-00-31, on 1 March 1970 it is 1970-02-31.\<close>

lemma gds_trace_date_wrong: "gds_trace_date 0 = (1970, 0, 31)" "gds_trace_date 59 = (1970, 2, 31)"
  by (simp_all add: gds_trace_date_def decode_date_def GDS_EPOCH_START_def Let_def)

end
