(* ===== verification/StringSearch.thy ===== *)
theory StringSearch
  imports "HOL-Library.Sublist"
begin

text \<open>
  The evaluators of \<open>STARTING WITH\<close> and \<open>CONTAINING\<close> (\<open>src/jrd/evl_string.h\<close>): they are fed a string
  in chunks, as blobs are, and search with the failure function of Knuth, Morris and Pratt.
  A loop along the failure function has fuel; that it suffices is part of the theorem.
\<close>

subsection \<open>Knuth, Morris and Pratt\<close>

text \<open>\<open>while (j > -1 && x[j] != c) j = kmpNext[j]\<close>\<close>

fun fall :: "nat \<Rightarrow> 'a list \<Rightarrow> int list \<Rightarrow> 'a \<Rightarrow> int \<Rightarrow> int option" where
  "fall 0 x kmpNext c j = None"
| "fall (Suc n) x kmpNext c j =
     (if -1 < j \<and> c \<noteq> x ! nat j then fall n x kmpNext c (kmpNext ! nat j) else Some j)"

text \<open>The first loop of \<open>preKmp\<close>, with \<open>n\<close> turns to go.\<close>

fun preKmp_loop :: "nat \<Rightarrow> 'a list \<Rightarrow> nat \<Rightarrow> int \<Rightarrow> int list \<Rightarrow> (nat \<times> int \<times> int list) option" where
  "preKmp_loop 0 x i j kmpNext = Some (i, j, kmpNext)"
| "preKmp_loop (Suc n) x i j kmpNext =
     (case fall (length x + 2) x kmpNext (x ! i) j of
        None \<Rightarrow> None
      | Some j' \<Rightarrow>
          let i = i + 1; j = j' + 1
          in preKmp_loop n x i j (kmpNext[i := if x ! i = x ! nat j then kmpNext ! nat j else j]))"

text \<open>For the empty pattern the last store would be one past the array; here it has no effect.\<close>

definition preKmp :: "'a list \<Rightarrow> int list option" where
  "preKmp x =
     (case preKmp_loop (length x - 1) x 0 (-1) ((replicate (length x + 1) 0)[0 := -1]) of
        None \<Rightarrow> None
      | Some (i, j, kmpNext) \<Rightarrow>
          (case fall (length x + 2) x kmpNext (x ! i) j of
             None \<Rightarrow> None
           | Some j' \<Rightarrow> Some (kmpNext[i + 1 := j' + 1])))"

record 'a contains_state =
  pattern_str :: "'a list"
  kmpNext :: "int list"
  offset :: int
  result :: bool

definition contains_evaluator :: "'a list \<Rightarrow> 'a contains_state option" where
  "contains_evaluator x =
     (case preKmp x of None \<Rightarrow> None
      | Some next \<Rightarrow> Some \<lparr>pattern_str = x, kmpNext = next, offset = 0, result = (x = [])\<rparr>)"

fun contains_loop :: "'a list \<Rightarrow> 'a contains_state \<Rightarrow> (bool \<times> 'a contains_state) option" where
  "contains_loop [] e = Some (True, e)"
| "contains_loop (c # data) e =
     (case fall (length (pattern_str e) + 2) (pattern_str e) (kmpNext e) c (offset e) of
        None \<Rightarrow> None
      | Some j \<Rightarrow>
          let e = e\<lparr>offset := j + 1\<rparr>
          in if int (length (pattern_str e)) \<le> offset e then Some (False, e\<lparr>result := True\<rparr>)
             else contains_loop data e)"

text \<open>Whether more data can change the result, and the new state.\<close>

definition contains_chunk :: "'a list \<Rightarrow> 'a contains_state \<Rightarrow> (bool \<times> 'a contains_state) option" where
  "contains_chunk data e = (if result e then Some (False, e) else contains_loop data e)"

fun contains_chunks :: "'a list list \<Rightarrow> 'a contains_state \<Rightarrow> 'a contains_state option" where
  "contains_chunks [] e = Some e"
| "contains_chunks (d # ds) e = (case contains_chunk d e of None \<Rightarrow> None | Some (b, e') \<Rightarrow> contains_chunks ds e')"

subsection \<open>Starting with\<close>

record 'a starts_state =
  starts_pattern :: "'a list"
  starts_offset :: nat
  starts_result :: bool

definition starts_evaluator :: "'a list \<Rightarrow> 'a starts_state" where
  "starts_evaluator x = \<lparr>starts_pattern = x, starts_offset = 0, starts_result = True\<rparr>"

definition starts_getResult :: "'a starts_state \<Rightarrow> bool" where
  "starts_getResult e \<longleftrightarrow> length (starts_pattern e) \<le> starts_offset e \<and> starts_result e"

definition starts_chunk :: "'a list \<Rightarrow> 'a starts_state \<Rightarrow> bool \<times> 'a starts_state" where
  "starts_chunk data e =
     (if \<not> starts_result e \<or> length (starts_pattern e) \<le> starts_offset e then (False, e)
      else let n = (if length data < length (starts_pattern e) - starts_offset e then length data
                    else length (starts_pattern e) - starts_offset e)
           in if take n data \<noteq> take n (drop (starts_offset e) (starts_pattern e))
              then (False, e\<lparr>starts_result := False\<rparr>)
              else (starts_offset e + n < length (starts_pattern e), e\<lparr>starts_offset := starts_offset e + n\<rparr>))"

subsection \<open>The failure function\<close>

text \<open>
  What \<open>kmpNext ! k\<close> should be: the length of the longest border of the first \<open>k\<close> elements that is
  shorter than them and, inside the pattern, does not continue with the element they continue with;
  -1 if there is none.
\<close>

definition failure :: "'a list \<Rightarrow> nat \<Rightarrow> int" where
  "failure x k = Max (insert (-1)
     (int ` {b \<in> {..<k}. suffix (take b x) (take k x) \<and> \<not> (k < length x \<and> x ! b = x ! k)}))"

definition fails_to :: "'a list \<Rightarrow> int list \<Rightarrow> nat \<Rightarrow> bool" where
  "fails_to x next k \<longleftrightarrow> -1 \<le> next ! k \<and> next ! k < int k \<and>
     (0 \<le> next ! k \<longrightarrow> suffix (take (nat (next ! k)) x) (take k x) \<and> \<not> (k < length x \<and> x ! nat (next ! k) = x ! k)) \<and>
     (\<forall>b < k. next ! k < int b \<and> suffix (take b x) (take k x) \<longrightarrow> k < length x \<and> x ! b = x ! k)"

lemma fails_toD:
  assumes "fails_to x next k"
  shows "-1 \<le> next ! k" "next ! k < int k" "0 \<le> next ! k \<Longrightarrow> suffix (take (nat (next ! k)) x) (take k x)"
    "b < k \<Longrightarrow> next ! k < int b \<Longrightarrow> suffix (take b x) (take k x) \<Longrightarrow> x ! b = x ! k"
  using assms by (simp_all add: fails_to_def)

lemma fails_to_failure:
  assumes "fails_to x next k"
  shows "next ! k = failure x k"
proof -
  define B where "B = {b \<in> {..<k}. suffix (take b x) (take k x) \<and> \<not> (k < length x \<and> x ! b = x ! k)}"
  have le: "int b \<le> next ! k" if "b \<in> B" for b
  proof (rule ccontr)
    assume "\<not> int b \<le> next ! k"
    then have "next ! k < int b" by simp
    moreover have "b < k" "suffix (take b x) (take k x)" "\<not> (k < length x \<and> x ! b = x ! k)" using that unfolding B_def by blast+
    moreover have "\<forall>b < k. next ! k < int b \<and> suffix (take b x) (take k x) \<longrightarrow> k < length x \<and> x ! b = x ! k"
      using assms unfolding fails_to_def by blast
    ultimately show False by blast
  qed
  have "next ! k \<in> insert (-1) (int ` B)"
  proof (cases "0 \<le> next ! k")
    case True
    then have "suffix (take (nat (next ! k)) x) (take k x) \<and> \<not> (k < length x \<and> x ! nat (next ! k) = x ! k)"
      using assms unfolding fails_to_def by blast
    moreover have "nat (next ! k) < k" using True fails_toD(2) [OF assms] by linarith
    ultimately have "nat (next ! k) \<in> B" unfolding B_def by blast
    then show ?thesis using True by (intro insertI2 image_eqI [of _ _ "nat (next ! k)"]) simp_all
  qed (use fails_toD(1) [OF assms] in simp)
  then have "Max (insert (-1) (int ` B)) = next ! k"
  proof (intro Max_eqI)
    show "finite (insert (-1) (int ` B))" unfolding B_def by simp
    show "y \<le> next ! k" if "y \<in> insert (-1) (int ` B)" for y
      using that le fails_toD(1) [OF assms] by blast
  qed
  then show ?thesis by (simp only: failure_def B_def)
qed

lemma suffix_shorter: "suffix a s \<Longrightarrow> suffix b s \<Longrightarrow> length a \<le> length b \<Longrightarrow> suffix a b"
  by (metis suffix_length_suffix)

lemma suffix_snoc: "suffix (l @ [a]) (s @ [c]) \<longleftrightarrow> a = c \<and> suffix l s"
  by (auto simp: suffix_def)

lemma take_snoc: "b < length x \<Longrightarrow> take (Suc b) x = take b x @ [x ! b]"
  by (rule take_Suc_conv_app_nth)

lemma fall_result:
  assumes "\<And>k. k < n \<Longrightarrow> fails_to x next k" "n \<le> length x" "j < int n" "-1 \<le> j" "0 \<le> j \<Longrightarrow> suffix (take (nat j) x) s"
    "\<And>b. b < n \<Longrightarrow> suffix (take b x) s \<Longrightarrow> x ! b = c \<Longrightarrow> int b \<le> j" "nat (j + 1) < fuel"
  shows "\<exists>j'. fall fuel x next c j = Some j' \<and> -1 \<le> j' \<and> j' \<le> j \<and> (0 \<le> j' \<longrightarrow> suffix (take (nat j') x) s \<and> x ! nat j' = c) \<and>
    (\<forall>b < n. suffix (take b x) s \<and> x ! b = c \<longrightarrow> int b \<le> j')"
  using assms(3-7)
proof (induction fuel arbitrary: j)
  case (Suc fuel)
  show ?case
  proof (cases "-1 < j \<and> c \<noteq> x ! nat j")
    case True
    define k where "k = nat j"
    have k: "int k = j" "k < n" "k \<le> length x" using True Suc.prems(1) assms(2) by (simp_all add: k_def nat_less_iff)
    note f = fails_toD [OF assms(1) [OF k(2)]]
    have sk: "suffix (take k x) s" using Suc.prems(3) True by (simp add: k_def)
    have "\<exists>j'. fall fuel x next c (next ! k) = Some j' \<and> -1 \<le> j' \<and> j' \<le> next ! k \<and> (0 \<le> j' \<longrightarrow> suffix (take (nat j') x) s \<and> x ! nat j' = c) \<and>
      (\<forall>b < n. suffix (take b x) s \<and> x ! b = c \<longrightarrow> int b \<le> j')"
    proof (rule Suc.IH)
      show "next ! k < int n" "-1 \<le> next ! k" using f(1,2) k(2) by simp_all
      show "suffix (take (nat (next ! k)) x) s" if "0 \<le> next ! k" by (rule suffix_order.trans [OF f(3) [OF that] sk])
      show "int b \<le> next ! k" if b: "b < n" "suffix (take b x) s" "x ! b = c" for b
      proof (rule ccontr)
        assume nb: "\<not> int b \<le> next ! k"
        have "int b \<le> j" by (rule Suc.prems(4) [OF b])
        moreover have "b \<noteq> k" using b(3) True unfolding k_def by metis
        ultimately have bk: "b < k" using k(1) by linarith
        then have "suffix (take b x) (take k x)" using suffix_shorter [OF b(2) sk] k(3) by simp
        then have "x ! b = x ! k" using f(4) [OF bk] nb by simp
        then show False using b(3) True unfolding k_def by metis
      qed
      show "nat (next ! k + 1) < fuel" using f(1,2) k(1) Suc.prems(5) by linarith
    qed
    then obtain j' where j': "fall fuel x next c (next ! k) = Some j'" "-1 \<le> j'" "j' \<le> next ! k"
      "0 \<le> j' \<longrightarrow> suffix (take (nat j') x) s \<and> x ! nat j' = c" "\<forall>b < n. suffix (take b x) s \<and> x ! b = c \<longrightarrow> int b \<le> j'"
      by (elim exE conjE) (rule that)
    have "fall (Suc fuel) x next c j = Some j'" using j'(1) True by (simp add: k_def)
    moreover have "j' \<le> j" using j'(3) f(2) k(1) by simp
    ultimately show ?thesis using j'(2,4,5) by (intro exI [of _ j'] conjI)
  next
    case False
    then have "fall (Suc fuel) x next c j = Some j" "0 \<le> j \<longrightarrow> x ! nat j = c"
      by (simp_all only: fall.simps if_False) auto
    then show ?thesis using Suc.prems(2-4) by (intro exI [of _ j]) simp
  qed
qed (erule less_zeroE)

declare fall.simps [simp del]

text \<open>The longest \<open>b < n\<close> such that the first \<open>b\<close> elements of the pattern end the text; -1 if there is none.\<close>

definition longest :: "'a list \<Rightarrow> nat \<Rightarrow> 'a list \<Rightarrow> int \<Rightarrow> bool" where
  "longest x n s j \<longleftrightarrow> -1 \<le> j \<and> j < int n \<and> (0 \<le> j \<longrightarrow> suffix (take (nat j) x) s) \<and> (\<forall>b < n. suffix (take b x) s \<longrightarrow> int b \<le> j)"

lemma fall_longest:
  assumes "\<And>k. k < n \<Longrightarrow> fails_to x next k" "n \<le> length x" "longest x n s j"
  shows "\<exists>j'. fall (length x + 2) x next c j = Some j' \<and> longest x (Suc n) (s @ [c]) (j' + 1)"
proof -
  have l: "-1 \<le> j" "j < int n" "0 \<le> j \<Longrightarrow> suffix (take (nat j) x) s" "\<And>b. b < n \<Longrightarrow> suffix (take b x) s \<Longrightarrow> int b \<le> j"
    using assms(3) by (simp_all add: longest_def)
  obtain j' where j': "fall (length x + 2) x next c j = Some j'" "-1 \<le> j'" "j' \<le> j"
    "0 \<le> j' \<longrightarrow> suffix (take (nat j') x) s \<and> x ! nat j' = c" "\<forall>b < n. suffix (take b x) s \<and> x ! b = c \<longrightarrow> int b \<le> j'"
    using fall_result [OF assms(1,2) l(2,1,3), of c "length x + 2"] l(2,4) assms(2) by force
  have "suffix (take (nat (j' + 1)) x) (s @ [c])"
  proof (cases "0 \<le> j'")
    case True
    then have "nat (j' + 1) = Suc (nat j')" "nat j' < length x" using j'(3) l(2) assms(2) by auto
    then show ?thesis using j'(4) True by (simp add: take_snoc suffix_snoc)
  next
    case False
    then show ?thesis using j'(2) by simp
  qed
  moreover have "int b \<le> j' + 1" if b: "b < Suc n" "suffix (take b x) (s @ [c])" for b
  proof (cases b)
    case (Suc a)
    then have "a < n" "a < length x" using b(1) assms(2) by simp_all
    then have "suffix (take a x) s \<and> x ! a = c" using b(2) Suc by (simp add: take_snoc suffix_snoc)
    then show ?thesis using j'(5) \<open>a < n\<close> Suc by simp
  qed (use j'(2) in simp)
  ultimately show ?thesis using j'(1-3) l(2) by (auto simp: longest_def)
qed

subsection \<open>preKmp\<close>

definition kmp_inv :: "'a list \<Rightarrow> nat \<Rightarrow> int \<Rightarrow> int list \<Rightarrow> bool" where
  "kmp_inv x i j next \<longleftrightarrow> i < length x \<and> length next = length x + 1 \<and> longest x i (take i x) j \<and> (\<forall>k \<le> i. fails_to x next k)"

lemma fails_to_update: "k \<noteq> i \<Longrightarrow> fails_to x (next[i := v]) k \<longleftrightarrow> fails_to x next k"
  by (simp add: fails_to_def)

lemma fails_to_next:
  assumes j: "longest x (Suc i) (take (Suc i) x) j" "0 \<le> j" and i: "Suc i < length x" and len: "length next = length x + 1"
    and f: "fails_to x next (nat j)"
  shows "fails_to x (next[Suc i := if x ! Suc i = x ! nat j then next ! nat j else j]) (Suc i)"
proof -
  define k where "k = nat j"
  have k: "j = int k" "k < Suc i" "suffix (take k x) (take (Suc i) x)" using j by (auto simp: longest_def k_def)
  have lng: "b \<le> k" if "b < Suc i" "suffix (take b x) (take (Suc i) x)" for b
    using j(1) that k(1) by (auto simp: longest_def)
  have f: "fails_to x next k" using f by (simp add: k_def)
  show ?thesis
  proof (cases "x ! Suc i = x ! k")
    case True
    have sub: "suffix (take b x) (take k x)" if "b < Suc i" "suffix (take b x) (take (Suc i) x)" for b
      using suffix_shorter [OF that(2) k(3)] lng [OF that] i k(2) by simp
    have "x ! b = x ! Suc i" if b: "b < Suc i" "next ! k < int b" "suffix (take b x) (take (Suc i) x)" for b
    proof (cases "b = k")
      case False
      then have "b < k" using lng [OF b(1,3)] by simp
      then have "x ! b = x ! k" using f sub [OF b(1,3)] b(2) by (auto simp: fails_to_def)
      then show ?thesis using True by simp
    qed (simp add: True)
    moreover have "suffix (take (nat (next ! k)) x) (take (Suc i) x) \<and> x ! nat (next ! k) \<noteq> x ! Suc i" if "0 \<le> next ! k"
      using f that k(2,3) i True by (auto simp: fails_to_def intro: suffix_order.trans)
    moreover have "-1 \<le> next ! k" "next ! k < int (Suc i)" using f k(2) by (auto simp: fails_to_def)
    ultimately show ?thesis using True i len by (simp add: fails_to_def k_def [symmetric])
  next
    case False
    have "\<not> int k < int b" if "b < Suc i" "suffix (take b x) (take (Suc i) x)" for b using lng [OF that] by simp
    then show ?thesis using False i len k by (auto simp: fails_to_def)
  qed
qed

lemma kmp_step:
  assumes "kmp_inv x i j next"
  shows "\<exists>j'. fall (length x + 2) x next (x ! i) j = Some j' \<and> longest x (Suc i) (take (Suc i) x) (j' + 1) \<and> 0 \<le> j' + 1"
proof -
  have i: "i < length x" "longest x i (take i x) j" "\<And>k. k < i \<Longrightarrow> fails_to x next k" using assms by (auto simp: kmp_inv_def)
  obtain j' where "fall (length x + 2) x next (x ! i) j = Some j'" "longest x (Suc i) (take i x @ [x ! i]) (j' + 1)"
    using fall_longest [OF i(3) _ i(2), of "x ! i"] i(1) by auto
  moreover from this(2) have "0 \<le> j' + 1" unfolding longest_def by (metis of_nat_0 suffix_bot.bot_least take_0 zero_less_Suc)
  ultimately show ?thesis using i(1) by (simp add: take_snoc)
qed

lemma preKmp_loop_correct:
  "kmp_inv x i j next \<Longrightarrow> n + i = length x - 1 \<Longrightarrow>
   \<exists>j' next'. preKmp_loop n x i j next = Some (length x - 1, j', next') \<and> kmp_inv x (length x - 1) j' next'"
proof (induction n arbitrary: i j "next")
  case (Suc n)
  obtain j' where j': "fall (length x + 2) x next (x ! i) j = Some j'" "longest x (Suc i) (take (Suc i) x) (j' + 1)" "0 \<le> j' + 1"
    using kmp_step [OF Suc.prems(1)] by blast
  define j1 where "j1 = j' + 1"
  define next1 where "next1 = next[Suc i := if x ! Suc i = x ! nat j1 then next ! nat j1 else j1]"
  have i: "Suc i < length x" "length next = length x + 1" "\<And>k. k \<le> i \<Longrightarrow> fails_to x next k"
    using Suc.prems by (auto simp: kmp_inv_def)
  have "nat j1 \<le> i" using j'(2,3) by (auto simp: longest_def j1_def)
  then have "fails_to x next (nat (j' + 1))" using i(3) by (simp add: j1_def)
  then have "fails_to x next1 (Suc i)" unfolding next1_def j1_def by (rule fails_to_next [OF j'(2,3) i(1,2)])
  then have "kmp_inv x (Suc i) j1 next1"
    using i j'(2) by (auto simp: kmp_inv_def next1_def j1_def fails_to_update le_Suc_eq)
  then have "\<exists>j' next'. preKmp_loop n x (Suc i) j1 next1 = Some (length x - 1, j', next') \<and> kmp_inv x (length x - 1) j' next'"
    by (rule Suc.IH) (use Suc.prems(2) in simp)
  then show ?case using j'(1) unfolding next1_def j1_def by (simp add: Let_def)
qed (auto simp: kmp_inv_def)

lemma preKmp_fails:
  assumes "x \<noteq> []"
  shows "\<exists>next. preKmp x = Some next \<and> length next = length x + 1 \<and> (\<forall>k \<le> length x. fails_to x next k)"
proof -
  define next0 where "next0 = (replicate (length x + 1) 0)[0 := -1 :: int]"
  have "kmp_inv x 0 (-1) next0" using assms by (simp add: kmp_inv_def longest_def fails_to_def next0_def)
  from preKmp_loop_correct [OF this, of "length x - 1"] obtain j "next" where
    l: "preKmp_loop (length x - 1) x 0 (-1) next0 = Some (length x - 1, j, next)" "kmp_inv x (length x - 1) j next"
    by auto
  obtain j' where j': "fall (length x + 2) x next (x ! (length x - 1)) j = Some j'" "longest x (length x) x (j' + 1)" "0 \<le> j' + 1"
    using kmp_step [OF l(2)] assms by auto
  define next1 where "next1 = next[length x := j' + 1]"
  have len: "length next = length x + 1" "\<And>k. k < length x \<Longrightarrow> fails_to x next k" using l(2) assms by (auto simp: kmp_inv_def)
  have "fails_to x next1 (length x)" using j'(2,3) len by (auto simp: fails_to_def longest_def next1_def)
  then have "\<forall>k \<le> length x. fails_to x next1 k" using len(2) by (auto simp: next1_def fails_to_update le_less)
  moreover have "preKmp x = Some next1"
    unfolding preKmp_def next0_def [symmetric] l(1) using j'(1) assms by (simp add: next1_def)
  ultimately show ?thesis using len(1) by (auto simp: next1_def)
qed

lemma preKmp_nil: "preKmp [] = Some [-1]"
  by (simp add: preKmp_def fall.simps)

text \<open>
  \<open>preKmp\<close> returns, and the entry at \<open>k\<close> is the length of the longest proper border of the first \<open>k\<close>
  elements that does not continue with the element at \<open>k\<close>, or -1; the last entry, at the length of the
  pattern, is its longest proper border.
\<close>

theorem preKmp_is_failure_function: "preKmp x = Some (map (failure x) [0..<length x + 1])"
proof (cases "x = []")
  case False
  obtain "next" where n: "preKmp x = Some next" "length next = length x + 1" "\<forall>k \<le> length x. fails_to x next k"
    using preKmp_fails [OF False] by blast
  have "next = map (failure x) [0..<length x + 1]"
  proof (rule nth_equalityI)
    fix k assume "k < length next"
    then have k: "k < length x + 1" "k \<le> length x" using n(2) by simp_all
    have "next ! k = failure x k" using n(3) k(2) by (intro fails_to_failure) simp
    also have "\<dots> = map (failure x) [0..<length x + 1] ! k" using nth_map_upt [of k "length x + 1" 0 "failure x"] k(1) by simp
    finally show "next ! k = map (failure x) [0..<length x + 1] ! k" .
  qed (simp add: n(2))
  then show ?thesis using n(1) by simp
qed (simp add: preKmp_nil failure_def)

subsection \<open>Containing\<close>

text \<open>The state of the evaluator after the text \<open>s\<close>.\<close>

definition searched :: "'a list \<Rightarrow> 'a list \<Rightarrow> 'a contains_state \<Rightarrow> bool" where
  "searched x s e \<longleftrightarrow> pattern_str e = x \<and> (\<forall>k < length x. fails_to x (kmpNext e) k) \<and> result e = sublist x s \<and>
     (\<not> result e \<longrightarrow> longest x (length x) s (offset e))"

lemma searched_start: "\<exists>e. contains_evaluator x = Some e \<and> searched x [] e"
proof (cases "x = []")
  case False
  then obtain "next" where "preKmp x = Some next" "\<forall>k \<le> length x. fails_to x next k" using preKmp_fails by blast
  then show ?thesis using False by (auto simp: contains_evaluator_def searched_def longest_def)
qed (simp add: contains_evaluator_def searched_def preKmp_nil)

lemma contains_loop_searched:
  "searched x s e \<Longrightarrow> \<not> result e \<Longrightarrow>
   \<exists>e'. contains_loop data e = Some (\<not> result e', e') \<and> searched x (s @ data) e'"
proof (induction data arbitrary: s e)
  case (Cons c data)
  have e: "pattern_str e = x" "\<And>k. k < length x \<Longrightarrow> fails_to x (kmpNext e) k" "longest x (length x) s (offset e)" "\<not> sublist x s"
    using Cons.prems by (auto simp: searched_def)
  obtain j where j: "fall (length x + 2) x (kmpNext e) c (offset e) = Some j" "longest x (Suc (length x)) (s @ [c]) (j + 1)"
    using fall_longest [OF e(2) _ e(3), of c] by auto
  show ?case
  proof (cases "int (length x) \<le> j + 1")
    case True
    then have "suffix x (s @ [c])" using j(2) by (auto simp: longest_def)
    then have "sublist x (s @ c # data)" by (auto simp: suffix_def sublist_def) (metis append.assoc append_Cons append_Nil)
    then show ?thesis using True j(1) e(1,2) by (auto simp: searched_def Let_def)
  next
    case False
    then have "\<not> suffix x (s @ [c])" using j(2) unfolding longest_def by (metis lessI take_all order_refl)
    then have "\<not> sublist x (s @ [c])" using e(4) by (simp add: sublist_snoc)
    moreover have "longest x (length x) (s @ [c]) (j + 1)" using False j(2) by (auto simp: longest_def)
    ultimately have "searched x (s @ [c]) (e\<lparr>offset := j + 1\<rparr>)" using e(1,2) Cons.prems(2) by (simp add: searched_def)
    from Cons.IH [OF this] show ?thesis using False j(1) e(1) Cons.prems(2) by (simp add: Let_def)
  qed
qed simp

lemma contains_chunk_searched:
  assumes "searched x s e"
  shows "\<exists>e'. contains_chunk data e = Some (\<not> result e', e') \<and> searched x (s @ data) e'"
proof (cases "result e")
  case True
  then have "sublist x s" using assms by (simp add: searched_def)
  then have "sublist x (s @ data)" unfolding sublist_def by (metis append.assoc)
  then show ?thesis using True assms by (simp add: contains_chunk_def searched_def)
qed (use contains_loop_searched [OF assms] in \<open>simp add: contains_chunk_def\<close>)

lemma contains_chunks_searched:
  "searched x s e \<Longrightarrow> \<exists>e'. contains_chunks ds e = Some e' \<and> searched x (s @ concat ds) e'"
proof (induction ds arbitrary: s e)
  case (Cons d ds)
  obtain e' where "contains_chunk d e = Some (\<not> result e', e')" "searched x (s @ d) e'"
    using contains_chunk_searched [OF Cons.prems] by blast
  then show ?case using Cons.IH [of "s @ d" e'] by simp
qed simp

text \<open>
  C40. \<open>CONTAINING\<close> is right: however the string is cut into chunks, the evaluator is built, every chunk is
  processed within the fuel, and in the end the result is whether the pattern occurs in the string.
\<close>

theorem contains_is_sublist:
  "\<exists>e0 e. contains_evaluator x = Some e0 \<and> contains_chunks ds e0 = Some e \<and> result e = sublist x (concat ds)"
proof -
  obtain e0 where e0: "contains_evaluator x = Some e0" "searched x [] e0" using searched_start by blast
  then obtain e where "contains_chunks ds e0 = Some e" "searched x (concat ds) e" using contains_chunks_searched [of x "[]" e0 ds] by auto
  then show ?thesis using e0(1) by (auto simp: searched_def)
qed

subsection \<open>Starting with\<close>

text \<open>The state of the evaluator after the text \<open>s\<close>.\<close>

definition started :: "'a list \<Rightarrow> 'a list \<Rightarrow> 'a starts_state \<Rightarrow> bool" where
  "started x s e \<longleftrightarrow> starts_pattern e = x \<and>
     (if starts_result e then starts_offset e = min (length s) (length x) \<and> take (length x) s = take (length s) x
      else \<not> take (length x) s = take (length s) x)"

lemma started_chunk:
  assumes "started x s e"
  shows "started x (s @ data) (snd (starts_chunk data e))"
proof (cases "starts_result e \<and> length s < length x")
  case True
  define n where "n = min (length data) (length x - length s)"
  have e: "starts_pattern e = x" "starts_offset e = length s" "s = take (length s) x"
    using assms True by (simp_all add: started_def)
  have "take (length x) (s @ data) = take (length (s @ data)) x \<longleftrightarrow>
      s @ take (length x - length s) data = take (length s) x @ take (length data) (drop (length s) x)"
    using True by (simp add: take_add)
  also have "\<dots> \<longleftrightarrow> take (length x - length s) data = take (length data) (drop (length s) x)"
    using e(3) by (metis same_append_eq)
  also have "\<dots> \<longleftrightarrow> take n data = take n (drop (length s) x)" by (simp add: n_def min_def)
  finally have q: "take (length x) (s @ data) = take (length (s @ data)) x \<longleftrightarrow> take n data = take n (drop (length s) x)" .
  have r: "starts_chunk data e = (if take n data \<noteq> take n (drop (length s) x) then (False, e\<lparr>starts_result := False\<rparr>)
      else (length s + n < length x, e\<lparr>starts_offset := length s + n\<rparr>))"
    using e(1,2) True by (simp add: starts_chunk_def n_def min_def Let_def)
  have "length s + n = min (length (s @ data)) (length x)" using True by (auto simp: n_def min_def)
  then show ?thesis using e(1) True unfolding started_def q r by simp
next
  case False
  then have "take (length x) (s @ data) = take (length (s @ data)) x \<longleftrightarrow> take (length x) s = take (length s) x"
    if "starts_result e" using assms that by (auto simp: started_def)
  moreover have "\<not> take (length x) (s @ data) = take (length (s @ data)) x" if "\<not> take (length x) s = take (length s) x"
  proof
    assume "take (length x) (s @ data) = take (length (s @ data)) x"
    then have "take (length s) (take (length x) (s @ data)) = take (length s) (take (length (s @ data)) x)" by simp
    then show False using that by (simp add: min.commute min_def split: if_splits)
  qed
  moreover have "snd (starts_chunk data e) = e" using assms False by (auto simp: started_def starts_chunk_def)
  moreover have "min (length (s @ data)) (length x) = min (length s) (length x)" if "starts_result e" using that False by auto
  ultimately show ?thesis using assms unfolding started_def by metis
qed

lemma started_fold: "started x s e \<Longrightarrow> started x (s @ concat ds) (fold (\<lambda>d e. snd (starts_chunk d e)) ds e)"
proof (induction ds arbitrary: s e)
  case (Cons d ds)
  show ?case using Cons.IH [OF started_chunk [OF Cons.prems]] by simp
qed simp

lemma started_getResult: "started x s e \<Longrightarrow> starts_getResult e \<longleftrightarrow> prefix x s"
  by (auto simp: started_def starts_getResult_def prefix_def min_def split: if_splits) (metis append_take_drop_id)+

text \<open>
  \<open>STARTING WITH\<close> is right: however the string is cut into chunks, the result is whether the pattern is
  a prefix of it.
\<close>

theorem starts_is_prefix:
  "starts_getResult (fold (\<lambda>d e. snd (starts_chunk d e)) ds (starts_evaluator x)) \<longleftrightarrow> prefix x (concat ds)"
proof -
  have "started x [] (starts_evaluator x)" by (simp add: started_def starts_evaluator_def)
  from started_getResult [OF started_fold [OF this]] show ?thesis by simp
qed

end
