(* ===== verification/LikeEvaluator.thy ===== *)
theory LikeEvaluator
  imports StringSearch
begin

text \<open>
  The evaluator of \<open>LIKE\<close> (class \<open>LikeEvaluator\<close> of \<open>src/jrd/evl_string.h\<close>): the pattern is parsed into
  items, these are compiled, and chunks of a string are matched against them by several branches in
  parallel. This theory has the model, the meaning of patterns, and the proof that compilation keeps it.
\<close>

subsection \<open>Items and their compilation\<close>

datatype item_type = piNone | piSearch | piSkipFixed | piDirectMatch | piEscapedString | piSkipMore

text \<open>
  \<open>str_data\<close> is a pointer to characters: the list from there on. \<open>str_length\<close> is also the \<open>skipCount\<close> of
  the union, which shares its place; the matching loop relies on that.
\<close>

record 'a pattern_item =
  item_type :: item_type
  str_data :: "'a list"
  str_length :: nat
  str_kmpNext :: "int list"
  match_any :: bool

text \<open>The characters with a special meaning; a zero, or \<open>use_escape\<close> unset, is \<open>None\<close>.\<close>

record 'a like_syntax =
  escape_char :: "'a option"
  sql_match_any :: "'a option"
  sql_match_one :: "'a option"

definition new_item :: "'a pattern_item" where
  "new_item = \<lparr>item_type = piNone, str_data = [], str_length = 0, str_kmpNext = [], match_any = False\<rparr>"

text \<open>The current item is the last one; the others come first.\<close>

type_synonym 'a items = "'a pattern_item list \<times> 'a pattern_item"

fun on_escaped :: "'a list \<Rightarrow> 'a items \<Rightarrow> 'a items" where
  "on_escaped p (prev, it) = (case item_type it of
     piSkipFixed \<Rightarrow> (prev @ [it], new_item\<lparr>item_type := piEscapedString, str_data := p, str_length := 1\<rparr>)
   | piSkipMore \<Rightarrow> (prev @ [it], new_item\<lparr>item_type := piEscapedString, str_data := p, str_length := 1\<rparr>)
   | piNone \<Rightarrow> (prev, it\<lparr>item_type := piEscapedString, str_data := p, str_length := 1\<rparr>)
   | piSearch \<Rightarrow> (prev, it\<lparr>item_type := piEscapedString, str_length := str_length it + 1\<rparr>)
   | piEscapedString \<Rightarrow> (prev, it\<lparr>str_length := str_length it + 1\<rparr>)
   | _ \<Rightarrow> (prev, it))"

fun on_percent :: "'a items \<Rightarrow> 'a items" where
  "on_percent (prev, it) = (case item_type it of
     piSearch \<Rightarrow> (prev @ [it], new_item\<lparr>item_type := piSkipMore\<rparr>)
   | piEscapedString \<Rightarrow> (prev @ [it], new_item\<lparr>item_type := piSkipMore\<rparr>)
   | piSkipFixed \<Rightarrow> (prev, it\<lparr>item_type := piSkipMore\<rparr>)
   | piNone \<Rightarrow> (prev, it\<lparr>item_type := piSkipMore\<rparr>)
   | _ \<Rightarrow> (prev, it))"

fun on_underscore :: "'a items \<Rightarrow> 'a items" where
  "on_underscore (prev, it) = (case item_type it of
     piSearch \<Rightarrow> (prev @ [it], new_item\<lparr>item_type := piSkipFixed, str_length := 1\<rparr>)
   | piEscapedString \<Rightarrow> (prev @ [it], new_item\<lparr>item_type := piSkipFixed, str_length := 1\<rparr>)
   | piNone \<Rightarrow> (prev, it\<lparr>item_type := piSkipFixed, str_length := 1\<rparr>)
   | piSkipFixed \<Rightarrow> (prev, it\<lparr>str_length := str_length it + 1\<rparr>)
   | piSkipMore \<Rightarrow> (prev, it\<lparr>str_length := str_length it + 1\<rparr>)
   | _ \<Rightarrow> (prev, it))"

fun on_other :: "'a list \<Rightarrow> 'a items \<Rightarrow> 'a items" where
  "on_other p (prev, it) = (case item_type it of
     piSkipFixed \<Rightarrow> (prev @ [it], new_item\<lparr>item_type := piSearch, str_data := p, str_length := 1\<rparr>)
   | piSkipMore \<Rightarrow> (prev @ [it], new_item\<lparr>item_type := piSearch, str_data := p, str_length := 1\<rparr>)
   | piNone \<Rightarrow> (prev, it\<lparr>item_type := piSearch, str_data := p, str_length := 1\<rparr>)
   | piSearch \<Rightarrow> (prev, it\<lparr>str_length := str_length it + 1\<rparr>)
   | piEscapedString \<Rightarrow> (prev, it\<lparr>str_length := str_length it + 1\<rparr>)
   | _ \<Rightarrow> (prev, it))"

text \<open>The first pass over the pattern; \<open>None\<close> is the error \<open>isc_escape_invalid\<close>.\<close>

fun parse :: "'a like_syntax \<Rightarrow> 'a list \<Rightarrow> 'a items \<Rightarrow> 'a items option" where
  "parse sx [] st = Some st"
| "parse sx (c # p) st =
     (if escape_char sx = Some c then
        (case p of
           [] \<Rightarrow> None
         | c' # p' \<Rightarrow>
             if c' = c \<or> sql_match_any sx = Some c' \<or> sql_match_one sx = Some c'
             then parse sx p' (on_escaped (c # p) st)
             else None)
      else if sql_match_any sx = Some c then parse sx p (on_percent st)
      else if sql_match_one sx = Some c then parse sx p (on_underscore st)
      else parse sx p (on_other (c # p) st))"

text \<open>The first \<open>n\<close> characters that the pointer leads to, escapes removed.\<close>

fun unescape :: "'a like_syntax \<Rightarrow> nat \<Rightarrow> 'a list \<Rightarrow> 'a list" where
  "unescape sx 0 p = []"
| "unescape sx (Suc n) p =
     (let q = (if escape_char sx = Some (hd p) then tl p else p) in hd q # unescape sx n (tl q))"

definition str :: "'a pattern_item \<Rightarrow> 'a list" where
  "str it = take (str_length it) (str_data it)"

definition compile_string :: "bool \<Rightarrow> 'a pattern_item \<Rightarrow> 'a pattern_item option" where
  "compile_string directMatch it =
     (if directMatch then Some (it\<lparr>item_type := piDirectMatch\<rparr>)
      else case preKmp (str it) of None \<Rightarrow> None | Some kmp \<Rightarrow> Some (it\<lparr>item_type := piSearch, str_kmpNext := kmp\<rparr>))"

text \<open>The second pass, \<open>prev\<close> the items before the current one.\<close>

fun optimize :: "'a like_syntax \<Rightarrow> bool \<Rightarrow> 'a pattern_item list \<Rightarrow> 'a pattern_item list \<Rightarrow> 'a pattern_item list option" where
  "optimize sx directMatch prev [] = Some prev"
| "optimize sx directMatch prev (it # todo) =
     (case item_type it of
        piEscapedString \<Rightarrow>
          (case compile_string directMatch (it\<lparr>str_data := unescape sx (str_length it) (str_data it)\<rparr>) of
             None \<Rightarrow> None
           | Some it' \<Rightarrow> optimize sx True (prev @ [it']) todo)
      | piSearch \<Rightarrow>
          (case compile_string directMatch it of
             None \<Rightarrow> None
           | Some it' \<Rightarrow> optimize sx True (prev @ [it']) todo)
      | piSkipMore \<Rightarrow>
          if str_length it \<noteq> 0 then
            optimize sx False (prev @ [it\<lparr>item_type := piSkipFixed, match_any := True\<rparr>]) todo
          else if prev \<noteq> [] then
            optimize sx False (butlast prev @ [(last prev)\<lparr>match_any := True\<rparr>]) todo
          else if todo \<noteq> [] then
            optimize sx False prev todo
          else
            optimize sx False (prev @ [it\<lparr>item_type := piNone, match_any := True\<rparr>]) todo
      | _ \<Rightarrow> optimize sx directMatch (prev @ [it]) todo)"

subsection \<open>The evaluator\<close>

datatype match_type = MATCH_NONE | MATCH_FIXED | MATCH_ANY

record branch_item =
  br_pattern :: nat
  br_offset :: int

record 'a like_evaluator =
  patternItems :: "'a pattern_item list"
  branches :: "branch_item list"
  match_type :: match_type

definition reset :: "'a like_evaluator \<Rightarrow> 'a like_evaluator" where
  "reset e =
     (if item_type (patternItems e ! 0) = piNone
      then e\<lparr>branches := [], match_type := (if match_any (patternItems e ! 0) then MATCH_ANY else MATCH_FIXED)\<rparr>
      else e\<lparr>branches := [\<lparr>br_pattern = 0, br_offset = 0\<rparr>], match_type := MATCH_NONE\<rparr>)"

datatype like_error = isc_escape_invalid | out_of_fuel

definition new_like :: "'a like_syntax \<Rightarrow> 'a list \<Rightarrow> like_error + 'a like_evaluator" where
  "new_like sx pattern =
     (case parse sx pattern ([], new_item) of
        None \<Rightarrow> Inl isc_escape_invalid
      | Some (prev, it) \<Rightarrow>
          (case optimize sx True [] (prev @ [it]) of
             None \<Rightarrow> Inl out_of_fuel
           | Some items \<Rightarrow> Inr (reset \<lparr>patternItems = items, branches = [], match_type = MATCH_NONE\<rparr>)))"

definition getResult :: "'a like_evaluator \<Rightarrow> bool" where
  "getResult e \<longleftrightarrow> match_type e \<noteq> MATCH_NONE"

text \<open>
  One character is shown to the branches in their order. Those before the current one are \<open>visited\<close>;
  the function answers as the caller does, or goes on with new branches and \<open>finishCandidate\<close>.
\<close>

datatype 'a outcome = Stuck | Return bool "'a like_evaluator" | Go_on "'a like_evaluator" int

fun branch_loop :: "'a like_evaluator \<Rightarrow> int \<Rightarrow> int \<Rightarrow> 'a \<Rightarrow> branch_item list \<Rightarrow> branch_item list \<Rightarrow> int \<Rightarrow> 'a outcome" where
  "branch_loop e data_len data_pos c visited [] finishCandidate = Go_on (e\<lparr>branches := visited\<rparr>) finishCandidate"
| "branch_loop e data_len data_pos c visited (b # rest) finishCandidate =
     (let k = br_pattern b; it = patternItems e ! k; at_end = (length (patternItems e) \<le> k + 1)
      in if (item_type it = piDirectMatch \<and> c = str_data it ! nat (br_offset b)) \<or> item_type it = piSkipFixed then
        if int (str_length it) \<le> br_offset b + 1 then
          if match_any it then
            if at_end then Return False (e\<lparr>branches := [], match_type := MATCH_ANY\<rparr>)
            else Go_on (e\<lparr>branches := [\<lparr>br_pattern = k + 1, br_offset = 0\<rparr>]\<rparr>) finishCandidate
          else if at_end then
            if visited @ rest = [] then
              if data_pos = data_len - 1 then Return True (e\<lparr>branches := [], match_type := MATCH_FIXED\<rparr>)
              else Return False (e\<lparr>branches := []\<rparr>)
            else branch_loop e data_len data_pos c visited rest data_pos
          else branch_loop e data_len data_pos c (visited @ [\<lparr>br_pattern = k + 1, br_offset = 0\<rparr>]) rest finishCandidate
        else branch_loop e data_len data_pos c (visited @ [b\<lparr>br_offset := br_offset b + 1\<rparr>]) rest finishCandidate
      else if item_type it = piDirectMatch then
        if visited @ rest = [] then Return False (e\<lparr>branches := []\<rparr>)
        else branch_loop e data_len data_pos c visited rest finishCandidate
      else if item_type it = piSearch then
        (case fall (length (str it) + 2) (str it) (str_kmpNext it) c (br_offset b) of
           None \<Rightarrow> Stuck
         | Some j \<Rightarrow>
             if int (str_length it) \<le> j + 1 then
               if at_end then
                 if match_any it then Return False (e\<lparr>branches := [], match_type := MATCH_ANY\<rparr>)
                 else branch_loop e data_len data_pos c (visited @ [b\<lparr>br_offset := str_kmpNext it ! nat (j + 1)\<rparr>]) rest data_pos
               else if item_type (patternItems e ! (k + 1)) = piSearch then
                 branch_loop e data_len data_pos c (visited @ [\<lparr>br_pattern = k + 1, br_offset = 0\<rparr>]) rest finishCandidate
               else
                 branch_loop e data_len data_pos c
                   (visited @ [b\<lparr>br_offset := str_kmpNext it ! nat (j + 1)\<rparr>, \<lparr>br_pattern = k + 1, br_offset = 0\<rparr>]) rest finishCandidate
             else branch_loop e data_len data_pos c (visited @ [b\<lparr>br_offset := j + 1\<rparr>]) rest finishCandidate)
      else branch_loop e data_len data_pos c (visited @ [b]) rest finishCandidate)"

fun data_loop :: "'a like_evaluator \<Rightarrow> int \<Rightarrow> int \<Rightarrow> 'a list \<Rightarrow> int \<Rightarrow> (bool \<times> 'a like_evaluator) option" where
  "data_loop e data_len data_pos [] finishCandidate =
     Some (True, if finishCandidate = data_len - 1 then e\<lparr>match_type := MATCH_FIXED\<rparr> else e)"
| "data_loop e data_len data_pos (c # data) finishCandidate =
     (case branch_loop e data_len data_pos c [] (branches e) finishCandidate of
        Stuck \<Rightarrow> None
      | Return again e' \<Rightarrow> Some (again, e')
      | Go_on e' finishCandidate' \<Rightarrow> data_loop e' data_len (data_pos + 1) data finishCandidate')"

text \<open>Whether more data can change the result, and the new state.\<close>

definition like_chunk :: "'a list \<Rightarrow> 'a like_evaluator \<Rightarrow> (bool \<times> 'a like_evaluator) option" where
  "like_chunk data e =
     (if data = [] then Some (branches e \<noteq> [] \<or> match_type e = MATCH_FIXED, e)
      else let e = (if match_type e = MATCH_FIXED then e\<lparr>match_type := MATCH_NONE\<rparr> else e)
           in if branches e = [] then Some (False, e)
              else data_loop e (int (length data)) 0 data (-1))"

fun like_chunks :: "'a list list \<Rightarrow> 'a like_evaluator \<Rightarrow> 'a like_evaluator option" where
  "like_chunks [] e = Some e"
| "like_chunks (d # ds) e = (case like_chunk d e of None \<Rightarrow> None | Some (again, e') \<Rightarrow> like_chunks ds e')"

subsection \<open>The meaning of patterns\<close>

datatype 'a token = Any | One | Chr 'a

fun like :: "'a token list \<Rightarrow> 'a list \<Rightarrow> bool" where
  "like [] s \<longleftrightarrow> s = []"
| "like (Any # p) [] \<longleftrightarrow> like p []"
| "like (Any # p) (d # s) \<longleftrightarrow> like p (d # s) \<or> like (Any # p) s"
| "like (One # p) [] \<longleftrightarrow> False"
| "like (One # p) (d # s) \<longleftrightarrow> like p s"
| "like (Chr c # p) [] \<longleftrightarrow> False"
| "like (Chr c # p) (d # s) \<longleftrightarrow> c = d \<and> like p s"

text \<open>The tokens of a pattern, unless an escape character is followed by a character without special meaning.\<close>

fun tokens :: "'a like_syntax \<Rightarrow> 'a list \<Rightarrow> 'a token list option" where
  "tokens sx [] = Some []"
| "tokens sx (c # p) =
     (if escape_char sx = Some c then
        (case p of
           [] \<Rightarrow> None
         | c' # p' \<Rightarrow>
             if c' = c \<or> sql_match_any sx = Some c' \<or> sql_match_one sx = Some c'
             then map_option (\<lambda>ts. Chr c' # ts) (tokens sx p') else None)
      else if sql_match_any sx = Some c then map_option (\<lambda>ts. Any # ts) (tokens sx p)
      else if sql_match_one sx = Some c then map_option (\<lambda>ts. One # ts) (tokens sx p)
      else map_option (\<lambda>ts. Chr c # ts) (tokens sx p))"

subsection \<open>Laws of patterns\<close>

lemma like_Any: "like (Any # p) s \<longleftrightarrow> (\<exists>u v. s = u @ v \<and> like p v)"
  by (induction s) (auto simp: Cons_eq_append_conv)

lemma like_One: "like (One # p) s \<longleftrightarrow> (\<exists>d v. s = d # v \<and> like p v)"
  by (cases s) auto

lemma like_Chr: "like (Chr c # p) s \<longleftrightarrow> (\<exists>v. s = c # v \<and> like p v)"
  by (cases s) auto

lemma like_append: "like (p @ q) s \<longleftrightarrow> (\<exists>u v. s = u @ v \<and> like p u \<and> like q v)"
proof (induction p arbitrary: s)
  case (Cons t p)
  show ?case
  proof (cases t)
    case Any
    have "like (Any # p @ q) s \<longleftrightarrow> (\<exists>u v w. s = u @ v @ w \<and> like p v \<and> like q w)"
      unfolding like_Any Cons.IH by blast
    also have "\<dots> \<longleftrightarrow> (\<exists>u w. s = u @ w \<and> like (Any # p) u \<and> like q w)"
      unfolding like_Any by (metis append.assoc)
    finally show ?thesis using Any by simp
  next
    case One
    have "like (One # p @ q) s \<longleftrightarrow> (\<exists>d v w. s = d # v @ w \<and> like p v \<and> like q w)"
      unfolding like_One Cons.IH by blast
    also have "\<dots> \<longleftrightarrow> (\<exists>u w. s = u @ w \<and> like (One # p) u \<and> like q w)"
      unfolding like_One by (metis append_Cons)
    finally show ?thesis using One by simp
  next
    case (Chr c)
    have "like (Chr c # p @ q) s \<longleftrightarrow> (\<exists>v w. s = c # v @ w \<and> like p v \<and> like q w)"
      unfolding like_Chr Cons.IH by blast
    also have "\<dots> \<longleftrightarrow> (\<exists>u w. s = u @ w \<and> like (Chr c # p) u \<and> like q w)"
      unfolding like_Chr by (metis append_Cons)
    finally show ?thesis using Chr by simp
  qed
qed simp

lemma like_chrs: "like (map Chr d @ q) s \<longleftrightarrow> (\<exists>v. s = d @ v \<and> like q v)"
  by (induction d arbitrary: s) (auto simp: like_Chr)

lemma like_ones: "like (replicate n One @ q) s \<longleftrightarrow> (\<exists>u v. s = u @ v \<and> length u = n \<and> like q v)"
proof (induction n arbitrary: s)
  case (Suc n)
  have "like (replicate (Suc n) One @ q) s \<longleftrightarrow> (\<exists>d u v. s = d # u @ v \<and> length u = n \<and> like q v)"
    unfolding replicate_Suc append_Cons like_One Suc.IH by blast
  then show ?case by (metis append_Cons length_Suc_conv)
qed simp

lemma like_cong: "like p = like p' \<Longrightarrow> like q = like q' \<Longrightarrow> like (p @ q) = like (p' @ q')"
  by (rule ext) (simp add: like_append)

lemma like_Any_Any: "like (Any # Any # q) = like (Any # q)"
  by (rule ext) (metis like_Any append.assoc append_Nil)

lemma like_Any_One: "like [Any, One] = like [One, Any]"
  by (rule ext) (auto simp: like_Any like_One; metis append_Cons append_Nil append_butlast_last_id neq_Nil_conv)

lemma like_Any_tail: "like (p @ Any # q) s \<Longrightarrow> like (Any # q) s"
  unfolding like_append like_Any by (metis append.assoc)

subsection \<open>Parsing\<close>

definition is_str :: "'a pattern_item \<Rightarrow> bool" where
  "is_str it \<longleftrightarrow> item_type it = piSearch \<or> item_type it = piEscapedString"

definition is_skip :: "'a pattern_item \<Rightarrow> bool" where
  "is_skip it \<longleftrightarrow> item_type it = piSkipFixed \<or> item_type it = piSkipMore"

text \<open>The tokens that an item of the first pass stands for.\<close>

definition parsed :: "'a like_syntax \<Rightarrow> 'a pattern_item \<Rightarrow> 'a token list" where
  "parsed sx it = (case item_type it of
     piSearch \<Rightarrow> map Chr (str it)
   | piEscapedString \<Rightarrow> map Chr (unescape sx (str_length it) (str_data it))
   | piSkipFixed \<Rightarrow> replicate (str_length it) One
   | piSkipMore \<Rightarrow> replicate (str_length it) One @ [Any]
   | _ \<Rightarrow> [])"

definition parsed_item :: "'a pattern_item \<Rightarrow> bool" where
  "parsed_item it \<longleftrightarrow> (is_str it \<or> is_skip it) \<and> \<not> match_any it \<and> (is_str it \<longrightarrow> 0 < str_length it) \<and>
     (item_type it = piSearch \<longrightarrow> str_length it \<le> length (str_data it)) \<and> (item_type it = piSkipFixed \<longrightarrow> 0 < str_length it)"

definition parsed_items :: "'a pattern_item list \<Rightarrow> bool" where
  "parsed_items its \<longleftrightarrow> list_all parsed_item its \<and> successively (\<lambda>a b. is_str a \<noteq> is_str b) its"

text \<open>The string of the current item ends where the parser is.\<close>

definition string_at :: "'a like_syntax \<Rightarrow> 'a list \<Rightarrow> 'a pattern_item \<Rightarrow> bool" where
  "string_at sx p it \<longleftrightarrow> (\<exists>x u. str_data it = x @ p \<and> length u = str_length it \<and>
     (\<forall>n q. unescape sx (length u + n) (x @ q) = u @ unescape sx n q) \<and> (item_type it = piSearch \<longrightarrow> x = u))"

definition parse_inv :: "'a like_syntax \<Rightarrow> 'a list \<Rightarrow> 'a items \<Rightarrow> 'a token list \<Rightarrow> bool" where
  "parse_inv sx p st ts \<longleftrightarrow> (st = ([], new_item) \<or> parsed_items (fst st @ [snd st])) \<and>
     (is_str (snd st) \<longrightarrow> string_at sx p (snd st)) \<and>
     like (concat (map (parsed sx) (fst st @ [snd st]))) = like ts"

lemma string_value: "string_at sx p it \<Longrightarrow> is_str it \<Longrightarrow>
    \<exists>x u. str_data it = x @ p \<and> length u = str_length it \<and> parsed sx it = map Chr u \<and>
      (\<forall>n q. unescape sx (length u + n) (x @ q) = u @ unescape sx n q) \<and> (item_type it = piSearch \<longrightarrow> x = u)"
  unfolding string_at_def
  by (elim exE, rename_tac x u, rule_tac x = x in exI, rule_tac x = u in exI)
    (auto simp: is_str_def parsed_def str_def dest: spec [of _ 0])

lemma parsed_items_snoc:
  "parsed_items (its @ [it]) \<Longrightarrow> parsed_item it' \<Longrightarrow> is_str it' \<noteq> is_str it \<Longrightarrow> parsed_items (its @ [it, it'])"
  by (auto simp: parsed_items_def successively_append_iff)

lemma parsed_items_last:
  "parsed_items (its @ [it]) \<Longrightarrow> parsed_item it' \<Longrightarrow> is_str it' = is_str it \<Longrightarrow> parsed_items (its @ [it'])"
  by (auto simp: parsed_items_def successively_append_iff)

lemma string_more_plain:
  assumes "string_at sx (c # p) it" "is_str it" "escape_char sx \<noteq> Some c"
  shows "string_at sx p (it\<lparr>str_length := str_length it + 1\<rparr>)"
    "parsed sx (it\<lparr>str_length := str_length it + 1\<rparr>) = parsed sx it @ [Chr c]"
proof -
  obtain x u where xu: "str_data it = x @ c # p" "length u = str_length it" "parsed sx it = map Chr u"
    "\<And>n q. unescape sx (length u + n) (x @ q) = u @ unescape sx n q" "item_type it = piSearch \<Longrightarrow> x = u"
    using string_value [OF assms(1,2)] by blast
  have e: "unescape sx (length (u @ [c]) + n) ((x @ [c]) @ q) = (u @ [c]) @ unescape sx n q" for n q
    using xu(4) [of "Suc n" "c # q"] assms(3) by simp
  show "string_at sx p (it\<lparr>str_length := str_length it + 1\<rparr>)"
    unfolding string_at_def using xu(1,2,5) e by (intro exI [of _ "x @ [c]"] exI [of _ "u @ [c]"]) simp
  show "parsed sx (it\<lparr>str_length := str_length it + 1\<rparr>) = parsed sx it @ [Chr c]"
    using e [of 0 p] xu(1,2,3,5) assms(2) by (auto simp: parsed_def str_def is_str_def)
qed

lemma string_more_escaped:
  assumes "string_at sx (e # c # p) it" "is_str it" "escape_char sx = Some e"
  shows "string_at sx p (it\<lparr>item_type := piEscapedString, str_length := str_length it + 1\<rparr>)"
    "parsed sx (it\<lparr>item_type := piEscapedString, str_length := str_length it + 1\<rparr>) = parsed sx it @ [Chr c]"
proof -
  obtain x u where xu: "str_data it = x @ e # c # p" "length u = str_length it" "parsed sx it = map Chr u"
    "\<And>n q. unescape sx (length u + n) (x @ q) = u @ unescape sx n q"
    using string_value [OF assms(1,2)] by blast
  have e: "unescape sx (length (u @ [c]) + n) ((x @ [e, c]) @ q) = (u @ [c]) @ unescape sx n q" for n q
    using xu(4) [of "Suc n" "e # c # q"] assms(3) by simp
  show "string_at sx p (it\<lparr>item_type := piEscapedString, str_length := str_length it + 1\<rparr>)"
    unfolding string_at_def using xu(1,2) e by (intro exI [of _ "x @ [e, c]"] exI [of _ "u @ [c]"]) simp
  show "parsed sx (it\<lparr>item_type := piEscapedString, str_length := str_length it + 1\<rparr>) = parsed sx it @ [Chr c]"
    using e [of 0 p] xu(1,2,3) by (simp add: parsed_def)
qed

text \<open>A fresh string, before its first character, is one of length zero.\<close>

lemma string_at_fresh: "str_length it = 0 \<Longrightarrow> str_data it = p \<Longrightarrow> string_at sx p it"
  unfolding string_at_def by (intro exI [of _ "[]"]) simp

lemma parse_inv_cases:
  assumes "parse_inv sx p (prev, it) ts"
  obtains "prev = []" "it = new_item" "like [] = like ts"
  | "parsed_items (prev @ [it])" "is_str it" "string_at sx p it" "like (concat (map (parsed sx) prev) @ parsed sx it) = like ts"
  | "parsed_items (prev @ [it])" "is_skip it" "\<not> is_str it" "like (concat (map (parsed sx) prev) @ parsed sx it) = like ts"
proof -
  have "parsed sx new_item = []" by (simp add: parsed_def new_item_def)
  moreover have "\<not> (is_skip it \<and> is_str it)" by (auto simp: is_skip_def is_str_def)
  ultimately show ?thesis using assms that unfolding parse_inv_def parsed_items_def parsed_item_def by auto
qed

lemma parse_inv_last:
  assumes "parsed_items (prev @ [it])" "parsed_item it'" "is_str it' = is_str it" "is_str it' \<Longrightarrow> string_at sx p it'"
    "like (concat (map (parsed sx) prev) @ parsed sx it) = like ts" "like (parsed sx it') = like (parsed sx it @ [t])"
  shows "parse_inv sx p (prev, it') (ts @ [t])"
  using parsed_items_last [OF assms(1-3)] assms(4) like_cong [OF refl assms(6), of "concat (map (parsed sx) prev)"]
    like_cong [OF assms(5) refl, of "[t]"]
  by (simp add: parse_inv_def)

lemma parse_inv_next:
  assumes "parsed_items (prev @ [it])" "parsed_item it'" "is_str it' \<noteq> is_str it" "is_str it' \<Longrightarrow> string_at sx p it'"
    "like (concat (map (parsed sx) prev) @ parsed sx it) = like ts" "parsed sx it' = [t]"
  shows "parse_inv sx p (prev @ [it], it') (ts @ [t])"
  using parsed_items_snoc [OF assms(1-3)] assms(4,6) like_cong [OF assms(5) refl, of "[t]"]
  by (simp add: parse_inv_def)

lemma parse_inv_first:
  assumes "parsed_item it'" "is_str it' \<Longrightarrow> string_at sx p it'" "like [] = like ts" "parsed sx it' = [t]"
  shows "parse_inv sx p ([], it') (ts @ [t])"
  using assms(1,2,4) like_cong [OF assms(3) refl, of "[t]"]
  by (simp add: parse_inv_def parsed_items_def)

lemma first_plain:
  assumes "escape_char sx \<noteq> Some c"
  shows "string_at sx p (new_item\<lparr>item_type := piSearch, str_data := c # p, str_length := 1\<rparr>)"
    "parsed sx (new_item\<lparr>item_type := piSearch, str_data := c # p, str_length := 1\<rparr>) = [Chr c]"
proof -
  define i0 :: "'a pattern_item" where "i0 = new_item\<lparr>item_type := piSearch, str_data := c # p\<rparr>"
  have "string_at sx (c # p) i0" "is_str i0" by (simp_all add: i0_def string_at_fresh is_str_def new_item_def)
  from string_more_plain [OF this assms]
  show "string_at sx p (new_item\<lparr>item_type := piSearch, str_data := c # p, str_length := 1\<rparr>)"
    "parsed sx (new_item\<lparr>item_type := piSearch, str_data := c # p, str_length := 1\<rparr>) = [Chr c]"
    by (simp_all add: i0_def new_item_def parsed_def str_def)
qed

lemma first_escaped:
  assumes "escape_char sx = Some e"
  shows "string_at sx p (new_item\<lparr>item_type := piEscapedString, str_data := e # c # p, str_length := 1\<rparr>)"
    "parsed sx (new_item\<lparr>item_type := piEscapedString, str_data := e # c # p, str_length := 1\<rparr>) = [Chr c]"
proof -
  define i0 :: "'a pattern_item" where "i0 = new_item\<lparr>item_type := piSearch, str_data := e # c # p\<rparr>"
  have "string_at sx (e # c # p) i0" "is_str i0" by (simp_all add: i0_def string_at_fresh is_str_def new_item_def)
  from string_more_escaped [OF this assms]
  show "string_at sx p (new_item\<lparr>item_type := piEscapedString, str_data := e # c # p, str_length := 1\<rparr>)"
    "parsed sx (new_item\<lparr>item_type := piEscapedString, str_data := e # c # p, str_length := 1\<rparr>) = [Chr c]"
    by (simp_all add: i0_def new_item_def parsed_def str_def)
qed

lemma parsed_item_last: "parsed_items (prev @ [it]) \<Longrightarrow> parsed_item it"
  by (simp add: parsed_items_def)

lemmas item_kinds = parsed_item_def is_str_def is_skip_def new_item_def

lemma parse_on_other:
  assumes "parse_inv sx (c # p) (prev, it) ts" "escape_char sx \<noteq> Some c"
  shows "parse_inv sx p (on_other (c # p) (prev, it)) (ts @ [Chr c])"
  using assms(1)
proof (cases rule: parse_inv_cases)
  case 1
  then show ?thesis using first_plain [OF assms(2), of p] by (auto intro!: parse_inv_first simp: item_kinds)
next
  case 2
  have "parsed_item (it\<lparr>str_length := str_length it + 1\<rparr>)"
    using parsed_item_last [OF 2(1)] 2(3) by (auto simp: item_kinds string_at_def)
  from parse_inv_last [OF 2(1) this _ _ 2(4)]
  have "parse_inv sx p (prev, it\<lparr>str_length := str_length it + 1\<rparr>) (ts @ [Chr c])"
    using string_more_plain [OF 2(3,2) assms(2)] by (simp add: is_str_def)
  moreover have "on_other (c # p) (prev, it) = (prev, it\<lparr>str_length := str_length it + 1\<rparr>)"
    using 2(2) by (auto simp: is_str_def)
  ultimately show ?thesis by simp
next
  case 3
  then show ?thesis using first_plain [OF assms(2), of p] by (auto intro!: parse_inv_next simp: item_kinds)
qed

lemma parse_on_escaped:
  assumes "parse_inv sx (e # c # p) (prev, it) ts" "escape_char sx = Some e"
  shows "parse_inv sx p (on_escaped (e # c # p) (prev, it)) (ts @ [Chr c])"
  using assms(1)
proof (cases rule: parse_inv_cases)
  case 1
  then show ?thesis using first_escaped [where c = c and p = p, OF assms(2)] by (auto intro!: parse_inv_first simp: item_kinds)
next
  case 2
  let ?it = "it\<lparr>item_type := piEscapedString, str_length := str_length it + 1\<rparr>"
  have "parsed_item ?it" using parsed_item_last [OF 2(1)] by (auto simp: item_kinds)
  from parse_inv_last [OF 2(1) this _ _ 2(4)]
  have "parse_inv sx p (prev, ?it) (ts @ [Chr c])"
    using string_more_escaped [OF 2(3,2) assms(2)] 2(2) by (simp add: is_str_def)
  moreover have "on_escaped (e # c # p) (prev, it) = (prev, ?it)"
    using 2(2) by (auto simp: is_str_def)
  ultimately show ?thesis by simp
next
  case 3
  then show ?thesis using first_escaped [where c = c and p = p, OF assms(2)] by (auto intro!: parse_inv_next simp: item_kinds)
qed

lemma like_ones_Any: "like (replicate n One @ Any # q) = like (Any # replicate n One @ q)"
proof (induction n)
  case (Suc n)
  have "like (replicate (Suc n) One @ Any # q) = like ([One] @ replicate n One @ Any # q)" by simp
  also have "\<dots> = like ([One, Any] @ replicate n One @ q)" using like_cong [OF refl Suc, of "[One]"] by simp
  also have "\<dots> = like ([Any, One] @ replicate n One @ q)" by (rule like_cong [OF like_Any_One [symmetric] refl])
  finally show ?case by simp
qed simp

lemma parse_on_percent:
  assumes "parse_inv sx (c # p) (prev, it) ts"
  shows "parse_inv sx p (on_percent (prev, it)) (ts @ [Any])"
  using assms
proof (cases rule: parse_inv_cases)
  case 1
  then show ?thesis by (auto intro!: parse_inv_first simp: item_kinds parsed_def)
next
  case 2
  then show ?thesis by (auto intro!: parse_inv_next simp: item_kinds parsed_def)
next
  case 3
  have e: "like (parsed sx (it\<lparr>item_type := piSkipMore\<rparr>)) = like (parsed sx it @ [Any])"
    using 3(2) like_cong [OF refl like_Any_Any [of "[]", symmetric], of "replicate (str_length it) One"]
    by (auto simp: is_skip_def parsed_def)
  have "item_type it = piSkipMore \<Longrightarrow> it\<lparr>item_type := piSkipMore\<rparr> = it" by simp
  then have "on_percent (prev, it) = (prev, it\<lparr>item_type := piSkipMore\<rparr>)" using 3(2) by (auto simp: is_skip_def)
  moreover have "parse_inv sx p (prev, it\<lparr>item_type := piSkipMore\<rparr>) (ts @ [Any])"
    using parse_inv_last [OF 3(1) _ _ _ 3(4) e] parsed_item_last [OF 3(1)] 3(3) by (simp add: item_kinds)
  ultimately show ?thesis by simp
qed

lemma parse_on_underscore:
  assumes "parse_inv sx (c # p) (prev, it) ts"
  shows "parse_inv sx p (on_underscore (prev, it)) (ts @ [One])"
  using assms
proof (cases rule: parse_inv_cases)
  case 1
  then show ?thesis by (auto intro!: parse_inv_first simp: item_kinds parsed_def)
next
  case 2
  then show ?thesis by (auto intro!: parse_inv_next simp: item_kinds parsed_def)
next
  case 3
  let ?it = "it\<lparr>str_length := str_length it + 1\<rparr>"
  have r: "replicate (Suc (str_length it)) One = replicate (str_length it) One @ [One]" by (simp add: replicate_append_same)
  have e: "like (parsed sx ?it) = like (parsed sx it @ [One])"
    using 3(2) like_cong [OF refl like_Any_One [symmetric], of "replicate (str_length it) One"]
    by (auto simp: is_skip_def parsed_def r simp del: replicate_Suc)
  have "on_underscore (prev, it) = (prev, ?it)" using 3(2) by (auto simp: is_skip_def)
  moreover have "parse_inv sx p (prev, ?it) (ts @ [One])"
    using parse_inv_last [OF 3(1) _ _ _ 3(4) e] parsed_item_last [OF 3(1)] 3(3) by (simp add: item_kinds)
  ultimately show ?thesis by simp
qed

lemma parse_correct:
  "parse_inv sx p st ts \<Longrightarrow>
   (case parse sx p st of
      None \<Rightarrow> tokens sx p = None
    | Some st' \<Rightarrow> \<exists>ts'. tokens sx p = Some ts' \<and> parse_inv sx [] st' (ts @ ts'))"
proof (induction sx p st arbitrary: ts rule: parse.induct)
  case (2 sx c p st)
  obtain prev it where st: "st = (prev, it)" by (cases st)
  consider "escape_char sx = Some c" | "escape_char sx \<noteq> Some c" "sql_match_any sx = Some c"
    | "escape_char sx \<noteq> Some c" "sql_match_any sx \<noteq> Some c" "sql_match_one sx = Some c"
    | "escape_char sx \<noteq> Some c" "sql_match_any sx \<noteq> Some c" "sql_match_one sx \<noteq> Some c"
    by blast
  then show ?case
  proof cases
    case 1
    show ?thesis
    proof (cases p)
      case (Cons c' p')
      show ?thesis
      proof (cases "c' = c \<or> sql_match_any sx = Some c' \<or> sql_match_one sx = Some c'")
        case True
        have "parse_inv sx p' (on_escaped (c # p) st) (ts @ [Chr c'])"
          using parse_on_escaped [of sx c c' p' prev it ts] "2.prems" 1 by (simp add: st Cons)
        from "2.IH"(1) [OF 1 Cons True this] show ?thesis using 1 True by (auto simp: Cons split: option.splits)
      qed (use 1 Cons in simp)
    qed (use 1 in simp)
  next
    case c: 2
    have "parse_inv sx p (on_percent st) (ts @ [Any])" using parse_on_percent "2.prems" by (simp add: st del: on_percent.simps)
    from "2.IH"(2) [OF c this] show ?thesis using c by (auto split: option.splits)
  next
    case c: 3
    have "parse_inv sx p (on_underscore st) (ts @ [One])" using parse_on_underscore "2.prems" by (simp add: st del: on_underscore.simps)
    from "2.IH"(3) [OF c this] show ?thesis using c by (auto split: option.splits)
  next
    case c: 4
    have "parse_inv sx p (on_other (c # p) st) (ts @ [Chr c])" using parse_on_other "2.prems" c(1) by (simp add: st del: on_other.simps)
    from "2.IH"(4) [OF c this] show ?thesis using c by (auto split: option.splits)
  qed
qed simp

lemma preKmp_terminates: "\<exists>kmp. preKmp x = Some kmp"
  using preKmp_fails [of x] preKmp_nil by (cases "x = []") auto

subsection \<open>Compilation\<close>

text \<open>The tokens that a compiled item stands for: a searched string may begin anywhere.\<close>

definition item_tokens :: "'a pattern_item \<Rightarrow> 'a token list" where
  "item_tokens it = (case item_type it of
     piSearch \<Rightarrow> Any # map Chr (str it)
   | piDirectMatch \<Rightarrow> map Chr (str it)
   | piSkipFixed \<Rightarrow> replicate (str_length it) One
   | _ \<Rightarrow> []) @ (if match_any it then [Any] else [])"

definition items_tokens :: "'a pattern_item list \<Rightarrow> 'a token list" where
  "items_tokens its = concat (map item_tokens its)"

definition item_ok :: "'a pattern_item \<Rightarrow> bool" where
  "item_ok it \<longleftrightarrow> item_type it \<in> {piDirectMatch, piSearch, piSkipFixed} \<and> 0 < str_length it \<and>
     (item_type it \<noteq> piSkipFixed \<longrightarrow> str_length it \<le> length (str_data it)) \<and>
     (item_type it = piSearch \<longrightarrow> preKmp (str it) = Some (str_kmpNext it))"

definition items_ok :: "'a pattern_item list \<Rightarrow> bool" where
  "items_ok its \<longleftrightarrow> list_all item_ok its \<and> successively (\<lambda>a b. match_any a \<longleftrightarrow> item_type b = piSearch) its"

text \<open>What the second pass keeps: \<open>directMatch\<close> says that the items so far do not end with a percent sign.\<close>

definition optimize_inv :: "bool \<Rightarrow> 'a pattern_item list \<Rightarrow> 'a token list \<Rightarrow> bool" where
  "optimize_inv directMatch prev ts \<longleftrightarrow> items_ok prev \<and> (prev \<noteq> [] \<longrightarrow> match_any (last prev) = (\<not> directMatch)) \<and>
     like (items_tokens prev @ (if prev = [] \<and> \<not> directMatch then [Any] else [])) = like ts"

lemma items_ok_snoc:
  "items_ok (its @ [it]) \<longleftrightarrow> items_ok its \<and> item_ok it \<and> (its \<noteq> [] \<longrightarrow> match_any (last its) = (item_type it = piSearch))"
  by (auto simp: items_ok_def successively_append_iff)

lemma items_tokens_snoc: "items_tokens (its @ [it]) = items_tokens its @ item_tokens it"
  by (simp add: items_tokens_def)

lemma items_tokens_ends_Any: "its \<noteq> [] \<Longrightarrow> match_any (last its) \<Longrightarrow> \<exists>ts. items_tokens its = ts @ [Any]"
  by (cases its rule: rev_cases) (auto simp: items_tokens_snoc item_tokens_def)

lemma length_unescape: "length (unescape sx n p) = n"
  by (induction n arbitrary: p) (simp_all add: Let_def)

text \<open>The string with its escapes removed; nothing else changes.\<close>

definition unescaped :: "'a like_syntax \<Rightarrow> 'a pattern_item \<Rightarrow> 'a pattern_item" where
  "unescaped sx it = (if item_type it = piEscapedString then it\<lparr>str_data := unescape sx (str_length it) (str_data it)\<rparr> else it)"

lemma unescaped: "is_str it \<Longrightarrow> parsed_item it \<Longrightarrow> parsed sx it = map Chr (str (unescaped sx it)) \<and>
    0 < str_length (unescaped sx it) \<and> str_length (unescaped sx it) \<le> length (str_data (unescaped sx it)) \<and> \<not> match_any (unescaped sx it)"
  by (auto simp: is_str_def parsed_def unescaped_def str_def length_unescape parsed_item_def)

lemma compile_string_correct:
  assumes "is_str it" "parsed_item it" "optimize_inv directMatch prev ts"
  shows "\<exists>it'. compile_string directMatch (unescaped sx it) = Some it' \<and> optimize_inv True (prev @ [it']) (ts @ parsed sx it)"
proof (cases directMatch)
  case True
  let ?it = "(unescaped sx it)\<lparr>item_type := piDirectMatch\<rparr>"
  have "item_ok ?it" "item_tokens ?it = parsed sx it" "\<not> match_any ?it" "item_type ?it = piDirectMatch"
    using unescaped [OF assms(1,2), of sx] by (auto simp: item_ok_def item_tokens_def str_def)
  moreover from this have "like (items_tokens prev @ item_tokens ?it) = like (ts @ parsed sx it)"
    using assms(3) True by (auto simp: optimize_inv_def intro!: like_cong)
  ultimately show ?thesis using assms(3) True
    by (auto simp: compile_string_def optimize_inv_def items_ok_snoc items_tokens_snoc)
next
  case False
  let ?i = "unescaped sx it"
  obtain kmp where kmp: "preKmp (str ?i) = Some kmp" using preKmp_terminates by blast
  let ?it = "?i\<lparr>item_type := piSearch, str_kmpNext := kmp\<rparr>"
  have it: "item_ok ?it" "item_tokens ?it = Any # parsed sx it" "\<not> match_any ?it" "item_type ?it = piSearch"
    using unescaped [OF assms(1,2), of sx] kmp by (auto simp: item_ok_def item_tokens_def str_def)
  have "like (items_tokens prev @ Any # parsed sx it) = like (ts @ parsed sx it)"
  proof (cases "prev = []")
    case True
    then have "like [Any] = like ts" using assms(3) False by (simp add: optimize_inv_def items_tokens_def)
    from like_cong [OF this refl] show ?thesis using True by (simp add: items_tokens_def)
  next
    case prev: False
    then obtain ts' where ts': "items_tokens prev = ts' @ [Any]"
      using items_tokens_ends_Any assms(3) False by (auto simp: optimize_inv_def)
    have "like (items_tokens prev @ Any # parsed sx it) = like (ts' @ Any # parsed sx it)"
      using like_cong [OF refl like_Any_Any] by (simp add: ts')
    also have "\<dots> = like (items_tokens prev @ parsed sx it)" by (simp add: ts')
    also have "\<dots> = like (ts @ parsed sx it)" using assms(3) prev by (auto simp: optimize_inv_def intro!: like_cong)
    finally show ?thesis .
  qed
  then show ?thesis using it assms(3) False kmp
    by (auto simp: compile_string_def optimize_inv_def items_ok_snoc items_tokens_snoc)
qed

lemma optimize_mark_last:
  assumes "optimize_inv True prev ts" "prev \<noteq> []"
  shows "optimize_inv False (butlast prev @ [(last prev)\<lparr>match_any := True\<rparr>]) (ts @ [Any])"
proof -
  obtain p x where px: "prev = p @ [x]" using assms(2) by (cases prev rule: rev_cases) auto
  have x: "item_ok x" "\<not> match_any x" "items_ok p" "p \<noteq> [] \<longrightarrow> match_any (last p) = (item_type x = piSearch)"
    using assms by (simp_all add: px optimize_inv_def items_ok_snoc)
  have "item_ok (x\<lparr>match_any := True\<rparr>)" using x(1) by (simp add: item_ok_def str_def)
  moreover have "item_tokens (x\<lparr>match_any := True\<rparr>) = item_tokens x @ [Any]"
    using x(2) by (simp add: item_tokens_def str_def split: item_type.split)
  moreover have "like (items_tokens prev @ [Any]) = like (ts @ [Any])"
    using assms by (auto simp: optimize_inv_def intro!: like_cong)
  ultimately show ?thesis using x(3,4) by (simp add: px optimize_inv_def items_ok_snoc items_tokens_snoc)
qed

lemma optimize_skip:
  assumes "optimize_inv True prev ts" "item_type it = piSkipFixed" "0 < str_length it"
  shows "optimize_inv (\<not> match_any it) (prev @ [it]) (ts @ replicate (str_length it) One @ (if match_any it then [Any] else []))"
proof -
  have "like (items_tokens prev @ item_tokens it) = like (ts @ item_tokens it)"
    using assms(1) by (auto simp: optimize_inv_def intro!: like_cong)
  then show ?thesis using assms
    by (auto simp: optimize_inv_def items_ok_snoc items_tokens_snoc item_ok_def item_tokens_def)
qed

lemma optimize_correct:
  assumes "optimize_inv directMatch prev ts" "parsed_items todo" "\<not> directMatch \<Longrightarrow> todo \<noteq> [] \<Longrightarrow> is_str (hd todo)"
    "prev = [] \<Longrightarrow> todo \<noteq> []" "\<And>it. prev = [] \<Longrightarrow> todo = [it] \<Longrightarrow> item_type it = piSkipMore \<Longrightarrow> str_length it \<noteq> 0"
  shows "\<exists>its. optimize sx directMatch prev todo = Some its \<and> its \<noteq> [] \<and> items_ok its \<and>
    like (items_tokens its) = like (ts @ concat (map (parsed sx) todo))"
  using assms
proof (induction todo arbitrary: directMatch prev ts)
  case Nil
  then have "prev \<noteq> []" by blast
  then show ?case using Nil.prems(1) by (simp add: optimize_inv_def)
next
  case (Cons it todo)
  have it: "parsed_item it" "parsed_items todo" and alt: "todo \<noteq> [] \<Longrightarrow> is_str (hd todo) = (\<not> is_str it)"
    using Cons.prems(2) by (auto simp: parsed_items_def successively_Cons)
  have IH: "\<exists>its. optimize sx dm p todo = Some its \<and> its \<noteq> [] \<and> items_ok its \<and>
      like (items_tokens its) = like ((ts @ parsed sx it) @ concat (map (parsed sx) todo))"
    if "optimize_inv dm p (ts @ parsed sx it)" "\<not> dm \<Longrightarrow> \<not> is_str it" "p \<noteq> []" for dm p
    by (rule Cons.IH [OF that(1) it(2)]) (use that alt in auto)
  consider "is_str it" | "item_type it = piSkipFixed" | "item_type it = piSkipMore" "str_length it \<noteq> 0"
    | "item_type it = piSkipMore" "str_length it = 0" "prev \<noteq> []" | "item_type it = piSkipMore" "str_length it = 0" "prev = []"
    using it(1) by (auto simp: parsed_item_def is_skip_def)
  then show ?case
  proof cases
    case 1
    obtain it' where it': "compile_string directMatch (unescaped sx it) = Some it'" "optimize_inv True (prev @ [it']) (ts @ parsed sx it)"
      using compile_string_correct [OF 1 it(1) Cons.prems(1)] by blast
    have "optimize sx directMatch prev (it # todo) = optimize sx True (prev @ [it']) todo"
      using 1 it'(1) by (auto simp: is_str_def unescaped_def)
    then show ?thesis using IH [OF it'(2)] by simp
  next
    case 2
    then have dm: "directMatch" using Cons.prems(3) by (auto simp: is_str_def)
    have "parsed sx it = replicate (str_length it) One" "\<not> match_any it" "0 < str_length it"
      using 2 it(1) by (auto simp: parsed_def parsed_item_def)
    then have "optimize_inv directMatch (prev @ [it]) (ts @ parsed sx it)"
      using optimize_skip [of prev ts it] Cons.prems(1) 2 dm by simp
    from IH [OF this] show ?thesis using 2 dm by simp
  next
    case 3
    then have dm: "directMatch" using Cons.prems(3) by (auto simp: is_str_def)
    let ?it = "it\<lparr>item_type := piSkipFixed, match_any := True\<rparr>"
    have "parsed sx it = replicate (str_length it) One @ [Any]" using 3 by (simp add: parsed_def)
    then have "optimize_inv False (prev @ [?it]) (ts @ parsed sx it)"
      using optimize_skip [of prev ts ?it] Cons.prems(1) 3 dm by simp
    from IH [OF this] show ?thesis using 3 by (simp add: is_str_def)
  next
    case 4
    then have dm: "directMatch" using Cons.prems(3) by (auto simp: is_str_def)
    have "optimize_inv False (butlast prev @ [(last prev)\<lparr>match_any := True\<rparr>]) (ts @ parsed sx it)"
      using optimize_mark_last [of prev ts] Cons.prems(1) 4 dm by (simp add: parsed_def)
    from IH [OF this] show ?thesis using 4 by (simp add: is_str_def)
  next
    case 5
    then have dm: "directMatch" using Cons.prems(3) by (auto simp: is_str_def)
    have todo: "todo \<noteq> []" using Cons.prems(5) [OF 5(3)] 5(1,2) by auto
    then have hd: "is_str (hd todo)" using alt 5(1) by (simp add: is_str_def)
    have "like ([] @ [Any]) = like (ts @ [Any])"
      using Cons.prems(1) 5(3) dm by (intro like_cong) (simp_all add: optimize_inv_def items_tokens_def)
    moreover have single: "str_length x \<noteq> 0" if "todo = [x]" "item_type x = piSkipMore" for x
      using hd that by (auto simp: is_str_def)
    ultimately have "optimize_inv False [] (ts @ parsed sx it)"
      using 5 by (simp add: optimize_inv_def items_ok_def items_tokens_def parsed_def)
    then have "\<exists>its. optimize sx False [] todo = Some its \<and> its \<noteq> [] \<and> items_ok its \<and>
        like (items_tokens its) = like ((ts @ parsed sx it) @ concat (map (parsed sx) todo))"
      by (rule Cons.IH [OF _ it(2)]) (use hd todo single in blast)+
    moreover have "optimize sx directMatch prev (it # todo) = optimize sx False [] todo" using 5 todo by simp
    ultimately show ?thesis by (simp del: optimize.simps)
  qed
qed

text \<open>The empty pattern and a single percent sign have no item to match: the answer is known at the start.\<close>

definition trivial_items :: "'a pattern_item list \<Rightarrow> 'a token list \<Rightarrow> bool" where
  "trivial_items its ts \<longleftrightarrow> (\<exists>it. its = [it] \<and> item_type it = piNone \<and> like ts = like (if match_any it then [Any] else []))"

lemma compile_new: "optimize sx True [] [new_item] = Some [new_item]"
  by (simp add: new_item_def)

lemma compile_correct:
  "case new_like sx pattern of
     Inl e \<Rightarrow> e = isc_escape_invalid \<and> tokens sx pattern = None
   | Inr e \<Rightarrow> \<exists>its ts. e = reset \<lparr>patternItems = its, branches = [], match_type = MATCH_NONE\<rparr> \<and> tokens sx pattern = Some ts \<and>
       (trivial_items its ts \<or> its \<noteq> [] \<and> items_ok its \<and> like (items_tokens its) = like ts)"
proof -
  have "parse_inv sx pattern ([], new_item) []"
    by (simp add: parse_inv_def new_item_def is_str_def parsed_def)
  note p = parse_correct [OF this]
  show ?thesis
  proof (cases "parse sx pattern ([], new_item)")
    case None
    then show ?thesis using p by (simp add: new_like_def)
  next
    case (Some st)
    obtain prev it where st: "st = (prev, it)" by (cases st)
    obtain ts where ts: "tokens sx pattern = Some ts" "parse_inv sx [] (prev, it) ts" using p Some st by auto
    have like_ts: "like (concat (map (parsed sx) (prev @ [it]))) = like ts" using ts(2) by (simp add: parse_inv_def)
    consider "prev = []" "it = new_item" | "prev = []" "item_type it = piSkipMore" "str_length it = 0"
      | "parsed_items (prev @ [it])" "\<not> (prev = [] \<and> item_type it = piSkipMore \<and> str_length it = 0)"
      using ts(2) by (auto simp: parse_inv_def)
    then show ?thesis
    proof cases
      case 1
      have "trivial_items [new_item] ts" using like_ts 1 by (simp add: trivial_items_def new_item_def parsed_def)
      then show ?thesis using Some st ts(1) 1 by (auto simp: new_like_def new_item_def [symmetric] compile_new intro!: exI [of _ "[new_item]"] simp del: optimize.simps)
    next
      case 2
      have "trivial_items [it\<lparr>item_type := piNone, match_any := True\<rparr>] ts" using like_ts 2 by (simp add: trivial_items_def parsed_def)
      then show ?thesis using Some st ts(1) 2
        by (auto simp: new_like_def intro!: exI [of _ "[it\<lparr>item_type := piNone, match_any := True\<rparr>]"])
    next
      case 3
      have "optimize_inv True [] []" by (simp add: optimize_inv_def items_ok_def items_tokens_def)
      from optimize_correct [OF this 3(1), of sx] obtain its where
        "optimize sx True [] (prev @ [it]) = Some its" "its \<noteq> []" "items_ok its" "like (items_tokens its) = like (concat (map (parsed sx) (prev @ [it])))"
        using 3(2) by auto
      then show ?thesis using Some st ts(1) like_ts by (auto simp: new_like_def)
    qed
  qed
qed

end
