(* ===== verification/LikeMatch.thy ===== *)
theory LikeMatch
  imports LikeEvaluator
begin

text \<open>
  Matching of \<open>LIKE\<close> patterns by parallel branches (\<open>LikeEvaluator::processNextChunk\<close>): which rests of the
  string a branch, a set of branches and a state of the evaluator accept, how that changes with every
  character, and that the evaluator is right.
\<close>

subsection \<open>What a branch still accepts\<close>

text \<open>The tokens after the body of the item \<open>k\<close>.\<close>

definition tokens_after :: "'a pattern_item list \<Rightarrow> nat \<Rightarrow> 'a token list" where
  "tokens_after its k = (if match_any (its ! k) then [Any] else []) @ items_tokens (drop (Suc k) its)"

definition residual :: "'a pattern_item list \<Rightarrow> branch_item \<Rightarrow> 'a list \<Rightarrow> bool" where
  "residual its b w \<longleftrightarrow>
     (let k = br_pattern b; it = its ! k; n = nat (br_offset b)
      in if item_type it = piSearch then like (Any # map Chr (str it) @ tokens_after its k) (take n (str it) @ w)
         else if item_type it = piDirectMatch then like (map Chr (drop n (str it)) @ tokens_after its k) w
         else like (replicate (str_length it - n) One @ tokens_after its k) w)"

definition branch_ok :: "'a pattern_item list \<Rightarrow> branch_item \<Rightarrow> bool" where
  "branch_ok its b \<longleftrightarrow> br_pattern b < length its \<and> 0 \<le> br_offset b \<and> br_offset b < int (str_length (its ! br_pattern b))"

lemma item_ok_nth: "items_ok its \<Longrightarrow> k < length its \<Longrightarrow> item_ok (its ! k)"
  by (simp add: items_ok_def list_all_length)

lemma match_any_nth: "items_ok its \<Longrightarrow> Suc k < length its \<Longrightarrow> match_any (its ! k) \<longleftrightarrow> item_type (its ! Suc k) = piSearch"
  by (simp add: items_ok_def successively_conv_nth)

lemma length_str: "item_ok it \<Longrightarrow> item_type it \<noteq> piSkipFixed \<Longrightarrow> length (str it) = str_length it"
  by (simp add: item_ok_def str_def)

lemma items_tokens_drop: "k < length its \<Longrightarrow> items_tokens (drop k its) = item_tokens (its ! k) @ items_tokens (drop (Suc k) its)"
  by (simp add: items_tokens_def Cons_nth_drop_Suc [symmetric])

lemma item_kind: "item_ok it \<Longrightarrow> item_type it = piDirectMatch \<or> item_type it = piSearch \<or> item_type it = piSkipFixed"
  by (auto simp: item_ok_def)

lemma residual_start:
  assumes "items_ok its" "k < length its"
  shows "residual its \<lparr>br_pattern = k, br_offset = 0\<rparr> w \<longleftrightarrow> like (items_tokens (drop k its)) w"
  using item_kind [OF item_ok_nth [OF assms]] assms(2)
  by (auto simp: residual_def items_tokens_drop item_tokens_def tokens_after_def Let_def)

lemma branch_ok_start: "items_ok its \<Longrightarrow> k < length its \<Longrightarrow> branch_ok its \<lparr>br_pattern = k, br_offset = 0\<rparr>"
  using item_ok_nth [of its k] by (simp add: branch_ok_def item_ok_def)

lemma tokens_after_split:
  assumes "k' \<le> k" "k < length its"
  shows "\<exists>m. tokens_after its k' = m @ tokens_after its k"
proof (cases "k' = k")
  case False
  have "drop (Suc k') its = take (k - Suc k') (drop (Suc k') its) @ drop k its"
    using assms False by (metis Suc_leI append_take_drop_id drop_drop le_add_diff_inverse2 le_neq_implies_less)
  then have "items_tokens (drop (Suc k') its) = items_tokens (take (k - Suc k') (drop (Suc k') its)) @ items_tokens (drop k its)"
    unfolding items_tokens_def by (metis concat_append map_append)
  moreover have "\<exists>m. items_tokens (drop k its) = m @ tokens_after its k"
    unfolding items_tokens_drop [OF assms(2)] by (simp add: item_tokens_def tokens_after_def)
  ultimately show ?thesis unfolding tokens_after_def [of its k'] by (metis append.assoc)
qed simp

text \<open>A branch takes some characters before it gets past its item, or a later one.\<close>

lemma residual_consumes:
  assumes "items_ok its" "branch_ok its b" "br_pattern b \<le> k" "k < length its" "residual its b w"
  shows "\<exists>a r. w = a @ r \<and> a \<noteq> [] \<and> like (tokens_after its k) r"
proof -
  define it where "it = its ! br_pattern b"
  define n where "n = nat (br_offset b)"
  have it: "item_ok it" "n < str_length it" using item_ok_nth [OF assms(1)] assms(2) by (auto simp: it_def n_def branch_ok_def)
  obtain m where m: "tokens_after its (br_pattern b) = m @ tokens_after its k" using tokens_after_split [OF assms(3,4)] by blast
  have r: "if item_type it = piSearch then like (Any # map Chr (str it) @ m @ tokens_after its k) (take n (str it) @ w)
     else if item_type it = piDirectMatch then like (map Chr (drop n (str it)) @ m @ tokens_after its k) w
     else like (replicate (str_length it - n) One @ m @ tokens_after its k) w"
    using assms(5) unfolding residual_def it_def n_def Let_def m by (simp only: append_assoc)
  show ?thesis
  proof (cases "item_type it = piSearch")
    case True
    then have "like (Any # map Chr (str it) @ m @ tokens_after its k) (take n (str it) @ w)" using r by simp
    then obtain u y where "take n (str it) @ w = u @ y" "like (map Chr (str it) @ m @ tokens_after its k) y"
      unfolding like_Any by blast
    moreover from this(2) obtain z where "y = str it @ z" "like (m @ tokens_after its k) z" unfolding like_chrs by blast
    moreover from this(2) obtain v x where "z = v @ x" "like (tokens_after its k) x" unfolding like_append by blast
    ultimately have w: "take n (str it) @ w = (u @ str it @ v) @ x" and x: "like (tokens_after its k) x" by simp_all
    have len: "length (take n (str it)) < length (u @ str it @ v)" using it length_str [OF it(1)] True by simp
    obtain a where "take n (str it) = (u @ str it @ v) @ a \<or> (take n (str it) @ a = u @ str it @ v \<and> w = a @ x)"
      using w unfolding append_eq_append_conv2 by blast
    moreover have "take n (str it) \<noteq> (u @ str it @ v) @ a" using len by (metis le_add1 length_append not_le)
    ultimately have a: "take n (str it) @ a = u @ str it @ v" "w = a @ x" by blast+
    have "a \<noteq> []" using len a(1) by (metis append_Nil2 less_irrefl)
    then show ?thesis using a(2) x by blast
  next
    case False
    show ?thesis
    proof (cases "item_type it = piDirectMatch")
      case True
      have ne: "drop n (str it) \<noteq> []" using it length_str [OF it(1)] True by simp
      have "like (map Chr (drop n (str it)) @ m @ tokens_after its k) w" using r True by simp
      then obtain z where z: "w = drop n (str it) @ z" "like (m @ tokens_after its k) z" unfolding like_chrs by blast
      then obtain v x where "z = v @ x" "like (tokens_after its k) x" unfolding like_append by blast
      then show ?thesis using z(1) ne by (intro exI [of _ "drop n (str it) @ v"] exI [of _ x]) simp
    next
      case skip: False
      have "like (replicate (str_length it - n) One @ m @ tokens_after its k) w" using r False skip by simp
      then obtain u z where z: "w = u @ z" "length u = str_length it - n" "like (m @ tokens_after its k) z"
        unfolding like_ones by blast
      then obtain v x where "z = v @ x" "like (tokens_after its k) x" unfolding like_append by blast
      then show ?thesis using z(1,2) it(2) by (intro exI [of _ "u @ v"] exI [of _ x]) auto
    qed
  qed
qed

lemma residual_Nil: "items_ok its \<Longrightarrow> branch_ok its b \<Longrightarrow> \<not> residual its b []"
  using residual_consumes [of its b "br_pattern b" "[]"] by (auto simp: branch_ok_def)

text \<open>Where a percent sign follows, everything after a consumed prefix is accepted that was before it.\<close>

lemma residual_tail:
  assumes "items_ok its" "branch_ok its b" "br_pattern b \<le> k" "k < length its" "match_any (its ! k)"
  shows "residual its b w \<Longrightarrow> like (tokens_after its k) w" "residual its b (c # w) \<Longrightarrow> like (tokens_after its k) w"
proof -
  have any: "like (tokens_after its k) (a @ r)" if "like (tokens_after its k) r" for a r
    using that assms(5) unfolding tokens_after_def by (auto simp: like_Any) (metis append.assoc)
  show "like (tokens_after its k) w" if "residual its b w"
    using residual_consumes [OF assms(1-4) that] any by blast
  show "like (tokens_after its k) w" if "residual its b (c # w)"
    using residual_consumes [OF assms(1-4) that] any by (auto simp: Cons_eq_append_conv)
qed

subsection \<open>A branch is shown a character\<close>

lemma after_end:
  assumes "length its \<le> Suc k"
  shows "like (tokens_after its k) w \<longleftrightarrow> match_any (its ! k) \<or> w = []"
  using assms by (auto simp: tokens_after_def items_tokens_def like_Any)

lemma after_next:
  assumes "items_ok its" "Suc k < length its"
  shows "like (tokens_after its k) w \<longleftrightarrow> residual its \<lparr>br_pattern = Suc k, br_offset = 0\<rparr> w"
proof (cases "match_any (its ! k)")
  case True
  then have "\<exists>q. items_tokens (drop (Suc k) its) = Any # q"
    using match_any_nth [OF assms] by (simp add: items_tokens_drop [OF assms(2)] item_tokens_def)
  then have "like (tokens_after its k) w \<longleftrightarrow> like (items_tokens (drop (Suc k) its)) w"
    using True by (auto simp: tokens_after_def like_Any_Any)
  then show ?thesis by (simp add: residual_start [OF assms])
qed (simp add: residual_start [OF assms] tokens_after_def)

lemma residual_fixed:
  assumes "items_ok its" "branch_ok its b" "k = br_pattern b" "item_type (its ! k) \<noteq> piSearch"
  shows "item_type (its ! k) = piDirectMatch \<Longrightarrow> c \<noteq> str_data (its ! k) ! nat (br_offset b) \<Longrightarrow> \<not> residual its b (c # w)"
    "(item_type (its ! k) = piDirectMatch \<and> c = str_data (its ! k) ! nat (br_offset b)) \<or> item_type (its ! k) = piSkipFixed \<Longrightarrow>
       residual its b (c # w) \<longleftrightarrow>
         (if int (str_length (its ! k)) \<le> br_offset b + 1 then like (tokens_after its k) w
          else residual its (b\<lparr>br_offset := br_offset b + 1\<rparr>) w)"
proof -
  define it where "it = its ! k"
  define n where "n = nat (br_offset b)"
  have it: "item_ok it" "n < str_length it" "br_offset b = int n"
    using item_ok_nth [OF assms(1), of k] assms(2) by (auto simp: it_def n_def branch_ok_def assms(3))
  have nxt: "nat (br_offset b + 1) = Suc n" using it(3) by simp
  have d: "drop n (str it) = str_data it ! n # drop (Suc n) (str it)" if "item_type it = piDirectMatch"
    using it length_str [OF it(1)] that by (simp add: Cons_nth_drop_Suc [symmetric] str_def)
  show "\<not> residual its b (c # w)" if "item_type (its ! k) = piDirectMatch" "c \<noteq> str_data (its ! k) ! nat (br_offset b)"
    using that d by (simp add: residual_def assms(3) [symmetric] it_def n_def Let_def)
  have last: "Suc n = str_length it" if "int (str_length it) \<le> br_offset b + 1" using that it by simp
  have "residual its b (c # w) \<longleftrightarrow> like (map Chr (drop (Suc n) (str it)) @ tokens_after its k) w"
    if "item_type it = piDirectMatch" "c = str_data it ! n"
    using that d by (simp add: residual_def assms(3) [symmetric] it_def n_def Let_def)
  moreover have "residual its b (c # w) \<longleftrightarrow> like (replicate (str_length it - Suc n) One @ tokens_after its k) w"
    if "item_type it = piSkipFixed"
    using that Suc_diff_Suc [OF it(2), symmetric] by (simp add: residual_def assms(3) [symmetric] it_def n_def Let_def)
  moreover have "residual its (b\<lparr>br_offset := br_offset b + 1\<rparr>) w \<longleftrightarrow>
      (if item_type it = piDirectMatch then like (map Chr (drop (Suc n) (str it)) @ tokens_after its k) w
       else like (replicate (str_length it - Suc n) One @ tokens_after its k) w)"
    using assms(4) by (simp add: residual_def assms(3) [symmetric] it_def nxt Let_def)
  moreover have "drop (Suc n) (str it) = []" if "int (str_length it) \<le> br_offset b + 1" "item_type it = piDirectMatch"
    using last [OF that(1)] length_str [OF it(1)] that(2) by simp
  ultimately show "residual its b (c # w) \<longleftrightarrow>
         (if int (str_length (its ! k)) \<le> br_offset b + 1 then like (tokens_after its k) w
          else residual its (b\<lparr>br_offset := br_offset b + 1\<rparr>) w)"
    if "(item_type (its ! k) = piDirectMatch \<and> c = str_data (its ! k) ! nat (br_offset b)) \<or> item_type (its ! k) = piSkipFixed"
    using that last by (auto simp: it_def [symmetric] n_def [symmetric])
qed

text \<open>A search that has read \<open>t\<close> needs to remember only its longest end that begins the string searched for.\<close>

lemma search_forget:
  assumes "longest d n t j" "0 \<le> j" "n \<le> Suc (length d)" "t @ w = u @ d @ r" "length t - length u < n"
  shows "\<exists>u'. take (nat j) d @ w = u' @ d @ r"
proof (cases "length t \<le> length u")
  case True
  then obtain u2 where "u = t @ u2" "w = u2 @ d @ r"
    using assms(4) by (metis append_eq_append_conv_if append_take_drop_id)
  then show ?thesis by (intro exI [of _ "take (nat j) d @ u2"]) simp
next
  case False
  define b where "b = length t - length u"
  have b: "b < n" "b \<le> length d" using assms(3,5) by (simp_all add: b_def)
  have t: "t = u @ drop (length u) t" and tr: "drop (length u) t @ w = d @ r"
    using assms(4) False by (metis append_eq_append_conv_if append_take_drop_id nat_le_linear)+
  then have e: "drop (length u) t = take b d" "w = drop b d @ r"
    using b(2) by (metis append_eq_append_conv_if b_def length_drop)+
  have sb: "suffix (take b d) t" using t e(1) by (metis suffixI)
  then have "int b \<le> j" using assms(1) b(1) by (simp add: longest_def)
  moreover have sj: "suffix (take (nat j) d) t" using assms(1,2) by (simp add: longest_def)
  ultimately have "suffix (take b d) (take (nat j) d)" using suffix_shorter [OF sb sj] assms(2) by simp
  then obtain v where "take (nat j) d = v @ take b d" by (auto simp: suffix_def)
  then show ?thesis using e(2) by (intro exI [of _ v]) simp
qed

lemma search_remember:
  assumes "longest d n t j" "0 \<le> j" "take (nat j) d @ w = u @ d @ r"
  shows "\<exists>u'. t @ w = u' @ d @ r"
proof -
  obtain v where "t = v @ take (nat j) d" using assms(1,2) by (auto simp: longest_def suffix_def)
  then show ?thesis using assms(3) by (intro exI [of _ "v @ u"]) simp
qed

lemma like_search: "like (Any # map Chr d @ q) s \<longleftrightarrow> (\<exists>u r. s = u @ d @ r \<and> like q r)"
  unfolding like_Any like_chrs by blast

text \<open>After an occurrence the search goes on from the longest border, besides what follows the occurrence.\<close>

lemma search_found:
  assumes "longest d (length d) d j" "0 \<le> j"
  shows "like (Any # map Chr d @ q) (d @ w) \<longleftrightarrow> like q w \<or> like (Any # map Chr d @ q) (take (nat j) d @ w)"
proof
  assume "like (Any # map Chr d @ q) (d @ w)"
  then obtain u r where ur: "d @ w = u @ d @ r" "like q r" unfolding like_search by blast
  show "like q w \<or> like (Any # map Chr d @ q) (take (nat j) d @ w)"
  proof (cases "u = [] \<or> d = []")
    case True
    then show ?thesis
    proof
      assume "d = []"
      then show ?thesis using ur like_search [of d q] by auto
    qed (use ur in simp)
  next
    case False
    then have "length d - length u < length d" by simp
    from search_forget [OF assms _ ur(1) this] show ?thesis unfolding like_search using ur(2) by auto
  qed
next
  assume "like q w \<or> like (Any # map Chr d @ q) (take (nat j) d @ w)"
  then show "like (Any # map Chr d @ q) (d @ w)"
  proof
    assume "like q w"
    then show ?thesis unfolding like_search by (metis append_Nil)
  next
    assume "like (Any # map Chr d @ q) (take (nat j) d @ w)"
    then show ?thesis unfolding like_search using search_remember [OF assms] by metis
  qed
qed

lemma kmp_border:
  assumes "preKmp d = Some kmp" "d \<noteq> []"
  shows "longest d (length d) d (kmp ! length d)" "0 \<le> kmp ! length d"
proof -
  have f: "fails_to d kmp (length d)" using preKmp_fails [OF assms(2)] assms(1) by auto
  then show "0 \<le> kmp ! length d" using assms(2) unfolding fails_to_def
    by (metis length_greater_0_conv linorder_not_less nless_le of_nat_0 order_refl suffix_bot.extremum take_0)
  with f show "longest d (length d) d (kmp ! length d)"
    unfolding fails_to_def longest_def by (auto simp: not_less [symmetric])
qed

lemma residual_search:
  assumes "items_ok its" "branch_ok its b" "k = br_pattern b" "it = its ! k" "item_type it = piSearch"
  shows "\<exists>j. fall (length (str it) + 2) (str it) (str_kmpNext it) c (br_offset b) = Some j \<and> 0 \<le> j + 1 \<and> j + 1 \<le> int (str_length it) \<and>
    (if int (str_length it) \<le> j + 1 then
       branch_ok its (b\<lparr>br_offset := str_kmpNext it ! nat (j + 1)\<rparr>) \<and>
       (\<forall>w. residual its b (c # w) \<longleftrightarrow> like (tokens_after its k) w \<or> residual its (b\<lparr>br_offset := str_kmpNext it ! nat (j + 1)\<rparr>) w)
     else branch_ok its (b\<lparr>br_offset := j + 1\<rparr>) \<and> (\<forall>w. residual its b (c # w) \<longleftrightarrow> residual its (b\<lparr>br_offset := j + 1\<rparr>) w))"
proof -
  define d where "d = str it"
  define n where "n = nat (br_offset b)"
  have k: "k < length its" using assms(2,3) by (simp add: branch_ok_def)
  have it: "item_ok it" using item_ok_nth [OF assms(1) k] assms(4) by simp
  have len: "length d = str_length it" using length_str [OF it] assms(5) by (simp add: d_def)
  have n: "br_offset b = int n" "n < length d" using assms(2) len by (auto simp: branch_ok_def n_def assms(3,4))
  have ne: "d \<noteq> []" using n(2) by auto
  have kmp: "preKmp d = Some (str_kmpNext it)" using it assms(5) by (simp add: item_ok_def d_def)
  have f: "\<And>k. k < length d \<Longrightarrow> fails_to d (str_kmpNext it) k" using preKmp_fails [OF ne] kmp by auto
  have l: "longest d (length d) (take n d) (int n)" using n(2) by (auto simp: longest_def dest: suffix_length_le)
  obtain j where j: "fall (length d + 2) d (str_kmpNext it) c (int n) = Some j" "longest d (Suc (length d)) (take n d @ [c]) (j + 1)"
    using fall_longest [OF f _ l, of c] by auto
  have j0: "0 \<le> j + 1" using j(2) unfolding longest_def by (metis of_nat_0 suffix_bot.bot_least take_0 zero_less_Suc)
  have jl: "j + 1 \<le> int (length d)" using j(2) by (simp add: longest_def)
  have res: "residual its (b\<lparr>br_offset := v\<rparr>) w \<longleftrightarrow> like (Any # map Chr d @ tokens_after its k) (take (nat v) d @ w)" for v w
    using assms(5) by (simp add: residual_def Let_def assms(3,4) [symmetric] d_def)
  have step: "residual its b (c # w) \<longleftrightarrow> like (Any # map Chr d @ tokens_after its k) (take (nat (j + 1)) d @ w)" for w
  proof -
    have "residual its b (c # w) \<longleftrightarrow> like (Any # map Chr d @ tokens_after its k) ((take n d @ [c]) @ w)"
      using assms(5) by (simp add: residual_def Let_def assms(3,4) [symmetric] d_def n_def)
    also have "\<dots> \<longleftrightarrow> like (Any # map Chr d @ tokens_after its k) (take (nat (j + 1)) d @ w)"
    proof
      assume "like (Any # map Chr d @ tokens_after its k) ((take n d @ [c]) @ w)"
      then obtain u r where ur: "(take n d @ [c]) @ w = u @ d @ r" "like (tokens_after its k) r" unfolding like_search by blast
      have "length (take n d @ [c]) - length u < Suc (length d)" using n(2) by simp
      from search_forget [OF j(2) j0 _ ur(1) this] show "like (Any # map Chr d @ tokens_after its k) (take (nat (j + 1)) d @ w)"
        unfolding like_search using ur(2) by auto
    next
      assume "like (Any # map Chr d @ tokens_after its k) (take (nat (j + 1)) d @ w)"
      then show "like (Any # map Chr d @ tokens_after its k) ((take n d @ [c]) @ w)"
        unfolding like_search using search_remember [OF j(2) j0] by metis
    qed
    finally show ?thesis .
  qed
  show ?thesis
  proof (intro exI [of _ j] conjI)
    show "fall (length (str it) + 2) (str it) (str_kmpNext it) c (br_offset b) = Some j" using j(1) by (simp add: d_def n(1))
    show "0 \<le> j + 1" by (rule j0)
    show "j + 1 \<le> int (str_length it)" using jl len by simp
    show "if int (str_length it) \<le> j + 1 then
       branch_ok its (b\<lparr>br_offset := str_kmpNext it ! nat (j + 1)\<rparr>) \<and>
       (\<forall>w. residual its b (c # w) \<longleftrightarrow> like (tokens_after its k) w \<or> residual its (b\<lparr>br_offset := str_kmpNext it ! nat (j + 1)\<rparr>) w)
     else branch_ok its (b\<lparr>br_offset := j + 1\<rparr>) \<and> (\<forall>w. residual its b (c # w) \<longleftrightarrow> residual its (b\<lparr>br_offset := j + 1\<rparr>) w)"
    proof (cases "int (str_length it) \<le> j + 1")
      case True
      then have m: "nat (j + 1) = length d" using jl len by simp
      note b = kmp_border [OF kmp ne]
      have "branch_ok its (b\<lparr>br_offset := str_kmpNext it ! length d\<rparr>)"
        using k b len by (simp add: branch_ok_def longest_def assms(3,4) [symmetric])
      then show ?thesis using True step search_found [OF b] by (simp add: m res)
    next
      case False
      have "branch_ok its (b\<lparr>br_offset := j + 1\<rparr>)" using False k j0 by (simp add: branch_ok_def assms(3,4) [symmetric])
      then show ?thesis using False step by (simp add: res)
    qed
  qed
qed

subsection \<open>All branches are shown a character\<close>

text \<open>A branch further on than the item \<open>h\<close>, with no percent sign in between.\<close>

definition behind :: "'a pattern_item list \<Rightarrow> nat \<Rightarrow> branch_item \<Rightarrow> bool" where
  "behind its h b \<longleftrightarrow> branch_ok its b \<and> h < br_pattern b \<and> (\<forall>i. h \<le> i \<and> i < br_pattern b \<longrightarrow> \<not> match_any (its ! i))"

text \<open>If there are several branches, the first one searches, and the others follow what it has found.\<close>

definition branches_ok :: "'a pattern_item list \<Rightarrow> branch_item list \<Rightarrow> bool" where
  "branches_ok its bs \<longleftrightarrow> (case bs of
     [] \<Rightarrow> True
   | b # rest \<Rightarrow> branch_ok its b \<and> (rest \<noteq> [] \<longrightarrow> item_type (its ! br_pattern b) = piSearch) \<and> list_all (behind its (br_pattern b)) rest)"

text \<open>\<open>P\<close> tells which rests of the string are accepted after the character at \<open>data_pos\<close>.\<close>

definition outcome_ok :: "'a pattern_item list \<Rightarrow> int \<Rightarrow> int \<Rightarrow> ('a list \<Rightarrow> bool) \<Rightarrow> 'a outcome \<Rightarrow> bool" where
  "outcome_ok its data_len data_pos P out = (case out of
     Stuck \<Rightarrow> False
   | Go_on e fc \<Rightarrow> patternItems e = its \<and> match_type e = MATCH_NONE \<and> branches e \<noteq> [] \<and> branches_ok its (branches e) \<and> fc \<le> data_pos \<and>
       (\<forall>w. P w \<longleftrightarrow> (fc = data_pos \<and> w = []) \<or> (\<exists>b \<in> set (branches e). residual its b w))
   | Return again e \<Rightarrow> patternItems e = its \<and> branches e = [] \<and>
       (case match_type e of
          MATCH_ANY \<Rightarrow> \<not> again \<and> (\<forall>w. P w)
        | MATCH_FIXED \<Rightarrow> again \<and> data_pos = data_len - 1 \<and> (\<forall>w. P w \<longleftrightarrow> w = [])
        | MATCH_NONE \<Rightarrow> \<not> again \<and> (\<forall>w. P w \<longrightarrow> w = [] \<and> data_pos \<noteq> data_len - 1)))"

lemma behind_not_search:
  assumes "items_ok its" "behind its h b"
  shows "item_type (its ! br_pattern b) \<noteq> piSearch"
proof -
  obtain i where i: "br_pattern b = Suc i" "h \<le> i" using assms(2) by (cases "br_pattern b") (auto simp: behind_def)
  then show ?thesis using match_any_nth [OF assms(1), of i] assms(2) by (auto simp: behind_def branch_ok_def)
qed

lemma behind_le:
  assumes "behind its h b" "match_any (its ! k)" "h \<le> k"
  shows "br_pattern b \<le> k"
  using assms by (meson behind_def not_le)

lemma behind_next:
  assumes "items_ok its" "behind its h b" "\<not> match_any (its ! br_pattern b)" "Suc (br_pattern b) < length its"
  shows "behind its h \<lparr>br_pattern = Suc (br_pattern b), br_offset = 0\<rparr>"
  using assms branch_ok_start [OF assms(1,4)] by (auto simp: behind_def less_Suc_eq)

lemma fixed_kind:
  assumes "items_ok its" "branch_ok its b" "item_type (its ! br_pattern b) \<noteq> piSearch"
  shows "item_type (its ! br_pattern b) = piDirectMatch \<or> item_type (its ! br_pattern b) = piSkipFixed"
  using item_kind [OF item_ok_nth [OF assms(1)], of "br_pattern b"] assms(2,3) by (auto simp: branch_ok_def)

text \<open>One step of the loop on a branch that does not search, in four cases.\<close>

definition advances :: "'a pattern_item list \<Rightarrow> 'a \<Rightarrow> branch_item \<Rightarrow> bool" where
  "advances its c b \<longleftrightarrow> (item_type (its ! br_pattern b) = piDirectMatch \<and> c = str_data (its ! br_pattern b) ! nat (br_offset b)) \<or>
     item_type (its ! br_pattern b) = piSkipFixed"

definition ends :: "'a pattern_item list \<Rightarrow> branch_item \<Rightarrow> bool" where
  "ends its b \<longleftrightarrow> int (str_length (its ! br_pattern b)) \<le> br_offset b + 1"

lemma loop_fixed:
  assumes "patternItems e = its" "items_ok its" "branch_ok its b" "item_type (its ! br_pattern b) \<noteq> piSearch"
  shows "\<not> advances its c b \<Longrightarrow> branch_loop e n pos c visited (b # rest) fc =
      (if visited @ rest = [] then Return False (e\<lparr>branches := []\<rparr>) else branch_loop e n pos c visited rest fc)"
    "advances its c b \<Longrightarrow> \<not> ends its b \<Longrightarrow> branch_loop e n pos c visited (b # rest) fc =
      branch_loop e n pos c (visited @ [b\<lparr>br_offset := br_offset b + 1\<rparr>]) rest fc"
    "advances its c b \<Longrightarrow> ends its b \<Longrightarrow> match_any (its ! br_pattern b) \<Longrightarrow> branch_loop e n pos c visited (b # rest) fc =
      (if length its \<le> Suc (br_pattern b) then Return False (e\<lparr>branches := [], match_type := MATCH_ANY\<rparr>)
       else Go_on (e\<lparr>branches := [\<lparr>br_pattern = Suc (br_pattern b), br_offset = 0\<rparr>]\<rparr>) fc)"
    "advances its c b \<Longrightarrow> ends its b \<Longrightarrow> \<not> match_any (its ! br_pattern b) \<Longrightarrow> branch_loop e n pos c visited (b # rest) fc =
      (if length its \<le> Suc (br_pattern b) then
         if visited @ rest = [] then
           if pos = n - 1 then Return True (e\<lparr>branches := [], match_type := MATCH_FIXED\<rparr>) else Return False (e\<lparr>branches := []\<rparr>)
         else branch_loop e n pos c visited rest pos
       else branch_loop e n pos c (visited @ [\<lparr>br_pattern = Suc (br_pattern b), br_offset = 0\<rparr>]) rest fc)"
  using fixed_kind [OF assms(2-4)] by (auto simp: assms(1) advances_def ends_def Let_def)

lemma residual_loop:
  assumes "items_ok its" "branch_ok its b" "item_type (its ! br_pattern b) \<noteq> piSearch"
  shows "\<not> advances its c b \<Longrightarrow> \<not> residual its b (c # w)"
    "advances its c b \<Longrightarrow> \<not> ends its b \<Longrightarrow> residual its b (c # w) \<longleftrightarrow> residual its (b\<lparr>br_offset := br_offset b + 1\<rparr>) w"
    "advances its c b \<Longrightarrow> ends its b \<Longrightarrow> residual its b (c # w) \<longleftrightarrow> like (tokens_after its (br_pattern b)) w"
  using residual_fixed [OF assms(1,2) refl assms(3), of c w] fixed_kind [OF assms]
  by (auto simp: advances_def ends_def)

lemma branch_ok_advance: "branch_ok its b \<Longrightarrow> \<not> ends its b \<Longrightarrow> branch_ok its (b\<lparr>br_offset := br_offset b + 1\<rparr>)"
  by (simp add: branch_ok_def ends_def)

lemma outcome_cong: "outcome_ok its n pos P out \<Longrightarrow> (\<And>w. P w = Q w) \<Longrightarrow> outcome_ok its n pos Q out"
  by (drule ext [of P Q]) simp

lemma loop_rest:
  assumes "items_ok its" "patternItems e = its" "match_type e = MATCH_NONE"
    "branch_ok its h" "item_type (its ! br_pattern h) = piSearch"
  shows "list_all (behind its (br_pattern h)) visited \<Longrightarrow> list_all (behind its (br_pattern h)) rest \<Longrightarrow> fc \<le> pos \<Longrightarrow>
    outcome_ok its n pos
      (\<lambda>w. (fc = pos \<and> w = []) \<or> (\<exists>b \<in> set (h # visited). residual its b w) \<or> (\<exists>b \<in> set rest. residual its b (c # w)))
      (branch_loop e n pos c (h # visited) rest fc)"
proof (induction rest arbitrary: visited fc)
  case Nil
  then show ?case using assms by (auto simp: outcome_ok_def branches_ok_def)
next
  case (Cons b rest)
  define k where "k = br_pattern b"
  have b: "branch_ok its b" "behind its (br_pattern h) b" "br_pattern h < k" "k < length its"
    using Cons.prems(2) by (auto simp: behind_def branch_ok_def k_def)
  have ns: "item_type (its ! br_pattern b) \<noteq> piSearch" by (rule behind_not_search [OF assms(1) b(2)])
  note step = loop_fixed [OF assms(2,1) b(1) ns, where visited = "h # visited"] and res = residual_loop [OF assms(1) b(1) ns]
  consider "\<not> advances its c b" | "advances its c b" "\<not> ends its b"
    | "advances its c b" "ends its b" "match_any (its ! br_pattern b)" "length its \<le> Suc k"
    | "advances its c b" "ends its b" "match_any (its ! br_pattern b)" "Suc k < length its"
    | "advances its c b" "ends its b" "\<not> match_any (its ! br_pattern b)" "length its \<le> Suc k"
    | "advances its c b" "ends its b" "\<not> match_any (its ! br_pattern b)" "Suc k < length its"
    by linarith
  then show ?case
  proof cases
    case 1
    show ?thesis using Cons.IH [of visited fc] Cons.prems step(1) [OF 1] res(1) [OF 1] by simp
  next
    case 2
    have "behind its (br_pattern h) (b\<lparr>br_offset := br_offset b + 1\<rparr>)"
      using b(2) branch_ok_advance [OF b(1) 2(2)] by (simp add: behind_def)
    then have o: "outcome_ok its n pos
      (\<lambda>w. (fc = pos \<and> w = []) \<or> (\<exists>b \<in> set (h # visited @ [b\<lparr>br_offset := br_offset b + 1\<rparr>]). residual its b w) \<or>
        (\<exists>b \<in> set rest. residual its b (c # w))) (branch_loop e n pos c (h # visited @ [b\<lparr>br_offset := br_offset b + 1\<rparr>]) rest fc)"
      using Cons.prems by (intro Cons.IH) simp_all
    show ?thesis unfolding step(2) [OF 2] append_Cons by (rule outcome_cong [OF o]) (auto simp: res(2) [OF 2])
  next
    case 3
    then have "residual its b (c # w)" for w using res(3) [OF 3(1,2)] after_end [of its k] by (simp add: k_def)
    then show ?thesis unfolding step(3) [OF 3(1-3)] using 3(4) assms(2) by (simp add: outcome_ok_def k_def)
  next
    case 4
    let ?b = "\<lparr>br_pattern = Suc k, br_offset = 0\<rparr>"
    have r: "residual its b (c # w) \<longleftrightarrow> residual its ?b w" for w
      using res(3) [OF 4(1,2)] after_next [OF assms(1) 4(4)] by (simp add: k_def)
    have m: "match_any (its ! k)" using 4(3) by (simp add: k_def)
    have v: "residual its x w \<Longrightarrow> residual its ?b w" if "x \<in> set (h # visited)" for x w
      using residual_tail(1) [OF assms(1) _ _ b(4) m, of x w] that Cons.prems(1) assms(4) b(3)
        behind_le [OF _ m less_imp_le [OF b(3)]] after_next [OF assms(1) 4(4)]
      by (auto simp: list_all_iff behind_def)
    have t: "residual its x (c # w) \<Longrightarrow> residual its ?b w" if "x \<in> set rest" for x w
      using residual_tail(2) [OF assms(1) _ _ b(4) m, of x c w] that Cons.prems(2)
        behind_le [OF _ m less_imp_le [OF b(3)]] after_next [OF assms(1) 4(4)]
      by (auto simp: list_all_iff behind_def)
    have "branches_ok its [?b]" using branch_ok_start [OF assms(1) 4(4)] by (simp add: branches_ok_def)
    then show ?thesis unfolding step(3) [OF 4(1-3)]
      using 4(4) assms(2,3) Cons.prems(3) r v t by (auto simp: outcome_ok_def k_def [symmetric])
  next
    case 5
    then have r: "residual its b (c # w) \<longleftrightarrow> w = []" for w using res(3) [OF 5(1,2)] after_end [of its k] by (simp add: k_def)
    have o: "outcome_ok its n pos
      (\<lambda>w. (pos = pos \<and> w = []) \<or> (\<exists>b \<in> set (h # visited). residual its b w) \<or> (\<exists>b \<in> set rest. residual its b (c # w)))
      (branch_loop e n pos c (h # visited) rest pos)"
      using Cons.prems by (intro Cons.IH) simp_all
    have "branch_loop e n pos c (h # visited) (b # rest) fc = branch_loop e n pos c (h # visited) rest pos"
      using step(4) [OF 5(1-3)] 5(4) by (simp add: k_def)
    then show ?thesis by (simp only:) (rule outcome_cong [OF o], auto simp: r)
  next
    case 6
    let ?b = "\<lparr>br_pattern = Suc k, br_offset = 0\<rparr>"
    have r: "residual its b (c # w) \<longleftrightarrow> residual its ?b w" for w
      using res(3) [OF 6(1,2)] after_next [OF assms(1) 6(4)] by (simp add: k_def)
    have "behind its (br_pattern h) ?b" using behind_next [OF assms(1) b(2) 6(3)] 6(4) by (simp add: k_def)
    then have o: "outcome_ok its n pos
      (\<lambda>w. (fc = pos \<and> w = []) \<or> (\<exists>b \<in> set (h # visited @ [?b]). residual its b w) \<or> (\<exists>b \<in> set rest. residual its b (c # w)))
      (branch_loop e n pos c (h # visited @ [?b]) rest fc)"
      using Cons.prems by (intro Cons.IH) simp_all
    have "branch_loop e n pos c (h # visited) (b # rest) fc = branch_loop e n pos c (h # visited @ [?b]) rest fc"
      using step(4) [OF 6(1-3)] 6(4) by (simp add: k_def)
    then show ?thesis by (simp only:) (rule outcome_cong [OF o], auto simp: r)
  qed
qed

lemma loop_search:
  assumes "patternItems e = its" "item_type (its ! br_pattern b) = piSearch" "k = br_pattern b" "it = its ! k"
    "fall (length (str it) + 2) (str it) (str_kmpNext it) c (br_offset b) = Some j"
  shows "branch_loop e n pos c visited (b # rest) fc =
    (if int (str_length it) \<le> j + 1 then
       if length its \<le> Suc k then
         if match_any it then Return False (e\<lparr>branches := [], match_type := MATCH_ANY\<rparr>)
         else branch_loop e n pos c (visited @ [b\<lparr>br_offset := str_kmpNext it ! nat (j + 1)\<rparr>]) rest pos
       else if item_type (its ! Suc k) = piSearch then
         branch_loop e n pos c (visited @ [\<lparr>br_pattern = Suc k, br_offset = 0\<rparr>]) rest fc
       else branch_loop e n pos c
         (visited @ [b\<lparr>br_offset := str_kmpNext it ! nat (j + 1)\<rparr>, \<lparr>br_pattern = Suc k, br_offset = 0\<rparr>]) rest fc
     else branch_loop e n pos c (visited @ [b\<lparr>br_offset := j + 1\<rparr>]) rest fc)"
  using assms by (simp add: Let_def)

lemma loop_single:
  assumes "items_ok its" "patternItems e = its" "match_type e = MATCH_NONE" "branch_ok its b"
    "item_type (its ! br_pattern b) \<noteq> piSearch" "fc < pos"
  shows "outcome_ok its n pos (\<lambda>w. residual its b (c # w)) (branch_loop e n pos c [] [b] fc)"
proof -
  define k where "k = br_pattern b"
  note step = loop_fixed [OF assms(2,1,4,5), where visited = "[]" and rest = "[]"] and res = residual_loop [OF assms(1,4,5)]
  consider "\<not> advances its c b" | "advances its c b" "\<not> ends its b"
    | "advances its c b" "ends its b" "length its \<le> Suc k"
    | "advances its c b" "ends its b" "Suc k < length its"
    by linarith
  then show ?thesis
  proof cases
    case 1
    then show ?thesis using step(1) [OF 1] res(1) [OF 1] assms(2,3) by (simp add: outcome_ok_def)
  next
    case 2
    then show ?thesis unfolding step(2) [OF 2] using res(2) [OF 2] branch_ok_advance [OF assms(4) 2(2)] assms(2,3,6)
      by (simp add: outcome_ok_def branches_ok_def)
  next
    case 3
    have r: "residual its b (c # w) \<longleftrightarrow> match_any (its ! k) \<or> w = []" for w
      using res(3) [OF 3(1,2)] after_end [OF 3(3)] by (simp add: k_def)
    show ?thesis
      using step(3,4) [OF 3(1,2)] 3(3) assms(2,3) by (cases "match_any (its ! k)") (simp_all add: outcome_ok_def k_def [symmetric] r)
  next
    case 4
    have r: "residual its b (c # w) \<longleftrightarrow> residual its \<lparr>br_pattern = Suc k, br_offset = 0\<rparr> w" for w
      using res(3) [OF 4(1,2)] after_next [OF assms(1) 4(3)] by (simp add: k_def)
    have "branch_loop e n pos c [] [b] fc = Go_on (e\<lparr>branches := [\<lparr>br_pattern = Suc k, br_offset = 0\<rparr>]\<rparr>) fc"
      using step(3,4) [OF 4(1,2)] 4(3) by (cases "match_any (its ! k)") (simp_all add: k_def [symmetric])
    then show ?thesis using assms(2,3,6) branch_ok_start [OF assms(1) 4(3)] by (simp add: outcome_ok_def branches_ok_def r)
  qed
qed

lemma loop_all:
  assumes "items_ok its" "patternItems e = its" "match_type e = MATCH_NONE" "branches_ok its (b # rest)" "fc < pos"
  shows "outcome_ok its n pos (\<lambda>w. \<exists>b' \<in> set (b # rest). residual its b' (c # w)) (branch_loop e n pos c [] (b # rest) fc)"
proof (cases "item_type (its ! br_pattern b) = piSearch")
  case False
  then have "rest = []" "branch_ok its b" using assms(4) by (auto simp: branches_ok_def)
  then show ?thesis using loop_single [OF assms(1-3) _ False assms(5)] by simp
next
  case search: True
  define k where "k = br_pattern b"
  define it where "it = its ! k"
  have b: "branch_ok its b" "list_all (behind its k) rest" using assms(4) by (simp_all add: branches_ok_def k_def)
  have k: "k < length its" using b(1) by (simp add: branch_ok_def k_def)
  have ty: "item_type it = piSearch" using search by (simp add: it_def k_def)
  obtain j where j: "fall (length (str it) + 2) (str it) (str_kmpNext it) c (br_offset b) = Some j"
    and found: "int (str_length it) \<le> j + 1 \<Longrightarrow> branch_ok its (b\<lparr>br_offset := str_kmpNext it ! nat (j + 1)\<rparr>)"
      "int (str_length it) \<le> j + 1 \<Longrightarrow>
        residual its b (c # w) \<longleftrightarrow> like (tokens_after its k) w \<or> residual its (b\<lparr>br_offset := str_kmpNext it ! nat (j + 1)\<rparr>) w"
    and cont: "\<not> int (str_length it) \<le> j + 1 \<Longrightarrow> branch_ok its (b\<lparr>br_offset := j + 1\<rparr>)"
      "\<not> int (str_length it) \<le> j + 1 \<Longrightarrow> residual its b (c # w) \<longleftrightarrow> residual its (b\<lparr>br_offset := j + 1\<rparr>) w" for w
    using residual_search [OF assms(1) b(1) k_def it_def ty, of c] by (smt (verit))
  note step = loop_search [OF assms(2) search k_def it_def j, where visited = "[]", simplified]
  let ?f = "b\<lparr>br_offset := str_kmpNext it ! nat (j + 1)\<rparr>" and ?n = "\<lparr>br_pattern = Suc k, br_offset = 0\<rparr>"
  have rest: "outcome_ok its n pos (\<lambda>w. (fc' = pos \<and> w = []) \<or> (\<exists>b' \<in> set (h # visited). residual its b' w) \<or> (\<exists>b' \<in> set rest. residual its b' (c # w)))
      (branch_loop e n pos c (h # visited) rest fc')"
    if "branch_ok its h" "br_pattern h = k" "list_all (behind its k) visited" "fc' \<le> pos" for h visited fc'
    by (rule loop_rest [OF assms(1-3) that(1)]) (use search that b(2) in \<open>simp_all add: k_def\<close>)
  consider "\<not> int (str_length it) \<le> j + 1" | "int (str_length it) \<le> j + 1" "length its \<le> Suc k" "match_any it"
    | "int (str_length it) \<le> j + 1" "length its \<le> Suc k" "\<not> match_any it"
    | "int (str_length it) \<le> j + 1" "Suc k < length its" "match_any it"
    | "int (str_length it) \<le> j + 1" "Suc k < length its" "\<not> match_any it"
    by linarith
  then show ?thesis
  proof cases
    case 1
    have o: "branch_loop e n pos c [] (b # rest) fc = branch_loop e n pos c [b\<lparr>br_offset := j + 1\<rparr>] rest fc"
      using step 1 by simp
    show ?thesis unfolding o
      by (rule outcome_cong [OF rest [OF cont(1) [OF 1], of "[]" fc]]) (use assms(5) cont(2) [OF 1] in \<open>simp_all add: k_def\<close>)
  next
    case 2
    have "residual its b (c # w)" for w using found(2) [OF 2(1)] after_end [OF 2(2)] 2(3) by (simp add: it_def)
    then show ?thesis using step 2 assms(2) by (simp add: outcome_ok_def)
  next
    case 3
    have o: "branch_loop e n pos c [] (b # rest) fc = branch_loop e n pos c [?f] rest pos" using step 3 by simp
    show ?thesis unfolding o
      by (rule outcome_cong [OF rest [OF found(1) [OF 3(1)], of "[]" pos]])
        (use found(2) [OF 3(1)] after_end [OF 3(2)] 3(3) in \<open>auto simp: k_def it_def\<close>)
  next
    case 4
    have nx: "item_type (its ! Suc k) = piSearch" using match_any_nth [OF assms(1) 4(2)] 4(3) by (simp add: it_def)
    have m: "match_any (its ! k)" using 4(3) by (simp add: it_def)
    have "\<not> behind its k b'" for b' using m unfolding behind_def by blast
    then have r: "rest = []" using b(2) by (cases rest) simp_all
    have "branch_loop e n pos c [] (b # rest) fc = Go_on (e\<lparr>branches := [?n]\<rparr>) fc" using step 4 nx r by simp
    moreover have "residual its ?f w \<Longrightarrow> like (tokens_after its k) w" for w
      by (rule residual_tail(1) [OF assms(1) found(1) [OF 4(1)] _ k m]) (simp_all add: k_def)
    ultimately show ?thesis
      using r found(2) [OF 4(1)] after_next [OF assms(1) 4(2)] branch_ok_start [OF assms(1) 4(2)] assms(2,3,5)
      by (auto simp: outcome_ok_def branches_ok_def)
  next
    case 5
    have nx: "item_type (its ! Suc k) \<noteq> piSearch" using match_any_nth [OF assms(1) 5(2)] 5(3) by (simp add: it_def)
    have o: "branch_loop e n pos c [] (b # rest) fc = branch_loop e n pos c [?f, ?n] rest fc" using step 5 nx by simp
    have "behind its k ?n" using branch_ok_start [OF assms(1) 5(2)] 5(3) by (auto simp: behind_def less_Suc_eq it_def)
    then show ?thesis unfolding o
      by (intro outcome_cong [OF rest [OF found(1) [OF 5(1)], of "[?n]" fc]])
        (use found(2) [OF 5(1)] after_next [OF assms(1) 5(2)] assms(5) in \<open>auto simp: k_def it_def\<close>)
  qed
qed

subsection \<open>Chunks\<close>

text \<open>The rests of the string that a state accepts, and the states that occur.\<close>

definition accepts :: "'a like_evaluator \<Rightarrow> 'a list \<Rightarrow> bool" where
  "accepts e w \<longleftrightarrow> match_type e = MATCH_ANY \<or> (match_type e = MATCH_FIXED \<and> w = []) \<or>
     (\<exists>b \<in> set (branches e). residual (patternItems e) b w)"

definition like_ok :: "'a like_evaluator \<Rightarrow> bool" where
  "like_ok e \<longleftrightarrow> (match_type e = MATCH_ANY \<longrightarrow> branches e = []) \<and>
     (branches e \<noteq> [] \<longrightarrow> items_ok (patternItems e)) \<and> branches_ok (patternItems e) (branches e)"

lemma branches_ok_mem: "branches_ok its bs \<Longrightarrow> b \<in> set bs \<Longrightarrow> branch_ok its b"
  by (cases bs) (auto simp: branches_ok_def list_all_iff behind_def)

lemma accepts_Nil: "like_ok e \<Longrightarrow> getResult e \<longleftrightarrow> accepts e []"
  using residual_Nil branches_ok_mem by (cases "match_type e") (fastforce simp: like_ok_def getResult_def accepts_def)+

lemma data_loop_accepts:
  "items_ok (patternItems e) \<Longrightarrow> match_type e = MATCH_NONE \<Longrightarrow> branches e \<noteq> [] \<Longrightarrow> branches_ok (patternItems e) (branches e) \<Longrightarrow>
   fc < pos \<Longrightarrow> n = pos + int (length data) \<Longrightarrow>
   \<exists>again e'. data_loop e n pos data fc = Some (again, e') \<and> like_ok e' \<and> (again \<or> branches e' = [] \<and> match_type e' \<noteq> MATCH_FIXED) \<and>
     (\<forall>w. accepts e' w \<longleftrightarrow> (fc = pos - 1 \<and> data @ w = []) \<or> (\<exists>b \<in> set (branches e). residual (patternItems e) b (data @ w)))"
proof (induction data arbitrary: e pos fc)
  case Nil
  then show ?case by (auto simp: like_ok_def accepts_def)
next
  case (Cons c data)
  obtain b rest where bs: "branches e = b # rest" using Cons.prems(3) by (cases "branches e") auto
  define P where "P = (\<lambda>w. \<exists>b' \<in> set (branches e). residual (patternItems e) b' (c # w))"
  define out where "out = branch_loop e n pos c [] (branches e) fc"
  have o: "outcome_ok (patternItems e) n pos P out"
    unfolding P_def out_def bs by (rule loop_all) (use Cons.prems bs in simp_all)
  have last: "data = [] \<longleftrightarrow> pos = n - 1" using Cons.prems(6) by simp
  show ?case
  proof (cases out)
    case (Return again e')
    have "data_loop e n pos (c # data) fc = Some (again, e')" using Return by (simp add: out_def)
    moreover have "like_ok e'" "again \<or> branches e' = [] \<and> match_type e' \<noteq> MATCH_FIXED"
      using o Return by (auto simp: outcome_ok_def like_ok_def branches_ok_def split: match_type.splits)
    moreover have "accepts e' w \<longleftrightarrow> P (data @ w)" for w
      using o Return last by (cases "match_type e'") (auto simp: outcome_ok_def accepts_def)
    ultimately show ?thesis by (auto simp: P_def)
  next
    case (Go_on e' fc')
    have e': "patternItems e' = patternItems e" "match_type e' = MATCH_NONE" "branches e' \<noteq> []"
      "branches_ok (patternItems e) (branches e')" "fc' < pos + 1"
      and P: "\<And>w. P w \<longleftrightarrow> (fc' = pos \<and> w = []) \<or> (\<exists>b \<in> set (branches e'). residual (patternItems e) b w)"
      using o Go_on by (simp_all add: outcome_ok_def)
    have "\<exists>again e''. data_loop e' n (pos + 1) data fc' = Some (again, e'') \<and> like_ok e'' \<and> (again \<or> branches e'' = [] \<and> match_type e'' \<noteq> MATCH_FIXED) \<and>
     (\<forall>w. accepts e'' w \<longleftrightarrow> (fc' = pos + 1 - 1 \<and> data @ w = []) \<or> (\<exists>b \<in> set (branches e'). residual (patternItems e') b (data @ w)))"
      by (rule Cons.IH) (use e' Cons.prems in simp_all)
    then obtain again e'' where d: "data_loop e' n (pos + 1) data fc' = Some (again, e'')" "like_ok e''"
      "again \<or> branches e'' = [] \<and> match_type e'' \<noteq> MATCH_FIXED" "\<And>w. accepts e'' w \<longleftrightarrow> P (data @ w)"
      by (auto simp: P e'(1))
    then show ?thesis using Go_on by (auto simp: out_def P_def)
  qed (use o in \<open>simp add: outcome_ok_def\<close>)
qed

lemma like_chunk_accepts:
  assumes "like_ok e"
  shows "\<exists>again e'. like_chunk data e = Some (again, e') \<and> like_ok e' \<and> (again \<or> branches e' = [] \<and> match_type e' \<noteq> MATCH_FIXED) \<and>
    (\<forall>w. accepts e' w \<longleftrightarrow> accepts e (data @ w))"
proof (cases "data = []")
  case False
  define e1 where "e1 = (if match_type e = MATCH_FIXED then e\<lparr>match_type := MATCH_NONE\<rparr> else e)"
  have e1: "like_ok e1" "match_type e1 \<noteq> MATCH_FIXED" "branches e1 = branches e"
    using assms by (auto simp: e1_def like_ok_def)
  have acc: "accepts e1 (data @ w) = accepts e (data @ w)" for w using False by (simp add: accepts_def e1_def)
  have c: "like_chunk data e = (if branches e1 = [] then Some (False, e1) else data_loop e1 (int (length data)) 0 data (-1))"
    using False by (simp add: like_chunk_def e1_def Let_def)
  show ?thesis
  proof (cases "branches e1 = []")
    case True
    then have "accepts e1 w \<longleftrightarrow> accepts e (data @ w)" for w unfolding acc [symmetric] using e1(2) by (simp add: accepts_def)
    then show ?thesis using True c e1 by (intro exI [of _ False] exI [of _ e1]) simp
  next
    case bs: False
    then have none: "match_type e1 = MATCH_NONE" using e1 by (cases "match_type e1") (auto simp: like_ok_def)
    have "accepts e1 (data @ w) \<longleftrightarrow> (\<exists>b \<in> set (branches e1). residual (patternItems e1) b (data @ w))" for w
      using none by (simp add: accepts_def)
    then show ?thesis
      using data_loop_accepts [of e1 "-1" 0 "int (length data)" data] bs none e1(1) c acc False by (auto simp: like_ok_def)
  qed
qed (use assms in \<open>auto simp: like_chunk_def\<close>)

lemma like_chunks_accepts:
  "like_ok e \<Longrightarrow> \<exists>e'. like_chunks ds e = Some e' \<and> like_ok e' \<and> (\<forall>w. accepts e' w \<longleftrightarrow> accepts e (concat ds @ w))"
proof (induction ds arbitrary: e)
  case (Cons d ds)
  obtain again e' where e': "like_chunk d e = Some (again, e')" "like_ok e'" "\<And>w. accepts e' w \<longleftrightarrow> accepts e (d @ w)"
    using like_chunk_accepts [OF Cons.prems, of d] by blast
  from Cons.IH [OF e'(2)] show ?case using e'(1,3) by simp
qed simp

lemma new_like_accepts:
  "new_like sx pattern = Inr e \<Longrightarrow> \<exists>ts. tokens sx pattern = Some ts \<and> like_ok e \<and> (\<forall>w. accepts e w \<longleftrightarrow> like ts w)"
  "new_like sx pattern = Inl er \<Longrightarrow> er = isc_escape_invalid \<and> tokens sx pattern = None"
proof -
  note c = compile_correct [of sx pattern]
  show "er = isc_escape_invalid \<and> tokens sx pattern = None" if "new_like sx pattern = Inl er" using c that by simp
  assume "new_like sx pattern = Inr e"
  then obtain its ts where its: "e = reset \<lparr>patternItems = its, branches = [], match_type = MATCH_NONE\<rparr>" "tokens sx pattern = Some ts"
    "trivial_items its ts \<or> its \<noteq> [] \<and> items_ok its \<and> like (items_tokens its) = like ts" using c by auto
  from its(3) have "like_ok e \<and> (\<forall>w. accepts e w \<longleftrightarrow> like ts w)"
  proof
    assume "trivial_items its ts"
    then show ?thesis by (auto simp: trivial_items_def its(1) reset_def like_ok_def branches_ok_def accepts_def like_Any)
  next
    assume i: "its \<noteq> [] \<and> items_ok its \<and> like (items_tokens its) = like ts"
    then have k: "0 < length its" by simp
    have "item_type (its ! 0) \<noteq> piNone" using item_kind [OF item_ok_nth [OF _ k]] i by auto
    moreover note branch_ok_start [of its 0] residual_start [of its 0]
    ultimately show ?thesis using i k by (auto simp: its(1) reset_def like_ok_def branches_ok_def accepts_def)
  qed
  then show "\<exists>ts. tokens sx pattern = Some ts \<and> like_ok e \<and> (\<forall>w. accepts e w \<longleftrightarrow> like ts w)" using its(2) by blast
qed

text \<open>
  C38. \<open>LIKE\<close> is right: the evaluator refuses exactly the patterns that escape a character without special
  meaning; for any other pattern, however the string is cut into chunks, all chunks are processed within the
  fuel, and the result is whether the string is like the pattern.
\<close>

theorem like_evaluator_correct:
  "case new_like sx pattern of
     Inl error \<Rightarrow> error = isc_escape_invalid \<and> tokens sx pattern = None
   | Inr e \<Rightarrow> \<exists>ts e'. tokens sx pattern = Some ts \<and> like_chunks ds e = Some e' \<and> getResult e' = like ts (concat ds)"
proof (cases "new_like sx pattern")
  case (Inl er)
  then show ?thesis using new_like_accepts(2) by auto
next
  case (Inr e)
  obtain ts where ts: "tokens sx pattern = Some ts" "like_ok e" "\<And>w. accepts e w \<longleftrightarrow> like ts w" using new_like_accepts(1) [OF Inr] by blast
  obtain e' where "like_chunks ds e = Some e'" "like_ok e'" "\<And>w. accepts e' w \<longleftrightarrow> accepts e (concat ds @ w)"
    using like_chunks_accepts [OF ts(2)] by blast
  then show ?thesis using Inr ts accepts_Nil [of e'] by simp
qed

text \<open>
  C39. When \<open>processNextChunk\<close> says that more data cannot change the result, it cannot: whatever follows, the
  string is like the pattern if and only if it is so already.
\<close>

theorem like_end_is_final:
  assumes "new_like sx pattern = Inr e" "like_chunks ds e = Some e1" "like_chunk d e1 = Some (False, e2)"
    "tokens sx pattern = Some ts"
  shows "like ts (concat ds @ d @ w) = getResult e2"
proof -
  have ts: "like_ok e" "\<And>w. accepts e w \<longleftrightarrow> like ts w" using new_like_accepts(1) [OF assms(1)] assms(4) by auto
  have e1: "like_ok e1" "\<And>w. accepts e1 w \<longleftrightarrow> like ts (concat ds @ w)"
    using like_chunks_accepts [OF ts(1), of ds] assms(2) ts(2) by auto
  have e2: "like_ok e2" "branches e2 = []" "match_type e2 \<noteq> MATCH_FIXED" "\<And>w. accepts e2 w \<longleftrightarrow> like ts (concat ds @ d @ w)"
    using like_chunk_accepts [OF e1(1), of d] assms(3) e1(2) by auto
  then have "accepts e2 w = accepts e2 []" by (simp add: accepts_def)
  then show ?thesis using e2(4) accepts_Nil [OF e2(1)] by simp
qed

lemma like_end_is_final_witness:
  "\<exists>e e1 e2. new_like \<lparr>escape_char = None, sql_match_any = Some 37, sql_match_one = Some 95\<rparr> [65, 37 :: nat] = Inr e \<and>
     like_chunks [[65]] e = Some e1 \<and> like_chunk [66] e1 = Some (False, e2) \<and> like [Chr 65, Any] ([65] @ [66] @ [67]) = getResult e2"
proof -
  let ?sx = "\<lparr>escape_char = None, sql_match_any = Some 37, sql_match_one = Some 95\<rparr> :: nat like_syntax"
  let ?it = "\<lparr>item_type = piDirectMatch, str_data = [65, 37], str_length = 1, str_kmpNext = [], match_any = True\<rparr>"
  let ?e = "\<lparr>patternItems = [?it], branches = [\<lparr>br_pattern = 0, br_offset = 0\<rparr>], match_type = MATCH_NONE\<rparr>"
  let ?e1 = "?e\<lparr>branches := [], match_type := MATCH_ANY\<rparr>"
  have n: "new_like ?sx [65, 37 :: nat] = Inr ?e"
    by (simp add: new_like_def new_item_def compile_string_def reset_def)
  have c: "like_chunks [[65]] ?e = Some ?e1" by (simp add: like_chunk_def)
  have d: "like_chunk [66] ?e1 = Some (False, ?e1)" by (simp add: like_chunk_def)
  have t: "tokens ?sx [65, 37] = Some [Chr 65, Any]" by simp
  from like_end_is_final [OF n c d t, of "[67]"] show ?thesis using n c d by (intro exI conjI) simp_all
qed

end
