(* ===== verification/ClumpletTags.thy ===== *)
theory ClumpletTags
  imports Prelude
begin

text \<open>
  The types of clumplets by the kind of the parameter block and their tag
  (\<open>ClumpletReader::getClumpletType\<close> in \<open>src/common/classes/ClumpletReader.cpp\<close>), with the values of
  \<open>src/include/firebird/impl/consts_pub.h\<close> and \<open>inf_pub.h\<close>.
\<close>

datatype clumplet_kind =
  EndOfList | Tagged | UnTagged | SpbAttach | SpbStart | Tpb | WideTagged | WideUnTagged |
  SpbSendItems | SpbReceiveItems | SpbResponse | InfoResponse | InfoItems

datatype clumplet_type = TraditionalDpb | SingleTpb | StringSpb | IntSpb | BigIntSpb | ByteSpb | Wide

text \<open>The exceptions of the classes, with their message.\<close>

datatype clumplet_error = usage_mistake string | invalid_structure string | size_overflow | fuel_exhausted

subsection \<open>Tags\<close>

abbreviation (input) isc_tpb_lock_write :: uchar where "isc_tpb_lock_write \<equiv> 11"
abbreviation (input) isc_tpb_lock_read :: uchar where "isc_tpb_lock_read \<equiv> 10"
abbreviation (input) isc_tpb_lock_timeout :: uchar where "isc_tpb_lock_timeout \<equiv> 21"
abbreviation (input) isc_tpb_at_snapshot_number :: uchar where "isc_tpb_at_snapshot_number \<equiv> 23"
abbreviation (input) isc_tpb_lock_table_schema :: uchar where "isc_tpb_lock_table_schema \<equiv> 25"
abbreviation (input) isc_info_end :: uchar where "isc_info_end \<equiv> 1"
abbreviation (input) isc_info_truncated :: uchar where "isc_info_truncated \<equiv> 2"
abbreviation (input) isc_info_error :: uchar where "isc_info_error \<equiv> 3"
abbreviation (input) isc_info_data_not_ready :: uchar where "isc_info_data_not_ready \<equiv> 4"
abbreviation (input) isc_info_length :: uchar where "isc_info_length \<equiv> 126"
abbreviation (input) isc_info_flag_end :: uchar where "isc_info_flag_end \<equiv> 127"
abbreviation (input) isc_spb_bkp_file :: uchar where "isc_spb_bkp_file \<equiv> 5"
abbreviation (input) isc_spb_dbname :: uchar where "isc_spb_dbname \<equiv> 106"
abbreviation (input) isc_spb_res_fix_fss_data :: uchar where "isc_spb_res_fix_fss_data \<equiv> 13"
abbreviation (input) isc_spb_res_fix_fss_metadata :: uchar where "isc_spb_res_fix_fss_metadata \<equiv> 14"
abbreviation (input) isc_spb_bkp_stat :: uchar where "isc_spb_bkp_stat \<equiv> 15"
abbreviation (input) isc_spb_bkp_skip_data :: uchar where "isc_spb_bkp_skip_data \<equiv> 8"
abbreviation (input) isc_spb_bkp_include_data :: uchar where "isc_spb_bkp_include_data \<equiv> 19"
abbreviation (input) isc_spb_bkp_skip_schema_data :: uchar where "isc_spb_bkp_skip_schema_data \<equiv> 22"
abbreviation (input) isc_spb_bkp_include_schema_data :: uchar where "isc_spb_bkp_include_schema_data \<equiv> 23"
abbreviation (input) isc_spb_bkp_keyholder :: uchar where "isc_spb_bkp_keyholder \<equiv> 16"
abbreviation (input) isc_spb_bkp_keyname :: uchar where "isc_spb_bkp_keyname \<equiv> 17"
abbreviation (input) isc_spb_bkp_crypt :: uchar where "isc_spb_bkp_crypt \<equiv> 18"
abbreviation (input) isc_spb_bkp_factor :: uchar where "isc_spb_bkp_factor \<equiv> 6"
abbreviation (input) isc_spb_bkp_length :: uchar where "isc_spb_bkp_length \<equiv> 7"
abbreviation (input) isc_spb_bkp_parallel_workers :: uchar where "isc_spb_bkp_parallel_workers \<equiv> 21"
abbreviation (input) isc_spb_res_length :: uchar where "isc_spb_res_length \<equiv> 11"
abbreviation (input) isc_spb_res_buffers :: uchar where "isc_spb_res_buffers \<equiv> 9"
abbreviation (input) isc_spb_res_page_size :: uchar where "isc_spb_res_page_size \<equiv> 10"
abbreviation (input) isc_spb_options :: uchar where "isc_spb_options \<equiv> 108"
abbreviation (input) isc_spb_verbint :: uchar where "isc_spb_verbint \<equiv> 114"
abbreviation (input) isc_spb_verbose :: uchar where "isc_spb_verbose \<equiv> 107"
abbreviation (input) isc_spb_res_access_mode :: uchar where "isc_spb_res_access_mode \<equiv> 12"
abbreviation (input) isc_spb_res_replica_mode :: uchar where "isc_spb_res_replica_mode \<equiv> 20"
abbreviation (input) isc_spb_rpr_commit_trans :: uchar where "isc_spb_rpr_commit_trans \<equiv> 15"
abbreviation (input) isc_spb_rpr_rollback_trans :: uchar where "isc_spb_rpr_rollback_trans \<equiv> 34"
abbreviation (input) isc_spb_rpr_recover_two_phase :: uchar where "isc_spb_rpr_recover_two_phase \<equiv> 17"
abbreviation (input) isc_spb_rpr_par_workers :: uchar where "isc_spb_rpr_par_workers \<equiv> 52"
abbreviation (input) isc_spb_rpr_commit_trans_64 :: uchar where "isc_spb_rpr_commit_trans_64 \<equiv> 49"
abbreviation (input) isc_spb_rpr_rollback_trans_64 :: uchar where "isc_spb_rpr_rollback_trans_64 \<equiv> 50"
abbreviation (input) isc_spb_rpr_recover_two_phase_64 :: uchar where "isc_spb_rpr_recover_two_phase_64 \<equiv> 51"
abbreviation (input) isc_spb_sql_role_name :: uchar where "isc_spb_sql_role_name \<equiv> 60"
abbreviation (input) isc_spb_sec_username :: uchar where "isc_spb_sec_username \<equiv> 7"
abbreviation (input) isc_spb_sec_password :: uchar where "isc_spb_sec_password \<equiv> 8"
abbreviation (input) isc_spb_sec_groupname :: uchar where "isc_spb_sec_groupname \<equiv> 9"
abbreviation (input) isc_spb_sec_firstname :: uchar where "isc_spb_sec_firstname \<equiv> 10"
abbreviation (input) isc_spb_sec_middlename :: uchar where "isc_spb_sec_middlename \<equiv> 11"
abbreviation (input) isc_spb_sec_lastname :: uchar where "isc_spb_sec_lastname \<equiv> 12"
abbreviation (input) isc_spb_sec_userid :: uchar where "isc_spb_sec_userid \<equiv> 5"
abbreviation (input) isc_spb_sec_groupid :: uchar where "isc_spb_sec_groupid \<equiv> 6"
abbreviation (input) isc_spb_sec_admin :: uchar where "isc_spb_sec_admin \<equiv> 13"
abbreviation (input) isc_spb_prp_page_buffers :: uchar where "isc_spb_prp_page_buffers \<equiv> 5"
abbreviation (input) isc_spb_prp_sweep_interval :: uchar where "isc_spb_prp_sweep_interval \<equiv> 6"
abbreviation (input) isc_spb_prp_shutdown_db :: uchar where "isc_spb_prp_shutdown_db \<equiv> 7"
abbreviation (input) isc_spb_prp_deny_new_attachments :: uchar where "isc_spb_prp_deny_new_attachments \<equiv> 9"
abbreviation (input) isc_spb_prp_deny_new_transactions :: uchar where "isc_spb_prp_deny_new_transactions \<equiv> 10"
abbreviation (input) isc_spb_prp_set_sql_dialect :: uchar where "isc_spb_prp_set_sql_dialect \<equiv> 14"
abbreviation (input) isc_spb_prp_force_shutdown :: uchar where "isc_spb_prp_force_shutdown \<equiv> 41"
abbreviation (input) isc_spb_prp_attachments_shutdown :: uchar where "isc_spb_prp_attachments_shutdown \<equiv> 42"
abbreviation (input) isc_spb_prp_transactions_shutdown :: uchar where "isc_spb_prp_transactions_shutdown \<equiv> 43"
abbreviation (input) isc_spb_prp_reserve_space :: uchar where "isc_spb_prp_reserve_space \<equiv> 11"
abbreviation (input) isc_spb_prp_write_mode :: uchar where "isc_spb_prp_write_mode \<equiv> 12"
abbreviation (input) isc_spb_prp_access_mode :: uchar where "isc_spb_prp_access_mode \<equiv> 13"
abbreviation (input) isc_spb_prp_shutdown_mode :: uchar where "isc_spb_prp_shutdown_mode \<equiv> 44"
abbreviation (input) isc_spb_prp_online_mode :: uchar where "isc_spb_prp_online_mode \<equiv> 45"
abbreviation (input) isc_spb_prp_replica_mode :: uchar where "isc_spb_prp_replica_mode \<equiv> 46"
abbreviation (input) isc_spb_command_line :: uchar where "isc_spb_command_line \<equiv> 105"
abbreviation (input) isc_spb_sts_table :: uchar where "isc_spb_sts_table \<equiv> 64"
abbreviation (input) isc_spb_sts_schema :: uchar where "isc_spb_sts_schema \<equiv> 65"
abbreviation (input) isc_spb_nbk_file :: uchar where "isc_spb_nbk_file \<equiv> 6"
abbreviation (input) isc_spb_nbk_direct :: uchar where "isc_spb_nbk_direct \<equiv> 7"
abbreviation (input) isc_spb_nbk_guid :: uchar where "isc_spb_nbk_guid \<equiv> 8"
abbreviation (input) isc_spb_nbk_level :: uchar where "isc_spb_nbk_level \<equiv> 5"
abbreviation (input) isc_spb_nbk_keep_days :: uchar where "isc_spb_nbk_keep_days \<equiv> 10"
abbreviation (input) isc_spb_nbk_keep_rows :: uchar where "isc_spb_nbk_keep_rows \<equiv> 11"
abbreviation (input) isc_spb_nbk_clean_history :: uchar where "isc_spb_nbk_clean_history \<equiv> 9"
abbreviation (input) isc_spb_trc_cfg :: uchar where "isc_spb_trc_cfg \<equiv> 3"
abbreviation (input) isc_spb_trc_name :: uchar where "isc_spb_trc_name \<equiv> 2"
abbreviation (input) isc_spb_trc_plugins :: uchar where "isc_spb_trc_plugins \<equiv> 4"
abbreviation (input) isc_spb_trc_id :: uchar where "isc_spb_trc_id \<equiv> 1"
abbreviation (input) isc_spb_val_sch_incl :: uchar where "isc_spb_val_sch_incl \<equiv> 6"
abbreviation (input) isc_spb_val_sch_excl :: uchar where "isc_spb_val_sch_excl \<equiv> 7"
abbreviation (input) isc_spb_val_tab_incl :: uchar where "isc_spb_val_tab_incl \<equiv> 1"
abbreviation (input) isc_spb_val_tab_excl :: uchar where "isc_spb_val_tab_excl \<equiv> 2"
abbreviation (input) isc_spb_val_idx_incl :: uchar where "isc_spb_val_idx_incl \<equiv> 3"
abbreviation (input) isc_spb_val_idx_excl :: uchar where "isc_spb_val_idx_excl \<equiv> 4"
abbreviation (input) isc_spb_val_lock_timeout :: uchar where "isc_spb_val_lock_timeout \<equiv> 5"
abbreviation (input) isc_info_svc_version :: uchar where "isc_info_svc_version \<equiv> 54"
abbreviation (input) isc_spb_num_att :: uchar where "isc_spb_num_att \<equiv> 5"
abbreviation (input) isc_spb_num_db :: uchar where "isc_spb_num_db \<equiv> 6"
abbreviation (input) isc_spb_multi_tra_id :: uchar where "isc_spb_multi_tra_id \<equiv> 20"
abbreviation (input) isc_spb_single_tra_id :: uchar where "isc_spb_single_tra_id \<equiv> 19"
abbreviation (input) isc_spb_tra_id :: uchar where "isc_spb_tra_id \<equiv> 18"
abbreviation (input) isc_info_svc_stdin :: uchar where "isc_info_svc_stdin \<equiv> 78"
abbreviation (input) isc_info_svc_capabilities :: uchar where "isc_info_svc_capabilities \<equiv> 57"
abbreviation (input) isc_spb_multi_tra_id_64 :: uchar where "isc_spb_multi_tra_id_64 \<equiv> 48"
abbreviation (input) isc_spb_single_tra_id_64 :: uchar where "isc_spb_single_tra_id_64 \<equiv> 47"
abbreviation (input) isc_spb_tra_id_64 :: uchar where "isc_spb_tra_id_64 \<equiv> 46"
abbreviation (input) isc_info_svc_server_version :: uchar where "isc_info_svc_server_version \<equiv> 55"
abbreviation (input) isc_info_svc_implementation :: uchar where "isc_info_svc_implementation \<equiv> 56"
abbreviation (input) isc_info_svc_get_env_msg :: uchar where "isc_info_svc_get_env_msg \<equiv> 61"
abbreviation (input) isc_info_svc_get_env :: uchar where "isc_info_svc_get_env \<equiv> 59"
abbreviation (input) isc_info_svc_get_env_lock :: uchar where "isc_info_svc_get_env_lock \<equiv> 60"
abbreviation (input) isc_info_svc_user_dbpath :: uchar where "isc_info_svc_user_dbpath \<equiv> 58"
abbreviation (input) isc_spb_tra_host_site :: uchar where "isc_spb_tra_host_site \<equiv> 26"
abbreviation (input) isc_spb_tra_remote_site :: uchar where "isc_spb_tra_remote_site \<equiv> 27"
abbreviation (input) isc_spb_tra_db_path :: uchar where "isc_spb_tra_db_path \<equiv> 28"
abbreviation (input) isc_info_svc_get_users :: uchar where "isc_info_svc_get_users \<equiv> 68"
abbreviation (input) isc_info_svc_line :: uchar where "isc_info_svc_line \<equiv> 62"
abbreviation (input) isc_info_svc_to_eof :: uchar where "isc_info_svc_to_eof \<equiv> 63"
abbreviation (input) isc_info_svc_svr_db_info :: uchar where "isc_info_svc_svr_db_info \<equiv> 50"
abbreviation (input) isc_info_svc_limbo_trans :: uchar where "isc_info_svc_limbo_trans \<equiv> 66"
abbreviation (input) isc_info_svc_timeout :: uchar where "isc_info_svc_timeout \<equiv> 64"
abbreviation (input) isc_spb_tra_state :: uchar where "isc_spb_tra_state \<equiv> 21"
abbreviation (input) isc_spb_tra_advise :: uchar where "isc_spb_tra_advise \<equiv> 29"
abbreviation (input) fb_info_counts_scope_att :: uchar where "fb_info_counts_scope_att \<equiv> 161"
abbreviation (input) fb_info_counts_scope_db :: uchar where "fb_info_counts_scope_db \<equiv> 162"
abbreviation (input) isc_action_svc_backup :: uchar where "isc_action_svc_backup \<equiv> 1"
abbreviation (input) isc_action_svc_restore :: uchar where "isc_action_svc_restore \<equiv> 2"
abbreviation (input) isc_action_svc_repair :: uchar where "isc_action_svc_repair \<equiv> 3"
abbreviation (input) isc_action_svc_add_user :: uchar where "isc_action_svc_add_user \<equiv> 4"
abbreviation (input) isc_action_svc_delete_user :: uchar where "isc_action_svc_delete_user \<equiv> 5"
abbreviation (input) isc_action_svc_modify_user :: uchar where "isc_action_svc_modify_user \<equiv> 6"
abbreviation (input) isc_action_svc_display_user :: uchar where "isc_action_svc_display_user \<equiv> 7"
abbreviation (input) isc_action_svc_display_user_adm :: uchar where "isc_action_svc_display_user_adm \<equiv> 29"
abbreviation (input) isc_action_svc_set_mapping :: uchar where "isc_action_svc_set_mapping \<equiv> 27"
abbreviation (input) isc_action_svc_drop_mapping :: uchar where "isc_action_svc_drop_mapping \<equiv> 28"
abbreviation (input) isc_action_svc_properties :: uchar where "isc_action_svc_properties \<equiv> 8"
abbreviation (input) isc_action_svc_db_stats :: uchar where "isc_action_svc_db_stats \<equiv> 11"
abbreviation (input) isc_action_svc_get_ib_log :: uchar where "isc_action_svc_get_ib_log \<equiv> 12"
abbreviation (input) isc_action_svc_nbak :: uchar where "isc_action_svc_nbak \<equiv> 20"
abbreviation (input) isc_action_svc_nrest :: uchar where "isc_action_svc_nrest \<equiv> 21"
abbreviation (input) isc_action_svc_nfix :: uchar where "isc_action_svc_nfix \<equiv> 31"
abbreviation (input) isc_action_svc_trace_start :: uchar where "isc_action_svc_trace_start \<equiv> 22"
abbreviation (input) isc_action_svc_trace_stop :: uchar where "isc_action_svc_trace_stop \<equiv> 23"
abbreviation (input) isc_action_svc_trace_suspend :: uchar where "isc_action_svc_trace_suspend \<equiv> 24"
abbreviation (input) isc_action_svc_trace_resume :: uchar where "isc_action_svc_trace_resume \<equiv> 25"
abbreviation (input) isc_action_svc_validate :: uchar where "isc_action_svc_validate \<equiv> 30"
abbreviation (input) isc_spb_version :: uchar where "isc_spb_version \<equiv> 2"
abbreviation (input) isc_spb_current_version :: uchar where "isc_spb_current_version \<equiv> 2"
abbreviation (input) isc_spb_version1 :: uchar where "isc_spb_version1 \<equiv> 1"
abbreviation (input) isc_spb_version3 :: uchar where "isc_spb_version3 \<equiv> 3"
abbreviation (input) isc_dpb_version1 :: uchar where "isc_dpb_version1 \<equiv> 1"
abbreviation (input) isc_dpb_version2 :: uchar where "isc_dpb_version2 \<equiv> 2"

subsection \<open>Types by tag\<close>

definition tpb_type :: "uchar \<Rightarrow> clumplet_error + clumplet_type" where
  "tpb_type tag =
     (if tag \<in> {isc_tpb_lock_write, isc_tpb_lock_read, isc_tpb_lock_timeout, isc_tpb_at_snapshot_number,
           isc_tpb_lock_table_schema}
       then Inr TraditionalDpb
     else Inr SingleTpb)"

definition send_items_type :: "uchar \<Rightarrow> clumplet_error + clumplet_type" where
  "send_items_type tag =
     (if tag \<in> {isc_info_end, isc_info_truncated, isc_info_error, isc_info_data_not_ready, isc_info_length,
           isc_info_flag_end}
       then Inr SingleTpb
     else Inr StringSpb)"

definition backup_type :: "uchar \<Rightarrow> clumplet_error + clumplet_type" where
  "backup_type tag =
     (if tag \<in> {isc_spb_bkp_file, isc_spb_dbname, isc_spb_res_fix_fss_data, isc_spb_res_fix_fss_metadata,
           isc_spb_bkp_stat, isc_spb_bkp_skip_data, isc_spb_bkp_include_data,
           isc_spb_bkp_skip_schema_data, isc_spb_bkp_include_schema_data, isc_spb_bkp_keyholder,
           isc_spb_bkp_keyname, isc_spb_bkp_crypt}
       then Inr StringSpb
     else if tag \<in> {isc_spb_bkp_factor, isc_spb_bkp_length, isc_spb_bkp_parallel_workers, isc_spb_res_length,
           isc_spb_res_buffers, isc_spb_res_page_size, isc_spb_options, isc_spb_verbint}
       then Inr IntSpb
     else if tag \<in> {isc_spb_verbose}
       then Inr SingleTpb
     else if tag \<in> {isc_spb_res_access_mode, isc_spb_res_replica_mode}
       then Inr ByteSpb
     else Inl (invalid_structure ''unknown parameter for backup/restore''))"

definition repair_type :: "uchar \<Rightarrow> clumplet_error + clumplet_type" where
  "repair_type tag =
     (if tag \<in> {isc_spb_dbname}
       then Inr StringSpb
     else if tag \<in> {isc_spb_options, isc_spb_rpr_commit_trans, isc_spb_rpr_rollback_trans,
           isc_spb_rpr_recover_two_phase, isc_spb_rpr_par_workers}
       then Inr IntSpb
     else if tag \<in> {isc_spb_rpr_commit_trans_64, isc_spb_rpr_rollback_trans_64, isc_spb_rpr_recover_two_phase_64}
       then Inr BigIntSpb
     else Inl (invalid_structure ''unknown parameter for repair''))"

definition security_type :: "uchar \<Rightarrow> clumplet_error + clumplet_type" where
  "security_type tag =
     (if tag \<in> {isc_spb_dbname, isc_spb_sql_role_name, isc_spb_sec_username, isc_spb_sec_password,
           isc_spb_sec_groupname, isc_spb_sec_firstname, isc_spb_sec_middlename, isc_spb_sec_lastname}
       then Inr StringSpb
     else if tag \<in> {isc_spb_sec_userid, isc_spb_sec_groupid, isc_spb_sec_admin}
       then Inr IntSpb
     else Inl (invalid_structure ''unknown parameter for security database operation''))"

definition properties_type :: "uchar \<Rightarrow> clumplet_error + clumplet_type" where
  "properties_type tag =
     (if tag \<in> {isc_spb_dbname}
       then Inr StringSpb
     else if tag \<in> {isc_spb_prp_page_buffers, isc_spb_prp_sweep_interval, isc_spb_prp_shutdown_db,
           isc_spb_prp_deny_new_attachments, isc_spb_prp_deny_new_transactions,
           isc_spb_prp_set_sql_dialect, isc_spb_options, isc_spb_prp_force_shutdown,
           isc_spb_prp_attachments_shutdown, isc_spb_prp_transactions_shutdown}
       then Inr IntSpb
     else if tag \<in> {isc_spb_prp_reserve_space, isc_spb_prp_write_mode, isc_spb_prp_access_mode,
           isc_spb_prp_shutdown_mode, isc_spb_prp_online_mode, isc_spb_prp_replica_mode}
       then Inr ByteSpb
     else Inl (invalid_structure ''unknown parameter for setting database properties''))"

definition statistics_type :: "uchar \<Rightarrow> clumplet_error + clumplet_type" where
  "statistics_type tag =
     (if tag \<in> {isc_spb_dbname, isc_spb_command_line, isc_spb_sts_table, isc_spb_sts_schema}
       then Inr StringSpb
     else if tag \<in> {isc_spb_options}
       then Inr IntSpb
     else Inl (invalid_structure ''unknown parameter for getting statistics''))"

definition nbackup_type :: "uchar \<Rightarrow> clumplet_error + clumplet_type" where
  "nbackup_type tag =
     (if tag \<in> {isc_spb_nbk_file, isc_spb_nbk_direct, isc_spb_dbname, isc_spb_nbk_guid}
       then Inr StringSpb
     else if tag \<in> {isc_spb_nbk_level, isc_spb_options, isc_spb_nbk_keep_days, isc_spb_nbk_keep_rows}
       then Inr IntSpb
     else if tag \<in> {isc_spb_nbk_clean_history}
       then Inr SingleTpb
     else Inl (invalid_structure ''unknown parameter for nbackup''))"

definition nfix_type :: "uchar \<Rightarrow> clumplet_error + clumplet_type" where
  "nfix_type tag =
     (if tag \<in> {isc_spb_dbname}
       then Inr StringSpb
     else if tag \<in> {isc_spb_options}
       then Inr IntSpb
     else Inl (invalid_structure ''unknown parameter for nbackup''))"

definition trace_type :: "uchar \<Rightarrow> clumplet_error + clumplet_type" where
  "trace_type tag =
     (if tag \<in> {isc_spb_trc_cfg, isc_spb_trc_name, isc_spb_trc_plugins}
       then Inr StringSpb
     else if tag \<in> {isc_spb_trc_id}
       then Inr IntSpb
     else Inl (invalid_structure ''unknown parameter for trace''))"

definition validate_type :: "uchar \<Rightarrow> clumplet_error + clumplet_type" where
  "validate_type tag =
     (if tag \<in> {isc_spb_val_sch_incl, isc_spb_val_sch_excl, isc_spb_val_tab_incl, isc_spb_val_tab_excl,
           isc_spb_val_idx_incl, isc_spb_val_idx_excl, isc_spb_dbname}
       then Inr StringSpb
     else if tag \<in> {isc_spb_val_lock_timeout}
       then Inr IntSpb
     else Inl (invalid_structure ''unknown parameter for validate''))"

definition response_type :: "uchar \<Rightarrow> clumplet_error + clumplet_type" where
  "response_type tag =
     (if tag \<in> {isc_info_svc_version, isc_spb_num_att, isc_spb_num_db, isc_spb_multi_tra_id,
           isc_spb_single_tra_id, isc_spb_tra_id, isc_info_svc_stdin, isc_info_svc_capabilities}
       then Inr IntSpb
     else if tag \<in> {isc_spb_multi_tra_id_64, isc_spb_single_tra_id_64, isc_spb_tra_id_64}
       then Inr BigIntSpb
     else if tag \<in> {isc_info_svc_server_version, isc_info_svc_implementation, isc_info_svc_get_env_msg,
           isc_info_svc_get_env, isc_info_svc_get_env_lock, isc_info_svc_user_dbpath, isc_spb_dbname,
           isc_spb_tra_host_site, isc_spb_tra_remote_site, isc_spb_tra_db_path, isc_info_svc_get_users,
           isc_info_svc_line, isc_info_svc_to_eof}
       then Inr StringSpb
     else if tag \<in> {isc_info_end, isc_info_svc_svr_db_info, isc_info_svc_limbo_trans, isc_info_flag_end,
           isc_info_truncated, isc_info_svc_timeout, isc_info_data_not_ready}
       then Inr SingleTpb
     else if tag \<in> {isc_spb_tra_state, isc_spb_tra_advise}
       then Inr ByteSpb
     else Inl (invalid_structure ''unrecognized service response tag''))"

definition info_type :: "uchar \<Rightarrow> clumplet_error + clumplet_type" where
  "info_type tag =
     (if tag \<in> {isc_info_end, isc_info_truncated, isc_info_flag_end, fb_info_counts_scope_att,
           fb_info_counts_scope_db}
       then Inr SingleTpb
     else Inr StringSpb)"

definition spb_start_type :: "uchar \<Rightarrow> uchar \<Rightarrow> clumplet_error + clumplet_type" where
  "spb_start_type spbState tag =
     (if spbState = 0 then Inr SingleTpb
     else if spbState \<in> {isc_action_svc_backup, isc_action_svc_restore} then backup_type tag
     else if spbState \<in> {isc_action_svc_repair} then repair_type tag
     else if spbState \<in> {isc_action_svc_add_user, isc_action_svc_delete_user, isc_action_svc_modify_user,
           isc_action_svc_display_user, isc_action_svc_display_user_adm, isc_action_svc_set_mapping,
           isc_action_svc_drop_mapping} then security_type tag
     else if spbState \<in> {isc_action_svc_properties} then properties_type tag
     else if spbState \<in> {isc_action_svc_db_stats} then statistics_type tag
     else if spbState = isc_action_svc_get_ib_log then Inl (invalid_structure ''unknown parameter for getting log'')
     else if spbState \<in> {isc_action_svc_nbak, isc_action_svc_nrest} then nbackup_type tag
     else if spbState \<in> {isc_action_svc_nfix} then nfix_type tag
     else if spbState \<in> {isc_action_svc_trace_start, isc_action_svc_trace_stop, isc_action_svc_trace_suspend,
           isc_action_svc_trace_resume} then trace_type tag
     else if spbState \<in> {isc_action_svc_validate} then validate_type tag
     else Inl (invalid_structure ''wrong spb state''))"

definition getClumpletType :: "clumplet_kind \<Rightarrow> uchar \<Rightarrow> uchar \<Rightarrow> clumplet_error + clumplet_type" where
  "getClumpletType kind spbState tag = (case kind of
     Tagged \<Rightarrow> Inr TraditionalDpb
   | UnTagged \<Rightarrow> Inr TraditionalDpb
   | SpbAttach \<Rightarrow> Inr TraditionalDpb
   | WideTagged \<Rightarrow> Inr Wide
   | WideUnTagged \<Rightarrow> Inr Wide
   | Tpb \<Rightarrow> tpb_type tag
   | SpbSendItems \<Rightarrow> send_items_type tag
   | SpbReceiveItems \<Rightarrow> Inr SingleTpb
   | InfoItems \<Rightarrow> Inr SingleTpb
   | SpbStart \<Rightarrow> spb_start_type spbState tag
   | SpbResponse \<Rightarrow> response_type tag
   | InfoResponse \<Rightarrow> info_type tag
   | EndOfList \<Rightarrow> Inl (invalid_structure ''unknown clumplet kind''))"

end
