(* ===== verification/Clumplets.thy ===== *)
theory Clumplets
  imports ClumpletTags
begin

text \<open>
  Reading parameter blocks (\<open>src/common/classes/ClumpletReader.cpp\<close>): sequences of clumplets, each a tag
  with a length and data as the kind of the block demands. Buffers come from clients and may hold anything.
  A method returns a sum, \<open>Inl\<close> the exception it raises.
\<close>

subsection \<open>Readers\<close>

text \<open>The bytes from \<open>static_buffer\<close> to \<open>static_buffer_end\<close>; \<open>None\<close> is a null pointer.\<close>

record clumplet_reader =
  kind :: clumplet_kind
  buffer :: "uchar list option"
  cur_offset :: nat
  spbState :: uchar

definition getBuffer :: "'z clumplet_reader_scheme \<Rightarrow> uchar list" where
  "getBuffer r = (case buffer r of None \<Rightarrow> [] | Some b \<Rightarrow> b)"

definition isTagged :: "clumplet_kind \<Rightarrow> bool" where
  "isTagged k \<longleftrightarrow> k \<in> {Tpb, Tagged, WideTagged, SpbAttach}"

definition getBufferTag :: "'z clumplet_reader_scheme \<Rightarrow> clumplet_error + uchar" where
  "getBufferTag r =
     (if \<not> isTagged (kind r) then Inl (usage_mistake ''buffer is not tagged'')
      else case getBuffer r of
        [] \<Rightarrow> Inl (invalid_structure ''empty buffer'')
      | b # rest \<Rightarrow>
          if kind r = SpbAttach \<and> b = isc_spb_version then
            (case rest of [] \<Rightarrow> Inl (invalid_structure ''buffer too short'') | b' # _ \<Rightarrow> Inr b')
          else Inr b)"

definition getBufferLength :: "'z clumplet_reader_scheme \<Rightarrow> nat" where
  "getBufferLength r = (let rc = length (getBuffer r) in if rc = 1 \<and> isTagged (kind r) then 0 else rc)"

definition isEof :: "'z clumplet_reader_scheme \<Rightarrow> bool" where
  "isEof r \<longleftrightarrow> getBufferLength r \<le> cur_offset r"

definition getClumpTag :: "'z clumplet_reader_scheme \<Rightarrow> clumplet_error + uchar" where
  "getClumpTag r =
     (if length (getBuffer r) \<le> cur_offset r then Inl (usage_mistake ''read past EOF'')
      else Inr (getBuffer r ! cur_offset r))"

text \<open>The size of the length and of the data that a clumplet of a given type says it has.\<close>

definition type_sizes :: "clumplet_type \<Rightarrow> uchar list \<Rightarrow> clumplet_error + nat \<times> nat" where
  "type_sizes t clumplet = (case t of
     Wide \<Rightarrow>
       if length clumplet < 5 then Inl (invalid_structure ''buffer end before end of clumplet - no length component'')
       else Inr (4, ((unat (clumplet ! 4) * 256 + unat (clumplet ! 3)) * 256 + unat (clumplet ! 2)) * 256 + unat (clumplet ! 1))
   | TraditionalDpb \<Rightarrow>
       if length clumplet < 2 then Inl (invalid_structure ''buffer end before end of clumplet - no length component'')
       else Inr (1, unat (clumplet ! 1))
   | SingleTpb \<Rightarrow> Inr (0, 0)
   | StringSpb \<Rightarrow>
       if length clumplet < 3 then Inl (invalid_structure ''buffer end before end of clumplet - no length component'')
       else Inr (2, unat (clumplet ! 2) * 256 + unat (clumplet ! 1))
   | IntSpb \<Rightarrow> Inr (0, 4)
   | BigIntSpb \<Rightarrow> Inr (0, 8)
   | ByteSpb \<Rightarrow> Inr (0, 1))"

definition getClumpletSize :: "bool \<Rightarrow> bool \<Rightarrow> bool \<Rightarrow> 'z clumplet_reader_scheme \<Rightarrow> clumplet_error + nat" where
  "getClumpletSize wTag wLength wData r =
     (let clumplet = drop (cur_offset r) (getBuffer r)
      in if clumplet = [] then Inl (usage_mistake ''read past EOF'')
         else case getClumpletType (kind r) (spbState r) (clumplet ! 0) of
           Inl e \<Rightarrow> Inl e
         | Inr t \<Rightarrow>
             (case type_sizes t clumplet of
                Inl e \<Rightarrow> Inl e
              | Inr (lengthSize, dataSize) \<Rightarrow>
                  if length clumplet < 1 + lengthSize + dataSize
                  then Inl (invalid_structure ''buffer end before end of clumplet - clumplet too long'')
                  else Inr ((if wTag then 1 else 0) + (if wLength then lengthSize else 0) + (if wData then dataSize else 0))))"

definition adjustSpbState :: "'z clumplet_reader_scheme \<Rightarrow> clumplet_error + 'z clumplet_reader_scheme" where
  "adjustSpbState r =
     (if kind r = SpbStart \<and> spbState r = 0 then
        (case getClumpletSize True True True r of
           Inl e \<Rightarrow> Inl e
         | Inr n \<Rightarrow>
             if n = 1 then (case getClumpTag r of Inl e \<Rightarrow> Inl e | Inr t \<Rightarrow> Inr (r\<lparr>spbState := t\<rparr>))
             else Inr r)
      else Inr r)"

definition moveNext :: "'z clumplet_reader_scheme \<Rightarrow> clumplet_error + 'z clumplet_reader_scheme" where
  "moveNext r =
     (if isEof r then Inr r
      else if kind r = InfoResponse \<and> getClumpTag r \<in> {Inr isc_info_end, Inr isc_info_truncated}
      then Inr (r\<lparr>cur_offset := getBufferLength r\<rparr>)
      else case getClumpletSize True True True r of
        Inl e \<Rightarrow> Inl e
      | Inr cs \<Rightarrow>
          (case adjustSpbState r of
             Inl e \<Rightarrow> Inl e
           | Inr r' \<Rightarrow> Inr (r'\<lparr>cur_offset := cur_offset r' + cs\<rparr>)))"

definition rewind :: "'z clumplet_reader_scheme \<Rightarrow> 'z clumplet_reader_scheme" where
  "rewind r = r\<lparr>
     cur_offset :=
       (if buffer r = None \<or> \<not> isTagged (kind r) then 0
        else if kind r = SpbAttach \<and> 0 < getBufferLength r \<and> getBuffer r ! 0 = isc_spb_version then 2
        else 1),
     spbState := 0\<rparr>"

definition new_reader :: "clumplet_kind \<Rightarrow> uchar list option \<Rightarrow> clumplet_reader" where
  "new_reader k b = rewind \<lparr>kind = k, buffer = b, cur_offset = 0, spbState = 0\<rparr>"

text \<open>
  The constructor that takes a list of kinds, tried in turn up to \<open>EndOfList\<close>: the first one whose tag
  is that of the buffer. An empty buffer gets the first kind.
\<close>

type_synonym kind_list = "(clumplet_kind \<times> uchar) list"

definition dpbList :: kind_list where
  "dpbList = [(Tagged, isc_dpb_version1), (WideTagged, isc_dpb_version2)]"

definition spbList :: kind_list where
  "spbList = [(SpbAttach, isc_spb_current_version), (SpbAttach, isc_spb_version1), (WideTagged, isc_spb_version3)]"

fun find_kind :: "kind_list \<Rightarrow> uchar list option \<Rightarrow> clumplet_error + clumplet_kind" where
  "find_kind [] b = Inl (invalid_structure ''Unknown tag value - missing in the list of possible'')"
| "find_kind ((k, tag) # kl) b =
     (case getBufferTag \<lparr>kind = k, buffer = b, cur_offset = 0, spbState = 0\<rparr> of
        Inl e \<Rightarrow> Inl e
      | Inr t \<Rightarrow> if t = tag then Inr k else find_kind kl b)"

definition new_reader_list :: "kind_list \<Rightarrow> uchar list option \<Rightarrow> clumplet_error + clumplet_reader" where
  "new_reader_list kl b =
     (if b = None \<or> b = Some [] then Inr (new_reader (fst (hd kl)) b)
      else case find_kind kl b of Inl e \<Rightarrow> Inl e | Inr k \<Rightarrow> Inr (new_reader k b))"

subsection \<open>The current clumplet\<close>

definition getClumpLength :: "'z clumplet_reader_scheme \<Rightarrow> clumplet_error + nat" where
  "getClumpLength r = getClumpletSize False False True r"

text \<open>A pointer into the buffer: the bytes from there on.\<close>

definition getBytes :: "'z clumplet_reader_scheme \<Rightarrow> clumplet_error + uchar list" where
  "getBytes r = (case getClumpletSize True True False r of Inl e \<Rightarrow> Inl e | Inr n \<Rightarrow> Inr (drop (cur_offset r + n) (getBuffer r)))"

definition getData :: "'z clumplet_reader_scheme \<Rightarrow> clumplet_error + uchar list" where
  "getData r = (case getBytes r of Inl e \<Rightarrow> Inl e
     | Inr p \<Rightarrow> (case getClumpLength r of Inl e \<Rightarrow> Inl e | Inr n \<Rightarrow> Inr (take n p)))"

definition getClumplet :: "'z clumplet_reader_scheme \<Rightarrow> clumplet_error + uchar \<times> uchar list" where
  "getClumplet r = (case getClumpTag r of Inl e \<Rightarrow> Inl e
     | Inr t \<Rightarrow> (case getData r of Inl e \<Rightarrow> Inl e | Inr d \<Rightarrow> Inr (t, d)))"

fun fromVax_loop :: "uchar list \<Rightarrow> nat \<Rightarrow> 64 word \<Rightarrow> 64 word" where
  "fromVax_loop [] shift value = value"
| "fromVax_loop [b] shift value = value + push_bit shift (scast b)"
| "fromVax_loop (b # bs) shift value = fromVax_loop bs (shift + 8) (value + push_bit shift (ucast b))"

definition fromVaxInteger :: "uchar list \<Rightarrow> 64 word" where
  "fromVaxInteger p = (if p = [] \<or> 8 < length p then 0 else fromVax_loop p 0 0)"

definition getInt :: "'z clumplet_reader_scheme \<Rightarrow> clumplet_error + 32 word" where
  "getInt r = (case getData r of Inl e \<Rightarrow> Inl e
     | Inr d \<Rightarrow> if 4 < length d then Inl (invalid_structure ''length of integer exceeds 4 bytes'') else Inr (ucast (fromVaxInteger d)))"

definition getBigInt :: "'z clumplet_reader_scheme \<Rightarrow> clumplet_error + 64 word" where
  "getBigInt r = (case getData r of Inl e \<Rightarrow> Inl e
     | Inr d \<Rightarrow> if 8 < length d then Inl (invalid_structure ''length of BigInt exceeds 8 bytes'') else Inr (fromVaxInteger d))"

definition getTimeStamp :: "'z clumplet_reader_scheme \<Rightarrow> clumplet_error + 32 word \<times> 32 word" where
  "getTimeStamp r = (case getData r of Inl e \<Rightarrow> Inl e
     | Inr d \<Rightarrow>
         if length d \<noteq> 8 then Inl (invalid_structure ''length of ISC_TIMESTAMP must be equal 8 bytes'')
         else Inr (ucast (fromVaxInteger (take 4 d)), ucast (fromVaxInteger (take 4 (drop 4 d)))))"

text \<open>A \<open>double\<close> is the pair of its halves, in the order \<open>FB_LONG_DOUBLE_FIRST\<close>, \<open>FB_LONG_DOUBLE_SECOND\<close>.\<close>

definition getDouble :: "'z clumplet_reader_scheme \<Rightarrow> clumplet_error + 32 word \<times> 32 word" where
  "getDouble r = (case getData r of Inl e \<Rightarrow> Inl e
     | Inr d \<Rightarrow>
         if length d \<noteq> 8 then Inl (invalid_structure ''length of double must be equal 8 bytes'')
         else Inr (ucast (fromVaxInteger (take 4 d)), ucast (fromVaxInteger (take 4 (drop 4 d)))))"

definition getBoolean :: "'z clumplet_reader_scheme \<Rightarrow> clumplet_error + bool" where
  "getBoolean r = (case getData r of Inl e \<Rightarrow> Inl e
     | Inr d \<Rightarrow> if 1 < length d then Inl (invalid_structure ''length of boolean exceeds 1 byte'') else Inr (d \<noteq> [] \<and> d ! 0 \<noteq> 0))"

text \<open>The string ends at its first zero byte; only one may be behind it.\<close>

definition getString :: "'z clumplet_reader_scheme \<Rightarrow> clumplet_error + uchar list" where
  "getString r = (case getData r of Inl e \<Rightarrow> Inl e
     | Inr d \<Rightarrow>
         (let s = takeWhile (\<lambda>b. b \<noteq> 0) d
          in if length s + 1 < length d then Inl (invalid_structure ''string length doesn't match with clumplet'') else Inr s))"

subsection \<open>Scanning\<close>

lemma getBufferLength_cong: "kind r' = kind r \<Longrightarrow> buffer r' = buffer r \<Longrightarrow> getBufferLength r' = getBufferLength r"
  by (simp add: getBufferLength_def getBuffer_def)

lemma getClumpletSize_bounds:
  assumes "getClumpletSize True wLength wData r = Inr n"
  shows "1 \<le> n" "cur_offset r + n \<le> length (getBuffer r)"
  using assms by (auto simp: getClumpletSize_def Let_def split: if_splits sum.splits prod.splits)

lemma adjustSpbState_same: "adjustSpbState r = Inr r' \<Longrightarrow> kind r' = kind r \<and> buffer r' = buffer r \<and> cur_offset r' = cur_offset r"
  by (auto simp: adjustSpbState_def split: if_splits sum.splits)

text \<open>\<open>moveNext\<close> goes forward and never past the end of the buffer.\<close>

lemma moveNext_forward:
  assumes "moveNext r = Inr r'" "\<not> isEof r"
  shows "kind r' = kind r" "buffer r' = buffer r" "cur_offset r < cur_offset r'" "cur_offset r' \<le> length (getBuffer r)"
proof -
  have len: "getBufferLength r \<le> length (getBuffer r)" by (simp add: getBufferLength_def Let_def)
  consider "r' = r\<lparr>cur_offset := getBufferLength r\<rparr>"
    | cs r1 where "getClumpletSize True True True r = Inr cs" "adjustSpbState r = Inr r1" "r' = r1\<lparr>cur_offset := cur_offset r1 + cs\<rparr>"
    using assms by (auto simp: moveNext_def split: if_splits sum.splits)
  then have "kind r' = kind r \<and> buffer r' = buffer r \<and> cur_offset r < cur_offset r' \<and> cur_offset r' \<le> length (getBuffer r)"
  proof cases
    case 1
    then show ?thesis using assms(2) len by (simp add: isEof_def)
  next
    case 2
    then show ?thesis using getClumpletSize_bounds [OF 2(1)] adjustSpbState_same [OF 2(2)] by simp
  qed
  then show "kind r' = kind r" "buffer r' = buffer r" "cur_offset r < cur_offset r'" "cur_offset r' \<le> length (getBuffer r)" by simp_all
qed

text \<open>The loop \<open>for (; !isEof(); moveNext()) if (tag == getClumpTag()) return true;\<close>\<close>

function seek :: "uchar \<Rightarrow> 'z clumplet_reader_scheme \<Rightarrow> clumplet_error + bool \<times> 'z clumplet_reader_scheme" where
  "seek tag r =
     (if isEof r then Inr (False, r)
      else case getClumpTag r of
        Inl e \<Rightarrow> Inl e
      | Inr t \<Rightarrow>
          if t = tag then Inr (True, r)
          else case moveNext r of Inl e \<Rightarrow> Inl e | Inr r' \<Rightarrow> seek tag r')"
  by pat_completeness auto
termination
proof (relation "measure (\<lambda>(tag, r). getBufferLength r - cur_offset r)", goal_cases)
  case (2 tag r t r')
  have "getBufferLength r' = getBufferLength r"
    using moveNext_forward [OF 2(4,1)] by (intro getBufferLength_cong) simp_all
  then show ?case using moveNext_forward(3) [OF 2(4,1)] 2(1) by (simp add: isEof_def)
qed simp

declare seek.simps [simp del]

definition find_tag :: "uchar \<Rightarrow> 'z clumplet_reader_scheme \<Rightarrow> clumplet_error + bool \<times> 'z clumplet_reader_scheme" where
  "find_tag tag r = (case seek tag (rewind r) of
     Inl e \<Rightarrow> Inl e
   | Inr (b, r') \<Rightarrow> Inr (b, if b then r' else r'\<lparr>cur_offset := cur_offset r\<rparr>))"

definition next_clump :: "uchar \<Rightarrow> 'z clumplet_reader_scheme \<Rightarrow> clumplet_error + bool \<times> 'z clumplet_reader_scheme" where
  "next_clump tag r =
     (if isEof r then Inr (False, r)
      else case getClumpTag r of
        Inl e \<Rightarrow> Inl e
      | Inr t \<Rightarrow>
          (case (if t = tag then moveNext r else Inr r) of
             Inl e \<Rightarrow> Inl e
           | Inr r1 \<Rightarrow>
               (case seek tag r1 of
                  Inl e \<Rightarrow> Inl e
                | Inr (b, r') \<Rightarrow> Inr (b, if b then r' else r'\<lparr>cur_offset := cur_offset r\<rparr>))))"

text \<open>The loop \<open>for (rewind(); !isEof(); moveNext())\<close> that collects what it sees, as in \<open>AuthReader::getInfo\<close>.\<close>

function read_from :: "'z clumplet_reader_scheme \<Rightarrow> clumplet_error + (uchar \<times> uchar list) list" where
  "read_from r =
     (if isEof r then Inr []
      else case getClumplet r of
        Inl e \<Rightarrow> Inl e
      | Inr c \<Rightarrow>
          (case moveNext r of
             Inl e \<Rightarrow> Inl e
           | Inr r' \<Rightarrow> (case read_from r' of Inl e \<Rightarrow> Inl e | Inr cs \<Rightarrow> Inr (c # cs))))"
  by pat_completeness auto
termination
proof (relation "measure (\<lambda>r. getBufferLength r - cur_offset r)", goal_cases)
  case (2 r c r')
  have "getBufferLength r' = getBufferLength r"
    using moveNext_forward [OF 2(3,1)] by (intro getBufferLength_cong) simp_all
  then show ?case using moveNext_forward(3) [OF 2(3,1)] 2(1) by (simp add: isEof_def)
qed simp

declare read_from.simps [simp del]

definition read_all :: "'z clumplet_reader_scheme \<Rightarrow> clumplet_error + (uchar \<times> uchar list) list" where
  "read_all r = read_from (rewind r)"

subsection \<open>Authentication blocks\<close>

record auth_info =
  auth_type :: "uchar list"
  auth_name :: "uchar list"
  auth_plugin :: "uchar list"
  auth_secDb :: "uchar list"
  auth_origPlug :: "uchar list"

text \<open>\<open>AUTH_NAME\<close> is 1, \<open>AUTH_PLUGIN\<close> 2, \<open>AUTH_TYPE\<close> 3, \<open>AUTH_SECURE_DB\<close> 4 and \<open>AUTH_ORIG_PLUG\<close> 5.\<close>

definition set_info :: "uchar \<times> uchar list \<Rightarrow> auth_info \<Rightarrow> auth_info" where
  "set_info c info = (case c of (tag, d) \<Rightarrow>
     if tag = 3 then info\<lparr>auth_type := d\<rparr>
     else if tag = 1 then info\<lparr>auth_name := d\<rparr>
     else if tag = 2 then info\<lparr>auth_plugin := d\<rparr>
     else if tag = 4 then info\<lparr>auth_secDb := d\<rparr>
     else if tag = 5 then info\<lparr>auth_origPlug := d\<rparr>
     else info)"

text \<open>\<open>None\<close> for the answer \<open>false\<close>.\<close>

definition getInfo :: "'z clumplet_reader_scheme \<Rightarrow> clumplet_error + auth_info option" where
  "getInfo r =
     (if isEof r then Inr None
      else case getData r of
        Inl e \<Rightarrow> Inl e
      | Inr d \<Rightarrow>
          (case read_all (new_reader WideUnTagged (Some d)) of
             Inl e \<Rightarrow> Inl e
           | Inr cs \<Rightarrow> Inr (Some (fold set_info cs
               \<lparr>auth_type = [], auth_name = [], auth_plugin = [], auth_secDb = [], auth_origPlug = []\<rparr>))))"

end
