(* ===== verification/ClumpletWriter.thy ===== *)
theory ClumpletWriter
  imports Clumplets
begin

text \<open>
  Writing parameter blocks (\<open>src/common/classes/ClumpletWriter.cpp\<close>): a reader on a buffer of its own,
  that can insert and delete clumplets at the current position, within a limit of its size, and goes over to
  the newest version of the block when a clumplet does not fit into an older one.
\<close>

subsection \<open>Writers\<close>

text \<open>\<open>dynamic_buffer\<close> takes the place of the buffer of the reader. \<open>kindList\<close> may be null.\<close>

record clumplet_writer = clumplet_reader +
  sizeLimit :: nat
  kindList :: "kind_list option"
  flag_overflow :: bool

definition initNewBuffer :: "clumplet_kind \<Rightarrow> uchar \<Rightarrow> uchar list" where
  "initNewBuffer k tag =
     (if k = SpbAttach then (if tag = isc_spb_version then [isc_spb_version] else []) @ [tag]
      else if k \<in> {Tagged, Tpb, WideTagged} then [tag]
      else [])"

definition make_writer :: "clumplet_kind \<Rightarrow> nat \<Rightarrow> kind_list option \<Rightarrow> uchar list \<Rightarrow> clumplet_writer" where
  "make_writer k limit kl b =
     rewind \<lparr>kind = k, buffer = Some b, cur_offset = 0, spbState = 0, sizeLimit = limit, kindList = kl, flag_overflow = False\<rparr>"

definition new_writer :: "clumplet_kind \<Rightarrow> nat \<Rightarrow> uchar \<Rightarrow> clumplet_writer" where
  "new_writer k limit tag = make_writer k limit None (initNewBuffer k tag)"

definition create :: "clumplet_kind \<Rightarrow> nat \<Rightarrow> kind_list option \<Rightarrow> uchar list option \<Rightarrow> uchar \<Rightarrow> clumplet_writer" where
  "create k limit kl b tag = (case b of
     Some (x # xs) \<Rightarrow> make_writer k limit kl (x # xs)
   | _ \<Rightarrow> make_writer k limit kl (initNewBuffer k tag))"

definition new_writer_list :: "kind_list \<Rightarrow> nat \<Rightarrow> uchar list option \<Rightarrow> clumplet_error + clumplet_writer" where
  "new_writer_list kl limit b = (case new_reader_list kl b of
     Inl e \<Rightarrow> Inl e
   | Inr r \<Rightarrow> Inr (create (kind r) limit (Some kl) b (snd (hd kl))))"

text \<open>\<open>reset\<close> with a tag, which has to be in the list of kinds if there is one.\<close>

definition reset_tag :: "uchar \<Rightarrow> clumplet_writer \<Rightarrow> clumplet_error + clumplet_writer" where
  "reset_tag tag w = (case kindList w of
     None \<Rightarrow> Inr (rewind (w\<lparr>buffer := Some (initNewBuffer (kind w) tag)\<rparr>))
   | Some kl \<Rightarrow>
       (case filter (\<lambda>(k, t). t = tag) kl of
          [] \<Rightarrow> Inl (invalid_structure ''Unknown tag value - missing in the list of possible'')
        | (k, t) # _ \<Rightarrow> Inr (rewind (w\<lparr>kind := k, buffer := Some (initNewBuffer k tag)\<rparr>))))"

definition reset_buffer :: "uchar list option \<Rightarrow> clumplet_writer \<Rightarrow> clumplet_error + clumplet_writer" where
  "reset_buffer b w =
     (case (if isTagged (kind w) then getBufferTag w else Inr 0) of
        Inl e \<Rightarrow> Inl e
      | Inr tag \<Rightarrow> Inr (rewind (w\<lparr>buffer := Some (case b of Some (x # xs) \<Rightarrow> x # xs | _ \<Rightarrow> initNewBuffer (kind w) tag)\<rparr>)))"

definition clear :: "clumplet_writer \<Rightarrow> clumplet_error + clumplet_writer" where
  "clear w = (case (if isTagged (kind w) then getBufferTag w else Inr 0) of Inl e \<Rightarrow> Inl e | Inr tag \<Rightarrow> reset_tag tag w)"

subsection \<open>Insertion\<close>

fun toVax_loop :: "nat \<Rightarrow> nat \<Rightarrow> 64 word \<Rightarrow> uchar list" where
  "toVax_loop 0 shift value = []"
| "toVax_loop (Suc n) shift value = ucast (signed_drop_bit shift value) # toVax_loop n (shift + 8) value"

definition toVaxInteger :: "nat \<Rightarrow> 64 word \<Rightarrow> uchar list" where
  "toVaxInteger n value = toVax_loop n 0 value"

text \<open>The size of the length, or the message why the data does not fit.\<close>

definition check_length :: "clumplet_type \<Rightarrow> nat \<Rightarrow> string + nat" where
  "check_length t n = (case t of
     Wide \<Rightarrow> if 2 ^ 32 - 1 < n then Inl ''attempt to store bytes in a clumplet'' else Inr 4
   | TraditionalDpb \<Rightarrow> if 255 < n then Inl ''attempt to store bytes in a clumplet with maximum size 255 bytes'' else Inr 1
   | SingleTpb \<Rightarrow> if 0 < n then Inl ''attempt to store data in dataless clumplet'' else Inr 0
   | StringSpb \<Rightarrow> if 65535 < n then Inl ''attempt to store bytes in a clumplet'' else Inr 2
   | IntSpb \<Rightarrow> if n \<noteq> 4 then Inl ''attempt to store bytes in a clumplet, need 4'' else Inr 0
   | BigIntSpb \<Rightarrow> if n \<noteq> 8 then Inl ''attempt to store bytes in a clumplet, need 8'' else Inr 0
   | ByteSpb \<Rightarrow> if n \<noteq> 1 then Inl ''attempt to store bytes in a clumplet, need 1'' else Inr 0)"

text \<open>The second half of \<open>insertBytesLengthCheck\<close>; the sum of the sizes is one of 32 bits.\<close>

definition store :: "uchar \<Rightarrow> uchar list \<Rightarrow> nat \<Rightarrow> clumplet_writer \<Rightarrow> clumplet_error + clumplet_writer" where
  "store tag bytes lenSize w =
     (let b = getBuffer w; c = cur_offset w; inserted = tag # toVaxInteger lenSize (of_nat (length bytes)) @ bytes
      in if sizeLimit w < (length b + length bytes + lenSize + 1) mod 2 ^ 32 then Inl size_overflow
         else case adjustSpbState (w\<lparr>flag_overflow := False, buffer := Some (take c b @ inserted @ drop c b)\<rparr>) of
           Inl e \<Rightarrow> Inl e
         | Inr w' \<Rightarrow> Inr (w'\<lparr>cur_offset := c + length inserted\<rparr>))"

text \<open>
  The loop that upgrades the block until the data fits, with \<open>n\<close> turns to go. \<open>upgrade\<close> is
  \<open>upgradeVersion\<close>, whose answer and whose effect it uses.
\<close>

fun insert_loop :: "(clumplet_writer \<Rightarrow> clumplet_error + bool \<times> clumplet_writer) \<Rightarrow> nat \<Rightarrow> uchar \<Rightarrow> uchar list \<Rightarrow>
    clumplet_writer \<Rightarrow> clumplet_error + clumplet_writer" where
  "insert_loop upgrade 0 tag bytes w = Inl fuel_exhausted"
| "insert_loop upgrade (Suc n) tag bytes w =
     (case getClumpletType (kind w) (spbState w) tag of
        Inl e \<Rightarrow> Inl e
      | Inr t \<Rightarrow>
          (case check_length t (length bytes) of
             Inr lenSize \<Rightarrow> store tag bytes lenSize w
           | Inl m \<Rightarrow>
               (case upgrade w of
                  Inl e \<Rightarrow> Inl e
                | Inr (upgraded, w') \<Rightarrow> if upgraded then insert_loop upgrade n tag bytes w' else Inl (usage_mistake m))))"

definition insert_checked :: "(clumplet_writer \<Rightarrow> clumplet_error + bool \<times> clumplet_writer) \<Rightarrow> uchar \<Rightarrow> uchar list \<Rightarrow>
    clumplet_writer \<Rightarrow> clumplet_error + clumplet_writer" where
  "insert_checked upgrade tag bytes w =
     (if length (getBuffer w) < cur_offset w then Inl (usage_mistake ''write past EOF'')
      else insert_loop upgrade 2 tag bytes w)"

text \<open>Insertion into a writer without a list of kinds, which is never upgraded.\<close>

definition insert_plain :: "uchar \<Rightarrow> uchar list \<Rightarrow> clumplet_writer \<Rightarrow> clumplet_error + clumplet_writer" where
  "insert_plain = insert_checked (\<lambda>w. Inr (False, w))"

text \<open>The loop of \<open>upgradeVersion\<close>: \<open>w\<close> is read, \<open>new\<close> written; the answer has the position in it.\<close>

function copy_clumplets :: "nat \<Rightarrow> clumplet_writer \<Rightarrow> clumplet_writer \<Rightarrow> nat \<Rightarrow> clumplet_error + clumplet_writer \<times> nat" where
  "copy_clumplets currentPosition w new newPos =
     (if isEof w then Inr (new, newPos)
      else case getClumplet w of
        Inl e \<Rightarrow> Inl e
      | Inr (t, d) \<Rightarrow>
          (case insert_plain t d new of
             Inl e \<Rightarrow> Inl e
           | Inr new1 \<Rightarrow>
               (case moveNext new1 of
                  Inl e \<Rightarrow> Inl e
                | Inr new2 \<Rightarrow>
                    (case moveNext w of
                       Inl e \<Rightarrow> Inl e
                     | Inr w' \<Rightarrow> copy_clumplets currentPosition w' new2
                         (if currentPosition = cur_offset w then cur_offset new else newPos)))))"
  by pat_completeness auto
termination
proof (relation "measure (\<lambda>(p, w, new, q). getBufferLength w - cur_offset w)", goal_cases)
  case (2 p w new q c t d new1 new2 w')
  have "getBufferLength w' = getBufferLength w"
    using moveNext_forward [OF 2(6,1)] by (intro getBufferLength_cong) simp_all
  then show ?case using moveNext_forward(3) [OF 2(6,1)] 2(1) by (simp add: isEof_def)
qed simp

declare copy_clumplets.simps [simp del]

text \<open>The highest version of a list.\<close>

definition newest :: "kind_list \<Rightarrow> clumplet_kind \<times> uchar" where
  "newest kl = fold (\<lambda>itr new. if snd new < snd itr then itr else new) kl (hd kl)"

definition upgradeVersion :: "clumplet_writer \<Rightarrow> clumplet_error + bool \<times> clumplet_writer" where
  "upgradeVersion w = (case kindList w of
     None \<Rightarrow> Inr (False, w)
   | Some kl \<Rightarrow>
       let (k, tag) = newest kl
       in case (if getBufferLength w \<noteq> 0 then map_sum id (\<lambda>t. tag \<le> t) (getBufferTag w) else Inr False) of
            Inl e \<Rightarrow> Inl e
          | Inr True \<Rightarrow> Inr (False, w)
          | Inr False \<Rightarrow>
              (case copy_clumplets (cur_offset w) (rewind w) (new_writer k (sizeLimit w) tag) 0 of
                 Inl e \<Rightarrow> Inl e
               | Inr (new, newPos) \<Rightarrow>
                   let w' = (rewind w)\<lparr>kind := k, buffer := Some (getBuffer new)\<rparr>
                   in Inr (True, if newPos \<noteq> 0 then w'\<lparr>cur_offset := newPos\<rparr> else rewind w')))"

definition insertBytes :: "uchar \<Rightarrow> uchar list \<Rightarrow> clumplet_writer \<Rightarrow> clumplet_error + clumplet_writer" where
  "insertBytes = insert_checked upgradeVersion"

definition insertInt :: "uchar \<Rightarrow> 32 word \<Rightarrow> clumplet_writer \<Rightarrow> clumplet_error + clumplet_writer" where
  "insertInt tag v = insertBytes tag (toVaxInteger 4 (scast v))"

definition insertBigInt :: "uchar \<Rightarrow> 64 word \<Rightarrow> clumplet_writer \<Rightarrow> clumplet_error + clumplet_writer" where
  "insertBigInt tag v = insertBytes tag (toVaxInteger 8 v)"

text \<open>\<open>timestamp_date\<close> is signed, \<open>timestamp_time\<close> is not.\<close>

definition insertTimeStamp :: "uchar \<Rightarrow> 32 word \<times> 32 word \<Rightarrow> clumplet_writer \<Rightarrow> clumplet_error + clumplet_writer" where
  "insertTimeStamp tag ts = insertBytes tag (toVaxInteger 4 (scast (fst ts)) @ toVaxInteger 4 (ucast (snd ts)))"

definition insertDouble :: "uchar \<Rightarrow> 32 word \<times> 32 word \<Rightarrow> clumplet_writer \<Rightarrow> clumplet_error + clumplet_writer" where
  "insertDouble tag x = insertBytes tag (toVaxInteger 4 (scast (fst x)) @ toVaxInteger 4 (scast (snd x)))"

definition insertByte :: "uchar \<Rightarrow> uchar \<Rightarrow> clumplet_writer \<Rightarrow> clumplet_error + clumplet_writer" where
  "insertByte tag b = insertBytes tag [b]"

definition insertTag :: "uchar \<Rightarrow> clumplet_writer \<Rightarrow> clumplet_error + clumplet_writer" where
  "insertTag tag = insertBytes tag []"

text \<open>The end marker goes to the current position, which is then past the end.\<close>

definition insertEndMarker :: "uchar \<Rightarrow> clumplet_writer \<Rightarrow> clumplet_error + clumplet_writer" where
  "insertEndMarker tag w =
     (let b = getBuffer w; c = cur_offset w
      in if length b < c then Inl (usage_mistake ''write past EOF'')
         else if sizeLimit w < (c + 1) mod 2 ^ 32 then Inl size_overflow
         else Inr (w\<lparr>flag_overflow := False, buffer := Some (take c b @ [tag]), cur_offset := c + 2\<rparr>))"

subsection \<open>Deletion\<close>

definition deleteClumplet :: "clumplet_writer \<Rightarrow> clumplet_error + clumplet_writer" where
  "deleteClumplet w =
     (let b = getBuffer w; c = cur_offset w
      in if length b \<le> c then Inl (usage_mistake ''write past EOF'')
         else if length b - c < 2 then Inr (w\<lparr>buffer := Some (take c b)\<rparr>)
         else case getClumpletSize True True True w of
           Inl e \<Rightarrow> Inl e
         | Inr n \<Rightarrow> Inr (w\<lparr>buffer := Some (take c b @ drop (c + n) b)\<rparr>))"

lemma deleteClumplet_shorter:
  "deleteClumplet w = Inr w' \<Longrightarrow> length (getBuffer w') < length (getBuffer w)"
  using getClumpletSize_bounds [of True True w]
  by (auto simp: deleteClumplet_def Let_def getBuffer_def split: if_splits sum.splits option.splits)

lemma seek_same: "seek tag r = Inr (b, r') \<Longrightarrow> kind r' = kind r \<and> buffer r' = buffer r"
proof (induction tag r rule: seek.induct)
  case (1 tag r)
  show ?case
  proof (cases "isEof r \<or> getClumpTag r = Inr tag")
    case True
    then show ?thesis using "1.prems" by (subst (asm) seek.simps) (auto split: if_splits sum.splits)
  next
    case False
    then obtain t r1 where t: "getClumpTag r = Inr t" "t \<noteq> tag" "moveNext r = Inr r1" "seek tag r1 = Inr (b, r')"
      using "1.prems" by (subst (asm) seek.simps) (auto split: if_splits sum.splits)
    then show ?thesis using "1.IH" [OF _ t(1,2,3,4)] moveNext_forward(1,2) [OF t(3)] False by simp
  qed
qed

lemma find_tag_same: "find_tag tag r = Inr (b, r') \<Longrightarrow> kind r' = kind r \<and> buffer r' = buffer r"
  by (auto simp: find_tag_def rewind_def split: sum.splits dest!: seek_same)

function deleteWithTag :: "uchar \<Rightarrow> clumplet_writer \<Rightarrow> clumplet_error + bool \<times> clumplet_writer" where
  "deleteWithTag tag w =
     (case find_tag tag w of
        Inl e \<Rightarrow> Inl e
      | Inr (found, w1) \<Rightarrow>
          if \<not> found then Inr (False, w1)
          else case deleteClumplet w1 of
            Inl e \<Rightarrow> Inl e
          | Inr w2 \<Rightarrow> map_sum id (\<lambda>(rc, w3). (True, w3)) (deleteWithTag tag w2))"
  by pat_completeness auto
termination
proof (relation "measure (\<lambda>(tag, w). length (getBuffer w))", goal_cases)
  case (2 tag w r found w1 w2)
  have "getBuffer w1 = getBuffer w" using find_tag_same [of tag w found w1] 2 by (simp add: getBuffer_def)
  then show ?case using deleteClumplet_shorter [of w1 w2] 2 by simp
qed simp

declare deleteWithTag.simps [simp del]

end
