(* ===== verification/ClumpletBytes.thy ===== *)
theory ClumpletBytes
  imports ClumpletWriter
begin

text \<open>
  Clumplets and their bytes: the little-endian integers of parameter blocks, the bytes of a clumplet of each
  type, and that the reader finds a clumplet exactly where its bytes are.
\<close>

subsection \<open>Integers\<close>

lemma toVax_byte: "s \<le> 56 \<Longrightarrow> (ucast (signed_drop_bit s (v :: 64 word)) :: uchar) = ucast (drop_bit s v)"
  by (rule bit_word_eqI) (auto simp: bit_simps)

lemma length_toVax_loop [simp]: "length (toVax_loop n s v) = n"
  by (induction n arbitrary: s) simp_all

lemma length_toVaxInteger [simp]: "length (toVaxInteger n v) = n"
  by (simp add: toVaxInteger_def)

lemma join_byte:
  fixes v :: "64 word"
  assumes "s \<le> 56"
  shows "take_bit s v + push_bit s (ucast (ucast (signed_drop_bit s v) :: uchar)) = take_bit (s + 8) v"
proof -
  have "take_bit s v AND push_bit s (ucast (ucast (signed_drop_bit s v) :: uchar)) = 0"
    by (rule bit_word_eqI) (auto simp: bit_simps)
  then have "take_bit s v + push_bit s (ucast (ucast (signed_drop_bit s v) :: uchar)) =
      take_bit s v OR push_bit s (ucast (ucast (signed_drop_bit s v) :: uchar))"
    by (rule disjunctive_add_eq_or)
  also have "\<dots> = take_bit (s + 8) v"
    using assms by (intro bit_word_eqI) (auto simp: toVax_byte bit_simps)
  finally show ?thesis .
qed

lemma join_last_byte:
  fixes v :: "64 word"
  assumes "s \<le> 56"
  shows "take_bit s v + push_bit s (scast (ucast (signed_drop_bit s v) :: uchar)) = signed_take_bit (s + 7) v"
proof -
  have "take_bit s v AND push_bit s (scast (ucast (signed_drop_bit s v) :: uchar)) = 0"
    by (rule bit_word_eqI) (auto simp: bit_simps)
  then have "take_bit s v + push_bit s (scast (ucast (signed_drop_bit s v) :: uchar)) =
      take_bit s v OR push_bit s (scast (ucast (signed_drop_bit s v) :: uchar))"
    by (rule disjunctive_add_eq_or)
  also have "\<dots> = signed_take_bit (s + 7) v"
    using assms by (intro bit_word_eqI) (auto simp: toVax_byte bit_simps min_def, metis le_add_diff_inverse not_le_imp_less)
  finally show ?thesis .
qed

lemma fromVax_loop_Cons: "bs \<noteq> [] \<Longrightarrow> fromVax_loop (b # bs) s v = fromVax_loop bs (s + 8) (v + push_bit s (ucast b))"
  by (cases bs) simp_all

lemma fromVax_toVax_loop:
  "0 < n \<Longrightarrow> s + 8 * n \<le> 64 \<Longrightarrow> fromVax_loop (toVax_loop n s v) s (take_bit s v) = signed_take_bit (s + 8 * n - 1) v"
proof (induction n arbitrary: s)
  case (Suc n)
  show ?case
  proof (cases "n = 0")
    case True
    then show ?thesis using join_last_byte [of s v] Suc.prems by (simp add: add.commute)
  next
    case False
    then have "toVax_loop n (s + 8) v \<noteq> []" by (metis length_toVax_loop list.size(3))
    then have "fromVax_loop (toVax_loop (Suc n) s v) s (take_bit s v) = fromVax_loop (toVax_loop n (s + 8) v) (s + 8) (take_bit (s + 8) v)"
      using join_byte [of s v] Suc.prems False by (simp add: fromVax_loop_Cons)
    also have "\<dots> = signed_take_bit (s + 8 + 8 * n - 1) v" using Suc.IH [of "s + 8"] False Suc.prems by simp
    finally show ?thesis by (simp add: algebra_simps)
  qed
qed simp

lemma fromVax_toVax:
  assumes "0 < n" "n \<le> 8"
  shows "fromVaxInteger (toVaxInteger n v) = signed_take_bit (8 * n - 1) v"
proof -
  have "toVax_loop n 0 v \<noteq> []" using assms by (metis length_toVax_loop list.size(3) less_irrefl)
  then show ?thesis using fromVax_toVax_loop [of n 0 v] assms by (simp add: fromVaxInteger_def toVaxInteger_def)
qed

text \<open>The length bytes, read as the reader does.\<close>

lemma unat_toVax_byte:
  assumes "s \<le> 56"
  shows "unat (ucast (signed_drop_bit s (of_nat n :: 64 word)) :: uchar) = n div 2 ^ s mod 256"
proof -
  have "unat (ucast (drop_bit s (of_nat n :: 64 word)) :: uchar) = take_bit 8 (drop_bit s (take_bit 64 n))"
    by (simp add: unsigned_ucast_eq unsigned_drop_bit_eq unsigned_of_nat)
  also have "\<dots> = take_bit 8 (drop_bit s n)"
    using assms by (intro bit_eqI) (auto simp: bit_simps)
  finally show ?thesis using assms by (simp add: toVax_byte take_bit_eq_mod drop_bit_eq_div)
qed

subsection \<open>Clumplets as bytes\<close>

definition len_size :: "clumplet_type \<Rightarrow> nat" where
  "len_size t = (case t of Wide \<Rightarrow> 4 | TraditionalDpb \<Rightarrow> 1 | StringSpb \<Rightarrow> 2 | _ \<Rightarrow> 0)"

text \<open>The kinds in which the type of a clumplet depends on its tag alone, and every clumplet counts.\<close>

definition plain_kind :: "clumplet_kind \<Rightarrow> bool" where
  "plain_kind k \<longleftrightarrow> k \<notin> {EndOfList, SpbStart, InfoResponse}"

definition clump_type :: "clumplet_kind \<Rightarrow> uchar \<Rightarrow> clumplet_error + clumplet_type" where
  "clump_type k tag = getClumpletType k 0 tag"

text \<open>Data that a clumplet with the tag can have, and its bytes.\<close>

definition fits :: "clumplet_kind \<Rightarrow> uchar \<times> uchar list \<Rightarrow> bool" where
  "fits k c \<longleftrightarrow> (\<exists>t. clump_type k (fst c) = Inr t \<and> check_length t (length (snd c)) = Inr (len_size t))"

definition bytes_of :: "clumplet_kind \<Rightarrow> uchar \<times> uchar list \<Rightarrow> uchar list" where
  "bytes_of k c = (case clump_type k (fst c) of
     Inl e \<Rightarrow> []
   | Inr t \<Rightarrow> fst c # toVaxInteger (len_size t) (of_nat (length (snd c))) @ snd c)"

abbreviation all_bytes :: "clumplet_kind \<Rightarrow> (uchar \<times> uchar list) list \<Rightarrow> uchar list" where
  "all_bytes k cs \<equiv> concat (map (bytes_of k) cs)"

lemma type_indep: "k \<noteq> SpbStart \<Longrightarrow> getClumpletType k s tag = clump_type k tag"
  by (cases k) (simp_all add: getClumpletType_def clump_type_def)

lemma check_length_Inr: "check_length t n = Inr ls \<Longrightarrow> ls = len_size t"
  by (cases t) (auto simp: check_length_def len_size_def split: if_splits)

lemma fits_iff: "clump_type k tag = Inr t \<Longrightarrow> fits k (tag, d) \<longleftrightarrow> check_length t (length d) = Inr (len_size t)"
  by (simp add: fits_def)

lemma long_length:
  fixes n :: nat
  assumes "n < 4294967296"
  shows "((n div 16777216 mod 256 * 256 + n div 65536 mod 256) * 256 + n div 256 mod 256) * 256 + n mod 256 = n"
proof -
  have d: "n div 256 div 256 = n div 65536" "n div 65536 div 256 = n div 16777216" by (simp_all flip: div_mult2_eq)
  have "n div 16777216 < 256" using assms by (simp add: div_less_iff_less_mult)
  then show ?thesis
    using div_mult_mod_eq [of "n div 65536" 256] div_mult_mod_eq [of "n div 256" 256] div_mult_mod_eq [of n 256]
    by (simp add: d)
qed

lemma toVax_1: "toVaxInteger 1 v = [ucast (signed_drop_bit 0 v)]"
  by (simp add: toVaxInteger_def)

lemma toVax_2: "toVaxInteger 2 v = [ucast (signed_drop_bit 0 v), ucast (signed_drop_bit 8 v)]"
proof -
  have "(2::nat) = Suc (Suc 0)" by simp
  then show ?thesis unfolding toVaxInteger_def by (simp only: toVax_loop.simps) simp
qed

lemma toVax_4: "toVaxInteger 4 v =
    [ucast (signed_drop_bit 0 v), ucast (signed_drop_bit 8 v), ucast (signed_drop_bit 16 v), ucast (signed_drop_bit 24 v)]"
proof -
  have "(4::nat) = Suc (Suc (Suc (Suc 0)))" by simp
  then show ?thesis unfolding toVaxInteger_def by (simp only: toVax_loop.simps) simp
qed

lemma type_sizes_bytes:
  assumes "check_length t (length d) = Inr (len_size t)"
  shows "type_sizes t (tag # toVaxInteger (len_size t) (of_nat (length d)) @ d @ r) = Inr (len_size t, length d)"
proof -
  have b: "unat (ucast (signed_drop_bit 0 (of_nat n :: 64 word)) :: uchar) = n mod 256"
    "unat (ucast (signed_drop_bit 8 (of_nat n :: 64 word)) :: uchar) = n div 256 mod 256"
    "unat (ucast (signed_drop_bit 16 (of_nat n :: 64 word)) :: uchar) = n div 65536 mod 256"
    "unat (ucast (signed_drop_bit 24 (of_nat n :: 64 word)) :: uchar) = n div 16777216 mod 256" for n
    using unat_toVax_byte [of 0 n] unat_toVax_byte [of 8 n] unat_toVax_byte [of 16 n] unat_toVax_byte [of 24 n] by simp_all
  show ?thesis
  proof (cases t)
    case Wide
    then have len: "length d < 4294967296" using assms by (simp add: check_length_def split: if_splits)
    have ls: "len_size t = 4" using Wide by (simp add: len_size_def)
    have "length d div 16777216 mod 256 = length d div 16777216" using len by (simp add: div_less_iff_less_mult)
    then show ?thesis using long_length [OF len] Wide unfolding ls toVax_4 by (simp add: type_sizes_def b del: signed_drop_bit_0)
  next
    case TraditionalDpb
    then have "length d < 256" using assms by (simp add: check_length_def split: if_splits)
    moreover have ls: "len_size t = 1" using TraditionalDpb by (simp add: len_size_def)
    ultimately show ?thesis using TraditionalDpb unfolding ls toVax_1 by (simp add: type_sizes_def b del: signed_drop_bit_0)
  next
    case StringSpb
    then have len: "length d < 65536" using assms by (simp add: check_length_def split: if_splits)
    then have "length d div 256 mod 256 * 256 + length d mod 256 = length d"
      using div_mult_mod_eq [of "length d" 256] by (simp add: div_less_iff_less_mult)
    moreover have ls: "len_size t = 2" using StringSpb by (simp add: len_size_def)
    ultimately show ?thesis using StringSpb unfolding ls toVax_2 by (simp add: type_sizes_def b del: signed_drop_bit_0)
  qed (use assms in \<open>auto simp: type_sizes_def len_size_def check_length_def toVaxInteger_def split: if_splits\<close>)
qed

text \<open>A reader that stands on the bytes of a clumplet reads it; and what it reads has those bytes.\<close>

lemma read_clumplet:
  assumes "plain_kind (kind r)" "fits (kind r) c" "drop (cur_offset r) (getBuffer r) = bytes_of (kind r) c @ rest"
  shows "getClumplet r = Inr c"
    "getClumpletSize True True True r = Inr (length (bytes_of (kind r) c))"
proof -
  obtain tag d where c: "c = (tag, d)" by (cases c)
  obtain t where t: "clump_type (kind r) tag = Inr t" "check_length t (length d) = Inr (len_size t)"
    using assms(2) by (auto simp: fits_def c)
  have b: "bytes_of (kind r) c = tag # toVaxInteger (len_size t) (of_nat (length d)) @ d" using t(1) by (simp add: bytes_of_def c)
  have dr: "drop (cur_offset r) (getBuffer r) = tag # toVaxInteger (len_size t) (of_nat (length d)) @ d @ rest"
    using assms(3) b by simp
  have cur: "cur_offset r < length (getBuffer r)" using dr by (metis drop_all list.distinct(1) not_le)
  have tag: "getBuffer r ! cur_offset r = tag" using dr cur by (metis hd_drop_conv_nth list.sel(1))
  have "kind r \<noteq> SpbStart" using assms(1) by (simp add: plain_kind_def)
  then have ty: "getClumpletType (kind r) (spbState r) tag = Inr t" using t(1) type_indep by simp
  have size: "getClumpletSize wT wL wD r =
      Inr ((if wT then 1 else 0) + (if wL then len_size t else 0) + (if wD then length d else 0))" for wT wL wD
    by (simp add: getClumpletSize_def Let_def dr ty type_sizes_bytes [OF t(2)])
  show "getClumpletSize True True True r = Inr (length (bytes_of (kind r) c))" by (simp add: size b)
  have "drop (cur_offset r + (1 + len_size t)) (getBuffer r) = drop (1 + len_size t) (drop (cur_offset r) (getBuffer r))"
    by (simp add: add.commute)
  then have "drop (cur_offset r + (1 + len_size t)) (getBuffer r) = d @ rest" by (simp add: dr)
  then show "getClumplet r = Inr c"
    using cur tag by (simp add: getClumplet_def getClumpTag_def getData_def getBytes_def getClumpLength_def size c)
qed

lemma type_sizes_conv:
  assumes "type_sizes t clumplet = Inr (ls, ds)" "1 + ls + ds \<le> length clumplet"
  shows "ls = len_size t" "check_length t ds = Inr (len_size t)" "take ls (tl clumplet) = toVaxInteger ls (of_nat ds)"
proof -
  have b: "unat (ucast (signed_drop_bit 0 (of_nat n :: 64 word)) :: uchar) = n mod 256"
    "unat (ucast (signed_drop_bit 8 (of_nat n :: 64 word)) :: uchar) = n div 256 mod 256"
    "unat (ucast (signed_drop_bit 16 (of_nat n :: 64 word)) :: uchar) = n div 65536 mod 256"
    "unat (ucast (signed_drop_bit 24 (of_nat n :: 64 word)) :: uchar) = n div 16777216 mod 256" for n
    using unat_toVax_byte [of 0 n] unat_toVax_byte [of 8 n] unat_toVax_byte [of 16 n] unat_toVax_byte [of 24 n] by simp_all
  have u: "unat x < 256" for x :: uchar using unsigned_less [of x, where ?'a = nat] by simp
  have "ls = len_size t \<and> check_length t ds = Inr (len_size t) \<and> take ls (tl clumplet) = toVaxInteger ls (of_nat ds)"
  proof (cases t)
    case Wide
    have "Suc (Suc (Suc (Suc (Suc 0)))) \<le> length clumplet" using assms Wide by (auto simp: type_sizes_def split: if_splits)
    then obtain c0 c1 c2 c3 c4 rest where c: "clumplet = c0 # c1 # c2 # c3 # c4 # rest"
      by (auto simp: Suc_le_length_iff)
    have ds: "ds = ((unat c4 * 256 + unat c3) * 256 + unat c2) * 256 + unat c1" and ls: "ls = 4"
      using assms(1) Wide by (simp_all add: type_sizes_def c)
    have "ds mod 256 = unat c1" unfolding ds mod_mult_self3 by (rule mod_less [OF u])
    moreover have "ds div 256 = (unat c4 * 256 + unat c3) * 256 + unat c2" unfolding ds using u [of c1] by (subst div_mult_self3) simp_all
    moreover have "ds div 65536 = ds div 256 div 256" "ds div 16777216 = ds div 256 div 256 div 256" by (simp_all flip: div_mult2_eq)
    ultimately have e: "ds mod 256 = unat c1" "ds div 256 mod 256 = unat c2" "ds div 65536 mod 256 = unat c3" "ds div 16777216 mod 256 = unat c4"
      using u [of c2] u [of c3] u [of c4] by (simp_all only: mod_mult_self3 div_mult_self3 mod_less div_less add_0_right)
    have "ds < 4294967296" using u [of c1] u [of c2] u [of c3] u [of c4] by (simp add: ds)
    then show ?thesis using Wide unfolding ls toVax_4
      by (simp add: c len_size_def check_length_def word_unat_eq_iff b e del: signed_drop_bit_0)
  next
    case TraditionalDpb
    have "Suc (Suc 0) \<le> length clumplet" using assms TraditionalDpb by (auto simp: type_sizes_def split: if_splits)
    then obtain c0 c1 rest where c: "clumplet = c0 # c1 # rest"
      by (auto simp: Suc_le_length_iff)
    have ds: "ds = unat c1" and ls: "ls = 1" using assms(1) TraditionalDpb by (simp_all add: type_sizes_def c)
    have e: "c1 = ucast (signed_drop_bit 0 (of_nat ds :: 64 word))" unfolding word_unat_eq_iff b using ds u [of c1] by simp
    have "ds < 256" using ds u [of c1] by simp
    then show ?thesis using TraditionalDpb e [symmetric] unfolding ls toVax_1
      by (simp add: c len_size_def check_length_def del: signed_drop_bit_0)
  next
    case StringSpb
    have "Suc (Suc (Suc 0)) \<le> length clumplet" using assms StringSpb by (auto simp: type_sizes_def split: if_splits)
    then obtain c0 c1 c2 rest where c: "clumplet = c0 # c1 # c2 # rest"
      by (auto simp: Suc_le_length_iff)
    have ds: "ds = unat c2 * 256 + unat c1" and ls: "ls = 2" using assms(1) StringSpb by (simp_all add: type_sizes_def c)
    have e: "c1 = ucast (signed_drop_bit 0 (of_nat ds :: 64 word))" "c2 = ucast (signed_drop_bit 8 (of_nat ds :: 64 word))"
      unfolding word_unat_eq_iff b using ds u [of c1] u [of c2] by simp_all
    have "ds < 65536" using ds u [of c1] u [of c2] by simp
    then show ?thesis using StringSpb e [symmetric] unfolding ls toVax_2
      by (simp add: c len_size_def check_length_def del: signed_drop_bit_0)
  qed (use assms in \<open>auto simp: type_sizes_def len_size_def check_length_def toVaxInteger_def\<close>)
  then show "ls = len_size t" "check_length t ds = Inr (len_size t)" "take ls (tl clumplet) = toVaxInteger ls (of_nat ds)" by blast+
qed

lemma read_clumplet_conv:
  assumes "plain_kind (kind r)" "getClumplet r = Inr c" "getClumpletSize True True True r = Inr n"
  shows "fits (kind r) c" "drop (cur_offset r) (getBuffer r) = bytes_of (kind r) c @ drop (cur_offset r + n) (getBuffer r)"
    "n = length (bytes_of (kind r) c)"
proof -
  define clumplet where "clumplet = drop (cur_offset r) (getBuffer r)"
  define tag where "tag = clumplet ! 0"
  have ns: "kind r \<noteq> SpbStart" using assms(1) by (simp add: plain_kind_def)
  obtain t ls ds where ne: "clumplet \<noteq> []" and t: "clump_type (kind r) tag = Inr t" and ts: "type_sizes t clumplet = Inr (ls, ds)"
    and len: "1 + ls + ds \<le> length clumplet" and n: "n = 1 + ls + ds"
    using assms(3) by (auto simp: getClumpletSize_def Let_def clumplet_def [symmetric] tag_def type_indep [OF ns] not_less
        split: if_splits sum.splits prod.splits)
  have size: "getClumpletSize wT wL wD r = Inr ((if wT then 1 else 0) + (if wL then ls else 0) + (if wD then ds else 0))" for wT wL wD
    using ne t ts len by (simp add: getClumpletSize_def Let_def clumplet_def [symmetric] tag_def [symmetric] type_indep [OF ns] not_less)
  note conv = type_sizes_conv [OF ts len]
  have cur: "cur_offset r < length (getBuffer r)" using ne by (simp add: clumplet_def)
  then have tag: "getBuffer r ! cur_offset r = tag" by (simp add: tag_def clumplet_def)
  define d where "d = take ds (drop (1 + ls) clumplet)"
  have dr: "drop (cur_offset r + k) (getBuffer r) = drop k clumplet" for k by (simp add: clumplet_def add.commute)
  have c: "c = (tag, d)"
    using assms(2) cur tag dr [of "1 + ls"] by (simp add: getClumplet_def getClumpTag_def getData_def getBytes_def getClumpLength_def size d_def)
  have ld: "length d = ds" using len by (simp add: d_def)
  show "fits (kind r) c" using t conv(2) ld by (simp add: c fits_def)
  have b: "bytes_of (kind r) c = tag # toVaxInteger ls (of_nat ds) @ d" using t conv(1) ld by (simp add: c bytes_of_def)
  show "n = length (bytes_of (kind r) c)" using n ld by (simp add: b)
  have "clumplet = tag # take ls (tl clumplet) @ take ds (drop ls (tl clumplet)) @ drop ds (drop ls (tl clumplet))"
    using ne by (cases clumplet) (simp_all add: tag_def, metis append_take_drop_id drop_drop)
  then have "clumplet = bytes_of (kind r) c @ drop n clumplet"
    unfolding b conv(3) [symmetric] d_def n by (simp add: drop_Suc add.commute)
  then show "drop (cur_offset r) (getBuffer r) = bytes_of (kind r) c @ drop (cur_offset r + n) (getBuffer r)"
    unfolding dr clumplet_def [symmetric] .
qed

end
