(* ===== verification/ClumpletTheorems.thy ===== *)
theory ClumpletTheorems
  imports ClumpletBytes
begin

text \<open>
  What makes parameter blocks correct: reading is the inverse of writing, whatever bytes a client sends;
  a writer implements a list of clumplets with a position; an upgrade keeps the clumplets.
\<close>

subsection \<open>A block as a list of clumplets\<close>

text \<open>The bytes before the first clumplet.\<close>

definition header_ok :: "clumplet_kind \<Rightarrow> uchar list \<Rightarrow> bool" where
  "header_ok k h \<longleftrightarrow> length h = (if \<not> isTagged k then 0 else if k = SpbAttach \<and> h \<noteq> [] \<and> h ! 0 = isc_spb_version then 2 else 1)"

text \<open>The block has the header \<open>h\<close> and the clumplets \<open>cs\<close>, and its position is before the one with index \<open>i\<close>.\<close>

definition holds :: "'z clumplet_reader_scheme \<Rightarrow> uchar list \<Rightarrow> (uchar \<times> uchar list) list \<Rightarrow> nat \<Rightarrow> bool" where
  "holds r h cs i \<longleftrightarrow> plain_kind (kind r) \<and> header_ok (kind r) h \<and> buffer r = Some (h @ all_bytes (kind r) cs) \<and>
     list_all (fits (kind r)) cs \<and> i \<le> length cs \<and> cur_offset r = length h + length (all_bytes (kind r) (take i cs))"

lemma holdsD:
  assumes "holds r h cs i"
  shows "plain_kind (kind r)" "header_ok (kind r) h" "buffer r = Some (h @ all_bytes (kind r) cs)" "list_all (fits (kind r)) cs"
    "i \<le> length cs" "cur_offset r = length h + length (all_bytes (kind r) (take i cs))"
  using assms by (simp_all add: holds_def)

lemma bytes_of_length: "fits k c \<Longrightarrow> bytes_of k c \<noteq> []"
  by (auto simp: fits_def bytes_of_def)

lemma all_bytes_nonempty: "list_all (fits k) cs \<Longrightarrow> cs \<noteq> [] \<Longrightarrow> all_bytes k cs \<noteq> []"
  by (cases cs) (auto simp: bytes_of_length)

lemma holds_getBuffer: "holds r h cs i \<Longrightarrow> getBuffer r = h @ all_bytes (kind r) cs"
  by (simp add: holds_def getBuffer_def)

lemma all_bytes_split: "all_bytes k cs = all_bytes k (take i cs) @ all_bytes k (drop i cs)"
  by (metis append_take_drop_id concat_append map_append)

lemma holds_drop:
  assumes "holds r h cs i"
  shows "drop (cur_offset r) (getBuffer r) = all_bytes (kind r) (drop i cs)"
    "take (cur_offset r) (getBuffer r) = h @ all_bytes (kind r) (take i cs)"
  using holdsD(6) [OF assms] by (simp_all add: holds_getBuffer [OF assms] all_bytes_split [of "kind r" cs i])

lemma holds_isEof:
  assumes "holds r h cs i"
  shows "isEof r \<longleftrightarrow> i = length cs"
proof (cases "i = length cs")
  case True
  then have "drop (cur_offset r) (getBuffer r) = []" using holds_drop(1) [OF assms] by simp
  then show ?thesis using True by (auto simp: isEof_def getBufferLength_def Let_def)
next
  case False
  then have lt: "i < length cs" using holdsD(5) [OF assms] by simp
  then have ne: "all_bytes (kind r) (drop i cs) \<noteq> []"
    using holdsD(4) [OF assms] by (intro all_bytes_nonempty) (auto simp: list_all_iff dest: in_set_dropD)
  then have cur: "cur_offset r < length (getBuffer r)" using holds_drop(1) [OF assms] by (metis drop_all not_le)
  have "\<not> (length (getBuffer r) = 1 \<and> isTagged (kind r))"
  proof
    assume one: "length (getBuffer r) = 1 \<and> isTagged (kind r)"
    then have "length h \<noteq> 0" using holdsD(2) [OF assms] by (auto simp: header_ok_def split: if_splits)
    then show False using cur one holdsD(6) [OF assms] by simp
  qed
  then show ?thesis using cur False by (auto simp: isEof_def getBufferLength_def Let_def)
qed

lemma holds_current:
  assumes "holds r h cs i" "i < length cs"
  shows "getClumplet r = Inr (cs ! i)" "getClumpTag r = Inr (fst (cs ! i))"
    "getClumpletSize True True True r = Inr (length (bytes_of (kind r) (cs ! i)))"
proof -
  have f: "fits (kind r) (cs ! i)" using holdsD(4) [OF assms(1)] assms(2) by (simp add: list_all_length)
  have d: "drop (cur_offset r) (getBuffer r) = bytes_of (kind r) (cs ! i) @ all_bytes (kind r) (drop (Suc i) cs)"
    using holds_drop(1) [OF assms(1)] assms(2) by (simp add: Cons_nth_drop_Suc [symmetric])
  note rc = read_clumplet [OF holdsD(1) [OF assms(1)] f d]
  then show "getClumplet r = Inr (cs ! i)" "getClumpletSize True True True r = Inr (length (bytes_of (kind r) (cs ! i)))" by simp_all
  then show "getClumpTag r = Inr (fst (cs ! i))" by (auto simp: getClumplet_def split: sum.splits) (metis fst_conv)
qed

text \<open>The same block at the clumplet with index \<open>j\<close>.\<close>

lemma holds_at: "holds r h cs i \<Longrightarrow> j \<le> length cs \<Longrightarrow> holds (r\<lparr>cur_offset := length h + length (all_bytes (kind r) (take j cs))\<rparr>) h cs j"
  by (simp add: holds_def)

lemma holds_cur_offset: "holds r h cs i \<Longrightarrow> holds (r\<lparr>spbState := s\<rparr>) h cs i"
  by (simp add: holds_def)

lemma adjust_plain: "plain_kind (kind r) \<Longrightarrow> adjustSpbState r = Inr r"
  by (simp add: adjustSpbState_def plain_kind_def)

lemma holds_moveNext:
  assumes "holds r h cs i" "i < length cs"
  shows "\<exists>r'. moveNext r = Inr r' \<and> holds r' h cs (Suc i) \<and> r' = r\<lparr>cur_offset := cur_offset r'\<rparr>"
proof -
  have "kind r \<noteq> InfoResponse" using holdsD(1) [OF assms(1)] by (simp add: plain_kind_def)
  then have "moveNext r = Inr (r\<lparr>cur_offset := cur_offset r + length (bytes_of (kind r) (cs ! i))\<rparr>)"
    using holds_isEof [OF assms(1)] assms(2) holds_current(3) [OF assms] adjust_plain [OF holdsD(1) [OF assms(1)]]
    by (simp add: moveNext_def)
  moreover have "holds (r\<lparr>cur_offset := cur_offset r + length (bytes_of (kind r) (cs ! i))\<rparr>) h cs (Suc i)"
    using assms by (simp add: holds_def take_Suc_conv_app_nth)
  ultimately show ?thesis by simp
qed

lemma holds_rewind: "holds r h cs i \<Longrightarrow> holds (rewind r) h cs 0"
proof -
  assume r: "holds r h cs i"
  have "cur_offset (rewind r) = length h"
    using holdsD(2,3) [OF r]
    by (auto simp: rewind_def header_ok_def getBuffer_def getBufferLength_def Let_def nth_append split: if_splits)
  then show ?thesis using r by (simp add: holds_def rewind_def)
qed

subsection \<open>Reading\<close>

lemma holds_read_from: "holds r h cs i \<Longrightarrow> read_from r = Inr (drop i cs)"
proof (induction "length cs - i" arbitrary: r i)
  case 0
  then have "isEof r" using holds_isEof [OF 0(2)] holdsD(5) [OF 0(2)] by simp
  then show ?case using 0 by (subst read_from.simps) simp
next
  case (Suc n)
  then have i: "i < length cs" by simp
  obtain r' where r': "moveNext r = Inr r'" "holds r' h cs (Suc i)" using holds_moveNext [OF Suc.prems i] by blast
  have "read_from r' = Inr (drop (Suc i) cs)" using Suc.hyps(1) [OF _ r'(2)] Suc.hyps(2) by simp
  then show ?case using holds_isEof [OF Suc.prems] i holds_current(1) [OF Suc.prems i] r'(1)
    by (subst read_from.simps) (simp add: Cons_nth_drop_Suc)
qed

lemma read_from_bytes:
  "plain_kind (kind r) \<Longrightarrow> (isTagged (kind r) \<longrightarrow> 1 \<le> cur_offset r) \<Longrightarrow> read_from r = Inr cs \<Longrightarrow>
   list_all (fits (kind r)) cs \<and> drop (cur_offset r) (getBuffer r) = all_bytes (kind r) cs"
proof (induction r arbitrary: cs rule: read_from.induct)
  case (1 r)
  show ?case
  proof (cases "isEof r")
    case True
    then have "cs = []" using "1.prems"(3) by (subst (asm) read_from.simps) simp
    moreover have "drop (cur_offset r) (getBuffer r) = []"
      using True "1.prems"(2) by (auto simp: isEof_def getBufferLength_def Let_def split: if_splits)
    ultimately show ?thesis by simp
  next
    case False
    obtain c r' cs' where r: "getClumplet r = Inr c" "moveNext r = Inr r'" "read_from r' = Inr cs'" "cs = c # cs'"
      using "1.prems"(3) False by (subst (asm) read_from.simps) (auto split: sum.splits)
    have "kind r \<noteq> InfoResponse" using "1.prems"(1) by (simp add: plain_kind_def)
    then obtain n where n: "getClumpletSize True True True r = Inr n" "r' = r\<lparr>cur_offset := cur_offset r + n\<rparr>"
      using r(2) False adjust_plain [OF "1.prems"(1)] by (auto simp: moveNext_def split: sum.splits)
    note conv = read_clumplet_conv [OF "1.prems"(1) r(1) n(1)]
    have "list_all (fits (kind r')) cs' \<and> drop (cur_offset r') (getBuffer r') = all_bytes (kind r') cs'"
      using "1.prems"(1,2) n(2) by (intro "1.IH" [OF False r(1,2) _ _ r(3)]) auto
    then show ?thesis using conv(1,2) r(4) n(2) by (simp add: getBuffer_def)
  qed
qed

text \<open>A block with one clumplet, and a writer at its end.\<close>

definition demo_block :: "uchar list" where
  "demo_block = [isc_dpb_version1, 28, 1, 65]"

definition demo_writer :: clumplet_writer where
  "demo_writer = \<lparr>kind = Tagged, buffer = Some demo_block, cur_offset = 4, spbState = 0, sizeLimit = 1000,
     kindList = Some dpbList, flag_overflow = False\<rparr>"

lemma bytes_of_tagged: "bytes_of Tagged (tag, d) = tag # ucast (signed_drop_bit 0 (of_nat (length d) :: 64 word)) # d"
  by (simp add: bytes_of_def clump_type_def getClumpletType_def len_size_def toVax_1 [unfolded One_nat_def])

lemma fits_tagged: "fits Tagged c \<longleftrightarrow> length (snd c) < 256"
  by (auto simp: fits_def clump_type_def getClumpletType_def check_length_def len_size_def)

lemma demo_holds: "holds demo_writer [isc_dpb_version1] [(28, [65])] 1"
  by (simp add: holds_def demo_writer_def demo_block_def plain_kind_def header_ok_def isTagged_def bytes_of_tagged fits_tagged)

lemma demo_facts: "kind demo_writer = Tagged" "length (getBuffer demo_writer) = 4" "sizeLimit demo_writer = 1000"
    "kindList demo_writer = Some dpbList"
  by (simp_all add: demo_writer_def demo_block_def getBuffer_def)

text \<open>
  C33. Parameter blocks sent by a client, of a kind in which the type of a clumplet depends on its tag alone
  (not \<open>SpbStart\<close>, \<open>EndOfList\<close>, \<open>InfoResponse\<close>), are read as what they are: a scan succeeds with some clumplets exactly
  if the bytes after the header are the bytes of those clumplets, each with a length its type allows. Anything
  else is refused.
\<close>

theorem reading_is_parsing:
  assumes "plain_kind k"
  shows "read_all (new_reader k (Some b)) = Inr cs \<longleftrightarrow>
    list_all (fits k) cs \<and> drop (cur_offset (new_reader k (Some b))) b = all_bytes k cs"
proof -
  define r where "r = rewind (new_reader k (Some b))"
  have r: "kind r = k" "buffer r = Some b" "getBuffer r = b" "cur_offset r = cur_offset (new_reader k (Some b))"
    by (simp_all add: r_def new_reader_def rewind_def getBuffer_def getBufferLength_def)
  have tag: "isTagged k \<longrightarrow> 1 \<le> cur_offset r" by (simp add: r_def new_reader_def rewind_def)
  have "list_all (fits k) cs \<and> drop (cur_offset r) b = all_bytes k cs" if "read_from r = Inr cs"
    using read_from_bytes [of r cs] that tag assms r by simp
  moreover have "read_from r = Inr cs" if cs: "list_all (fits k) cs" "drop (cur_offset r) b = all_bytes k cs"
  proof (cases "cs = []")
    case True
    then have "isEof r" using cs(2) r by (auto simp: isEof_def getBufferLength_def Let_def)
    then show ?thesis using True by (subst read_from.simps) simp
  next
    case False
    then have "all_bytes k cs \<noteq> []" using all_bytes_nonempty cs(1) by blast
    then have len: "cur_offset r < length b" using cs(2) by (metis drop_all not_le)
    have "header_ok k (take (cur_offset r) b)" using len
      by (auto simp: r_def new_reader_def rewind_def header_ok_def getBuffer_def getBufferLength_def Let_def split: if_splits)
    then have "holds r (take (cur_offset r) b) cs 0" using assms cs r len by (simp add: holds_def flip: cs(2))
    from holds_read_from [OF this] show ?thesis by simp
  qed
  ultimately show ?thesis unfolding read_all_def r_def [symmetric] r(4) [symmetric] by blast
qed

lemma reading_is_parsing_witness: "read_all (new_reader Tagged (Some demo_block)) = Inr [(28, [65])]"
  by (rule reading_is_parsing [THEN iffD2])
    (simp_all add: plain_kind_def demo_block_def bytes_of_tagged fits_tagged new_reader_def rewind_def isTagged_def)

subsection \<open>Searching\<close>

lemma holds_seek:
  "holds r h cs i \<Longrightarrow> j = i + length (takeWhile (\<lambda>c. fst c \<noteq> tag) (drop i cs)) \<Longrightarrow>
   \<exists>r'. seek tag r = Inr (j < length cs, r') \<and> holds r' h cs j \<and> r' = r\<lparr>cur_offset := cur_offset r'\<rparr>"
proof (induction "length cs - i" arbitrary: r i)
  case 0
  then have "i = length cs" using holdsD(5) [OF 0(2)] by simp
  then show ?case using 0 holds_isEof [OF 0(2)] by (subst seek.simps) simp
next
  case (Suc n)
  then have i: "i < length cs" by simp
  have dr: "drop i cs = cs ! i # drop (Suc i) cs" using i by (simp add: Cons_nth_drop_Suc)
  show ?case
  proof (cases "fst (cs ! i) = tag")
    case True
    then show ?thesis using Suc.prems i holds_isEof [OF Suc.prems(1)] holds_current(2) [OF Suc.prems(1) i] dr
      by (subst seek.simps) simp
  next
    case False
    obtain r' where r': "moveNext r = Inr r'" "holds r' h cs (Suc i)" "r' = r\<lparr>cur_offset := cur_offset r'\<rparr>"
      using holds_moveNext [OF Suc.prems(1) i] by blast
    have nn: "n = length cs - Suc i" using Suc.hyps(2) by simp
    have j: "j = Suc i + length (takeWhile (\<lambda>c. fst c \<noteq> tag) (drop (Suc i) cs))" using Suc.prems(2) dr False by simp
    obtain r'' where r'': "seek tag r' = Inr (j < length cs, r'')" "holds r'' h cs j" "r'' = r'\<lparr>cur_offset := cur_offset r''\<rparr>"
      using Suc.hyps(1) [OF _ r'(2) j] nn by blast
    have "seek tag r = Inr (j < length cs, r'')"
      using r'(1) r''(1) False i holds_isEof [OF Suc.prems(1)] holds_current(2) [OF Suc.prems(1) i] by (subst seek.simps) simp
    moreover have "r'' = r\<lparr>cur_offset := cur_offset r''\<rparr>" using r'(3) r''(3) by (metis clumplet_reader.surjective clumplet_reader.update_convs(3))
    ultimately show ?thesis using r''(2) by blast
  qed
qed

lemma first_index_less: "length (takeWhile (\<lambda>c. fst c \<noteq> tag) cs) < length cs \<longleftrightarrow> tag \<in> fst ` set cs"
  by (induction cs) auto

lemma find_holds:
  assumes "holds r h cs i"
  shows "\<exists>r'. find_tag tag r = Inr (tag \<in> fst ` set cs, r') \<and>
    holds r' h cs (if tag \<in> fst ` set cs then length (takeWhile (\<lambda>c. fst c \<noteq> tag) cs) else i)"
proof -
  define j where "j = length (takeWhile (\<lambda>c. fst c \<noteq> tag) cs)"
  have j: "j < length cs \<longleftrightarrow> tag \<in> fst ` set cs"
    by (simp add: j_def first_index_less)
  obtain r' where r': "seek tag (rewind r) = Inr (j < length cs, r')" "holds r' h cs j" "r' = (rewind r)\<lparr>cur_offset := cur_offset r'\<rparr>"
    using holds_seek [OF holds_rewind [OF assms], of j tag] by (auto simp: j_def)
  have "holds (r'\<lparr>cur_offset := cur_offset r\<rparr>) h cs i"
    using assms r'(2) by (subst r'(3)) (simp add: holds_def rewind_def)
  then show ?thesis using r'(1,2) j by (auto simp: find_tag_def j_def)
qed

text \<open>Whatever the kind of the block, the loop moves the position and the action of a service block only.\<close>

lemma moveNext_same: "moveNext r = Inr r' \<Longrightarrow> r' = r\<lparr>cur_offset := cur_offset r', spbState := spbState r'\<rparr>"
  by (auto simp: moveNext_def adjustSpbState_def split: if_splits sum.splits)

lemma seek_answer:
  "seek tag r = Inr (b, r') \<Longrightarrow>
     (b \<longrightarrow> \<not> isEof r' \<and> getClumpTag r' = Inr tag) \<and> r' = r\<lparr>cur_offset := cur_offset r', spbState := spbState r'\<rparr>"
proof (induction tag r rule: seek.induct)
  case (1 tag r)
  show ?case
  proof (cases "isEof r \<or> getClumpTag r = Inr tag")
    case True
    then have "r' = r" "b \<longrightarrow> \<not> isEof r" "b \<longrightarrow> getClumpTag r = Inr tag"
      using 1(2) by (auto simp: seek.simps [of tag r] split: if_splits sum.splits)
    then show ?thesis by simp
  next
    case False
    then obtain t r1 where n: "getClumpTag r = Inr t" "t \<noteq> tag" "moveNext r = Inr r1" "seek tag r1 = Inr (b, r')"
      using 1(2) by (auto simp: seek.simps [of tag r] split: if_splits sum.splits)
    have "(b \<longrightarrow> \<not> isEof r' \<and> getClumpTag r' = Inr tag) \<and> r' = r1\<lparr>cur_offset := cur_offset r', spbState := spbState r'\<rparr>"
      by (rule "1.IH" [OF _ n(1-4)]) (use False in simp)
    moreover have "r1\<lparr>cur_offset := x, spbState := y\<rparr> = r\<lparr>cur_offset := x, spbState := y\<rparr>" for x y
      by (subst moveNext_same [OF n(3)]) simp
    ultimately show ?thesis by metis
  qed
qed

text \<open>
  C37. For the kinds in which the type of a clumplet depends on its tag alone (all but \<open>SpbStart\<close>,
  \<open>EndOfList\<close> and \<open>InfoResponse\<close>), \<open>find\<close> implements the search in the list: it answers whether a clumplet
  has the tag, and goes to the first one that has; otherwise it stays where it is. For every kind,
  a positive answer leaves the reader at a clumplet with the tag, and a negative one changes
  nothing but \<open>spbState\<close>, which it does not restore.
\<close>

theorem find_refines:
  assumes "holds r h cs i"
  shows "(\<exists>r'. find_tag tag r = Inr (tag \<in> fst ` set cs, r') \<and>
      holds r' h cs (if tag \<in> fst ` set cs then length (takeWhile (\<lambda>c. fst c \<noteq> tag) cs) else i)) \<and>
    (\<forall>b q'. find_tag tag q = Inr (b, q') \<longrightarrow>
      (if b then \<not> isEof q' \<and> getClumpTag q' = Inr tag else q' = q\<lparr>spbState := spbState q'\<rparr>))"
proof -
  have "if b then \<not> isEof q' \<and> getClumpTag q' = Inr tag else q' = q\<lparr>spbState := spbState q'\<rparr>" if f: "find_tag tag q = Inr (b, q')" for b q'
  proof -
    obtain q1 where q1: "seek tag (rewind q) = Inr (b, q1)" "q' = (if b then q1 else q1\<lparr>cur_offset := cur_offset q\<rparr>)"
      using f by (auto simp: find_tag_def split: sum.splits)
    note a = seek_answer [OF q1(1)]
    have "q1\<lparr>cur_offset := cur_offset q\<rparr> = q\<lparr>spbState := spbState q1\<rparr>"
      by (subst conjunct2 [OF a]) (simp add: rewind_def)
    then show ?thesis using a q1(2) by (cases b) simp_all
  qed
  then show ?thesis using find_holds [OF assms, of tag] by blast
qed

lemma find_refines_witness:
  "\<exists>r. find_tag 28 demo_writer = Inr (True, r) \<and> holds r [isc_dpb_version1] [(28, [65])] 0"
  using conjunct1 [OF find_refines [OF demo_holds, of 28]] by simp

subsection \<open>Inserting and deleting\<close>

lemma store_holds:
  assumes "holds w h cs i" "clump_type (kind w) tag = Inr t" "check_length t (length d) = Inr (len_size t)"
    "length (getBuffer w) + length d + 5 < 2 ^ 32" "length (getBuffer w) + length d + len_size t + 1 \<le> sizeLimit w"
  shows "\<exists>w'. store tag d (len_size t) w = Inr w' \<and> holds w' h (take i cs @ (tag, d) # drop i cs) (Suc i) \<and>
    kind w' = kind w \<and> sizeLimit w' = sizeLimit w \<and> kindList w' = kindList w"
proof -
  have b: "bytes_of (kind w) (tag, d) = tag # toVaxInteger (len_size t) (of_nat (length d)) @ d" using assms(2) by (simp add: bytes_of_def)
  define w1 where "w1 = w\<lparr>flag_overflow := False,
    buffer := Some (h @ all_bytes (kind w) (take i cs) @ bytes_of (kind w) (tag, d) @ all_bytes (kind w) (drop i cs))\<rparr>"
  have ls: "len_size t \<le> 4" by (cases t) (simp_all add: len_size_def)
  have p: "plain_kind (kind w1)" using holdsD(1) [OF assms(1)] by (simp add: w1_def)
  have m: "(length (getBuffer w) + length d + len_size t + 1) mod 2 ^ 32 = length (getBuffer w) + length d + len_size t + 1"
    using assms(4) ls by (intro mod_less) simp
  have "store tag d (len_size t) w = Inr (w1\<lparr>cur_offset := cur_offset w + length (bytes_of (kind w) (tag, d))\<rparr>)"
    using assms(5) adjust_plain [OF p] unfolding store_def Let_def holds_drop [OF assms(1)] m
    by (simp add: w1_def b)
  moreover have "holds (w1\<lparr>cur_offset := cur_offset w + length (bytes_of (kind w) (tag, d))\<rparr>) h (take i cs @ (tag, d) # drop i cs) (Suc i)"
    using assms(1-3) fits_iff [OF assms(2)]
    by (auto simp: holds_def w1_def list_all_iff dest: in_set_takeD in_set_dropD)
  ultimately show ?thesis by (auto simp: w1_def)
qed

lemma insert_loop_holds:
  assumes "holds w h cs i" "fits (kind w) (tag, d)" "length (getBuffer w) + length d + 5 < 2 ^ 32"
    "length (getBuffer w) + length (bytes_of (kind w) (tag, d)) \<le> sizeLimit w"
  shows "\<exists>w'. insert_loop up (Suc n) tag d w = Inr w' \<and> holds w' h (take i cs @ (tag, d) # drop i cs) (Suc i) \<and>
    kind w' = kind w \<and> sizeLimit w' = sizeLimit w \<and> kindList w' = kindList w"
proof -
  obtain t where t: "clump_type (kind w) tag = Inr t" "check_length t (length d) = Inr (len_size t)" using assms(2) by (auto simp: fits_def)
  have "kind w \<noteq> SpbStart" using holdsD(1) [OF assms(1)] by (simp add: plain_kind_def)
  then have "insert_loop up (Suc n) tag d w = store tag d (len_size t) w" using t type_indep by simp
  moreover have "length (getBuffer w) + length d + len_size t + 1 \<le> sizeLimit w"
    using assms(4) t(1) by (simp add: bytes_of_def)
  ultimately show ?thesis using store_holds [OF assms(1) t assms(3)] by simp
qed

lemma holds_cur_le: "holds w h cs i \<Longrightarrow> \<not> length (getBuffer w) < cur_offset w"
  using holdsD(6) [of w h cs i] by (simp add: holds_getBuffer all_bytes_split [of _ cs i])

lemma insert_checked_loop: "holds w h cs i \<Longrightarrow> insert_checked up tag d w = insert_loop up (Suc (Suc 0)) tag d w"
  using holds_cur_le [of w h cs i] by (simp add: insert_checked_def numeral_2_eq_2)

text \<open>
  C34. For the same kinds, insertion implements the insertion into the list: data that its type allows, within the size limit,
  becomes the clumplet before the position, which goes behind it; all other clumplets and the header stay.
\<close>

theorem insert_refines:
  assumes "holds w h cs i" "fits (kind w) (tag, d)" "length (getBuffer w) + length d + 5 < 2 ^ 32"
    "length (getBuffer w) + length (bytes_of (kind w) (tag, d)) \<le> sizeLimit w"
  shows "\<exists>w'. insertBytes tag d w = Inr w' \<and> holds w' h (take i cs @ (tag, d) # drop i cs) (Suc i)"
  unfolding insertBytes_def insert_checked_loop [OF assms(1)] using insert_loop_holds [OF assms] by blast

lemma insert_refines_witness:
  "\<exists>w. insertBytes 30 [7, 8] demo_writer = Inr w \<and> holds w [isc_dpb_version1] [(28, [65]), (30, [7, 8])] (Suc 1)"
  using insert_refines [OF demo_holds, of 30 "[7, 8]"] by (simp add: demo_facts fits_tagged bytes_of_tagged)

lemma delete_holds:
  assumes "holds w h cs i" "i < length cs"
  shows "\<exists>w'. deleteClumplet w = Inr w' \<and> holds w' h (take i cs @ drop (Suc i) cs) i"
proof -
  have f: "fits (kind w) (cs ! i)" using holdsD(4) [OF assms(1)] assms(2) by (simp add: list_all_length)
  have d: "drop (cur_offset w) (getBuffer w) = bytes_of (kind w) (cs ! i) @ all_bytes (kind w) (drop (Suc i) cs)"
    using holds_drop(1) [OF assms(1)] assms(2) by (simp add: Cons_nth_drop_Suc [symmetric])
  have ne: "bytes_of (kind w) (cs ! i) \<noteq> []" using bytes_of_length [OF f] .
  let ?w = "w\<lparr>buffer := Some (h @ all_bytes (kind w) (take i cs) @ all_bytes (kind w) (drop (Suc i) cs))\<rparr>"
  have "drop (cur_offset w + length (bytes_of (kind w) (cs ! i))) (getBuffer w) =
      drop (length (bytes_of (kind w) (cs ! i))) (drop (cur_offset w) (getBuffer w))" by (simp add: add.commute)
  then have d2: "drop (cur_offset w + length (bytes_of (kind w) (cs ! i))) (getBuffer w) = all_bytes (kind w) (drop (Suc i) cs)"
    by (simp add: d)
  have cur: "\<not> length (getBuffer w) \<le> cur_offset w" using d ne by (metis Nil_is_append_conv drop_all)
  have "deleteClumplet w = Inr ?w"
  proof (cases "length (getBuffer w) - cur_offset w < 2")
    case True
    then have "length (bytes_of (kind w) (cs ! i) @ all_bytes (kind w) (drop (Suc i) cs)) < 2" by (simp flip: d)
    then have "all_bytes (kind w) (drop (Suc i) cs) = []" using ne by (cases "bytes_of (kind w) (cs ! i)") (auto simp: less_Suc_eq)
    then show ?thesis using True cur by (simp add: deleteClumplet_def Let_def holds_drop(2) [OF assms(1)])
  next
    case False
    then show ?thesis using cur holds_current(3) [OF assms] d2 by (simp add: deleteClumplet_def Let_def holds_drop(2) [OF assms(1)])
  qed
  moreover have "holds ?w h (take i cs @ drop (Suc i) cs) i"
    using assms by (auto simp: holds_def list_all_iff dest: in_set_takeD in_set_dropD)
  ultimately show ?thesis by blast
qed

lemma takeWhile_filter_drop:
  assumes "i = length (takeWhile P xs)" "i < length xs"
  shows "filter P (take i xs @ drop (Suc i) xs) = filter P xs" "\<not> P (xs ! i)"
proof -
  show n: "\<not> P (xs ! i)" using assms nth_length_takeWhile by metis
  have "xs = take i xs @ xs ! i # drop (Suc i) xs" using assms(2) by (rule id_take_nth_drop)
  then have "filter P xs = filter P (take i xs @ xs ! i # drop (Suc i) xs)" by (rule arg_cong)
  then show "filter P (take i xs @ drop (Suc i) xs) = filter P xs" using n by simp
qed

text \<open>
  C36. For the same kinds, deletion implements the deletion from the list: \<open>deleteClumplet\<close> removes the current clumplet, and
  \<open>deleteWithTag\<close> all with a tag, and says whether there were any.
\<close>

theorem delete_refines:
  assumes "holds w h cs i"
  shows "(i < length cs \<longrightarrow> (\<exists>w'. deleteClumplet w = Inr w' \<and> holds w' h (take i cs @ drop (Suc i) cs) i)) \<and>
    (\<exists>w' j. deleteWithTag tag w = Inr (tag \<in> fst ` set cs, w') \<and> holds w' h (filter (\<lambda>c. fst c \<noteq> tag) cs) j)"
proof
  show "i < length cs \<longrightarrow> (\<exists>w'. deleteClumplet w = Inr w' \<and> holds w' h (take i cs @ drop (Suc i) cs) i)"
    using delete_holds [OF assms] by blast
  show "\<exists>w' j. deleteWithTag tag w = Inr (tag \<in> fst ` set cs, w') \<and> holds w' h (filter (\<lambda>c. fst c \<noteq> tag) cs) j"
    using assms
  proof (induction "length cs" arbitrary: w cs i)
    case (0 cs w i)
    obtain w' where "find_tag tag w = Inr (False, w')" "holds w' h cs i" using find_holds [OF 0(2), of tag] 0(1) by auto
    then show ?case using 0(1) by (subst deleteWithTag.simps) auto
  next
    case (Suc n cs w i)
    define j where "j = length (takeWhile (\<lambda>c. fst c \<noteq> tag) cs)"
    obtain w1 where w1: "find_tag tag w = Inr (tag \<in> fst ` set cs, w1)" "holds w1 h cs (if tag \<in> fst ` set cs then j else i)"
      using find_holds [OF Suc.prems, of tag] unfolding j_def by blast
    show ?case
    proof (cases "tag \<in> fst ` set cs")
      case False
      then have "filter (\<lambda>c. fst c \<noteq> tag) cs = cs" by (auto simp: filter_id_conv)
      then show ?thesis using w1 False by (subst deleteWithTag.simps) auto
    next
      case True
      then have j: "j < length cs" unfolding j_def by (simp add: first_index_less)
      obtain w2 where w2: "deleteClumplet w1 = Inr w2" "holds w2 h (take j cs @ drop (Suc j) cs) j"
        using delete_holds [of w1 h cs j] w1(2) True j by auto
      have len: "n = length (take j cs @ drop (Suc j) cs)" using Suc.hyps(2) j by simp
      obtain w3 k where "deleteWithTag tag w2 = Inr (tag \<in> fst ` set (take j cs @ drop (Suc j) cs), w3)"
        "holds w3 h (filter (\<lambda>c. fst c \<noteq> tag) (take j cs @ drop (Suc j) cs)) k"
        using Suc.hyps(1) [OF len w2(2)] by blast
      then show ?thesis using w1(1) w2(1) True takeWhile_filter_drop(1) [OF j_def j]
        by (subst deleteWithTag.simps) auto
    qed
  qed
qed

lemma delete_refines_witness: "\<exists>w j. deleteWithTag 28 demo_writer = Inr (True, w) \<and> holds w [isc_dpb_version1] [] j"
  using delete_refines [OF demo_holds, of 28] by simp

subsection \<open>Upgrades\<close>

lemma all_bytes_take_le: "length (all_bytes k (take j cs)) \<le> length (all_bytes k cs)"
  by (simp add: all_bytes_split [of k cs j])

text \<open>Different indices are at different offsets.\<close>

lemma offset_inj:
  assumes "list_all (fits k) cs" "i \<le> length cs" "j \<le> length cs" "length (all_bytes k (take i cs)) = length (all_bytes k (take j cs))"
  shows "i = j"
proof -
  have less: "length (all_bytes k (take a cs)) < length (all_bytes k (take b cs))" if "a < b" "b \<le> length cs" for a b
  proof -
    have "take b cs = take a cs @ drop a (take b cs)" using that(1) by (metis append_take_drop_id less_imp_le min.absorb1 take_take)
    moreover have "all_bytes k (drop a (take b cs)) \<noteq> []"
      using assms(1) that by (intro all_bytes_nonempty) (auto simp: list_all_iff dest: in_set_dropD in_set_takeD)
    ultimately show ?thesis by (metis concat_append length_append length_greater_0_conv less_add_same_cancel1 map_append)
  qed
  show ?thesis using less [of i j] less [of j i] assms(2-4) by (metis less_irrefl nat_neq_iff)
qed

lemma copy_holds:
  "holds w h cs j \<Longrightarrow> holds new hn (take j cs) j \<Longrightarrow> list_all (fits (kind new)) cs \<Longrightarrow>
   length hn + length (all_bytes (kind new) cs) + 5 < 2 ^ 32 \<Longrightarrow> length hn + length (all_bytes (kind new) cs) \<le> sizeLimit new \<Longrightarrow>
   i \<le> length cs \<Longrightarrow> pos = length h + length (all_bytes (kind w) (take i cs)) \<Longrightarrow>
   \<exists>new'. copy_clumplets pos w new q =
       Inr (new', if j \<le> i \<and> i < length cs then length hn + length (all_bytes (kind new) (take i cs)) else q) \<and>
     holds new' hn cs (length cs) \<and> kind new' = kind new"
proof (induction "length cs - j" arbitrary: w new j q)
  case 0
  then have "j = length cs" using holdsD(5) [OF 0(2)] by simp
  then show ?case using 0 holds_isEof [OF 0(2)] by (subst copy_clumplets.simps) auto
next
  case (Suc n)
  then have j: "j < length cs" by simp
  obtain t d where c: "cs ! j = (t, d)" by (cases "cs ! j")
  have cur: "getClumplet w = Inr (t, d)" using holds_current(1) [OF Suc.prems(1) j] c by simp
  have f: "fits (kind new) (t, d)" using Suc.prems(3) j c by (metis list_all_length)
  have tk: "take (Suc j) cs = take j cs @ [(t, d)]" using j c by (simp add: take_Suc_conv_app_nth)
  have b: "getBuffer new = hn @ all_bytes (kind new) (take j cs)" by (rule holds_getBuffer [OF Suc.prems(2)])
  have le: "length (getBuffer new) + length (bytes_of (kind new) (t, d)) \<le> length hn + length (all_bytes (kind new) cs)"
    using all_bytes_take_le [of "kind new" "Suc j" cs] by (simp add: b tk)
  have "length d \<le> length (bytes_of (kind new) (t, d))" using f by (auto simp: fits_def bytes_of_def)
  then have "length (getBuffer new) + length d + 5 < 2 ^ 32" using le Suc.prems(4) by simp
  moreover have "length (getBuffer new) + length (bytes_of (kind new) (t, d)) \<le> sizeLimit new" using le Suc.prems(5) by simp
  ultimately obtain new1 where new1: "insert_plain t d new = Inr new1" "holds new1 hn (take j (take j cs) @ (t, d) # drop j (take j cs)) (Suc j)"
    "kind new1 = kind new" "sizeLimit new1 = sizeLimit new"
    using insert_loop_holds [OF Suc.prems(2) f] insert_checked_loop [OF Suc.prems(2)] unfolding insert_plain_def by metis
  have h1: "holds new1 hn (take (Suc j) cs) (Suc j)" using new1(2) by (simp add: tk)
  have "isEof new1" using holds_isEof [OF h1] j by simp
  then have m1: "moveNext new1 = Inr new1" by (simp add: moveNext_def)
  obtain w' where w': "moveNext w = Inr w'" "holds w' h cs (Suc j)" "w' = w\<lparr>cur_offset := cur_offset w'\<rparr>"
    using holds_moveNext [OF Suc.prems(1) j] by blast
  have kw: "kind w' = kind w" by (subst w'(3)) simp
  have here: "pos = cur_offset w \<longleftrightarrow> i = j"
    using offset_inj [OF holdsD(4) [OF Suc.prems(1)] Suc.prems(6) less_imp_le [OF j]] Suc.prems(7) holdsD(6) [OF Suc.prems(1)] by auto
  define q' where "q' = (if pos = cur_offset w then cur_offset new else q)"
  have q': "q' = (if i = j then length hn + length (all_bytes (kind new) (take j cs)) else q)"
    using here holdsD(6) [OF Suc.prems(2)] by (simp add: q'_def)
  have nn: "n = length cs - Suc j" using Suc.hyps(2) by simp
  obtain new' where new': "copy_clumplets pos w' new1 q' =
       Inr (new', if Suc j \<le> i \<and> i < length cs then length hn + length (all_bytes (kind new) (take i cs)) else q')"
     "holds new' hn cs (length cs)" "kind new' = kind new"
    using Suc.hyps(1) [OF nn w'(2) h1, of q'] Suc.prems(3-7) new1(3,4) kw by auto
  have "copy_clumplets pos w new q = copy_clumplets pos w' new1 q'"
    using holds_isEof [OF Suc.prems(1)] j cur new1(1) m1 w'(1) by (subst copy_clumplets.simps) (simp add: q'_def)
  then show ?case using new' j by (auto simp: q')
qed

lemma new_writer_holds: "holds (new_writer WideTagged limit 2) [2] [] 0 \<and> kind (new_writer WideTagged limit 2) = WideTagged \<and>
    sizeLimit (new_writer WideTagged limit 2) = limit"
  by (simp add: holds_def new_writer_def make_writer_def initNewBuffer_def rewind_def plain_kind_def header_ok_def isTagged_def)

lemma fits_wide: "fits WideTagged c \<longleftrightarrow> length (snd c) < 2 ^ 32"
  by (auto simp: fits_def clump_type_def getClumpletType_def check_length_def len_size_def)

lemma newest_dpb: "newest dpbList = (WideTagged, 2)"
  by (simp add: newest_def dpbList_def)

lemma upgrade_holds:
  assumes "holds w [1] cs i" "kind w = Tagged" "kindList w = Some dpbList"
    "1 + length (all_bytes WideTagged cs) \<le> sizeLimit w" "sizeLimit w < 2 ^ 32 - 5"
  shows "\<exists>w'. upgradeVersion w = Inr (True, w') \<and> holds w' [2] cs (if i < length cs then i else 0) \<and> kind w' = WideTagged \<and>
    sizeLimit w' = sizeLimit w"
proof -
  define new where "new = new_writer WideTagged (sizeLimit w) 2"
  have new: "holds new [2] (take 0 cs) 0" "kind new = WideTagged" "sizeLimit new = sizeLimit w"
    using new_writer_holds by (simp_all add: new_def)
  have w0: "holds (rewind w) [1] cs 0" "kind (rewind w) = Tagged" using holds_rewind [OF assms(1)] assms(2) by (simp_all add: rewind_def)
  have f: "list_all (fits (kind new)) cs" using holdsD(4) [OF assms(1)] assms(2) new(2) by (auto simp: list_all_iff fits_tagged fits_wide)
  obtain new' where copy: "copy_clumplets (cur_offset w) (rewind w) new 0 =
      Inr (new', if 0 \<le> i \<and> i < length cs then length [2::uchar] + length (all_bytes (kind new) (take i cs)) else 0)"
      and new': "holds new' [2] cs (length cs)" "kind new' = kind new"
    using copy_holds [OF w0(1) new(1) f, of i "cur_offset w" 0] assms new holdsD(5,6) [OF assms(1)] w0(2) by auto
  define w1 where "w1 = (rewind w)\<lparr>kind := WideTagged, buffer := Some (getBuffer new')\<rparr>"
  define w' where "w' = (if i < length cs then w1\<lparr>cur_offset := 1 + length (all_bytes WideTagged (take i cs))\<rparr> else rewind w1)"
  have tag: "getBufferLength w \<noteq> 0 \<Longrightarrow> getBufferTag w = Inr 1"
    using assms(2) holds_getBuffer [OF assms(1)] by (simp add: getBufferTag_def isTagged_def)
  have "\<not> (2 :: uchar) \<le> 1" by (simp add: word_le_nat_alt)
  then have "upgradeVersion w = Inr (True, w')"
    using tag copy new(2) by (auto simp: upgradeVersion_def assms(3) newest_dpb new_def [symmetric] w1_def w'_def Let_def)
  moreover have b: "getBuffer new' = [2] @ all_bytes WideTagged cs" using holds_getBuffer [OF new'(1)] new'(2) new(2) by simp
  moreover have w1: "holds (w1\<lparr>cur_offset := 1 + length (all_bytes WideTagged (take j cs))\<rparr>) [2] cs j" if "j \<le> length cs" for j
    using that f new(2) by (simp add: holds_def w1_def b plain_kind_def header_ok_def isTagged_def)
  moreover have "holds (rewind w1) [2] cs 0"
  proof -
    have "rewind (w1\<lparr>cur_offset := c\<rparr>) = rewind w1" for c by (simp add: rewind_def getBufferLength_def getBuffer_def)
    then show ?thesis using holds_rewind [OF w1 [of 0]] by simp
  qed
  moreover have "kind w' = WideTagged" "sizeLimit w' = sizeLimit w" by (simp_all add: w'_def w1_def rewind_def)
  ultimately show ?thesis by (auto simp: w'_def)
qed

text \<open>
  C35. When data is too long for a database parameter block of version 1, the block becomes one of version 2
  with the same clumplets, and the data is stored. It is inserted at the position of the writer if that is
  before a clumplet; but at the end of the block, where most calls append, the position is lost, and the
  clumplet goes to the front.
\<close>

theorem upgrade_keeps_clumplets:
  assumes "holds w [isc_dpb_version1] cs i" "kind w = Tagged" "kindList w = Some dpbList" "255 < length d"
    "1 + length (all_bytes WideTagged ((tag, d) # cs)) \<le> sizeLimit w" "sizeLimit w < 2 ^ 32 - 5"
  shows "\<exists>w'. insertBytes tag d w = Inr w' \<and> kind w' = WideTagged \<and>
    (if i < length cs then holds w' [isc_dpb_version2] (take i cs @ (tag, d) # drop i cs) (Suc i)
     else holds w' [isc_dpb_version2] ((tag, d) # cs) 1)"
proof -
  have len: "length (bytes_of WideTagged (tag, d)) = 5 + length d"
    by (simp add: bytes_of_def clump_type_def getClumpletType_def len_size_def)
  obtain w1 where w1: "upgradeVersion w = Inr (True, w1)" "holds w1 [2] cs (if i < length cs then i else 0)" "kind w1 = WideTagged"
    "sizeLimit w1 = sizeLimit w"
    using upgrade_holds [OF assms(1-3) _ assms(6)] assms(5) by auto
  have b: "getBuffer w1 = [2] @ all_bytes WideTagged cs" using holds_getBuffer [OF w1(2)] w1(3) by simp
  have f: "fits (kind w1) (tag, d)" using assms(5,6) len by (simp add: fits_wide w1(3))
  obtain w' where w': "insert_loop upgradeVersion (Suc 0) tag d w1 = Inr w'" "kind w' = kind w1"
    "holds w' [2] (take (if i < length cs then i else 0) cs @ (tag, d) # drop (if i < length cs then i else 0) cs) (Suc (if i < length cs then i else 0))"
    using insert_loop_holds [OF w1(2) f, of upgradeVersion 0] assms(5,6) len by (auto simp: b w1(3,4))
  have "insertBytes tag d w = insert_loop upgradeVersion (Suc 0) tag d w1"
    unfolding insertBytes_def insert_checked_loop [OF assms(1)]
    using assms(2,4) w1(1) by (subst insert_loop.simps) (simp add: getClumpletType_def check_length_def del: insert_loop.simps)
  then show ?thesis using w' w1(3) by auto
qed

lemma upgrade_keeps_clumplets_witness:
  "\<exists>w. insertBytes 48 (replicate 256 7) demo_writer = Inr w \<and> kind w = WideTagged \<and>
     holds w [isc_dpb_version2] [(48, replicate 256 7), (28, [65])] 1"
proof -
  have "length (bytes_of WideTagged (tag, d)) = 5 + length d" for tag d
    by (simp add: bytes_of_def clump_type_def getClumpletType_def len_size_def)
  then show ?thesis
    using upgrade_keeps_clumplets [OF demo_holds demo_facts(1,4), of "replicate 256 7" 48] by (simp add: demo_facts(3))
qed

text \<open>
  Integers are read back as they were stored: what \<open>insertInt\<close> and \<open>insertBigInt\<close> leave before the
  position, \<open>getInt\<close> and \<open>getBigInt\<close> give back.
\<close>

theorem integers_roundtrip:
  assumes "holds w h cs i" "length (getBuffer w) + 18 < 2 ^ 32" "length (getBuffer w) + 13 \<le> sizeLimit w"
  shows "(fits (kind w) (tag, replicate 4 0) \<longrightarrow>
      (\<exists>w'. insertInt tag v w = Inr w' \<and> getInt (w'\<lparr>cur_offset := cur_offset w\<rparr>) = Inr v)) \<and>
    (fits (kind w) (tag, replicate 8 0) \<longrightarrow>
      (\<exists>w'. insertBigInt tag x w = Inr w' \<and> getBigInt (w'\<lparr>cur_offset := cur_offset w\<rparr>) = Inr x))"
proof -
  have ins: "\<exists>w'. insertBytes tag d w = Inr w' \<and> getData (w'\<lparr>cur_offset := cur_offset w\<rparr>) = Inr d"
    if "fits (kind w) (tag, d)" "length d \<le> 8" for d
  proof -
    note fd = that(1) and len = that(2)
    obtain t where t: "clump_type (kind w) tag = Inr t" using fd by (auto simp: fits_def)
    have "len_size t \<le> 4" by (cases t) (simp_all add: len_size_def)
    then have "length (bytes_of (kind w) (tag, d)) \<le> 5 + length d" using t by (simp add: bytes_of_def)
    then obtain w' where w': "insertBytes tag d w = Inr w'" "holds w' h (take i cs @ (tag, d) # drop i cs) (Suc i)" "kind w' = kind w"
      using insert_loop_holds [OF assms(1) fd, of upgradeVersion "Suc 0"] assms(2,3) len
      unfolding insertBytes_def insert_checked_loop [OF assms(1)] by auto
    have i: "i \<le> length cs" by (rule holdsD(5) [OF assms(1)])
    have "holds (w'\<lparr>cur_offset := cur_offset w\<rparr>) h (take i cs @ (tag, d) # drop i cs) i"
      using holds_at [OF w'(2), of i] i holdsD(6) [OF assms(1)] w'(3) by simp
    from holds_current(1) [OF this] i have "getClumplet (w'\<lparr>cur_offset := cur_offset w\<rparr>) = Inr (tag, d)" by (simp add: nth_append)
    then show ?thesis using w'(1) by (auto simp: getClumplet_def split: sum.splits)
  qed
  have fit: "fits k (t, d) \<longleftrightarrow> fits k (t, d')" if "length d = length d'" for k t and d d' :: "uchar list" using that by (simp add: fits_def)
  have v: "(ucast (signed_take_bit 31 (scast v :: 64 word)) :: 32 word) = v"
  proof (rule bit_word_eqI)
    fix n assume "n < LENGTH(32)"
    then show "bit (ucast (signed_take_bit 31 (scast v :: 64 word)) :: 32 word) n = bit v n"
      by (cases "n = 31") (auto simp: bit_simps min_def)
  qed
  have x: "signed_take_bit 63 x = x"
  proof (rule bit_word_eqI)
    fix n assume "n < LENGTH(64)"
    then show "bit (signed_take_bit 63 x) n = bit x n" by (cases "n = 63") (auto simp: bit_simps min_def)
  qed
  show ?thesis
    using ins [of "toVaxInteger 4 (scast v)"] ins [of "toVaxInteger 8 x"] fromVax_toVax [of 4 "scast v"] fromVax_toVax [of 8 x] v x
      fit [of "toVaxInteger 4 (scast v)" "replicate 4 0"] fit [of "toVaxInteger 8 x" "replicate 8 0"]
    by (auto simp: insertInt_def insertBigInt_def getInt_def getBigInt_def)
qed

lemma integers_roundtrip_witness:
  "\<exists>w. insertInt 30 (- 5) demo_writer = Inr w \<and> getInt (w\<lparr>cur_offset := 4\<rparr>) = Inr (- 5)"
proof -
  have "cur_offset demo_writer = 4" by (simp add: demo_writer_def)
  then show ?thesis
    using integers_roundtrip [OF demo_holds, of 30 "- 5" 0] by (simp add: demo_facts fits_tagged)
qed

text \<open>
  \<open>find\<close> does not restore the state of a service parameter block: after a search for a tag that is not
  there the reader stands at the action again, but takes it for a parameter of that action, and the
  block can no longer be read.
\<close>

theorem find_loses_spb_state:
  "\<exists>r r' r1. r = new_reader SpbStart (Some [isc_action_svc_backup, isc_spb_dbname, 1, 0, 65]) \<and>
     find_tag isc_spb_verbose r = Inr (False, r') \<and> cur_offset r' = cur_offset r \<and>
     moveNext r = Inr r1 \<and> moveNext r' = Inl (invalid_structure ''unknown parameter for backup/restore'')"
proof -
  define r where "r = new_reader SpbStart (Some [isc_action_svc_backup, isc_spb_dbname, 1, 0, 65])"
  have r: "r = \<lparr>kind = SpbStart, buffer = Some [1, 106, 1, 0, 65], cur_offset = 0, spbState = 0\<rparr>"
    by (simp add: r_def new_reader_def rewind_def isTagged_def)
  have rw: "rewind r = r" by (simp add: r rewind_def isTagged_def)
  note steps = isEof_def getBufferLength_def getBuffer_def isTagged_def getClumpTag_def moveNext_def adjustSpbState_def
    getClumpletSize_def getClumpletType_def spb_start_type_def backup_type_def type_sizes_def Let_def
  have m1: "moveNext r = Inr (r\<lparr>cur_offset := 1, spbState := 1\<rparr>)" by (simp add: r steps)
  have m2: "moveNext (r\<lparr>cur_offset := 1, spbState := 1\<rparr>) = Inr (r\<lparr>cur_offset := 5, spbState := 1\<rparr>)" by (simp add: r steps)
  have "seek 107 r = seek 107 (r\<lparr>cur_offset := 1, spbState := 1\<rparr>)"
    using m1 by (subst seek.simps) (simp add: r isEof_def getBufferLength_def getBuffer_def isTagged_def getClumpTag_def)
  also have "\<dots> = seek 107 (r\<lparr>cur_offset := 5, spbState := 1\<rparr>)"
    using m2 by (subst seek.simps) (simp add: r isEof_def getBufferLength_def getBuffer_def isTagged_def getClumpTag_def)
  also have "\<dots> = Inr (False, r\<lparr>cur_offset := 5, spbState := 1\<rparr>)"
    by (subst seek.simps) (simp add: r isEof_def getBufferLength_def getBuffer_def isTagged_def)
  finally have "find_tag 107 r = Inr (False, r\<lparr>cur_offset := 0, spbState := 1\<rparr>)" by (simp add: find_tag_def rw) (simp add: r)
  moreover have "moveNext (r\<lparr>cur_offset := 0, spbState := 1\<rparr>) = Inl (invalid_structure ''unknown parameter for backup/restore'')"
    by (simp add: r steps)
  ultimately show ?thesis using m1 by (intro exI [of _ r] exI conjI) (auto simp: r_def [symmetric], simp add: r)
qed

end
