(* ===== verification/Snapshots.thy ===== *)
theory Snapshots
  imports Prelude
begin

text \<open>
  The snapshots of transactions, in shared memory: \<open>beginSnapshot\<close>, \<open>endSnapshot\<close>, the slot
  allocator and \<open>updateActiveSnapshots\<close> of class \<open>TipCache\<close> in \<open>src/jrd/tpc.cpp\<close>, the list of
  active snapshots that garbage collection uses (class \<open>ActiveSnapshots\<close> of
  \<open>src/jrd/Attachment.h\<close>), and its reader \<open>getSnapshotForVersion\<close>. An operation that writes
  shared memory is the list of its stores in their order, so that a process can be killed after any
  of them. Slot numbers are natural numbers; attachment and commit numbers have their 64 bits.
  Operations are atomic here: the mutex excludes writers, and readers that run between the
  stores of a writer are not modelled.
\<close>

subsection \<open>Shared memory\<close>

type_synonym commit_number = "64 word"
type_synonym att_number = "64 word"

text \<open>Commit numbers of transactions that are not committed, and of those committed long ago.\<close>

definition CN_PREHISTORIC :: commit_number where "CN_PREHISTORIC = 1"
definition CN_ACTIVE :: commit_number where "CN_ACTIVE = 0"
definition CN_LIMBO :: commit_number where "CN_LIMBO = - 1"
definition CN_DEAD :: commit_number where "CN_DEAD = - 2"
definition CN_MAX_NUMBER :: commit_number where "CN_MAX_NUMBER = - 3"

lemmas CN_defs = CN_PREHISTORIC_def CN_ACTIVE_def CN_LIMBO_def CN_DEAD_def CN_MAX_NUMBER_def

text \<open>\<open>GlobalTpcHeader\<close>: the counters all processes share.\<close>

record tpc_header =
  latest_commit_number :: commit_number
  oldest_transaction :: nat
  snapshot_release_count :: ulong
  latest_transaction_id :: "64 word"
  latest_attachment_id :: att_number
  latest_statement_id :: "64 word"
  latest_local_table_id :: "64 word"

text \<open>A slot is unused if its attachment is 0.\<close>

record snapshot_data =
  attachment_id :: att_number
  snapshot :: commit_number

record snapshot_list =
  slots_allocated :: nat
  slots_used :: nat
  min_free_slot :: nat
  slots :: "snapshot_data list"

definition free_slot :: snapshot_data where
  "free_slot = \<lparr>attachment_id = 0, snapshot = 0\<rparr>"

text \<open>
  The slots that fit in a mapping of \<open>len\<close> bytes; \<open>off\<close> is the offset of the first slot, which
  depends on the platform's mutex.
\<close>

definition slot_capacity :: "nat \<Rightarrow> nat \<Rightarrow> nat" where
  "slot_capacity off len = (len - off) div 16"

text \<open>\<open>SnapshotsInitializer\<close>: a new file is all zeros.\<close>

definition initialize_snapshots :: "nat \<Rightarrow> nat \<Rightarrow> snapshot_list" where
  "initialize_snapshots off len = \<lparr>slots_allocated = slot_capacity off len, slots_used = 0,
     min_free_slot = 0, slots = replicate (slot_capacity off len) free_slot\<rparr>"

text \<open>The stores of the operations; \<open>Extend\<close> is the file growing when it is remapped.\<close>

datatype snap_store =
    Store_allocated nat
  | Store_used nat
  | Store_min_free nat
  | Store_snapshot nat commit_number
  | Store_attachment nat att_number
  | Extend nat

fun store_step :: "snap_store \<Rightarrow> snapshot_list \<Rightarrow> snapshot_list" where
  "store_step (Store_allocated n) s = s\<lparr>slots_allocated := n\<rparr>"
| "store_step (Store_used n) s = s\<lparr>slots_used := n\<rparr>"
| "store_step (Store_min_free n) s = s\<lparr>min_free_slot := n\<rparr>"
| "store_step (Store_snapshot i c) s = s\<lparr>slots := (slots s)[i := (slots s ! i)\<lparr>snapshot := c\<rparr>]\<rparr>"
| "store_step (Store_attachment i a) s = s\<lparr>slots := (slots s)[i := (slots s ! i)\<lparr>attachment_id := a\<rparr>]\<rparr>"
| "store_step (Extend n) s = s\<lparr>slots := slots s @ replicate (n - length (slots s)) free_slot\<rparr>"

definition run_stores :: "snap_store list \<Rightarrow> snapshot_list \<Rightarrow> snapshot_list" where
  "run_stores ws s = fold store_step ws s"

datatype snap_error =
    Remap_failed
  | Snapshot_does_not_exist
  | Too_few_slots
  | Attachment_mismatch

subsection \<open>Allocation of slots\<close>

text \<open>The scan of previously used slots, from the watermark.\<close>

function first_free :: "snapshot_data list \<Rightarrow> nat \<Rightarrow> nat \<Rightarrow> nat" where
  "first_free xs i used =
     (if i < used then if attachment_id (xs ! i) = 0 then i else first_free xs (i + 1) used else i)"
  by pat_completeness auto
termination by (relation "measure (\<lambda>(xs, i, used). used - i)") auto

declare first_free.simps [simp del]

text \<open>
  \<open>allocateSnapshotSlot\<close>: the slot, the length the process has mapped then, and the stores. The
  operating system may refuse to remap the file (\<open>ok\<close>).
\<close>

definition allocateSnapshotSlot ::
  "nat \<Rightarrow> bool \<Rightarrow> nat \<Rightarrow> snapshot_list \<Rightarrow> snap_error + nat \<times> nat \<times> snap_store list" where
  "allocateSnapshotSlot off ok len s =
     (let slotNumber = first_free (slots s) (min_free_slot s) (slots_used s)
      in if slotNumber < slots_used s then Inr (slotNumber, len, [])
         else if slotNumber < slots_allocated s then Inr (slotNumber, len, [Store_used (slotNumber + 1)])
         else if \<not> ok then Inl Remap_failed
         else Inr (slotNumber, len * 2,
           [Extend (slot_capacity off (len * 2)), Store_allocated (slot_capacity off (len * 2)),
            Store_used (slotNumber + 1)]))"

text \<open>
  \<open>remapSnapshots\<close>: the length the process has mapped after it follows the growth of the file by
  others.
\<close>

definition remapSnapshots :: "nat \<Rightarrow> bool \<Rightarrow> nat \<Rightarrow> snapshot_list \<Rightarrow> snap_error + nat" where
  "remapSnapshots off ok len s =
     (if slots_allocated s \<noteq> slot_capacity off len
      then if ok then Inr (slots_allocated s * 16 + off) else Inl Remap_failed
      else Inr len)"

text \<open>The search for a snapshot the caller wants to share.\<close>

definition snapshot_exists :: "snapshot_list \<Rightarrow> commit_number \<Rightarrow> bool" where
  "snapshot_exists s cn =
     list_ex (\<lambda>i. attachment_id (slots s ! i) \<noteq> 0 \<and> snapshot (slots s ! i) = cn) [0..<slots_used s]"

text \<open>
  \<open>beginSnapshot\<close>: the handle, the commit number of the snapshot, the mapped length, the stores.
\<close>

definition beginSnapshot ::
  "nat \<Rightarrow> bool \<Rightarrow> bool \<Rightarrow> tpc_header \<Rightarrow> att_number \<Rightarrow> commit_number \<Rightarrow> nat \<Rightarrow> snapshot_list
   \<Rightarrow> snap_error + nat \<times> commit_number \<times> nat \<times> snap_store list" where
  "beginSnapshot off ok ok' h attachmentId commitNumber len s =
     (case remapSnapshots off ok len s of
        Inl e \<Rightarrow> Inl e
      | Inr len' \<Rightarrow>
          if commitNumber \<noteq> 0 \<and> \<not> snapshot_exists s commitNumber then Inl Snapshot_does_not_exist
          else case allocateSnapshotSlot off ok' len' s of
              Inl e \<Rightarrow> Inl e
            | Inr (slotNumber, len'', ws) \<Rightarrow>
                let cn = (if commitNumber = 0 then latest_commit_number h else commitNumber)
                in Inr (slotNumber, cn, len'',
                     ws @ [Store_snapshot slotNumber cn, Store_attachment slotNumber attachmentId,
                           Store_min_free (slotNumber + 1)]))"

subsection \<open>Release of slots\<close>

text \<open>The slots in use below a released slot that was the last one.\<close>

fun used_below :: "snapshot_data list \<Rightarrow> nat \<Rightarrow> nat" where
  "used_below xs 0 = 0"
| "used_below xs (Suc i) = (if attachment_id (xs ! i) = 0 then used_below xs i else Suc i)"

definition deallocateSnapshotSlot :: "nat \<Rightarrow> snapshot_list \<Rightarrow> snap_store list" where
  "deallocateSnapshotSlot slotNumber s =
     (if slotNumber < min_free_slot s then [Store_min_free slotNumber] else []) @
     [Store_snapshot slotNumber 0, Store_attachment slotNumber 0] @
     (if slotNumber + 1 = slots_used s then [Store_used (used_below (slots s) slotNumber)] else [])"

text \<open>\<open>endSnapshot\<close>: the stores, and the header with its count of releases.\<close>

definition endSnapshot ::
  "tpc_header \<Rightarrow> nat \<Rightarrow> att_number \<Rightarrow> snapshot_list \<Rightarrow> snap_error + snap_store list \<times> tpc_header" where
  "endSnapshot h handle attachmentId s =
     (if slots_used s \<le> handle then Inl Too_few_slots
      else if attachment_id (slots s ! handle) \<noteq> attachmentId then Inl Attachment_mismatch
      else Inr (deallocateSnapshotSlot handle s,
             h\<lparr>snapshot_release_count := snapshot_release_count h + 1\<rparr>))"

subsection \<open>The list of active snapshots\<close>

text \<open>
  \<open>ActiveSnapshots\<close>, with the commit numbers in its bitmap as a list.
\<close>

record active_snapshots =
  m_snapshots :: "commit_number list"
  m_lastCommit :: commit_number
  m_releaseCount :: ulong
  m_slots_used :: nat

definition new_active_snapshots :: active_snapshots where
  "new_active_snapshots = \<lparr>m_snapshots = [], m_lastCommit = CN_ACTIVE, m_releaseCount = 0, m_slots_used = 0\<rparr>"

text \<open>\<open>locate (locGreatEqual, v)\<close>: the least number in the bitmap that is not below \<open>v\<close>.\<close>

definition locate_ge :: "commit_number list \<Rightarrow> commit_number \<Rightarrow> commit_number option" where
  "locate_ge xs v = (case List.filter (\<lambda>x. v \<le> x) xs of [] \<Rightarrow> None | y # ys \<Rightarrow> Some (fold min ys y))"

definition getSnapshotForVersion :: "active_snapshots \<Rightarrow> commit_number \<Rightarrow> commit_number" where
  "getSnapshotForVersion a version_cn =
     (if m_lastCommit a < version_cn then CN_ACTIVE
      else case locate_ge (m_snapshots a) version_cn of Some c \<Rightarrow> c | None \<Rightarrow> m_lastCommit a)"

text \<open>
  The loop of the slow path: \<open>dead\<close> says for which attachments the lock manager grants an exclusive
  lock. It has the slots it visits, the shared memory and the bitmap.
\<close>

definition add_slot :: "snapshot_data \<Rightarrow> commit_number list \<Rightarrow> commit_number list" where
  "add_slot slot xs = (if snapshot slot \<noteq> 0 then snapshot slot # xs else xs)"

fun purge_dead :: "(att_number \<Rightarrow> bool) \<Rightarrow> nat list \<Rightarrow> snapshot_list \<Rightarrow> commit_number list \<Rightarrow> snapshot_list \<times> commit_number list" where
  "purge_dead dead [] s xs = (s, xs)"
| "purge_dead dead (i # is) s xs =
     (let slot = slots s ! i
      in if attachment_id slot = 0 then purge_dead dead is s xs
         else if dead (attachment_id slot) then purge_dead dead is (run_stores (deallocateSnapshotSlot i s) s) xs
         else purge_dead dead is s (add_slot slot xs))"

text \<open>The loop of the fast path.\<close>

fun collect_slots :: "snapshot_data list \<Rightarrow> commit_number list \<Rightarrow> commit_number list" where
  "collect_slots [] xs = xs"
| "collect_slots (slot # ss) xs =
     collect_slots ss (if attachment_id slot \<noteq> 0 then add_slot slot xs else xs)"

definition updateActiveSnapshots ::
  "(att_number \<Rightarrow> bool) \<Rightarrow> tpc_header \<Rightarrow> snapshot_list \<Rightarrow> active_snapshots \<Rightarrow> snapshot_list \<times> active_snapshots" where
  "updateActiveSnapshots dead h s a =
     (if m_lastCommit a = CN_ACTIVE
      then let (s', xs) = purge_dead dead [0..<slots_used s] s []
           in (s', a\<lparr>m_lastCommit := latest_commit_number h,
                     m_releaseCount := snapshot_release_count h, m_snapshots := xs\<rparr>)
      else let a' = a\<lparr>m_lastCommit := latest_commit_number h\<rparr>
           in if m_releaseCount a' = snapshot_release_count h \<and> m_slots_used a' = slots_used s then (s, a')
              else (s, a'\<lparr>m_slots_used := slots_used s, m_releaseCount := snapshot_release_count h,
                          m_snapshots := collect_slots (take (slots_used s) (slots s)) []\<rparr>))"

subsection \<open>What the stores keep\<close>

text \<open>
  The invariant every store keeps: slots below the watermark are taken, slots from \<open>slots_used\<close> on
  are free, and the counts fit in the file.
\<close>

definition snapshots_ok :: "snapshot_list \<Rightarrow> bool" where
  "snapshots_ok s \<longleftrightarrow> min_free_slot s \<le> slots_used s \<and> slots_used s \<le> slots_allocated s \<and>
     0 < slots_allocated s \<and> slots_allocated s \<le> length (slots s) \<and>
     (\<forall>i < min_free_slot s. attachment_id (slots s ! i) \<noteq> 0) \<and>
     (\<forall>i < length (slots s). slots_used s \<le> i \<longrightarrow> attachment_id (slots s ! i) = 0)"

text \<open>The abstract state: which attachment holds which snapshot under a handle.\<close>

definition live_snapshot :: "snapshot_list \<Rightarrow> nat \<Rightarrow> (att_number \<times> commit_number) option" where
  "live_snapshot s i =
     (if i < slots_used s \<and> attachment_id (slots s ! i) \<noteq> 0
      then Some (attachment_id (slots s ! i), snapshot (slots s ! i)) else None)"

text \<open>A predicate holds in every state a process killed among the stores can leave.\<close>

fun at_all_stores :: "(snapshot_list \<Rightarrow> bool) \<Rightarrow> snap_store list \<Rightarrow> snapshot_list \<Rightarrow> bool" where
  "at_all_stores P [] s = P s"
| "at_all_stores P (w # ws) s = (P s \<and> at_all_stores P ws (store_step w s))"

lemma run_stores_simps [simp]:
  "run_stores [] s = s"
  "run_stores (w # ws) s = run_stores ws (store_step w s)"
  "run_stores (vs @ ws) s = run_stores ws (run_stores vs s)"
  by (simp_all add: run_stores_def)

lemma at_all_stores_append [simp]:
  "at_all_stores P (vs @ ws) s \<longleftrightarrow> at_all_stores P vs s \<and> at_all_stores P ws (run_stores vs s)"
proof (induction vs arbitrary: s)
  case Nil
  then show ?case by (cases ws) auto
qed simp

lemma at_all_stores_take: "at_all_stores P ws s \<Longrightarrow> P (run_stores (take k ws) s)"
proof (induction ws arbitrary: s k)
  case (Cons w ws)
  then show ?case by (cases k) auto
qed simp

lemma at_all_stores_end: "at_all_stores P ws s \<Longrightarrow> P (run_stores ws s)"
  using at_all_stores_take [of P ws s "length ws"] by simp

lemma initialize_snapshots_ok:
  "0 < slot_capacity off len \<Longrightarrow> snapshots_ok (initialize_snapshots off len)"
  by (simp add: snapshots_ok_def initialize_snapshots_def free_slot_def)

lemma live_snapshot_initial: "live_snapshot (initialize_snapshots off len) i = None"
  by (simp add: live_snapshot_def initialize_snapshots_def)

lemma first_free_cases:
  "i \<le> used \<Longrightarrow> i \<le> first_free xs i used \<and> first_free xs i used \<le> used \<and>
     (\<forall>j. i \<le> j \<longrightarrow> j < first_free xs i used \<longrightarrow> attachment_id (xs ! j) \<noteq> 0) \<and>
     (first_free xs i used < used \<longrightarrow> attachment_id (xs ! first_free xs i used) = 0)"
proof (induction xs i used rule: first_free.induct)
  case (1 xs i used)
  show ?case
  proof (cases "i < used \<and> attachment_id (xs ! i) \<noteq> 0")
    case True
    then have "first_free xs i used = first_free xs (i + 1) used"
      by (simp add: first_free.simps [of xs i])
    moreover have "\<And>j. i \<le> j \<Longrightarrow> j = i \<or> i + 1 \<le> j" by linarith
    moreover have "i + 1 \<le> used" using True by simp
    ultimately show ?thesis using "1.IH" True
      by (metis (no_types, lifting) add_leD1)
  next
    case False
    then have "first_free xs i used = i" by (auto simp: first_free.simps [of xs i])
    with 1 False show ?thesis by auto
  qed
qed

lemma used_below_cases:
  "used_below xs n \<le> n" "used_below xs n \<le> j \<Longrightarrow> j < n \<Longrightarrow> attachment_id (xs ! j) = 0"
  "(\<forall>j<m. attachment_id (xs ! j) \<noteq> 0) \<Longrightarrow> m \<le> n \<Longrightarrow> m \<le> used_below xs n"
proof -
  show "used_below xs n \<le> n" by (induction n) auto
  show "used_below xs n \<le> j \<Longrightarrow> j < n \<Longrightarrow> attachment_id (xs ! j) = 0"
    by (induction n) (auto simp: less_Suc_eq split: if_splits)
  show "(\<forall>j<m. attachment_id (xs ! j) \<noteq> 0) \<Longrightarrow> m \<le> n \<Longrightarrow> m \<le> used_below xs n"
    by (induction n) (auto simp: le_Suc_eq)
qed

text \<open>The effect of each store on the invariant and on the abstract state.\<close>

lemma store_used_grows:
  "snapshots_ok s \<Longrightarrow> slots_used s \<le> n \<Longrightarrow> n \<le> slots_allocated s \<Longrightarrow>
     snapshots_ok (store_step (Store_used n) s) \<and>
     live_snapshot (store_step (Store_used n) s) = live_snapshot s"
  by (auto simp: snapshots_ok_def live_snapshot_def fun_eq_iff)
     (meson le_trans less_le_trans not_le)

lemma store_used_shrinks:
  "snapshots_ok s \<Longrightarrow> min_free_slot s \<le> n \<Longrightarrow> n \<le> slots_used s \<Longrightarrow>
     \<forall>i. n \<le> i \<longrightarrow> i < slots_used s \<longrightarrow> attachment_id (slots s ! i) = 0 \<Longrightarrow>
     snapshots_ok (store_step (Store_used n) s) \<and>
     live_snapshot (store_step (Store_used n) s) = live_snapshot s"
  by (auto simp: snapshots_ok_def live_snapshot_def fun_eq_iff not_less leD)

lemma store_snapshot_effect:
  "snapshots_ok s \<Longrightarrow> i < slots_used s \<Longrightarrow>
     snapshots_ok (store_step (Store_snapshot i c) s) \<and>
     live_snapshot (store_step (Store_snapshot i c) s) =
       (live_snapshot s)(i := map_option (\<lambda>(a, _). (a, c)) (live_snapshot s i))"
  by (auto simp: snapshots_ok_def live_snapshot_def fun_eq_iff nth_list_update)

lemma store_attachment_effect:
  "snapshots_ok s \<Longrightarrow> i < slots_used s \<Longrightarrow> a \<noteq> 0 \<or> min_free_slot s \<le> i \<Longrightarrow>
     snapshots_ok (store_step (Store_attachment i a) s) \<and>
     live_snapshot (store_step (Store_attachment i a) s) =
       (live_snapshot s)(i := if a = 0 then None else Some (a, snapshot (slots s ! i)))"
  by (auto simp: snapshots_ok_def live_snapshot_def fun_eq_iff nth_list_update)

lemma store_min_free_effect:
  "snapshots_ok s \<Longrightarrow> n \<le> slots_used s \<Longrightarrow> \<forall>i<n. attachment_id (slots s ! i) \<noteq> 0 \<Longrightarrow>
     snapshots_ok (store_step (Store_min_free n) s) \<and>
     live_snapshot (store_step (Store_min_free n) s) = live_snapshot s"
  by (auto simp: snapshots_ok_def live_snapshot_def fun_eq_iff)

lemma extend_effect:
  "snapshots_ok s \<Longrightarrow> snapshots_ok (store_step (Extend n) s) \<and>
     live_snapshot (store_step (Extend n) s) = live_snapshot s"
  by (auto simp: snapshots_ok_def live_snapshot_def fun_eq_iff nth_append free_slot_def)

lemma store_allocated_effect:
  "snapshots_ok s \<Longrightarrow> slots_used s \<le> n \<Longrightarrow> 0 < n \<Longrightarrow> n \<le> length (slots s) \<Longrightarrow>
     snapshots_ok (store_step (Store_allocated n) s) \<and>
     live_snapshot (store_step (Store_allocated n) s) = live_snapshot s"
  by (auto simp: snapshots_ok_def live_snapshot_def fun_eq_iff)

text \<open>All states that \<open>allocateSnapshotSlot\<close> leaves: the slot it returns is free.\<close>

lemma slot_capacity_doubled:
  "0 < slot_capacity off len \<Longrightarrow> slot_capacity off len < slot_capacity off (len * 2)"
proof -
  assume "0 < slot_capacity off len"
  then have "slot_capacity off len * 16 \<le> len - off" "1 \<le> slot_capacity off len"
    unfolding slot_capacity_def by simp_all
  then have "off \<le> len" "slot_capacity off len * 16 + 16 \<le> 2 * (len - off)" by linarith+
  then have "(slot_capacity off len + 1) * 16 \<le> len * 2 - off" by (simp add: algebra_simps)
  then have "((slot_capacity off len + 1) * 16) div 16 \<le> (len * 2 - off) div 16"
    by (rule div_le_mono)
  then have "slot_capacity off len + 1 \<le> (len * 2 - off) div 16"
    unfolding nonzero_mult_div_cancel_right [OF zero_neq_numeral [symmetric]] .
  then show ?thesis unfolding slot_capacity_def [of off "len * 2"] by linarith
qed

lemma remapSnapshots_capacity:
  "remapSnapshots off ok len s = Inr len' \<Longrightarrow> slot_capacity off len' = slots_allocated s"
  by (auto simp: remapSnapshots_def slot_capacity_def split: if_splits)

lemma allocate_effect:
  assumes ok: "snapshots_ok s" and len: "slot_capacity off len = slots_allocated s"
    and alloc: "allocateSnapshotSlot off r len s = Inr (i, len', ws)"
  shows "at_all_stores (\<lambda>s'. snapshots_ok s' \<and> live_snapshot s' = live_snapshot s) ws s \<and>
     i < slots_used (run_stores ws s) \<and> attachment_id (slots (run_stores ws s) ! i) = 0 \<and>
     min_free_slot (run_stores ws s) \<le> i \<and>
     (\<forall>j<i. attachment_id (slots (run_stores ws s) ! j) \<noteq> 0)"
proof -
  define n where "n = first_free (slots s) (min_free_slot s) (slots_used s)"
  have n: "min_free_slot s \<le> n" "n \<le> slots_used s"
    "\<forall>j. min_free_slot s \<le> j \<longrightarrow> j < n \<longrightarrow> attachment_id (slots s ! j) \<noteq> 0"
    "n < slots_used s \<Longrightarrow> attachment_id (slots s ! n) = 0"
    using ok first_free_cases [of "min_free_slot s" "slots_used s" "slots s"]
    unfolding n_def snapshots_ok_def by blast+
  have below: "\<forall>j<n. attachment_id (slots s ! j) \<noteq> 0"
    using ok n(3) unfolding snapshots_ok_def by (meson not_le)
  note cases = alloc [unfolded allocateSnapshotSlot_def Let_def, folded n_def]
  consider (free) "n < slots_used s" "ws = []" "i = n"
    | (next_one) "n = slots_used s" "n < slots_allocated s" "ws = [Store_used (n + 1)]" "i = n"
    | (grow) "n = slots_used s" "slots_allocated s \<le> n" "i = n"
        "ws = [Extend (slot_capacity off (len * 2)), Store_allocated (slot_capacity off (len * 2)),
               Store_used (n + 1)]"
    using cases n(2) by (cases "n < slots_used s"; cases "n < slots_allocated s"; cases r; fastforce)
  then show ?thesis
  proof cases
    case free
    with ok n below show ?thesis by simp
  next
    case next_one
    then have "attachment_id (slots s ! n) = 0" using ok by (simp add: snapshots_ok_def)
    with next_one ok n below store_used_grows [OF ok, of "n + 1"] show ?thesis by simp
  next
    case grow
    let ?c = "slot_capacity off (len * 2)"
    have c: "slots_used s < ?c" "n = slots_allocated s"
      using grow ok slot_capacity_doubled [of off len] len by (auto simp: snapshots_ok_def)
    let ?s1 = "store_step (Extend ?c) s"
    have s1: "snapshots_ok ?s1" "live_snapshot ?s1 = live_snapshot s" "?c \<le> length (slots ?s1)"
      "slots_used ?s1 = slots_used s" "min_free_slot ?s1 = min_free_slot s"
      using extend_effect [OF ok, of ?c] by simp_all
    let ?s2 = "store_step (Store_allocated ?c) ?s1"
    have s2: "snapshots_ok ?s2" "live_snapshot ?s2 = live_snapshot s"
      using store_allocated_effect [OF s1(1), of ?c] s1 c by simp_all
    have s3: "snapshots_ok (store_step (Store_used (n + 1)) ?s2)"
      "live_snapshot (store_step (Store_used (n + 1)) ?s2) = live_snapshot s"
      using store_used_grows [OF s2(1), of "n + 1"] s2(2) c grow(1) by simp_all
    have nth: "\<forall>j<n. slots ?s1 ! j = slots s ! j"
      using ok grow(1) by (auto simp: snapshots_ok_def nth_append)
    have len_n: "n < length (slots ?s1)" using s1(3) c(1) grow(1) by (simp del: store_step.simps)
    have zero: "attachment_id (slots ?s1 ! n) = 0"
      using s1(1,4) len_n grow(1) unfolding snapshots_ok_def by (auto simp del: store_step.simps)
    let ?s3 = "store_step (Store_used (n + 1)) ?s2"
    have run: "run_stores ws s = ?s3" using grow(4) by (simp del: store_step.simps)
    have all: "at_all_stores (\<lambda>s'. snapshots_ok s' \<and> live_snapshot s' = live_snapshot s) ws s"
      using ok s1(1,2) s2 s3 grow(4) by (simp del: store_step.simps)
    have s3': "slots ?s3 = slots ?s1" "slots_used ?s3 = n + 1" "min_free_slot ?s3 = min_free_slot s"
      by simp_all
    have "\<forall>j<n. attachment_id (slots ?s3 ! j) \<noteq> 0"
      unfolding s3' using nth below by (metis (no_types))
    then show ?thesis unfolding run grow(3)
      using all zero n(1) s3' by (simp del: store_step.simps add: run)
  qed
qed

lemma begin_effect:
  assumes ok: "snapshots_ok s" and att: "att \<noteq> 0"
    and begun: "beginSnapshot off r r' h att c len s = Inr (i, cn, len', ws)"
  shows "at_all_stores (\<lambda>s'. snapshots_ok s' \<and>
       live_snapshot s' \<in> {live_snapshot s, (live_snapshot s)(i \<mapsto> (att, cn))}) ws s \<and>
     live_snapshot (run_stores ws s) = (live_snapshot s)(i \<mapsto> (att, cn)) \<and> live_snapshot s i = None"
proof -
  obtain len1 vs where remap: "remapSnapshots off r len s = Inr len1"
    and alloc: "allocateSnapshotSlot off r' len1 s = Inr (i, len', vs)"
    and ws: "ws = vs @ [Store_snapshot i cn, Store_attachment i att, Store_min_free (i + 1)]"
    using begun by (auto simp: beginSnapshot_def Let_def split: sum.splits if_splits)
  let ?s = "run_stores vs s"
  have vs: "at_all_stores (\<lambda>s'. snapshots_ok s' \<and> live_snapshot s' = live_snapshot s) vs s"
    and slot: "i < slots_used ?s" "attachment_id (slots ?s ! i) = 0" "min_free_slot ?s \<le> i"
      "\<forall>j<i. attachment_id (slots ?s ! j) \<noteq> 0"
    using allocate_effect [OF ok remapSnapshots_capacity [OF remap] alloc] by blast+
  have s: "snapshots_ok ?s" "live_snapshot ?s = live_snapshot s"
    using at_all_stores_end [OF vs] by simp_all
  have i: "i < length (slots ?s)" using s(1) slot(1) by (simp add: snapshots_ok_def)
  let ?s1 = "store_step (Store_snapshot i cn) ?s"
  have none: "live_snapshot ?s i = None" using slot(2) by (simp add: live_snapshot_def)
  have s1: "snapshots_ok ?s1" "live_snapshot ?s1 = live_snapshot s"
    using store_snapshot_effect [OF s(1) slot(1), of cn] none s(2) by (auto simp: fun_upd_idem)
  let ?s2 = "store_step (Store_attachment i att) ?s1"
  have s2: "snapshots_ok ?s2" "live_snapshot ?s2 = (live_snapshot s)(i \<mapsto> (att, cn))"
    using store_attachment_effect [OF s1(1), of i att] att slot(1) s1(2) i by simp_all
  let ?s3 = "store_step (Store_min_free (i + 1)) ?s2"
  have taken: "\<forall>j < i + 1. attachment_id (slots ?s2 ! j) \<noteq> 0"
    using slot(4) att i by (auto simp: nth_list_update less_Suc_eq)
  have s3: "snapshots_ok ?s3" "live_snapshot ?s3 = (live_snapshot s)(i \<mapsto> (att, cn))"
    using store_min_free_effect [OF s2(1) _ taken] slot(1) s2(2) by simp_all
  have weak: "at_all_stores P vs s \<Longrightarrow> (\<And>s'. P s' \<Longrightarrow> Q s') \<Longrightarrow> at_all_stores Q vs s" for P Q
    by (induction vs arbitrary: s) auto
  have "at_all_stores (\<lambda>s'. snapshots_ok s' \<and>
      live_snapshot s' \<in> {live_snapshot s, (live_snapshot s)(i \<mapsto> (att, cn))}) vs s"
    by (rule weak [OF vs]) simp
  with s s1 s2 s3 none show ?thesis unfolding ws
    by (simp del: store_step.simps)
qed

lemma deallocate_effect:
  assumes ok: "snapshots_ok s" and i: "i < slots_used s"
  shows "at_all_stores (\<lambda>s'. snapshots_ok s' \<and> (\<forall>j. j \<noteq> i \<longrightarrow> live_snapshot s' j = live_snapshot s j))
       (deallocateSnapshotSlot i s) s \<and>
     live_snapshot (run_stores (deallocateSnapshotSlot i s) s) = (live_snapshot s)(i := None) \<and>
     slots_used (run_stores (deallocateSnapshotSlot i s) s) \<le> slots_used s \<and>
     length (slots (run_stores (deallocateSnapshotSlot i s) s)) = length (slots s)"
proof -
  let ?w0 = "if i < min_free_slot s then [Store_min_free i] else []"
  let ?s0 = "run_stores ?w0 s"
  have s0: "snapshots_ok ?s0" "live_snapshot ?s0 = live_snapshot s" "slots ?s0 = slots s"
    "slots_used ?s0 = slots_used s" "min_free_slot ?s0 \<le> i"
    using ok i store_min_free_effect [OF ok, of i] by (auto simp: snapshots_ok_def)
  let ?s1 = "store_step (Store_snapshot i 0) ?s0"
  have s1: "snapshots_ok ?s1" "\<forall>j. j \<noteq> i \<longrightarrow> live_snapshot ?s1 j = live_snapshot s j"
    "slots_used ?s1 = slots_used s" "min_free_slot ?s1 \<le> i" "length (slots ?s1) = length (slots s)"
    "\<forall>j. j \<noteq> i \<longrightarrow> slots ?s1 ! j = slots s ! j"
    using store_snapshot_effect [OF s0(1), of i 0] s0 i by simp_all
  let ?s2 = "store_step (Store_attachment i 0) ?s1"
  have s2_live: "snapshots_ok ?s2 \<and> live_snapshot ?s2 = (live_snapshot ?s1)(i := None)"
    using store_attachment_effect [OF s1(1), of i 0] s1(3,4) i by (simp del: store_step.simps)
  have s2: "snapshots_ok ?s2" "live_snapshot ?s2 = (live_snapshot s)(i := None)"
    "slots_used ?s2 = slots_used s" "min_free_slot ?s2 \<le> i" "length (slots ?s2) = length (slots s)"
    "\<forall>j. j \<noteq> i \<longrightarrow> slots ?s2 ! j = slots s ! j"
  proof -
    show "snapshots_ok ?s2" using s2_live by blast
    show "live_snapshot ?s2 = (live_snapshot s)(i := None)"
      unfolding conjunct2 [OF s2_live] by (rule ext) (metis fun_upd_apply s1(2))
  qed (use s1(3-6) in simp_all)
  let ?u = "used_below (slots s) i"
  let ?s3 = "store_step (Store_used ?u) ?s2"
  have s3: "snapshots_ok ?s3 \<and> live_snapshot ?s3 = (live_snapshot s)(i := None)"
    if last: "i + 1 = slots_used s"
  proof -
    have zero: "attachment_id (slots ?s2 ! i) = 0"
      using i ok by (simp add: snapshots_ok_def nth_list_update s0(3))
    have "attachment_id (slots ?s2 ! j) = 0" if "?u \<le> j" "j < slots_used ?s2" for j
    proof (cases "j = i")
      case False
      then have "j < i" using that(2) last s2(3) by linarith
      then have "attachment_id (slots s ! j) = 0" by (rule used_below_cases(2) [OF that(1)])
      moreover have "slots ?s2 ! j = slots s ! j" using s2(6) False by blast
      ultimately show ?thesis by metis
    qed (use zero in simp)
    moreover have "min_free_slot ?s2 \<le> ?u"
    proof (rule used_below_cases(3) [OF _ s2(4)])
      show "\<forall>j<min_free_slot ?s2. attachment_id (slots s ! j) \<noteq> 0"
      proof (intro allI impI)
        fix j assume j: "j < min_free_slot ?s2"
        then have "j \<noteq> i" using s2(4) by linarith
        then have "slots ?s2 ! j = slots s ! j" using s2(6) by blast
        moreover have "attachment_id (slots ?s2 ! j) \<noteq> 0"
          using s2(1) j unfolding snapshots_ok_def by blast
        ultimately show "attachment_id (slots s ! j) \<noteq> 0" by metis
      qed
    qed
    moreover have "?u \<le> slots_used ?s2"
      using used_below_cases(1) [of "slots s" i] i s2(3) by linarith
    ultimately show ?thesis
      using store_used_shrinks [OF s2(1), of ?u] s2(2) by simp
  qed
  have before: "at_all_stores (\<lambda>s'. snapshots_ok s' \<and>
      (\<forall>j. j \<noteq> i \<longrightarrow> live_snapshot s' j = live_snapshot s j)) ?w0 s"
    using ok s0(1,2) by auto
  let ?w3 = "if i + 1 = slots_used s then [Store_used ?u] else []"
  have after: "at_all_stores (\<lambda>s'. snapshots_ok s' \<and>
      (\<forall>j. j \<noteq> i \<longrightarrow> live_snapshot s' j = live_snapshot s j)) ?w3 ?s2 \<and>
      live_snapshot (run_stores ?w3 ?s2) = (live_snapshot s)(i := None) \<and>
      slots_used (run_stores ?w3 ?s2) \<le> slots_used s \<and> length (slots (run_stores ?w3 ?s2)) = length (slots s)"
  proof (cases "i + 1 = slots_used s")
    case True
    have "slots_used ?s3 = ?u" "length (slots ?s3) = length (slots s)" "?u \<le> slots_used s"
      using s2(5) used_below_cases(1) [of "slots s" i] i by simp_all
    with s2(1,2) s3 [OF True] True show ?thesis by (simp del: store_step.simps)
  qed (use s2 in \<open>simp del: store_step.simps\<close>)
  have run: "run_stores (deallocateSnapshotSlot i s) s = run_stores ?w3 ?s2"
    by (simp add: deallocateSnapshotSlot_def del: store_step.simps)
  have all: "at_all_stores P (deallocateSnapshotSlot i s) s \<longleftrightarrow>
      at_all_stores P ?w0 s \<and> P ?s0 \<and> P ?s1 \<and> P ?s2 \<and> at_all_stores P ?w3 ?s2" for P
  proof -
    have hd: "at_all_stores P ws t \<Longrightarrow> P t" for ws t by (cases ws) auto
    show ?thesis unfolding deallocateSnapshotSlot_def at_all_stores_append
      using hd [of _ ?s2] by (auto simp del: store_step.simps)
  qed
  have q0: "\<forall>j. j \<noteq> i \<longrightarrow> live_snapshot ?s0 j = live_snapshot s j" unfolding s0(2) by blast
  have q2: "\<forall>j. j \<noteq> i \<longrightarrow> live_snapshot ?s2 j = live_snapshot s j" unfolding s2(2) by simp
  show ?thesis unfolding run all
    by (intro conjI before s0(1) q0 s1(1,2) s2(1) q2 conjunct1 [OF after]
        conjunct1 [OF conjunct2 [OF after]] conjunct1 [OF conjunct2 [OF conjunct2 [OF after]]]
        conjunct2 [OF conjunct2 [OF conjunct2 [OF after]]])
qed

text \<open>The handle of \<open>endSnapshot\<close> has to be live for the caller's attachment.\<close>

lemma endSnapshot_cases:
  "endSnapshot h i att s =
     (if slots_used s \<le> i then Inl Too_few_slots
      else if att \<noteq> 0 \<and> map_option fst (live_snapshot s i) \<noteq> Some att \<or> att = 0 \<and> live_snapshot s i \<noteq> None
        then Inl Attachment_mismatch
      else Inr (deallocateSnapshotSlot i s, h\<lparr>snapshot_release_count := snapshot_release_count h + 1\<rparr>))"
  by (auto simp: endSnapshot_def live_snapshot_def)

text \<open>The slow path of \<open>updateActiveSnapshots\<close>.\<close>

lemma purge_dead_effect:
  assumes "snapshots_ok s" "set is \<subseteq> {..<length (slots s)}" "purge_dead dead is s xs = (s', xs')"
  shows "snapshots_ok s' \<and> set xs \<subseteq> set xs' \<and> slots_used s' \<le> slots_used s \<and>
     (\<forall>i a c. live_snapshot s' i = Some (a, c) \<longrightarrow> live_snapshot s i = Some (a, c) \<and>
        (i \<in> set is \<longrightarrow> c \<noteq> 0 \<longrightarrow> c \<in> set xs')) \<and>
     (\<forall>i a c. live_snapshot s i = Some (a, c) \<longrightarrow> \<not> dead a \<longrightarrow> live_snapshot s' i = Some (a, c))"
  using assms
proof (induction dead "is" s xs arbitrary: s' xs' rule: purge_dead.induct)
  case (1 dead s xs)
  then show ?case by simp
next
  case (2 dead i "is" s xs)
  let ?slot = "slots s ! i"
  have len: "i < length (slots s)" "set is \<subseteq> {..<length (slots s)}" using "2.prems"(2) by auto
  consider (free) "attachment_id ?slot = 0"
    | (dead) "attachment_id ?slot \<noteq> 0" "dead (attachment_id ?slot)"
    | (alive) "attachment_id ?slot \<noteq> 0" "\<not> dead (attachment_id ?slot)" by blast
  then show ?case
  proof cases
    case free
    then have none: "live_snapshot s i = None" by (simp add: live_snapshot_def)
    have "purge_dead dead is s xs = (s', xs')" using "2.prems"(3) free by (simp add: Let_def)
    note ih = "2.IH"(1) [OF refl free "2.prems"(1) len(2) this]
    have live: "live_snapshot s j = Some (a, c) \<and> (j \<in> set (i # is) \<longrightarrow> c \<noteq> 0 \<longrightarrow> c \<in> set xs')"
      if "live_snapshot s' j = Some (a, c)" for j a c
    proof -
      have "live_snapshot s j = Some (a, c) \<and> (j \<in> set is \<longrightarrow> c \<noteq> 0 \<longrightarrow> c \<in> set xs')"
        using ih that by blast
      then show ?thesis using none by auto
    qed
    show ?thesis by (intro conjI allI impI) (use ih live in blast)+
  next
    case dead
    have used: "i < slots_used s" using "2.prems"(1) len(1) dead(1) by (meson not_le snapshots_ok_def)
    let ?t = "run_stores (deallocateSnapshotSlot i s) s"
    have t: "snapshots_ok ?t" "live_snapshot ?t = (live_snapshot s)(i := None)"
      "slots_used ?t \<le> slots_used s" "length (slots ?t) = length (slots s)"
      using deallocate_effect [OF "2.prems"(1) used] at_all_stores_end by blast+
    have i: "live_snapshot s i = Some (attachment_id ?slot, snapshot ?slot)"
      using used dead(1) by (simp add: live_snapshot_def)
    have "purge_dead dead is ?t xs = (s', xs')" using "2.prems"(3) dead by (simp add: Let_def)
    note ih = "2.IH"(2) [OF refl dead t(1) _ this]
    have "set is \<subseteq> {..<length (slots ?t)}" using len(2) t(4) by simp
    note ih = ih [OF this, unfolded t(2)]
    have live: "live_snapshot s j = Some (a, c) \<and> (j \<in> set (i # is) \<longrightarrow> c \<noteq> 0 \<longrightarrow> c \<in> set xs')"
      if "live_snapshot s' j = Some (a, c)" for j a c
    proof -
      have "((live_snapshot s)(i := None)) j = Some (a, c) \<and> (j \<in> set is \<longrightarrow> c \<noteq> 0 \<longrightarrow> c \<in> set xs')"
        using ih that by blast
      then show ?thesis by (auto split: if_splits)
    qed
    have keep: "live_snapshot s' j = Some (a, c)"
      if "live_snapshot s j = Some (a, c)" "\<not> dead a" for j a c
    proof -
      have "j \<noteq> i" using that i dead(2) by auto
      then have "((live_snapshot s)(i := None)) j = Some (a, c)" using that by simp
      then show ?thesis using ih that(2) by blast
    qed
    have "slots_used s' \<le> slots_used s" using ih t(3) by linarith
    then show ?thesis by (intro conjI allI impI) (use ih live keep in blast)+
  next
    case alive
    have used: "i < slots_used s" using "2.prems"(1) len(1) alive(1) by (meson not_le snapshots_ok_def)
    have i: "live_snapshot s i = Some (attachment_id ?slot, snapshot ?slot)"
      using used alive(1) by (simp add: live_snapshot_def)
    have "purge_dead dead is s (add_slot ?slot xs) = (s', xs')" using "2.prems"(3) alive by (simp add: Let_def)
    note ih = "2.IH"(3) [OF refl alive "2.prems"(1) len(2) this]
    have "set xs \<subseteq> set (add_slot ?slot xs)" by (auto simp: add_slot_def)
    then have xs: "set xs \<subseteq> set xs'" using ih by blast
    have "snapshot ?slot \<noteq> 0 \<Longrightarrow> snapshot ?slot \<in> set (add_slot ?slot xs)" by (simp add: add_slot_def)
    then have new: "snapshot ?slot \<noteq> 0 \<Longrightarrow> snapshot ?slot \<in> set xs'" using ih by blast
    have live: "live_snapshot s j = Some (a, c) \<and> (j \<in> set (i # is) \<longrightarrow> c \<noteq> 0 \<longrightarrow> c \<in> set xs')"
      if "live_snapshot s' j = Some (a, c)" for j a c
    proof -
      have "live_snapshot s j = Some (a, c) \<and> (j \<in> set is \<longrightarrow> c \<noteq> 0 \<longrightarrow> c \<in> set xs')"
        using ih that by blast
      moreover from this have "j = i \<Longrightarrow> c = snapshot ?slot" using i by simp
      ultimately show ?thesis using new by auto
    qed
    show ?thesis by (intro conjI allI impI) (use ih xs live in blast)+
  qed
qed

lemma set_collect_slots:
  "set (collect_slots ss xs) = set xs \<union> {snapshot slot |slot. slot \<in> set ss \<and> attachment_id slot \<noteq> 0 \<and> snapshot slot \<noteq> 0}"
  by (induction ss arbitrary: xs) (auto simp: add_slot_def)

subsection \<open>Reachable states\<close>

text \<open>
  The states of the slots under any sequence of operations of any processes, each possibly killed
  after \<open>k\<close> of its stores.
\<close>

inductive snapshots_reached :: "nat \<Rightarrow> snapshot_list \<Rightarrow> bool" for off where
  initialized: "0 < slot_capacity off len \<Longrightarrow> snapshots_reached off (initialize_snapshots off len)"
| begun: "snapshots_reached off s \<Longrightarrow> att \<noteq> 0 \<Longrightarrow>
    beginSnapshot off r r' h att c len s = Inr (i, cn, len', ws) \<Longrightarrow>
    snapshots_reached off (run_stores (take k ws) s)"
| ended: "snapshots_reached off s \<Longrightarrow> endSnapshot h i att s = Inr (ws, h') \<Longrightarrow>
    snapshots_reached off (run_stores (take k ws) s)"
| updated: "snapshots_reached off s \<Longrightarrow>
    snapshots_reached off (fst (updateActiveSnapshots dead h s a))"

lemma end_effect:
  assumes "snapshots_ok s" "endSnapshot h i att s = Inr (ws, h')"
  shows "at_all_stores (\<lambda>s'. snapshots_ok s' \<and> (\<forall>j. j \<noteq> i \<longrightarrow> live_snapshot s' j = live_snapshot s j)) ws s \<and>
     live_snapshot (run_stores ws s) = (live_snapshot s)(i := None)"
proof -
  have "ws = deallocateSnapshotSlot i s" "i < slots_used s"
    using assms(2) by (auto simp: endSnapshot_def not_le split: if_splits)
  with deallocate_effect [OF assms(1)] show ?thesis by blast
qed

lemma update_effect:
  assumes "snapshots_ok s" "updateActiveSnapshots dead h s a = (s', a')"
  shows "snapshots_ok s' \<and> (\<forall>i x c. live_snapshot s' i = Some (x, c) \<longrightarrow> live_snapshot s i = Some (x, c)) \<and>
    (\<forall>i x c. live_snapshot s i = Some (x, c) \<longrightarrow> \<not> dead x \<longrightarrow> live_snapshot s' i = Some (x, c))"
proof (cases "m_lastCommit a = CN_ACTIVE")
  case True
  obtain t xs where purge: "purge_dead dead [0..<slots_used s] s [] = (t, xs)" by fastforce
  have "set [0..<slots_used s] \<subseteq> {..<length (slots s)}" using assms(1) by (auto simp: snapshots_ok_def)
  note p = purge_dead_effect [OF assms(1) this purge]
  have "s' = t" using assms(2) True purge by (simp add: updateActiveSnapshots_def)
  then show ?thesis using p by blast
next
  case False
  then have "s' = s" using assms(2) by (auto simp: updateActiveSnapshots_def Let_def split: if_splits)
  then show ?thesis using assms(1) by simp
qed

lemma reached_ok: "snapshots_reached off s \<Longrightarrow> snapshots_ok s"
proof (induction rule: snapshots_reached.induct)
  case (initialized len)
  then show ?case by (rule initialize_snapshots_ok)
next
  case (begun s att r r' h c len i cn len' ws k)
  show ?case
    using at_all_stores_take [OF conjunct1 [OF begin_effect [OF begun.IH begun.hyps(2,3)]]] by blast
next
  case (ended s h i att ws h' k)
  show ?case
    using at_all_stores_take [OF conjunct1 [OF end_effect [OF ended.IH ended.hyps(2)]]] by blast
next
  case (updated s dead h a)
  then show ?case by (metis prod.collapse update_effect)
qed

text \<open>
  A list of active snapshots is current if each live snapshot of an earlier commit number is in it.
\<close>

lemma locate_ge_least:
  "locate_ge xs v = Some c \<Longrightarrow> c \<in> set xs \<and> v \<le> c \<and> (\<forall>x \<in> set xs. v \<le> x \<longrightarrow> c \<le> x)"
  "locate_ge xs v = None \<Longrightarrow> \<forall>x \<in> set xs. \<not> v \<le> x"
proof -
  have fold_min: "fold min ys y \<in> set (y # ys) \<and> (\<forall>x \<in> set (y # ys). fold min ys y \<le> x)"
    for ys and y :: commit_number
  proof (induction ys arbitrary: y)
    case (Cons z zs)
    define w where "w = min z y"
    then have w: "w = min z y" "w = z \<or> w = y" "w \<le> z" "w \<le> y" by (auto simp: min_def)
    have "fold min zs w \<in> set (w # zs) \<and> (\<forall>x \<in> set (w # zs). fold min zs w \<le> x)" by (rule Cons)
    moreover have "fold min (z # zs) y = fold min zs w" using w(1) by simp
    ultimately show ?case using w(2-4) by (auto intro: order_trans)
  qed simp
  show "locate_ge xs v = Some c \<Longrightarrow> c \<in> set xs \<and> v \<le> c \<and> (\<forall>x \<in> set xs. v \<le> x \<longrightarrow> c \<le> x)"
  proof -
    assume loc: "locate_ge xs v = Some c"
    obtain y ys where f: "List.filter (\<lambda>x. v \<le> x) xs = y # ys" "c = fold min ys y"
      using loc by (auto simp: locate_ge_def split: list.splits)
    have "set (y # ys) = {x \<in> set xs. v \<le> x}" using f(1) by (metis set_filter)
    with fold_min [of ys y] f(2) show ?thesis by blast
  qed
  show "locate_ge xs v = None \<Longrightarrow> \<forall>x \<in> set xs. \<not> v \<le> x"
    by (auto simp: locate_ge_def filter_empty_conv split: list.splits)
qed

lemma getSnapshot_separates:
  assumes "c \<in> set (m_snapshots a)" "v1 \<le> c" "c < v2" "v2 \<le> m_lastCommit a"
  shows "getSnapshotForVersion a v1 \<noteq> getSnapshotForVersion a v2"
proof -
  have "\<not> m_lastCommit a < v1" "\<not> m_lastCommit a < v2" using assms by order+
  moreover obtain x where x: "locate_ge (m_snapshots a) v1 = Some x" "x \<le> c"
    using locate_ge_least(2) [of "m_snapshots a" v1] locate_ge_least(1) [of "m_snapshots a" v1] assms(1,2)
    by (cases "locate_ge (m_snapshots a) v1") auto
  moreover have "locate_ge (m_snapshots a) v2 = Some y \<Longrightarrow> v2 \<le> y" for y
    using locate_ge_least(1) by blast
  ultimately show ?thesis using assms(3,4)
    by (auto simp: getSnapshotForVersion_def split: option.splits)
qed

subsection \<open>Properties\<close>

text \<open>A state with one snapshot, for the witnesses.\<close>

definition demo_header :: "commit_number \<Rightarrow> ulong \<Rightarrow> tpc_header" where
  "demo_header cn releases = \<lparr>latest_commit_number = cn, oldest_transaction = 1,
     snapshot_release_count = releases, latest_transaction_id = 1, latest_attachment_id = 9,
     latest_statement_id = 0, latest_local_table_id = 0\<rparr>"

definition one_snapshot :: snapshot_list where
  "one_snapshot = run_stores [Store_used 1, Store_snapshot 0 7, Store_attachment 0 5, Store_min_free 1]
     (initialize_snapshots 100 200)"

lemma initial_reached: "snapshots_reached 100 (initialize_snapshots 100 200)"
  by (rule snapshots_reached.initialized) (simp add: slot_capacity_def)

lemma one_snapshot_begun:
  "beginSnapshot 100 True True (demo_header 7 0) 5 0 200 (initialize_snapshots 100 200) =
     Inr (0, 7, 200, [Store_used 1, Store_snapshot 0 7, Store_attachment 0 5, Store_min_free 1])"
  by code_simp

lemma one_snapshot_reached: "snapshots_reached 100 one_snapshot"
  using snapshots_reached.begun [OF initial_reached _ one_snapshot_begun, of 4]
  by (simp add: one_snapshot_def)

text \<open>
  C7. In every state that any sequence of operations of any processes reaches, each possibly
  killed between two of its stores, a snapshot that begins gets a handle no live snapshot has, and
  holds its attachment and commit number under it; the commit number is the latest one or the one
  of a live snapshot; and wherever the process is killed, every live snapshot stays as it is.
\<close>

theorem begin_snapshot_refines:
  assumes "snapshots_reached off s" "att \<noteq> 0"
    "beginSnapshot off r r' h att c len s = Inr (i, cn, len', ws)"
  shows "live_snapshot s i = None \<and>
    live_snapshot (run_stores ws s) = (live_snapshot s)(i \<mapsto> (att, cn)) \<and>
    (if c = 0 then cn = latest_commit_number h else cn = c \<and> (\<exists>j a. live_snapshot s j = Some (a, c))) \<and>
    (\<forall>k j. j \<noteq> i \<longrightarrow> live_snapshot (run_stores (take k ws) s) j = live_snapshot s j)"
proof (intro conjI allI impI)
  note eff = begin_effect [OF reached_ok [OF assms(1)] assms(2,3)]
  show "live_snapshot s i = None" "live_snapshot (run_stores ws s) = (live_snapshot s)(i \<mapsto> (att, cn))"
    using eff by blast+
  show "if c = 0 then cn = latest_commit_number h else cn = c \<and> (\<exists>j a. live_snapshot s j = Some (a, c))"
  proof -
    obtain l where l: "remapSnapshots off r len s = Inr l"
      using assms(3) by (cases "remapSnapshots off r len s") (simp_all add: beginSnapshot_def)
    have found: "c = 0 \<or> snapshot_exists s c"
    proof (rule ccontr)
      assume "\<not> (c = 0 \<or> snapshot_exists s c)"
      then show False using assms(3) by (simp add: beginSnapshot_def l)
    qed
    then have c: "\<not> (c \<noteq> 0 \<and> \<not> snapshot_exists s c)" by blast
    obtain j l' vs where a: "allocateSnapshotSlot off r' l s = Inr (j, l', vs)"
      using assms(3) c by (cases "allocateSnapshotSlot off r' l s") (auto simp: beginSnapshot_def l)
    have "cn = (if c = 0 then latest_commit_number h else c)"
      using assms(3) unfolding beginSnapshot_def l sum.case if_not_P [OF c] a by (simp add: Let_def)
    moreover have "c \<noteq> 0 \<Longrightarrow> snapshot_exists s c" using found by blast
    moreover have "\<exists>j a. live_snapshot s j = Some (a, c)" if ex: "snapshot_exists s c"
    proof -
      obtain j where "j < slots_used s" "attachment_id (slots s ! j) \<noteq> 0" "snapshot (slots s ! j) = c"
        using ex unfolding snapshot_exists_def list_ex_iff by auto
      then have "live_snapshot s j = Some (attachment_id (slots s ! j), c)" by (simp add: live_snapshot_def)
      then show ?thesis by blast
    qed
    ultimately show ?thesis by (cases "c = 0") simp_all
  qed
  fix k j assume j: "j \<noteq> i"
  have "live_snapshot (run_stores (take k ws) s) = live_snapshot s \<or>
      live_snapshot (run_stores (take k ws) s) = (live_snapshot s)(i \<mapsto> (att, cn))"
    using at_all_stores_take [OF conjunct1 [OF eff], of k] by blast
  then show "live_snapshot (run_stores (take k ws) s) j = live_snapshot s j"
    using j by (elim disjE) simp_all
qed

theorem begin_snapshot_refines_witness: "live_snapshot one_snapshot = [0 \<mapsto> (5, 7)]"
proof -
  have "(5 :: att_number) \<noteq> 0" by simp
  from begin_snapshot_refines [OF initial_reached this one_snapshot_begun] show ?thesis
    by (auto simp: one_snapshot_def live_snapshot_initial fun_eq_iff simp del: run_stores_simps)
qed

text \<open>
  C21. \<open>endSnapshot\<close> takes out the snapshot under its handle and no other, wherever the process is
  killed; it is refused if the handle is not below \<open>slots_used\<close> or not of a live snapshot of the
  attachment.
\<close>

theorem end_snapshot_refines:
  assumes "snapshots_reached off s" "att \<noteq> 0"
  shows "(case endSnapshot h i att s of
      Inl e \<Rightarrow> (\<forall>c. live_snapshot s i \<noteq> Some (att, c)) \<and> (e = Too_few_slots \<longleftrightarrow> slots_used s \<le> i)
    | Inr (ws, h') \<Rightarrow> (\<exists>c. live_snapshot s i = Some (att, c)) \<and>
        live_snapshot (run_stores ws s) = (live_snapshot s)(i := None) \<and>
        snapshot_release_count h' = snapshot_release_count h + 1 \<and>
        (\<forall>k j. j \<noteq> i \<longrightarrow> live_snapshot (run_stores (take k ws) s) j = live_snapshot s j))"
proof (cases "endSnapshot h i att s")
  case (Inl e)
  then show ?thesis by (auto simp: endSnapshot_def live_snapshot_def split: if_splits)
next
  case (Inr p)
  obtain ws h' where p: "p = (ws, h')" by fastforce
  note eff = end_effect [OF reached_ok [OF assms(1)] Inr [unfolded p]]
  have "\<exists>c. live_snapshot s i = Some (att, c)" "snapshot_release_count h' = snapshot_release_count h + 1"
    using Inr p assms(2) by (auto simp: endSnapshot_def live_snapshot_def split: if_splits)
  then show ?thesis
    using Inr p conjunct2 [OF eff] at_all_stores_take [OF conjunct1 [OF eff]] by simp
qed

theorem end_snapshot_refines_witness:
  "live_snapshot one_snapshot 0 = Some (5, 7) \<and>
   (case endSnapshot (demo_header 7 0) 0 5 one_snapshot of
      Inl e \<Rightarrow> False | Inr (ws, h') \<Rightarrow> live_snapshot (run_stores ws one_snapshot) 0 = None)"
proof -
  have live: "live_snapshot one_snapshot 0 = Some (5, 7)" by code_simp
  have "(5 :: att_number) \<noteq> 0" by simp
  from end_snapshot_refines [OF one_snapshot_reached this, where h = "demo_header 7 0" and i = 0] live
  show ?thesis by (auto split: sum.splits)
qed

text \<open>
  C9. After \<open>updateActiveSnapshots\<close> has read the slots (on its first call, or because the count of
  releases or of used slots has changed), garbage collection keeps apart what a live snapshot
  keeps apart: a version the snapshot sees and a later one it does not see never belong to the
  same snapshot. Snapshots of attachments that are alive stay, and none is made up.
\<close>

theorem active_snapshots_separate:
  assumes "snapshots_reached off s" "updateActiveSnapshots dead h s a = (s', a')"
    "m_lastCommit a = CN_ACTIVE \<or> m_releaseCount a \<noteq> snapshot_release_count h \<or> m_slots_used a \<noteq> slots_used s"
    "live_snapshot s' i = Some (att, cn)" "cn \<noteq> 0"
    "v1 \<le> cn" "cn < v2" "v2 \<le> latest_commit_number h"
  shows "getSnapshotForVersion a' v1 \<noteq> getSnapshotForVersion a' v2 \<and> live_snapshot s i = Some (att, cn) \<and>
    (\<forall>j x c. live_snapshot s j = Some (x, c) \<longrightarrow> \<not> dead x \<longrightarrow> live_snapshot s' j = Some (x, c))"
proof -
  have ok: "snapshots_ok s" by (rule reached_ok [OF assms(1)])
  note upd = update_effect [OF ok assms(2)]
  have used: "slots_used s \<le> length (slots s)" using ok by (simp add: snapshots_ok_def)
  have last: "m_lastCommit a' = latest_commit_number h"
    using assms(2) by (auto simp: updateActiveSnapshots_def Let_def split: if_splits prod.splits)
  have live: "live_snapshot s i = Some (att, cn)" using upd assms(4) by blast
  then have i: "i < slots_used s" "attachment_id (slots s ! i) \<noteq> 0" "snapshot (slots s ! i) = cn"
    by (auto simp: live_snapshot_def split: if_splits)
  have "cn \<in> set (m_snapshots a')"
  proof (cases "m_lastCommit a = CN_ACTIVE")
    case True
    obtain t xs where purge: "purge_dead dead [0..<slots_used s] s [] = (t, xs)" by fastforce
    have "set [0..<slots_used s] \<subseteq> {..<length (slots s)}" using used by auto
    note p = purge_dead_effect [OF ok this purge]
    have "s' = t" "m_snapshots a' = xs"
      using assms(2) True purge by (auto simp: updateActiveSnapshots_def)
    moreover have "i \<in> set [0..<slots_used s]" using i(1) by simp
    ultimately show ?thesis using p assms(4,5) by blast
  next
    case False
    then have "m_snapshots a' = collect_slots (take (slots_used s) (slots s)) []"
      using assms(2,3) by (auto simp: updateActiveSnapshots_def Let_def split: if_splits)
    moreover have "slots s ! i \<in> set (take (slots_used s) (slots s))"
      using i(1) used by (auto simp: in_set_conv_nth intro: exI [of _ i])
    ultimately show ?thesis using i assms(5) by (auto simp: set_collect_slots)
  qed
  from getSnapshot_separates [OF this assms(6,7)] assms(8) last
  have "getSnapshotForVersion a' v1 \<noteq> getSnapshotForVersion a' v2" by simp
  then show ?thesis using live conjunct2 [OF conjunct2 [OF upd]] by (intro conjI)
qed

theorem active_snapshots_separate_witness:
  "let a = snd (updateActiveSnapshots (\<lambda>_. False) (demo_header 9 0) one_snapshot new_active_snapshots)
   in getSnapshotForVersion a 6 \<noteq> getSnapshotForVersion a 8"
proof -
  let ?u = "updateActiveSnapshots (\<lambda>_. False) (demo_header 9 0) one_snapshot new_active_snapshots"
  have "live_snapshot (fst ?u) 0 = Some (5, 7)" by code_simp
  from active_snapshots_separate [OF one_snapshot_reached prod.collapse [symmetric] _ this, of 6 8]
  show ?thesis by (simp add: new_active_snapshots_def demo_header_def Let_def)
qed

text \<open>Which number stands for a version depends only on the members of the list that are not below it.\<close>

lemma getSnapshot_same:
  assumes "\<forall>c \<in> set (m_snapshots a). c < v1 \<or> v2 \<le> c" "v1 \<le> v2" "v2 \<le> m_lastCommit a"
  shows "getSnapshotForVersion a v1 = getSnapshotForVersion a v2"
proof -
  have "v1 \<le> x \<longleftrightarrow> v2 \<le> x" if "x \<in> set (m_snapshots a)" for x
    using assms(1,2) that by (meson leD order_trans)
  then have "List.filter (\<lambda>x. v1 \<le> x) (m_snapshots a) = List.filter (\<lambda>x. v2 \<le> x) (m_snapshots a)" by (rule filter_cong [OF refl])
  then have "locate_ge (m_snapshots a) v1 = locate_ge (m_snapshots a) v2" by (simp add: locate_ge_def)
  moreover have "\<not> m_lastCommit a < v1" "\<not> m_lastCommit a < v2" using assms(2,3) by order+
  ultimately show ?thesis by (simp add: getSnapshotForVersion_def)
qed

text \<open>
  C10. A snapshot that begins in a freed slot is missed. Whatever led to the state of the slots, if the
  slot is one below \<open>slots_used\<close>, and the list of a collector has the current count of releases and of
  used slots, then \<open>updateActiveSnapshots\<close> leaves the members of the list as they are, but moves
  \<open>m_lastCommit\<close> on: a version that the new snapshot sees and a later one that it does not see then
  belong to the same snapshot, unless a member of the old list is between them. Intermediate garbage
  collection may remove the first, although the snapshot that needs it is live.
\<close>

theorem reused_slot_missed:
  assumes "snapshots_reached off s" "att \<noteq> 0" "beginSnapshot off r r' h att c len s = Inr (i, cn, len', ws)" "i < slots_used s"
    and current: "m_lastCommit a \<noteq> CN_ACTIVE" "m_releaseCount a = snapshot_release_count h'" "m_slots_used a = slots_used s"
    and upd: "updateActiveSnapshots dead h' (run_stores ws s) a = (s', a')"
    and v: "v1 \<le> cn" "cn < v2" "v2 \<le> latest_commit_number h'" "\<forall>x \<in> set (m_snapshots a). x < v1 \<or> v2 \<le> x"
  shows "live_snapshot s' i = Some (att, cn) \<and> m_snapshots a' = m_snapshots a \<and> m_lastCommit a' = latest_commit_number h' \<and>
    getSnapshotForVersion a' v1 = getSnapshotForVersion a' v2"
proof -
  obtain l vs where alloc: "allocateSnapshotSlot off r' l s = Inr (i, len', vs)"
    and ws: "ws = vs @ [Store_snapshot i cn, Store_attachment i att, Store_min_free (i + 1)]"
    using assms(3) by (auto simp: beginSnapshot_def Let_def split: sum.splits if_splits)
  have "vs = []" using alloc assms(4) by (auto simp: allocateSnapshotSlot_def Let_def split: if_splits)
  then have u: "slots_used (run_stores ws s) = slots_used s" by (simp add: ws)
  have live: "live_snapshot (run_stores ws s) i = Some (att, cn)"
    using begin_effect [OF reached_ok [OF assms(1)] assms(2,3)] by simp
  have e: "s' = run_stores ws s" "a' = a\<lparr>m_lastCommit := latest_commit_number h'\<rparr>"
    using upd current u by (auto simp: updateActiveSnapshots_def Let_def)
  have "v1 \<le> v2" using v(1,2) by order
  then have "getSnapshotForVersion a' v1 = getSnapshotForVersion a' v2"
    using v(3,4) by (intro getSnapshot_same) (simp_all add: e)
  then show ?thesis using live by (simp add: e)
qed

text \<open>
  A run that leads there: attachments 5 and 6 take snapshots of commit number 10, 5 ends its own, the
  collector brings its list up to date, and 7 takes a snapshot of number 15 in the slot that is free.
  The version of number 12, which 7 sees, then belongs to the same snapshot as that of number 18.
\<close>

definition two_snapshots :: snapshot_list where
  "two_snapshots = \<lparr>slots_allocated = 6, slots_used = 2, min_free_slot = 2,
     slots = \<lparr>attachment_id = 5, snapshot = 10\<rparr> # \<lparr>attachment_id = 6, snapshot = 10\<rparr> # replicate 4 free_slot\<rparr>"

definition freed_slot :: snapshot_list where
  "freed_slot = \<lparr>slots_allocated = 6, slots_used = 2, min_free_slot = 0,
     slots = free_slot # \<lparr>attachment_id = 6, snapshot = 10\<rparr> # replicate 4 free_slot\<rparr>"

definition current_list :: active_snapshots where
  "current_list = snd (updateActiveSnapshots (\<lambda>_. False) (demo_header 10 1) freed_slot
     (snd (updateActiveSnapshots (\<lambda>_. False) (demo_header 10 0) two_snapshots new_active_snapshots)))"

lemma freed_slot_reached: "snapshots_reached 100 freed_slot"
proof -
  define a where "a = [Store_used 1, Store_snapshot 0 10, Store_attachment 0 5, Store_min_free 1]"
  define b where "b = [Store_used 2, Store_snapshot 1 10, Store_attachment 1 6, Store_min_free 2]"
  define d where "d = [Store_min_free 0, Store_snapshot 0 0, Store_attachment 0 0]"
  have "beginSnapshot 100 True True (demo_header 10 0) 5 0 200 (initialize_snapshots 100 200) = Inr (0, 10, 200, a)"
    unfolding a_def by code_simp
  from snapshots_reached.begun [OF initial_reached _ this, of 4]
  have 1: "snapshots_reached 100 (run_stores a (initialize_snapshots 100 200))" by (simp add: a_def)
  have "beginSnapshot 100 True True (demo_header 10 0) 6 0 200 (run_stores a (initialize_snapshots 100 200)) = Inr (1, 10, 200, b)"
    unfolding a_def b_def by code_simp
  from snapshots_reached.begun [OF 1 _ this, of 4]
  have "snapshots_reached 100 (run_stores b (run_stores a (initialize_snapshots 100 200)))" by (simp add: b_def)
  moreover have "run_stores b (run_stores a (initialize_snapshots 100 200)) = two_snapshots"
    unfolding a_def b_def by code_simp
  ultimately have 2: "snapshots_reached 100 two_snapshots" by (simp only:)
  have "endSnapshot (demo_header 10 0) 0 5 two_snapshots = Inr (d, demo_header 10 1)"
    unfolding d_def by code_simp
  from snapshots_reached.ended [OF 2 this, of 3]
  have "snapshots_reached 100 (run_stores d two_snapshots)" by (simp add: d_def)
  moreover have "run_stores d two_snapshots = freed_slot" unfolding d_def by code_simp
  ultimately show ?thesis by (simp only:)
qed

theorem reused_slot_missed_witness:
  "let a = snd (updateActiveSnapshots (\<lambda>_. False) (demo_header 20 1)
      (run_stores [Store_snapshot 0 15, Store_attachment 0 7, Store_min_free 1] freed_slot) current_list)
   in m_snapshots a = [10] \<and> m_lastCommit a = 20 \<and> getSnapshotForVersion a 12 = getSnapshotForVersion a 18"
proof -
  have b: "beginSnapshot 100 True True (demo_header 15 1) 7 0 200 freed_slot =
     Inr (0, 15, 200, [Store_snapshot 0 15, Store_attachment 0 7, Store_min_free 1])"
    by code_simp
  have c: "current_list = \<lparr>m_snapshots = [10], m_lastCommit = 10, m_releaseCount = 1, m_slots_used = 2\<rparr>"
    by code_simp
  let ?s = "run_stores [Store_snapshot 0 15, Store_attachment 0 7, Store_min_free 1] freed_slot"
  have u: "updateActiveSnapshots (\<lambda>_. False) (demo_header 20 1) ?s current_list =
      (?s, snd (updateActiveSnapshots (\<lambda>_. False) (demo_header 20 1) ?s current_list))"
    by (simp add: updateActiveSnapshots_def c CN_ACTIVE_def demo_header_def freed_slot_def)
  have "m_snapshots current_list = [10]" by (simp add: c)
  then show ?thesis
    using reused_slot_missed [OF freed_slot_reached _ b _ _ _ _ u, of 12 18]
    by (simp add: c CN_ACTIVE_def freed_slot_def demo_header_def Let_def)
qed

end
