(* ===== verification/TipCache.thy ===== *)
theory TipCache
  imports Snapshots
begin

text \<open>
  The cache of transaction states, class \<open>TipCache\<close> of \<open>src/jrd/tpc.cpp\<close>: the status blocks in
  shared memory, the state of a transaction with its commit number, its changes, and the release of
  old blocks. The model is one process's view: a block number is mapped to the contents of its
  file, and \<open>mapped\<close> are the blocks the process has attached. Transaction and block numbers are natural
  numbers; commit numbers have their 64 bits. Locks on blocks and failures of the operating
  system are left out.
\<close>

subsection \<open>Status blocks\<close>

record tip_cache =
  tpc_header :: tpc_header
  transactionsPerBlock :: nat
  block_files :: "nat \<Rightarrow> commit_number list option"
  mapped :: "nat \<Rightarrow> bool"

datatype tip_error =
    Old_transaction
  | Commit_dead
  | Limbo_inactive
  | Dead_inactive
  | Invalid_state

text \<open>The states on transaction inventory pages, of \<open>src/jrd/tra.h\<close>.\<close>

definition tra_active :: nat where "tra_active = 0"
definition tra_limbo :: nat where "tra_limbo = 1"
definition tra_dead :: nat where "tra_dead = 2"
definition tra_committed :: nat where "tra_committed = 3"

lemmas tra_defs = tra_active_def tra_limbo_def tra_dead_def tra_committed_def

text \<open>A new file is all zeros, that is, of active transactions; an existing one is attached.\<close>

definition createTransactionStatusBlock :: "nat \<Rightarrow> tip_cache \<Rightarrow> tip_cache" where
  "createTransactionStatusBlock b t =
     t\<lparr>block_files := (if block_files t b = None
         then (block_files t)(b \<mapsto> replicate (transactionsPerBlock t) 0) else block_files t),
       mapped := (mapped t)(b := True)\<rparr>"

text \<open>Whether there is a block, and the cache after it may have been attached.\<close>

definition getTransactionStatusBlock :: "nat \<Rightarrow> tip_cache \<Rightarrow> bool \<times> tip_cache" where
  "getTransactionStatusBlock b t =
     (if mapped t b then (True, t)
      else if oldest_transaction (tpc_header t) div transactionsPerBlock t \<le> b
        then (True, createTransactionStatusBlock b t)
      else (False, t))"

definition status_entry :: "tip_cache \<Rightarrow> nat \<Rightarrow> commit_number" where
  "status_entry t number =
     (case block_files t (number div transactionsPerBlock t) of
        None \<Rightarrow> 0 | Some data \<Rightarrow> data ! (number mod transactionsPerBlock t))"

definition store_entry :: "nat \<Rightarrow> commit_number \<Rightarrow> tip_cache \<Rightarrow> tip_cache" where
  "store_entry number cn t =
     t\<lparr>block_files := (block_files t)(number div transactionsPerBlock t :=
       map_option (\<lambda>data. data[number mod transactionsPerBlock t := cn])
         (block_files t (number div transactionsPerBlock t)))\<rparr>"

subsection \<open>The state of a transaction\<close>

definition cacheState :: "nat \<Rightarrow> tip_cache \<Rightarrow> commit_number \<times> tip_cache" where
  "cacheState number t =
     (if number < oldest_transaction (tpc_header t) then (CN_PREHISTORIC, t)
      else case getTransactionStatusBlock (number div transactionsPerBlock t) t of
          (False, t') \<Rightarrow> (CN_PREHISTORIC, t')
        | (True, t') \<Rightarrow> (status_entry t' number, t'))"

text \<open>The static \<open>cacheState\<close> and \<open>TPC_snapshot_state\<close> read a commit number as a state.\<close>

definition state_of_cn :: "commit_number \<Rightarrow> nat" where
  "state_of_cn cn = (if cn = CN_ACTIVE then tra_active else if cn = CN_LIMBO then tra_limbo
     else if cn = CN_DEAD then tra_dead else tra_committed)"

definition is_committed :: "commit_number \<Rightarrow> bool" where
  "is_committed cn \<longleftrightarrow> CN_PREHISTORIC \<le> cn \<and> cn \<le> CN_MAX_NUMBER"

definition setState :: "nat \<Rightarrow> nat \<Rightarrow> tip_cache \<Rightarrow> tip_error + commit_number \<times> tip_cache" where
  "setState number state t =
     (case getTransactionStatusBlock (number div transactionsPerBlock t) t of
        (False, _) \<Rightarrow> Inl Old_transaction
      | (True, t') \<Rightarrow>
          let old = status_entry t' number
          in if state = tra_committed then
               if old = CN_DEAD then Inl Commit_dead
               else if is_committed old then Inr (old, t')
               else let cn = latest_commit_number (tpc_header t') + 1
                    in Inr (cn, store_entry number cn
                         (t'\<lparr>tpc_header := (tpc_header t')\<lparr>latest_commit_number := cn\<rparr>\<rparr>))
             else if state = tra_limbo then
               if old = CN_LIMBO then Inr (CN_LIMBO, t')
               else if old \<noteq> CN_ACTIVE then Inl Limbo_inactive
               else Inr (CN_LIMBO, store_entry number CN_LIMBO t')
             else if state = tra_dead then
               if old = CN_DEAD then Inr (CN_DEAD, t')
               else if old \<noteq> CN_ACTIVE \<and> old \<noteq> CN_LIMBO then Inl Dead_inactive
               else Inr (CN_DEAD, store_entry number CN_DEAD t')
             else Inl Invalid_state)"

text \<open>
  \<open>snapshotState\<close>: \<open>locked\<close> says whether the lock of the transaction has data, that is, whether its
  process lives; \<open>disk\<close> has the states on the inventory pages. A transaction that is active on
  disk and has no process becomes dead, on disk and, through \<open>TRA_set_state\<close>, in the cache.
\<close>

definition snapshotState ::
  "(nat \<Rightarrow> bool) \<Rightarrow> nat \<Rightarrow> (nat \<Rightarrow> nat) \<Rightarrow> tip_cache \<Rightarrow> tip_error + commit_number \<times> (nat \<Rightarrow> nat) \<times> tip_cache" where
  "snapshotState locked number disk t =
     (let (cn, t') = cacheState number t
      in if cn = CN_DEAD \<or> is_committed cn then Inr (cn, disk, t')
         else if locked number then Inr (CN_ACTIVE, disk, t')
         else if disk number = tra_active then
           (case setState number tra_dead t' of
              Inl e \<Rightarrow> Inl e | Inr (_, t'') \<Rightarrow> Inr (CN_DEAD, disk(number := tra_dead), t''))
         else
           (case setState number (disk number) t' of
              Inl e \<Rightarrow> Inl e | Inr (cn', t'') \<Rightarrow> Inr (cn', disk, t'')))"

subsection \<open>What a transaction sees\<close>

text \<open>
  What \<open>TRA_snapshot_state\<close> of \<open>src/jrd/tra.cpp\<close> reads of a transaction. \<open>request_snapshot\<close> is the
  number of the snapshot of the current request, if it has one and no update conflict has occurred.
\<close>

record snapshot_tra =
  tra_number :: nat
  tra_oldest :: nat
  tra_snapshot_number :: commit_number
  tra_commit_sub_trans :: "nat \<Rightarrow> bool"
  tra_read_committed :: bool
  tra_read_consistency :: bool
  tra_system :: bool
  request_snapshot :: "commit_number option"

definition tra_us :: nat where "tra_us = 4"

text \<open>The tests at the end of the function, on the state and the commit number of the other transaction.\<close>

definition seen_state :: "snapshot_tra \<Rightarrow> nat \<Rightarrow> commit_number \<Rightarrow> nat" where
  "seen_state tr number cn =
     (let state = state_of_cn cn
      in if tra_commit_sub_trans tr number then tra_committed
         else if tra_read_committed tr then
           if tra_read_consistency tr \<and> state = tra_committed \<and>
              (case request_snapshot tr of None \<Rightarrow> False | Some r \<Rightarrow> r < cn)
           then tra_active else state
         else if tra_system tr then if state = tra_active then tra_committed else state
         else if state = tra_committed \<and> tra_snapshot_number tr < cn then tra_active
         else state)"

text \<open>The state, the snapshot the version belongs to, the states on disk and the cache.\<close>

definition TRA_snapshot_state ::
  "(nat \<Rightarrow> bool) \<Rightarrow> snapshot_tra \<Rightarrow> active_snapshots \<Rightarrow> nat \<Rightarrow> (nat \<Rightarrow> nat) \<Rightarrow> tip_cache
   \<Rightarrow> tip_error + nat \<times> commit_number \<times> (nat \<Rightarrow> nat) \<times> tip_cache" where
  "TRA_snapshot_state locked tr active number disk t =
     (if number = tra_number tr then Inr (tra_us, CN_ACTIVE, disk, t)
      else if number < tra_oldest tr \<or> number = 0
        then Inr (tra_committed, getSnapshotForVersion active CN_PREHISTORIC, disk, t)
      else case snapshotState locked number disk t of
          Inl e \<Rightarrow> Inl e
        | Inr (cn, disk', t') \<Rightarrow>
            Inr (seen_state tr number cn,
              if state_of_cn cn = tra_committed then getSnapshotForVersion active cn else CN_ACTIVE,
              disk', t'))"

subsection \<open>Old transactions\<close>

text \<open>The blocks to clean up, in ascending order: those below \<open>n\<close> down to the first missing file.\<close>

fun blocks_to_cleanup :: "(nat \<Rightarrow> bool) \<Rightarrow> nat \<Rightarrow> nat list" where
  "blocks_to_cleanup exists 0 = []"
| "blocks_to_cleanup exists (Suc n) = (if exists n then blocks_to_cleanup exists n @ [n] else [])"

definition release_block :: "nat \<Rightarrow> tip_cache \<Rightarrow> tip_cache" where
  "release_block b t = t\<lparr>block_files := (block_files t)(b := None), mapped := (mapped t)(b := False)\<rparr>"

definition SAFETY_GAP_BLOCKS :: nat where "SAFETY_GAP_BLOCKS = 1"

definition releaseSharedMemory :: "nat \<Rightarrow> nat \<Rightarrow> tip_cache \<Rightarrow> tip_cache" where
  "releaseSharedMemory oldest_old oldest_new t =
     (let last = oldest_new div transactionsPerBlock t
      in if oldest_old div transactionsPerBlock t = last then t
         else fold release_block
           (blocks_to_cleanup (\<lambda>b. block_files t b \<noteq> None) (last - SAFETY_GAP_BLOCKS)) t)"

definition updateOldestTransaction :: "nat \<Rightarrow> nat \<Rightarrow> tip_cache \<Rightarrow> tip_cache" where
  "updateOldestTransaction oldest oldestSnapshot t =
     (let oldestNew = min oldest oldestSnapshot; oldestNow = oldest_transaction (tpc_header t)
      in if oldestNow < oldestNew
         then releaseSharedMemory oldestNow oldestNew
           (t\<lparr>tpc_header := (tpc_header t)\<lparr>oldest_transaction := oldestNew\<rparr>\<rparr>)
         else t)"

subsection \<open>Identifiers\<close>

definition generateTransactionId :: "tpc_header \<Rightarrow> 64 word \<times> tpc_header" where
  "generateTransactionId h = (latest_transaction_id h + 1, h\<lparr>latest_transaction_id := latest_transaction_id h + 1\<rparr>)"

definition generateAttachmentId :: "tpc_header \<Rightarrow> att_number \<times> tpc_header" where
  "generateAttachmentId h = (latest_attachment_id h + 1, h\<lparr>latest_attachment_id := latest_attachment_id h + 1\<rparr>)"

definition generateStatementId :: "tpc_header \<Rightarrow> 64 word \<times> tpc_header" where
  "generateStatementId h = (latest_statement_id h + 1, h\<lparr>latest_statement_id := latest_statement_id h + 1\<rparr>)"

definition generateLocalTableId :: "tpc_header \<Rightarrow> 64 word \<times> tpc_header" where
  "generateLocalTableId h = (latest_local_table_id h + 1, h\<lparr>latest_local_table_id := latest_local_table_id h + 1\<rparr>)"

definition assignLatestAttachmentId :: "att_number \<Rightarrow> tpc_header \<Rightarrow> tpc_header" where
  "assignLatestAttachmentId number h = h\<lparr>latest_attachment_id := number\<rparr>"

subsection \<open>What the operations keep\<close>

text \<open>Blocks are complete, and no commit number is beyond the latest one.\<close>

definition tip_ok :: "tip_cache \<Rightarrow> bool" where
  "tip_ok t \<longleftrightarrow> 0 < transactionsPerBlock t \<and>
     (\<forall>b data. block_files t b = Some data \<longrightarrow> length data = transactionsPerBlock t) \<and>
     (\<forall>b. mapped t b \<longrightarrow> block_files t b \<noteq> None) \<and>
     CN_PREHISTORIC \<le> latest_commit_number (tpc_header t) \<and>
     (\<forall>n. is_committed (status_entry t n) \<longrightarrow> status_entry t n \<le> latest_commit_number (tpc_header t))"

text \<open>Commit numbers given out since the cache was loaded belong to one transaction each.\<close>

definition numbers_unique :: "tip_cache \<Rightarrow> bool" where
  "numbers_unique t \<longleftrightarrow> (\<forall>m n. is_committed (status_entry t m) \<longrightarrow> status_entry t m \<noteq> CN_PREHISTORIC \<longrightarrow>
     status_entry t m = status_entry t n \<longrightarrow> m = n)"

lemma status_entry_created:
  assumes "0 < transactionsPerBlock t"
  shows "status_entry (createTransactionStatusBlock b t) n = status_entry t n"
  using assms by (auto simp: status_entry_def createTransactionStatusBlock_def split: option.splits)

lemma get_block_effect:
  assumes "tip_ok t" "getTransactionStatusBlock b t = (found, t')"
  shows "tip_ok t' \<and> status_entry t' = status_entry t \<and> tpc_header t' = tpc_header t \<and>
     transactionsPerBlock t' = transactionsPerBlock t \<and> (found \<longrightarrow> block_files t' b \<noteq> None)"
proof -
  have entry: "status_entry (createTransactionStatusBlock b t) = status_entry t"
    using assms(1) status_entry_created by (auto simp: tip_ok_def)
  have "tip_ok (createTransactionStatusBlock b t)"
    using assms(1) unfolding tip_ok_def entry by (simp add: createTransactionStatusBlock_def)
  moreover have "t' = t \<and> (found \<longrightarrow> mapped t b) \<or> t' = createTransactionStatusBlock b t"
    using assms(2) by (auto simp: getTransactionStatusBlock_def split: if_splits)
  ultimately show ?thesis
  proof (elim disjE)
    assume t': "t' = createTransactionStatusBlock b t" and ok: "tip_ok (createTransactionStatusBlock b t)"
    show ?thesis unfolding t' using ok entry by (simp add: createTransactionStatusBlock_def)
  qed (use assms(1) in \<open>auto simp: tip_ok_def\<close>)
qed

lemma status_entry_stored:
  assumes "tip_ok t" "block_files t (number div transactionsPerBlock t) \<noteq> None"
  shows "status_entry (store_entry number cn t) n = (if n = number then cn else status_entry t n)"
proof -
  let ?p = "transactionsPerBlock t"
  obtain data where data: "block_files t (number div ?p) = Some data" "length data = ?p" "0 < ?p"
    using assms by (auto simp: tip_ok_def)
  have split: "n = number \<longleftrightarrow> n div ?p = number div ?p \<and> n mod ?p = number mod ?p"
    by (metis div_mod_decomp)
  show ?thesis
  proof (cases "n div ?p = number div ?p")
    case True
    then show ?thesis using data split
      by (simp add: status_entry_def store_entry_def nth_list_update)
  next
    case False
    then have "n \<noteq> number" by auto
    with False show ?thesis by (simp add: status_entry_def store_entry_def split: option.splits)
  qed
qed

lemma CN_numerals:
  "CN_MAX_NUMBER = 18446744073709551613" "CN_LIMBO = 18446744073709551615"
  "CN_DEAD = 18446744073709551614" "CN_MAX_NUMBER - 1 = 18446744073709551612"
  by (code_simp)+

lemma CN_unat:
  "unat CN_MAX_NUMBER = 18446744073709551613" "unat CN_LIMBO = 18446744073709551615"
  "unat CN_DEAD = 18446744073709551614" "unat (CN_MAX_NUMBER - 1) = 18446744073709551612"
  "unat CN_ACTIVE = 0" "unat CN_PREHISTORIC = 1"
  unfolding CN_numerals by (simp_all add: CN_ACTIVE_def CN_PREHISTORIC_def)

lemma cn_less_simps:
  fixes cn :: commit_number
  assumes "cn < CN_MAX_NUMBER - 1"
  shows "cn < cn + 1" "cn + 1 < CN_MAX_NUMBER" "cn < CN_MAX_NUMBER" "cn < CN_LIMBO" "cn < CN_DEAD"
proof -
  note max = CN_unat
  have cn: "unat cn < 18446744073709551612" using assms max by (simp add: word_less_nat_alt)
  then have "unat (cn + 1) = unat cn + 1" by (simp add: unat_word_ariths)
  then show "cn < cn + 1" "cn + 1 < CN_MAX_NUMBER" "cn < CN_MAX_NUMBER" "cn < CN_LIMBO" "cn < CN_DEAD"
    using cn max by (simp_all add: word_less_nat_alt)
qed

lemma cn_cases:
  obtains (active) "cn = CN_ACTIVE" "\<not> is_committed cn" | (limbo) "cn = CN_LIMBO" "\<not> is_committed cn"
    | (dead) "cn = CN_DEAD" "\<not> is_committed cn"
    | (committed) "is_committed cn" "cn \<noteq> CN_ACTIVE" "cn \<noteq> CN_LIMBO" "cn \<noteq> CN_DEAD"
proof -
  note max = CN_unat
  have lim: "unat cn \<le> 18446744073709551615" using unsigned_less [of cn, where 'a = nat] by simp
  have eq: "cn = x \<longleftrightarrow> unat cn = unat x" for x by (simp add: word_unat_eq_iff)
  have com: "is_committed cn \<longleftrightarrow> 1 \<le> unat cn \<and> unat cn \<le> 18446744073709551613"
    using max by (simp add: is_committed_def word_le_nat_alt)
  consider "unat cn = 0" | "unat cn = 18446744073709551615" | "unat cn = 18446744073709551614"
    | "1 \<le> unat cn \<and> unat cn \<le> 18446744073709551613" using lim by linarith
  then show thesis by cases (use that eq com max in \<open>simp_all\<close>)
qed

lemma cn_distinct [simp]:
  "CN_ACTIVE \<noteq> CN_LIMBO" "CN_ACTIVE \<noteq> CN_DEAD" "CN_LIMBO \<noteq> CN_DEAD"
  "CN_LIMBO \<noteq> CN_ACTIVE" "CN_DEAD \<noteq> CN_ACTIVE" "CN_DEAD \<noteq> CN_LIMBO"
  "\<not> is_committed CN_ACTIVE" "\<not> is_committed CN_LIMBO" "\<not> is_committed CN_DEAD" "is_committed CN_PREHISTORIC"
  by (code_simp)+

text \<open>\<open>setState\<close>: which changes are accepted, and what they do.\<close>

lemma setState_effect:
  assumes ok: "tip_ok t" and bound: "latest_commit_number (tpc_header t) < CN_MAX_NUMBER - 1"
    and set: "setState n st t = Inr (cn, t')"
  shows "tip_ok t' \<and> oldest_transaction (tpc_header t') = oldest_transaction (tpc_header t) \<and>
    transactionsPerBlock t' = transactionsPerBlock t \<and>
    status_entry t' = (status_entry t)(n := cn) \<and> state_of_cn cn = st \<and>
    (cn = status_entry t n \<and> latest_commit_number (tpc_header t') = latest_commit_number (tpc_header t) \<or>
     status_entry t n \<in> {CN_ACTIVE, CN_LIMBO} \<and>
      (cn \<in> {CN_LIMBO, CN_DEAD} \<and> latest_commit_number (tpc_header t') = latest_commit_number (tpc_header t) \<or>
       cn = latest_commit_number (tpc_header t) + 1 \<and> latest_commit_number (tpc_header t') = cn))"
proof -
  obtain t1 where get: "getTransactionStatusBlock (n div transactionsPerBlock t) t = (True, t1)"
    using set by (cases "getTransactionStatusBlock (n div transactionsPerBlock t) t")
      (auto simp: setState_def split: bool.splits)
  note g = get_block_effect [OF ok get]
  let ?l = "latest_commit_number (tpc_header t)" and ?old = "status_entry t n"
  have some: "block_files t1 (n div transactionsPerBlock t1) \<noteq> None" using g by simp
  have upd: "tip_ok (store_entry n c (t1\<lparr>tpc_header := h\<rparr>)) \<and>
      status_entry (store_entry n c (t1\<lparr>tpc_header := h\<rparr>)) = (status_entry t)(n := c)"
    if "?l \<le> latest_commit_number h" "is_committed c \<longrightarrow> c \<le> latest_commit_number h" for c h
  proof -
    let ?t = "t1\<lparr>tpc_header := h\<rparr>"
    have "status_entry ?t m = status_entry t1 m" for m by (simp add: status_entry_def split: option.splits)
    then have e: "status_entry ?t = status_entry t" using g by (simp add: fun_eq_iff)
    have okh: "tip_ok ?t" using g that(1) unfolding tip_ok_def e by (auto intro: order_trans)
    have some': "block_files ?t (n div transactionsPerBlock ?t) \<noteq> None" using some by simp
    have e': "status_entry (store_entry n c ?t) = (status_entry t)(n := c)"
      using status_entry_stored [OF okh some'] e by (simp add: fun_eq_iff)
    moreover have "tip_ok (store_entry n c ?t)"
      using okh that(2) unfolding tip_ok_def e' e by (auto simp: store_entry_def split: if_splits)
    ultimately show ?thesis by blast
  qed
  have same: "store_entry n c t1 = store_entry n c (t1\<lparr>tpc_header := tpc_header t\<rparr>)" for c
    using g by (simp add: store_entry_def)
  have committed_new: "is_committed (?l + 1)" "?l \<le> ?l + 1"
    using cn_less_simps [OF bound] ok by (auto simp: is_committed_def tip_ok_def)
  then have new: "state_of_cn (?l + 1) = tra_committed"
    by (cases "?l + 1" rule: cn_cases) (auto simp: state_of_cn_def)
  have header: "tpc_header (store_entry n c x) = tpc_header x"
    "transactionsPerBlock (store_entry n c x) = transactionsPerBlock x" for c x
    by (simp_all add: store_entry_def)
  have com: "is_committed c \<Longrightarrow> state_of_cn c = tra_committed" for c
    by (cases c rule: cn_cases) (auto simp: state_of_cn_def)
  have up: "tip_ok (store_entry n c t1) \<and> status_entry (store_entry n c t1) = (status_entry t)(n := c)"
    if "\<not> is_committed c" for c using upd [of "tpc_header t" c] that same by simp
  have upc: "tip_ok (store_entry n (?l + 1) (t1\<lparr>tpc_header := (tpc_header t)\<lparr>latest_commit_number := ?l + 1\<rparr>\<rparr>)) \<and>
      status_entry (store_entry n (?l + 1) (t1\<lparr>tpc_header := (tpc_header t)\<lparr>latest_commit_number := ?l + 1\<rparr>\<rparr>)) =
      (status_entry t)(n := ?l + 1)" using upd committed_new by simp
  have t1: "tip_ok t1" "status_entry t1 = status_entry t" "tpc_header t1 = tpc_header t"
    "transactionsPerBlock t1 = transactionsPerBlock t" using g by simp_all
  have idem: "(status_entry t)(n := c) = status_entry t" if "?old = c" for c using that by auto
  note sdefs = setState_def get Let_def t1 prod.case bool.case
  show ?thesis
  proof (cases ?old rule: cn_cases)
    case active
    show ?thesis
    proof (cases "st = tra_committed")
      case True
      then have "cn = ?l + 1 \<and> t' = store_entry n (?l + 1) (t1\<lparr>tpc_header := (tpc_header t)\<lparr>latest_commit_number := ?l + 1\<rparr>\<rparr>)"
        using set active by (auto simp: sdefs)
      with upc header t1 new active True show ?thesis by simp
    next
      case False
      then have "cn = CN_LIMBO \<and> st = tra_limbo \<and> t' = store_entry n CN_LIMBO t1 \<or>
          cn = CN_DEAD \<and> st = tra_dead \<and> t' = store_entry n CN_DEAD t1"
        using set active by (simp add: sdefs split: if_splits)
      with up [of CN_LIMBO] up [of CN_DEAD] header t1 active show ?thesis
        by (elim disjE conjE) (simp_all add: state_of_cn_def)
    qed
  next
    case limbo
    show ?thesis
    proof (cases "st = tra_committed")
      case True
      then have "cn = ?l + 1 \<and> t' = store_entry n (?l + 1) (t1\<lparr>tpc_header := (tpc_header t)\<lparr>latest_commit_number := ?l + 1\<rparr>\<rparr>)"
        using set limbo by (auto simp: sdefs)
      with upc header t1 new limbo True show ?thesis by simp
    next
      case False
      then have "cn = CN_LIMBO \<and> st = tra_limbo \<and> t' = t1 \<or>
          cn = CN_DEAD \<and> st = tra_dead \<and> t' = store_entry n CN_DEAD t1"
        using set limbo by (simp add: sdefs split: if_splits)
      with up [of CN_DEAD] header t1 limbo idem [OF limbo(1)] show ?thesis
        by (elim disjE conjE) (simp_all add: state_of_cn_def)
    qed
  next
    case dead
    then have "cn = CN_DEAD \<and> st = tra_dead \<and> t' = t1"
      using set by (simp add: sdefs split: if_splits)
    with t1 dead idem [OF dead(1)] show ?thesis by (simp add: state_of_cn_def)
  next
    case committed
    then have "cn = ?old \<and> st = tra_committed \<and> t' = t1"
      using set by (simp add: sdefs split: if_splits)
    with t1 com [OF committed(1)] idem [OF refl] show ?thesis by simp
  qed
qed

lemma get_block_found:
  assumes "oldest_transaction (tpc_header t) \<le> n"
  obtains t1 where "getTransactionStatusBlock (n div transactionsPerBlock t) t = (True, t1)"
proof -
  have old: "oldest_transaction (tpc_header t) div transactionsPerBlock t \<le> n div transactionsPerBlock t"
    using assms by (rule div_le_mono)
  show thesis using that
    by (cases "mapped t (n div transactionsPerBlock t)") (simp_all add: getTransactionStatusBlock_def old)
qed

subsection \<open>Properties\<close>

text \<open>
  C22. \<open>setState\<close> accepts exactly the changes from active or limbo to another state, and to the state
  the transaction already has; it then changes this transaction's entry only, and a transaction
  that was not committed gets the next commit number. All else is a bug check.
\<close>

theorem set_state_outcome:
  assumes "tip_ok t" "latest_commit_number (tpc_header t) < CN_MAX_NUMBER - 1"
    "oldest_transaction (tpc_header t) \<le> n"
  shows "(case setState n st t of
      Inl e \<Rightarrow> \<not> (st \<in> {tra_limbo, tra_dead, tra_committed} \<and>
        (status_entry t n \<in> {CN_ACTIVE, CN_LIMBO} \<or> st = state_of_cn (status_entry t n)))
    | Inr (cn, t') \<Rightarrow> st \<in> {tra_limbo, tra_dead, tra_committed} \<and>
        (status_entry t n \<in> {CN_ACTIVE, CN_LIMBO} \<or> st = state_of_cn (status_entry t n)) \<and>
        status_entry t' = (status_entry t)(n := cn) \<and> state_of_cn cn = st \<and>
        (st = tra_committed \<and> \<not> is_committed (status_entry t n) \<longrightarrow>
           cn = latest_commit_number (tpc_header t) + 1))"
proof (cases "setState n st t")
  case (Inl e)
  obtain t1 where get: "getTransactionStatusBlock (n div transactionsPerBlock t) t = (True, t1)"
    using assms(3) by (rule get_block_found)
  have e: "status_entry t1 n = status_entry t n" using get_block_effect [OF assms(1) get] by simp
  show ?thesis using Inl unfolding setState_def get
    by (cases "status_entry t n" rule: cn_cases)
      (auto simp: e Let_def state_of_cn_def tra_defs split: if_splits)
next
  case (Inr p)
  obtain cn t' where p: "p = (cn, t')" by fastforce
  note eff = setState_effect [OF assms(1,2) Inr [unfolded p]]
  have "st \<in> {tra_limbo, tra_dead, tra_committed}"
    using Inr by (auto simp: setState_def Let_def split: prod.splits bool.splits if_splits)
  moreover have "status_entry t n \<in> {CN_ACTIVE, CN_LIMBO} \<or> st = state_of_cn (status_entry t n)"
    using eff by metis
  moreover have "st = tra_committed \<and> \<not> is_committed (status_entry t n) \<longrightarrow>
      cn = latest_commit_number (tpc_header t) + 1"
    using eff by (cases "status_entry t n" rule: cn_cases) (auto simp: state_of_cn_def tra_defs)
  ultimately show ?thesis using Inr p eff by simp
qed

text \<open>
  Any sequence of successful operations on transactions, as long as commit numbers do not run out.
\<close>

inductive tip_run :: "tip_cache \<Rightarrow> tip_cache \<Rightarrow> bool" for t where
  started: "tip_run t t"
| state_set: "tip_run t t1 \<Longrightarrow> latest_commit_number (tpc_header t1) < CN_MAX_NUMBER - 1 \<Longrightarrow>
    setState n st t1 = Inr (cn, t2) \<Longrightarrow> tip_run t t2"
| state_probed: "tip_run t t1 \<Longrightarrow> latest_commit_number (tpc_header t1) < CN_MAX_NUMBER - 1 \<Longrightarrow>
    snapshotState locked n disk t1 = Inr (cn, disk', t2) \<Longrightarrow> tip_run t t2"

text \<open>What holds along a run for the entries and the snapshot number \<open>sn\<close>, taken when it started.\<close>

definition run_keeps :: "tip_cache \<Rightarrow> tip_cache \<Rightarrow> bool" where
  "run_keeps t t' \<longleftrightarrow> tip_ok t' \<and> oldest_transaction (tpc_header t') = oldest_transaction (tpc_header t) \<and>
     transactionsPerBlock t' = transactionsPerBlock t \<and>
     latest_commit_number (tpc_header t) \<le> latest_commit_number (tpc_header t') \<and>
     (\<forall>m. is_committed (status_entry t m) \<longrightarrow> status_entry t' m = status_entry t m) \<and>
     (\<forall>m. is_committed (status_entry t' m) \<longrightarrow> \<not> is_committed (status_entry t m) \<longrightarrow>
        latest_commit_number (tpc_header t) < status_entry t' m) \<and>
     (numbers_unique t \<longrightarrow> numbers_unique t')"

lemma run_keeps_trans: "run_keeps t t1 \<Longrightarrow> run_keeps t1 t2 \<Longrightarrow> run_keeps t t2"
proof -
  assume a: "run_keeps t t1" and b: "run_keeps t1 t2"
  have new: "latest_commit_number (tpc_header t) < status_entry t2 m"
    if "is_committed (status_entry t2 m)" "\<not> is_committed (status_entry t m)" for m
  proof (cases "is_committed (status_entry t1 m)")
    case True
    then have "status_entry t2 m = status_entry t1 m" using b by (simp add: run_keeps_def)
    with a True that(2) show ?thesis by (simp add: run_keeps_def)
  next
    case False
    then have "latest_commit_number (tpc_header t1) < status_entry t2 m" using b that(1) by (simp add: run_keeps_def)
    moreover have "latest_commit_number (tpc_header t) \<le> latest_commit_number (tpc_header t1)"
      using a by (simp add: run_keeps_def)
    ultimately show ?thesis by (rule le_less_trans [rotated])
  qed
  with a b show ?thesis unfolding run_keeps_def by (auto intro: order_trans)
qed

lemma run_keeps_same:
  "tip_ok t' \<Longrightarrow> status_entry t' = status_entry t \<Longrightarrow> tpc_header t' = tpc_header t \<Longrightarrow>
     transactionsPerBlock t' = transactionsPerBlock t \<Longrightarrow> run_keeps t t'"
  by (simp add: run_keeps_def numbers_unique_def)

lemma run_keeps_setState:
  assumes ok: "tip_ok t" and bound: "latest_commit_number (tpc_header t) < CN_MAX_NUMBER - 1"
    and set: "setState n st t = Inr (cn, t')"
  shows "run_keeps t t'"
proof -
  let ?l = "latest_commit_number (tpc_header t)" and ?l' = "latest_commit_number (tpc_header t')"
  note eff = setState_effect [OF assms]
  have below: "is_committed (status_entry t m) \<Longrightarrow> status_entry t m \<le> ?l" for m
    using ok by (simp add: tip_ok_def)
  have lt: "?l < ?l + 1" using cn_less_simps [OF bound] by simp
  consider (same) "cn = status_entry t n" "?l' = ?l"
    | (rolled) "\<not> is_committed (status_entry t n)" "\<not> is_committed cn" "?l' = ?l"
    | (committed) "\<not> is_committed (status_entry t n)" "cn = ?l + 1" "?l' = ?l + 1"
    using eff by (elim conjE disjE) auto
  then show ?thesis
  proof cases
    case same
    then have "status_entry t' = status_entry t" using eff by simp
    with same eff show ?thesis by (simp add: run_keeps_def numbers_unique_def)
  next
    case rolled
    have e: "status_entry t' = (status_entry t)(n := cn)" using eff by blast
    have "numbers_unique t \<Longrightarrow> numbers_unique t'"
      using rolled unfolding numbers_unique_def e by auto
    with rolled eff show ?thesis by (simp add: run_keeps_def)
  next
    case committed
    have e: "status_entry t' = (status_entry t)(n := cn)" using eff by blast
    have new: "is_committed (status_entry t m) \<Longrightarrow> status_entry t m \<noteq> ?l + 1" for m
      using below [of m] lt by auto
    have "is_committed (?l + 1)"
      using cn_less_simps [OF bound] ok by (auto simp: is_committed_def tip_ok_def)
    then have "numbers_unique t \<Longrightarrow> numbers_unique t'"
      using new committed(2) unfolding numbers_unique_def e by (auto split: if_splits) metis+
    with committed eff lt show ?thesis by (simp add: run_keeps_def less_imp_le)
  qed
qed

lemma cacheState_effect:
  assumes "tip_ok t" "cacheState n t = (cn, t')"
  shows "run_keeps t t' \<and> tpc_header t' = tpc_header t \<and>
    (oldest_transaction (tpc_header t) \<le> n \<longrightarrow> cn = status_entry t n) \<and>
    (n < oldest_transaction (tpc_header t) \<longrightarrow> cn = CN_PREHISTORIC)"
proof (cases "n < oldest_transaction (tpc_header t)")
  case True
  then show ?thesis using assms run_keeps_same [of t t] by (auto simp: cacheState_def)
next
  case False
  obtain t1 where get: "getTransactionStatusBlock (n div transactionsPerBlock t) t = (True, t1)"
    using False by (meson get_block_found not_less)
  have "t' = t1" "cn = status_entry t1 n" using assms(2) False by (auto simp: cacheState_def get)
  with get_block_effect [OF assms(1) get] False show ?thesis by (auto intro: run_keeps_same)
qed

lemma run_keeps_snapshotState:
  assumes ok: "tip_ok t" and bound: "latest_commit_number (tpc_header t) < CN_MAX_NUMBER - 1"
    and probed: "snapshotState locked n disk t = Inr (cn, disk', t')"
  shows "run_keeps t t'"
proof -
  obtain c t1 where cache: "cacheState n t = (c, t1)" by fastforce
  note e = cacheState_effect [OF ok cache]
  have ok1: "tip_ok t1" "latest_commit_number (tpc_header t1) < CN_MAX_NUMBER - 1"
    using e bound by (simp_all add: run_keeps_def)
  have "t' = t1 \<or> (\<exists>st c'. setState n st t1 = Inr (c', t'))"
    using probed by (auto simp: snapshotState_def cache split: if_splits sum.splits)
  then show ?thesis using e run_keeps_setState [OF ok1] run_keeps_trans by blast
qed

lemma run_keeps_run:
  assumes "tip_run t t'" "tip_ok t"
  shows "run_keeps t t'"
  using assms
proof (induction rule: tip_run.induct)
  case started
  then show ?case by (simp add: run_keeps_same)
next
  case (state_set t1 n st cn t2)
  then have k: "run_keeps t t1" by blast
  then have "tip_ok t1" by (simp add: run_keeps_def)
  with k state_set.hyps(2,3) show ?case by (meson run_keeps_setState run_keeps_trans)
next
  case (state_probed t1 locked n disk cn disk' t2)
  then have k: "run_keeps t t1" by blast
  then have "tip_ok t1" by (simp add: run_keeps_def)
  with k state_probed.hyps(2,3) show ?case by (meson run_keeps_snapshotState run_keeps_trans)
qed

text \<open>
  C8. A snapshot is stable: whatever transactions end while it lives, and whatever is found out
  about transactions whose process has died, a transaction that reads with the latest commit number
  of the start of its snapshot sees the same transactions as committed as then. Commit numbers
  stay unique.
\<close>

theorem snapshot_is_stable:
  assumes "tip_ok t" "tip_run t t'" "tra_snapshot_number tr = latest_commit_number (tpc_header t)"
    "\<not> tra_read_committed tr" "\<not> tra_system tr"
  shows "(seen_state tr n (fst (cacheState n t')) = tra_committed \<longleftrightarrow>
      seen_state tr n (fst (cacheState n t)) = tra_committed) \<and> (numbers_unique t \<longrightarrow> numbers_unique t')"
proof -
  note k = run_keeps_run [OF assms(2,1)]
  obtain c t1 where c: "cacheState n t = (c, t1)" by fastforce
  obtain c' t1' where c': "cacheState n t' = (c', t1')" by fastforce
  have ok': "tip_ok t'" and old: "oldest_transaction (tpc_header t') = oldest_transaction (tpc_header t)"
    using k by (simp_all add: run_keeps_def)
  have same: "is_committed c \<Longrightarrow> c' = c"
    and new: "is_committed c' \<Longrightarrow> \<not> is_committed c \<Longrightarrow> latest_commit_number (tpc_header t) < c'"
    using k old cacheState_effect [OF assms(1) c] cacheState_effect [OF ok' c']
    by (cases "oldest_transaction (tpc_header t) \<le> n"; auto simp: run_keeps_def)+
  have seen: "seen_state tr n x = tra_committed \<longleftrightarrow> tra_commit_sub_trans tr n \<or>
      is_committed x \<and> x \<le> latest_commit_number (tpc_header t)" for x
    using assms(3-5) by (cases x rule: cn_cases) (auto simp: seen_state_def state_of_cn_def tra_defs)
  have "is_committed c' \<and> c' \<le> latest_commit_number (tpc_header t) \<longleftrightarrow>
      is_committed c \<and> c \<le> latest_commit_number (tpc_header t)"
  proof (cases "is_committed c")
    case True
    then show ?thesis using same by simp
  next
    case False
    then show ?thesis using new leD by blast
  qed
  then show ?thesis unfolding c c' fst_conv seen using k by (simp add: run_keeps_def)
qed

text \<open>A cache with transactions 1 to 3 known, the second one active.\<close>

definition demo_tip :: tip_cache where
  "demo_tip = \<lparr>tpc_header = demo_header 7 0, transactionsPerBlock = 4,
     block_files = [0 \<mapsto> [0, 1, 0, 7]], mapped = (\<lambda>_. False)\<rparr>"

definition demo_tra :: snapshot_tra where
  "demo_tra = \<lparr>tra_number = 9, tra_oldest = 1, tra_snapshot_number = 7, tra_commit_sub_trans = (\<lambda>_. False),
     tra_read_committed = False, tra_read_consistency = False, tra_system = False, request_snapshot = None\<rparr>"

lemma demo_tip_entry:
  "status_entry demo_tip n = (if n = 1 then 1 else if n = 3 then 7 else 0)"
proof -
  have "n < 4 \<Longrightarrow> n = 0 \<or> n = 1 \<or> n = 2 \<or> n = 3" by linarith
  then show ?thesis by (cases "n < 4") (auto simp: status_entry_def demo_tip_def)
qed

lemma demo_tip_ok: "tip_ok demo_tip"
proof -
  have "is_committed c \<Longrightarrow> c \<noteq> 0" for c by (auto simp: is_committed_def CN_PREHISTORIC_def)
  then show ?thesis unfolding tip_ok_def demo_tip_entry
    by (auto simp: demo_tip_def demo_header_def CN_PREHISTORIC_def)
qed

lemma demo_bound: "latest_commit_number (tpc_header demo_tip) < CN_MAX_NUMBER - 1"
  by code_simp

theorem set_state_outcome_witness:
  "case setState 2 tra_committed demo_tip of Inl e \<Rightarrow> False | Inr (cn, t') \<Rightarrow> cn = 8"
proof -
  have old: "oldest_transaction (tpc_header demo_tip) \<le> 2" by code_simp
  have "status_entry demo_tip 2 = CN_ACTIVE" by (simp add: demo_tip_entry CN_ACTIVE_def)
  moreover have "latest_commit_number (tpc_header demo_tip) = 7" by code_simp
  ultimately show ?thesis
    using set_state_outcome [OF demo_tip_ok demo_bound old, where st = tra_committed]
    by (auto simp: tra_defs split: sum.splits)
qed

theorem snapshot_is_stable_witness:
  "case setState 2 tra_committed demo_tip of Inl e \<Rightarrow> False
    | Inr (cn, t') \<Rightarrow> seen_state demo_tra 2 (fst (cacheState 2 t')) \<noteq> tra_committed"
proof -
  obtain cn t' where set: "setState 2 tra_committed demo_tip = Inr (cn, t')"
  proof (cases "setState 2 tra_committed demo_tip")
    case (Inl e)
    have "case setState 2 tra_committed demo_tip of Inl e \<Rightarrow> False | Inr _ \<Rightarrow> True" by code_simp
    with Inl that show thesis by simp
  qed (use that in \<open>metis prod.collapse\<close>)
  have run: "tip_run demo_tip t'" by (rule tip_run.state_set [OF tip_run.started demo_bound set])
  have "tra_snapshot_number demo_tra = latest_commit_number (tpc_header demo_tip)"
    "\<not> tra_read_committed demo_tra" "\<not> tra_system demo_tra"
    "seen_state demo_tra 2 (fst (cacheState 2 demo_tip)) \<noteq> tra_committed" by code_simp+
  with snapshot_is_stable [OF demo_tip_ok run, of demo_tra 2] set show ?thesis by simp
qed

text \<open>The release of old blocks.\<close>

lemma cacheState_value:
  assumes "0 < transactionsPerBlock t" "oldest_transaction (tpc_header t) \<le> n"
  shows "fst (cacheState n t) = status_entry t n"
proof -
  obtain t1 where get: "getTransactionStatusBlock (n div transactionsPerBlock t) t = (True, t1)"
    using assms(2) by (rule get_block_found)
  then have "t1 = t \<or> t1 = createTransactionStatusBlock (n div transactionsPerBlock t) t"
    by (auto simp: getTransactionStatusBlock_def split: if_splits)
  then have "status_entry t1 n = status_entry t n" using status_entry_created [OF assms(1)] by auto
  then show ?thesis using assms(2) by (simp add: cacheState_def get)
qed

lemma cleanup_below: "b \<in> set (blocks_to_cleanup exists n) \<Longrightarrow> b < n"
  by (induction n) (auto split: if_splits simp: less_SucI)

lemma released_blocks:
  "b \<notin> set bs \<Longrightarrow> block_files (fold release_block bs t) b = block_files t b \<and>
     mapped (fold release_block bs t) b = mapped t b"
  by (induction bs arbitrary: t) (simp_all add: release_block_def)

lemma released_header:
  "tpc_header (fold release_block bs t) = tpc_header t \<and>
     transactionsPerBlock (fold release_block bs t) = transactionsPerBlock t"
  by (induction bs arbitrary: t) (simp_all add: release_block_def)

text \<open>
  C23. \<open>updateOldestTransaction\<close> never moves the oldest transaction back and releases no block
  that is still needed: the block of the new oldest transaction, the one before it and all later
  ones stay, so the state of every transaction from the oldest one on is read as before.
\<close>

theorem update_oldest_keeps_states:
  assumes "0 < transactionsPerBlock t"
  shows "let t' = updateOldestTransaction o1 o2 t; old = oldest_transaction (tpc_header t')
    in old = max (oldest_transaction (tpc_header t)) (min o1 o2) \<and>
       (\<forall>b. old div transactionsPerBlock t \<le> b + 1 \<longrightarrow> block_files t' b = block_files t b \<and> mapped t' b = mapped t b) \<and>
       (\<forall>n. old \<le> n \<longrightarrow> fst (cacheState n t') = fst (cacheState n t))"
proof -
  let ?p = "transactionsPerBlock t" and ?old = "oldest_transaction (tpc_header t)"
  define t' where "t' = updateOldestTransaction o1 o2 t"
  define N where "N = max ?old (min o1 o2)"
  have hdr: "oldest_transaction (tpc_header t') = N" "transactionsPerBlock t' = ?p"
    unfolding t'_def N_def updateOldestTransaction_def releaseSharedMemory_def Let_def
    by (auto simp: released_header)
  have keep: "block_files t' b = block_files t b \<and> mapped t' b = mapped t b" if "N div ?p \<le> b + 1" for b
  proof (cases "?old < min o1 o2")
    case True
    let ?t = "t\<lparr>tpc_header := (tpc_header t)\<lparr>oldest_transaction := min o1 o2\<rparr>\<rparr>"
    let ?bs = "blocks_to_cleanup (\<lambda>b. block_files ?t b \<noteq> None) (min o1 o2 div ?p - SAFETY_GAP_BLOCKS)"
    have "N = min o1 o2" using True by (simp add: N_def)
    then have far: "min o1 o2 div ?p \<le> b + 1" using that by simp
    have "b \<notin> set ?bs"
    proof
      assume "b \<in> set ?bs"
      then have "b < min o1 o2 div ?p - SAFETY_GAP_BLOCKS" by (rule cleanup_below)
      with far show False by (simp add: SAFETY_GAP_BLOCKS_def)
    qed
    from released_blocks [OF this, of ?t]
    show ?thesis unfolding t'_def updateOldestTransaction_def releaseSharedMemory_def Let_def using True by simp
  next
    case False
    then have "t' = t" unfolding t'_def updateOldestTransaction_def Let_def by (rule if_not_P)
    then show ?thesis by simp
  qed
  have "fst (cacheState n t') = fst (cacheState n t)" if n: "N \<le> n" for n
  proof -
    have "N div ?p \<le> n div ?p + 1" using div_le_mono [OF n, of ?p] by simp
    then have "block_files t' (n div ?p) = block_files t (n div ?p)" using keep by blast
    then have "status_entry t' n = status_entry t n" unfolding status_entry_def hdr(2) by simp
    moreover have "?old \<le> n" using n by (simp add: N_def)
    ultimately show ?thesis using cacheState_value [of t n] cacheState_value [of t' n] assms hdr n by simp
  qed
  with hdr keep show ?thesis unfolding t'_def [symmetric] Let_def N_def [symmetric] by simp
qed

theorem update_oldest_keeps_states_witness:
  "fst (cacheState 3 (updateOldestTransaction 3 5 demo_tip)) = 7"
proof -
  have "0 < transactionsPerBlock demo_tip" by code_simp
  from update_oldest_keeps_states [OF this, of 3 5] have
    "3 = max (oldest_transaction (tpc_header demo_tip)) (min 3 5) \<Longrightarrow>
     fst (cacheState 3 (updateOldestTransaction 3 5 demo_tip)) = fst (cacheState 3 demo_tip)"
    by (simp add: Let_def)
  moreover have "3 = max (oldest_transaction (tpc_header demo_tip)) (min 3 5)" by code_simp
  moreover have "fst (cacheState 3 demo_tip) = 7" by code_simp
  ultimately show ?thesis by simp
qed

end
