(* ===== verification/SrqLinks.thy ===== *)
theory SrqLinks
  imports Main
begin

text \<open>
  The self-relative queues of the lock table as they lie in shared memory (\<open>srq\<close> and \<open>shb\<close> of
  \<open>src/lock/lock_proto.h\<close>, \<open>insert_tail\<close>, \<open>remove_que\<close> and the recovery in \<open>acquire_shmem\<close> of
  \<open>src/lock/lock.cpp\<close>). A process may die between any two stores; the next one to acquire the
  table finds the note in the secondary header and completes a removal or undoes an insertion,
  if the owner offset that the dead one left as \<open>lhb_active_owner\<close> is positive. An operation is the
  list of its stores, each a function of the memory it finds.
\<close>

record links =
  srq_forward :: "nat \<Rightarrow> nat"
  srq_backward :: "nat \<Rightarrow> nat"
  shb_remove_node :: nat
  shb_insert_que :: nat
  shb_insert_prior :: nat
  lhb_active_owner :: int

text \<open>Who acquires the table before it knows its owner does so as \<open>DUMMY_OWNER\<close>.\<close>

definition DUMMY_OWNER :: int where "DUMMY_OWNER = - 1"

definition set_forward :: "nat \<Rightarrow> nat \<Rightarrow> links \<Rightarrow> links" where
  "set_forward a b s = s\<lparr>srq_forward := (srq_forward s)(a := b)\<rparr>"

definition set_backward :: "nat \<Rightarrow> nat \<Rightarrow> links \<Rightarrow> links" where
  "set_backward a b s = s\<lparr>srq_backward := (srq_backward s)(a := b)\<rparr>"

definition insert_stores :: "nat \<Rightarrow> nat \<Rightarrow> (links \<Rightarrow> links) list" where
  "insert_stores q n =
     [\<lambda>s. s\<lparr>shb_insert_que := q\<rparr>,
      \<lambda>s. s\<lparr>shb_insert_prior := srq_backward s q\<rparr>,
      \<lambda>s. set_forward n q s,
      \<lambda>s. set_backward n (srq_backward s q) s,
      \<lambda>s. set_forward (srq_backward s q) n s,
      \<lambda>s. set_backward q n s,
      \<lambda>s. s\<lparr>shb_insert_que := 0\<rparr>,
      \<lambda>s. s\<lparr>shb_insert_prior := 0\<rparr>]"

definition remove_stores :: "nat \<Rightarrow> (links \<Rightarrow> links) list" where
  "remove_stores n =
     [\<lambda>s. s\<lparr>shb_remove_node := n\<rparr>,
      \<lambda>s. set_backward (srq_forward s n) (srq_backward s n) s,
      \<lambda>s. set_forward (srq_backward s n) (srq_forward s n) s,
      \<lambda>s. s\<lparr>shb_remove_node := 0\<rparr>,
      \<lambda>s. set_backward n n s,
      \<lambda>s. set_forward n n s]"

text \<open>The two consistency checks of \<open>remove_que\<close>.\<close>

definition remove_checks :: "nat \<Rightarrow> links \<Rightarrow> bool" where
  "remove_checks n s \<longleftrightarrow>
     srq_backward s (srq_forward s n) \<in> {n, srq_backward s n} \<and> srq_forward s (srq_backward s n) \<in> {n, srq_forward s n}"

text \<open>The stores that the recovery makes, given what it finds, if it is made at all.\<close>

definition recover_stores :: "links \<Rightarrow> (links \<Rightarrow> links) list" where
  "recover_stores s =
     (if shb_remove_node s \<noteq> 0 then remove_stores (shb_remove_node s)
      else if shb_insert_que s \<noteq> 0 \<and> shb_insert_prior s \<noteq> 0
      then [\<lambda>s. set_backward (shb_insert_que s) (shb_insert_prior s) s,
            \<lambda>s. set_forward (shb_insert_prior s) (shb_insert_que s) s,
            \<lambda>s. s\<lparr>shb_insert_que := 0\<rparr>,
            \<lambda>s. s\<lparr>shb_insert_prior := 0\<rparr>]
      else [])"

definition run :: "(links \<Rightarrow> links) list \<Rightarrow> links \<Rightarrow> links" where
  "run fs s = fold (\<lambda>f. f) fs s"

definition insert_tail :: "nat \<Rightarrow> nat \<Rightarrow> links \<Rightarrow> links" where
  "insert_tail q n s = run (insert_stores q n) s"

definition remove_que :: "nat \<Rightarrow> links \<Rightarrow> links" where
  "remove_que n s = run (remove_stores n) s"

definition recover :: "links \<Rightarrow> links" where
  "recover s = run (recover_stores s) s"

text \<open>
  What \<open>acquire_shmem\<close> stores once it has the mutex: its owner, whose predecessor decides whether there
  is a recovery; counters and the mapping of a grown file, in between, are left out. Then processes that
  die in it, each given by its owner and the number of its stores, before one gets through.
\<close>

definition acquire_stores :: "int \<Rightarrow> links \<Rightarrow> (links \<Rightarrow> links) list" where
  "acquire_stores w s = (\<lambda>s. s\<lparr>lhb_active_owner := w\<rparr>) # (if 0 < lhb_active_owner s then recover_stores s else [])"

definition acquire :: "int \<Rightarrow> links \<Rightarrow> links" where
  "acquire w s = run (acquire_stores w s) s"

definition die_acquiring :: "int \<times> nat \<Rightarrow> links \<Rightarrow> links" where
  "die_acquiring d s = run (take (snd d) (acquire_stores (fst d) s)) s"

definition acquire_after :: "(int \<times> nat) list \<Rightarrow> int \<Rightarrow> links \<Rightarrow> links" where
  "acquire_after ds w s = acquire w (fold die_acquiring ds s)"

text \<open>The deaths after which the next process takes up the recovery: of owners, or before the first store.\<close>

definition owners_die :: "(int \<times> nat) list \<Rightarrow> bool" where
  "owners_die ds \<longleftrightarrow> (\<forall>(w, k) \<in> set ds. 0 < w \<or> k = 0)"

subsection \<open>Queues\<close>

fun linked :: "links \<Rightarrow> nat list \<Rightarrow> bool" where
  "linked s (a # b # l) \<longleftrightarrow> srq_forward s a = b \<and> srq_backward s b = a \<and> linked s (b # l)"
| "linked s _ \<longleftrightarrow> True"

definition ring :: "links \<Rightarrow> nat \<Rightarrow> nat list \<Rightarrow> bool" where
  "ring s q xs \<longleftrightarrow> distinct (q # xs) \<and> 0 \<notin> set (q # xs) \<and> linked s (q # xs @ [q])"

lemma linked_append: "linked s (l @ a # l') \<longleftrightarrow> linked s (l @ [a]) \<and> linked s (a # l')"
  by (induction s "l @ [a]" arbitrary: l rule: linked.induct) (auto simp: Cons_eq_append_conv)

lemma linked_cong:
  assumes "\<And>x. x \<in> set (butlast l) \<Longrightarrow> srq_forward s' x = srq_forward s x" "\<And>x. x \<in> set (tl l) \<Longrightarrow> srq_backward s' x = srq_backward s x"
  shows "linked s' l = linked s l"
  using assms
proof (induction s l rule: linked.induct)
  case (1 s a b l)
  have "linked s' (b # l) = linked s (b # l)"
  proof (rule "1.IH")
    show "srq_forward s' x = srq_forward s x" if "x \<in> set (butlast (b # l))" for x using "1.prems"(1) that by simp
    show "srq_backward s' x = srq_backward s x" if "x \<in> set (tl (b # l))" for x using "1.prems"(2) that by simp
  qed
  then show ?case using "1.prems" by simp
qed simp_all

lemma set_links [simp]:
  "srq_forward (set_forward a b s) = (srq_forward s)(a := b)" "srq_backward (set_forward a b s) = srq_backward s"
  "srq_backward (set_backward a b s) = (srq_backward s)(a := b)" "srq_forward (set_backward a b s) = srq_forward s"
  "shb_remove_node (set_forward a b s) = shb_remove_node s" "shb_remove_node (set_backward a b s) = shb_remove_node s"
  "shb_insert_que (set_forward a b s) = shb_insert_que s" "shb_insert_que (set_backward a b s) = shb_insert_que s"
  "shb_insert_prior (set_forward a b s) = shb_insert_prior s" "shb_insert_prior (set_backward a b s) = shb_insert_prior s"
  "lhb_active_owner (set_forward a b s) = lhb_active_owner s" "lhb_active_owner (set_backward a b s) = lhb_active_owner s"
  by (simp_all add: set_forward_def set_backward_def)

text \<open>A ring cut open after \<open>p\<close>: \<open>us @ p # vs\<close> are its members, the head first.\<close>

lemma ring_split:
  assumes "q # xs = us @ p # vs"
  shows "ring s q xs \<longleftrightarrow> distinct (us @ p # vs) \<and> 0 \<notin> set (us @ p # vs) \<and> linked s (us @ [p]) \<and> linked s (p # vs @ [q])"
proof -
  have e: "q # xs @ [q] = us @ p # (vs @ [q])" using assms by (metis append_Cons append_assoc)
  show ?thesis unfolding ring_def e assms linked_append [of s us p "vs @ [q]"] by blast
qed

lemma ring_same:
  assumes "ring s q xs" "\<And>x. x \<in> set (q # xs) \<Longrightarrow> srq_forward s' x = srq_forward s x \<and> srq_backward s' x = srq_backward s x"
  shows "ring s' q xs"
proof -
  have "linked s' (q # xs @ [q]) = linked s (q # xs @ [q])"
    by (rule linked_cong) (use assms(2) in \<open>auto dest: in_set_butlastD simp: butlast_append\<close>)
  then show ?thesis using assms(1) by (simp add: ring_def)
qed

text \<open>The neighbours of a member.\<close>

lemma ring_links:
  assumes "ring s q xs"
  shows "q # xs = us @ p # v # vs \<Longrightarrow> srq_forward s p = v \<and> srq_backward s v = p"
    "q # xs = us @ [p] \<Longrightarrow> srq_forward s p = q \<and> srq_backward s q = p"
  using assms ring_split [of q xs us p "v # vs" s] ring_split [of q xs us p "[]" s] by simp_all

subsection \<open>Insertion\<close>

lemma ring_insert:
  assumes r: "ring s q xs" and n: "n \<notin> set (q # xs)" "n \<noteq> 0" and p: "p = srq_backward s q"
    and s': "srq_forward s' = (srq_forward s)(n := q, p := n)" "srq_backward s' = (srq_backward s)(n := p, q := n)"
  shows "ring s' q (xs @ [n])"
proof -
  obtain ys l where e: "q # xs = ys @ [l]" by (metis append_butlast_last_id list.discI)
  have l: "l = p" using ring_links(2) [OF r e] p by simp
  have d: "distinct (ys @ [p])" "0 \<notin> set (ys @ [p])" "linked s (ys @ [p])"
    using r ring_split [of q xs ys l "[]"] e l by simp_all
  have e': "q # (xs @ [n]) = ys @ p # [n]" using e l by (metis append_Cons append_assoc append_Nil)
  have np: "n \<notin> set (ys @ [p])" using n(1) e l by simp
  have hd: "q = hd (ys @ [p])" using e l by (metis list.sel(1))
  have qt: "q \<notin> set (tl (ys @ [p]))" using d(1) hd by (cases ys) auto
  have "linked s' (ys @ [p]) = linked s (ys @ [p])"
  proof (rule linked_cong)
    show "srq_forward s' x = srq_forward s x" if "x \<in> set (butlast (ys @ [p]))" for x
      using that d(1) np by (auto simp: s')
    show "srq_backward s' x = srq_backward s x" if "x \<in> set (tl (ys @ [p]))" for x
    proof -
      have "x \<noteq> q" "x \<noteq> n" using that qt np by (auto dest: list.set_sel(2) [rotated])
      then show ?thesis by (simp add: s')
    qed
  qed
  moreover have "linked s' (p # [n] @ [q])" using np hd n(1) by (auto simp: s')
  ultimately show ?thesis using d np n(2) unfolding ring_split [OF e'] by simp
qed

lemma insert_tail_links:
  assumes "n \<noteq> q"
  shows "srq_forward (insert_tail q n s) = (srq_forward s)(n := q, srq_backward s q := n)"
    "srq_backward (insert_tail q n s) = (srq_backward s)(n := srq_backward s q, q := n)"
    "shb_remove_node (insert_tail q n s) = shb_remove_node s" "shb_insert_que (insert_tail q n s) = 0"
    "shb_insert_prior (insert_tail q n s) = 0"
  using assms by (simp_all add: insert_tail_def run_def insert_stores_def)

text \<open>The states from the note that an insertion is under way to its commit or its undoing.\<close>

definition inserting :: "links \<Rightarrow> nat \<Rightarrow> nat \<Rightarrow> links \<Rightarrow> bool" where
  "inserting s0 q n s \<longleftrightarrow> shb_remove_node s = 0 \<and> shb_insert_que s = q \<and> shb_insert_prior s = srq_backward s0 q \<and>
     (\<forall>x. x \<noteq> srq_backward s0 q \<and> x \<noteq> n \<longrightarrow> srq_forward s x = srq_forward s0 x) \<and>
     (\<forall>x. x \<noteq> q \<and> x \<noteq> n \<longrightarrow> srq_backward s x = srq_backward s0 x)"

text \<open>Memory with the links of \<open>s0\<close>, except for those of \<open>n\<close>, and without a removal under way.\<close>

definition as_before :: "links \<Rightarrow> nat \<Rightarrow> links \<Rightarrow> bool" where
  "as_before s0 n s \<longleftrightarrow> shb_remove_node s = 0 \<and> (\<forall>x. x \<noteq> n \<longrightarrow> srq_forward s x = srq_forward s0 x \<and> srq_backward s x = srq_backward s0 x)"

lemma take_four: "take k [a, b, c, d] = [] \<or> take k [a, b, c, d] = [a] \<or> take k [a, b, c, d] = [a, b] \<or>
    take k [a, b, c, d] = [a, b, c] \<or> take k [a, b, c, d] = [a, b, c, d]"
  by (auto simp: take_Cons split: nat.split)

text \<open>The owner does not matter to the recovery, nor the recovery to the owner.\<close>

lemma recover_stores_owner [simp]: "recover_stores (s\<lparr>lhb_active_owner := w\<rparr>) = recover_stores s"
  by (simp add: recover_stores_def)

lemma run_Cons: "run (f # fs) s = run fs (f s)"
  by (simp add: run_def)

lemma run_owner:
  assumes "\<And>f t. f \<in> set fs \<Longrightarrow> lhb_active_owner (f t) = lhb_active_owner t"
  shows "lhb_active_owner (run fs s) = lhb_active_owner s"
  using assms by (induction fs arbitrary: s) (simp_all add: run_def)

lemma recover_owner: "lhb_active_owner (run (take k (recover_stores s)) t) = lhb_active_owner t"
  by (rule run_owner) (auto simp: recover_stores_def remove_stores_def split: if_splits dest!: in_set_takeD)

lemma recover_inserting:
  assumes r: "ring s0 q xs" and i: "inserting s0 q n s"
  shows "inserting s0 q n (run (take k (recover_stores s)) s) \<or>
      as_before s0 n (run (take k (recover_stores s)) s) \<and> shb_insert_que (run (take k (recover_stores s)) s) = 0"
    "as_before s0 n (recover s)" "shb_insert_que (recover s) = 0"
proof -
  obtain ys p where e: "q # xs = ys @ [p]" by (metis append_butlast_last_id list.discI)
  note l = ring_links(2) [OF r e]
  have z: "0 \<notin> set (q # xs)" using r unfolding ring_def by blast
  then have nz: "q \<noteq> 0" "p \<noteq> 0" using e by (metis list.set_intros(1), metis in_set_conv_decomp)
  let ?a = "\<lambda>s. set_backward (shb_insert_que s) (shb_insert_prior s) s" and ?b = "\<lambda>s. set_forward (shb_insert_prior s) (shb_insert_que s) s"
  have st: "recover_stores s = [?a, ?b, \<lambda>s. s\<lparr>shb_insert_que := 0\<rparr>, \<lambda>s. s\<lparr>shb_insert_prior := 0\<rparr>]"
    using i nz l by (simp add: recover_stores_def inserting_def)
  show "inserting s0 q n (run (take k (recover_stores s)) s) \<or>
      as_before s0 n (run (take k (recover_stores s)) s) \<and> shb_insert_que (run (take k (recover_stores s)) s) = 0"
    unfolding st using take_four [of k ?a ?b "\<lambda>s. s\<lparr>shb_insert_que := 0\<rparr>" "\<lambda>s. s\<lparr>shb_insert_prior := 0\<rparr>"] i l
    by (elim disjE) (auto simp: run_def inserting_def as_before_def)
  show "as_before s0 n (recover s)" "shb_insert_que (recover s) = 0"
    unfolding recover_def st using i l by (auto simp: run_def inserting_def as_before_def)
qed

text \<open>What holds through any number of interrupted recoveries holds before the one that completes.\<close>

lemma acquire_after_inv:
  assumes J: "J s" "\<And>s k. J s \<Longrightarrow> J (run (take k (recover_stores s)) s)" "\<And>s w. J s \<Longrightarrow> J (s\<lparr>lhb_active_owner := w\<rparr>)"
    and o: "0 < lhb_active_owner s" "owners_die ds"
  shows "\<exists>s'. J s' \<and> acquire_after ds w s = recover s'"
proof -
  have "J (fold die_acquiring ds s) \<and> 0 < lhb_active_owner (fold die_acquiring ds s)"
    using J(1) o
  proof (induction ds arbitrary: s)
    case (Cons d ds)
    obtain v k where d: "d = (v, k)" by fastforce
    have die: "J (die_acquiring d s) \<and> 0 < lhb_active_owner (die_acquiring d s)"
    proof (cases k)
      case 0
      then show ?thesis using Cons.prems by (simp add: d die_acquiring_def run_def)
    next
      case (Suc j)
      have "die_acquiring d s = run (take j (recover_stores (s\<lparr>lhb_active_owner := v\<rparr>))) (s\<lparr>lhb_active_owner := v\<rparr>)"
        using Cons.prems(2) Suc by (simp add: d die_acquiring_def acquire_stores_def run_Cons)
      moreover have "0 < v" using Cons.prems(3) Suc by (simp add: d owners_die_def)
      moreover have "J (run (take j (recover_stores (s\<lparr>lhb_active_owner := v\<rparr>))) (s\<lparr>lhb_active_owner := v\<rparr>))"
        by (rule J(2) [OF J(3) [OF Cons.prems(1)]])
      ultimately show ?thesis using recover_owner by simp
    qed
    moreover have "owners_die ds" using Cons.prems(3) by (simp add: owners_die_def)
    ultimately show ?case using Cons.IH by simp
  qed simp
  then have "J ((fold die_acquiring ds s)\<lparr>lhb_active_owner := w\<rparr>) \<and>
      acquire_after ds w s = recover ((fold die_acquiring ds s)\<lparr>lhb_active_owner := w\<rparr>)"
    by (simp add: J(3) acquire_after_def acquire_def acquire_stores_def run_Cons recover_def)
  then show ?thesis by blast
qed

text \<open>Memory that is the same but for the owner.\<close>

definition same_links :: "links \<Rightarrow> links \<Rightarrow> bool" where
  "same_links s s' \<longleftrightarrow> (\<exists>w. s' = s\<lparr>lhb_active_owner := w\<rparr>)"

lemma same_links_refl [simp]: "same_links s s"
proof -
  have "s = s\<lparr>lhb_active_owner := lhb_active_owner s\<rparr>" by simp
  then show ?thesis unfolding same_links_def by blast
qed

lemma same_linksD:
  assumes "same_links s s'"
  shows "srq_forward s' = srq_forward s" "srq_backward s' = srq_backward s" "shb_remove_node s' = shb_remove_node s"
    "shb_insert_que s' = shb_insert_que s" "shb_insert_prior s' = shb_insert_prior s"
  using assms by (auto simp: same_links_def)

lemma same_links_recover: "same_links s s' \<Longrightarrow> recover_stores s' = recover_stores s"
  by (auto simp: same_links_def)

lemma nothing_to_recover:
  assumes "recover_stores s = []"
  shows "same_links s (acquire_after ds w s)"
proof -
  have die: "same_links s (die_acquiring d t)" if "same_links s t" for d t
  proof -
    have "recover_stores t = []" using assms same_links_recover [OF that] by simp
    then have "die_acquiring d t = t \<or> die_acquiring d t = t\<lparr>lhb_active_owner := fst d\<rparr>"
      by (cases "snd d") (simp_all add: die_acquiring_def acquire_stores_def run_def)
    then show ?thesis using that by (elim disjE) (auto simp: same_links_def)
  qed
  have "same_links s (fold die_acquiring ds t)" if "same_links s t" for t
    using that die by (induction ds arbitrary: t) auto
  then have f: "same_links s (fold die_acquiring ds s)" by simp
  then have "recover_stores (fold die_acquiring ds s) = []" using assms same_links_recover by simp
  then show ?thesis using f by (auto simp: acquire_after_def acquire_def acquire_stores_def run_def same_links_def)
qed

lemma acquire_after_inserting:
  assumes r: "ring s0 q xs" and i: "inserting s0 q n s" and o: "0 < lhb_active_owner s" "owners_die ds"
  shows "as_before s0 n (acquire_after ds w s) \<and> shb_insert_que (acquire_after ds w s) = 0"
proof -
  define J where "J s \<longleftrightarrow> inserting s0 q n s \<or> as_before s0 n s \<and> shb_insert_que s = 0" for s
  have quiet: "recover_stores s = []" if "as_before s0 n s" "shb_insert_que s = 0" for s
    using that by (simp add: recover_stores_def as_before_def)
  have "\<exists>s'. J s' \<and> acquire_after ds w s = recover s'"
  proof (rule acquire_after_inv [OF _ _ _ o])
    show "J s" using i by (simp add: J_def)
    show "J (run (take k (recover_stores s)) s)" if "J s" for s k
      using that recover_inserting(1) [OF r, of n s k] quiet [of s] by (auto simp: J_def run_def)
    show "J (s\<lparr>lhb_active_owner := v\<rparr>)" if "J s" for s v
      using that by (auto simp: J_def inserting_def as_before_def)
  qed
  then obtain s' where s': "J s'" "acquire_after ds w s = recover s'" by blast
  then show ?thesis
    using recover_inserting(2,3) [OF r, of n s'] quiet [of s'] by (auto simp: J_def recover_def run_def)
qed

lemma as_before_ring:
  assumes "ring s0 q xs" "n \<notin> set (q # xs)" "as_before s0 n s"
  shows "ring s q xs"
  by (rule ring_same [OF assms(1)]) (use assms(2,3) in \<open>auto simp: as_before_def\<close>)

subsection \<open>Removal\<close>

text \<open>The states from the note that a removal is under way to its completion, and thereafter.\<close>

definition removing :: "links \<Rightarrow> nat \<Rightarrow> links \<Rightarrow> bool" where
  "removing s0 n s \<longleftrightarrow> shb_remove_node s = n \<and> (shb_insert_que s = 0 \<or> shb_insert_prior s = 0) \<and>
     (\<forall>x. x \<noteq> srq_backward s0 n \<longrightarrow> srq_forward s x = srq_forward s0 x) \<and> srq_forward s (srq_backward s0 n) \<in> {n, srq_forward s0 n} \<and>
     (\<forall>x. x \<noteq> srq_forward s0 n \<longrightarrow> srq_backward s x = srq_backward s0 x) \<and> srq_backward s (srq_forward s0 n) \<in> {n, srq_backward s0 n}"

definition removed :: "links \<Rightarrow> nat \<Rightarrow> links \<Rightarrow> bool" where
  "removed s0 n s \<longleftrightarrow> shb_remove_node s = 0 \<and> (shb_insert_que s = 0 \<or> shb_insert_prior s = 0) \<and>
     (\<forall>x. x \<noteq> n \<longrightarrow> srq_forward s x = ((srq_forward s0)(srq_backward s0 n := srq_forward s0 n)) x \<and>
        srq_backward s x = ((srq_backward s0)(srq_forward s0 n := srq_backward s0 n)) x)"

lemma take_short: "\<exists>j \<le> length l. take k l = take j l"
  by (rule exI [of _ "min k (length l)"]) (simp add: min_def)

lemma upto_six: "j \<le> 6 \<Longrightarrow> j = 0 \<or> j = 1 \<or> j = 2 \<or> j = 3 \<or> j = 4 \<or> j = 5 \<or> j = (6::nat)"
  by presburger

lemma ring_around:
  assumes "ring s q xs" "n \<in> set xs"
  shows "srq_forward s n \<noteq> n" "srq_backward s n \<noteq> n" "n \<noteq> 0" "srq_backward s (srq_forward s n) = n" "srq_forward s (srq_backward s n) = n"
    "srq_forward s n \<in> set (q # xs)" "srq_backward s n \<in> set (q # xs)"
proof -
  obtain us vs where e: "q # xs = us @ n # vs" "us \<noteq> []"
    using assms(2) by (metis append_Cons list.discI split_list)
  then obtain ys p where us: "us = ys @ [p]" by (metis append_butlast_last_id)
  have D: "distinct (q # xs)" "0 \<notin> set (q # xs)" using assms(1) unfolding ring_def by blast+
  have p: "srq_forward s p = n \<and> srq_backward s n = p" using ring_links(1) [OF assms(1), of ys p n vs] e us by simp
  have q: "q \<noteq> n" using D(1) assms(2) by auto
  have f: "srq_backward s (srq_forward s n) = n \<and> srq_forward s n \<noteq> n \<and> srq_forward s n \<in> set (q # xs)"
  proof (cases vs)
    case Nil
    then have "srq_forward s n = q \<and> srq_backward s q = n" using ring_links(2) [OF assms(1), of us n] e by simp
    then show ?thesis using q by auto
  next
    case (Cons v vs')
    have "srq_forward s n = v \<and> srq_backward s v = n" using ring_links(1) [OF assms(1), of us n v vs'] e(1) Cons by simp
    moreover have "v \<noteq> n" "v \<in> set (q # xs)" using D(1) unfolding e(1) Cons by simp_all
    ultimately show ?thesis by blast
  qed
  show "srq_forward s n \<noteq> n" "srq_backward s (srq_forward s n) = n" "srq_forward s n \<in> set (q # xs)" using f by blast+
  show "srq_backward s n \<in> set (q # xs)" using p us by (simp only: e(1)) simp
  show "srq_backward s n \<noteq> n" "srq_forward s (srq_backward s n) = n" using p D e us by auto
  show "n \<noteq> 0" using D(2) assms(2) by (metis list.set_intros(2))
qed

lemma ring_forward_in:
  assumes "ring s q xs" "p \<in> set (q # xs)"
  shows "srq_forward s p \<in> set (q # xs)"
proof -
  obtain us vs where e: "q # xs = us @ p # vs" using assms(2) by (meson split_list)
  show ?thesis
  proof (cases vs)
    case Nil
    then have "srq_forward s p = q" using ring_links(2) [OF assms(1), of us p] e by simp
    then show ?thesis by simp
  next
    case (Cons v vs')
    then have "srq_forward s p = v" "v \<in> set (q # xs)" using ring_links(1) [OF assms(1), of us p v vs'] e by simp_all
    then show ?thesis by simp
  qed
qed

lemma removing_runs:
  assumes r: "ring s0 q xs" "n \<in> set xs" and i: "removing s0 n s"
  shows "removing s0 n (run (take k (remove_stores n)) s) \<or> removed s0 n (run (take k (remove_stores n)) s)"
    "removed s0 n (remove_que n s)" "remove_checks n s" "srq_forward (remove_que n s) n = n \<and> srq_backward (remove_que n s) n = n"
proof -
  note a = ring_around [OF r]
  have n: "srq_forward s n = srq_forward s0 n" "srq_backward s n = srq_backward s0 n"
    using i a by (simp_all add: removing_def)
  have len: "length (remove_stores n) = 6" by (simp add: remove_stores_def)
  obtain j where j: "j \<le> 6" "take k (remove_stores n) = take j (remove_stores n)"
    using take_short [of "remove_stores n" k] unfolding len by blast
  show "removing s0 n (run (take k (remove_stores n)) s) \<or> removed s0 n (run (take k (remove_stores n)) s)"
    unfolding j(2) using upto_six [OF j(1)] i a n
    by (elim disjE) (auto simp: remove_stores_def run_def removing_def removed_def)
  show "removed s0 n (remove_que n s)" "remove_checks n s" "srq_forward (remove_que n s) n = n \<and> srq_backward (remove_que n s) n = n"
    using i a n by (auto simp: remove_que_def remove_stores_def run_def removing_def removed_def remove_checks_def)
qed

lemma acquire_after_removing:
  assumes r: "ring s0 q xs" "n \<in> set xs" and i: "removing s0 n s" and o: "0 < lhb_active_owner s" "owners_die ds"
  shows "removed s0 n (acquire_after ds w s)"
proof -
  have nz: "n \<noteq> 0" by (rule ring_around(3) [OF r])
  define J where "J s \<longleftrightarrow> removing s0 n s \<or> removed s0 n s" for s
  have quiet: "recover_stores s = []" if "removed s0 n s" for s
    using that by (auto simp: recover_stores_def removed_def)
  have redo: "recover_stores s = remove_stores n" if "removing s0 n s" for s
    using that nz by (simp add: recover_stores_def removing_def)
  have "\<exists>s'. J s' \<and> acquire_after ds w s = recover s'"
  proof (rule acquire_after_inv [OF _ _ _ o])
    show "J s" using i by (simp add: J_def)
    show "J (run (take k (recover_stores s)) s)" if "J s" for s k
      using that removing_runs(1) [OF r, of s k] quiet [of s] redo [of s] by (auto simp: J_def run_def)
    show "J (s\<lparr>lhb_active_owner := v\<rparr>)" if "J s" for s v
      using that by (auto simp: J_def removing_def removed_def)
  qed
  then obtain s' where s': "J s'" "acquire_after ds w s = recover s'" by blast
  then show ?thesis
    using removing_runs(2) [OF r, of s'] quiet [of s'] redo [of s'] by (auto simp: J_def recover_def remove_que_def run_def)
qed

lemma removed_ring:
  assumes r: "ring s0 q xs" "n \<in> set xs" and s: "removed s0 n s"
  shows "ring s q (remove1 n xs)"
proof -
  obtain us vs where e: "xs = us @ n # vs" "n \<notin> set us" using r(2) by (metis split_list_first)
  obtain ys p where y: "q # us = ys @ [p]" by (metis append_butlast_last_id list.discI)
  have x: "q # xs = ys @ p # n # vs" using e y by simp
  have D: "distinct (ys @ p # n # vs)" "0 \<notin> set (ys @ p # n # vs)" "linked s0 (ys @ [p])" "linked s0 (p # (n # vs) @ [q])"
    using r(1) unfolding ring_split [OF x] by blast+
  define f where "f = hd (vs @ [q])"
  have nb: "srq_backward s0 n = p" "srq_forward s0 n = f" using D(4) by (cases vs; simp add: f_def)+
  have q: "q = hd (ys @ [p])" using y by (metis list.sel(1))
  have qin: "q \<in> set (ys @ [p])" using y by (metis list.set_intros(1))
  have S: "srq_forward s z = (if z = p then f else srq_forward s0 z)" "srq_backward s z = (if z = f then p else srq_backward s0 z)" if "z \<noteq> n" for z
    using s that by (simp_all add: removed_def nb)
  have "linked s (ys @ [p]) = linked s0 (ys @ [p])"
  proof (rule linked_cong)
    show "srq_forward s z = srq_forward s0 z" if "z \<in> set (butlast (ys @ [p]))" for z
    proof -
      have "z \<noteq> n" "z \<noteq> p" using that D(1) by auto
      then show ?thesis using S(1) by simp
    qed
    show "srq_backward s z = srq_backward s0 z" if z: "z \<in> set (tl (ys @ [p]))" for z
    proof -
      have "z \<noteq> q" using z q D(1) by (cases ys) auto
      moreover have "z \<in> set (ys @ [p])" using z by (cases ys) auto
      then have "z \<notin> set vs" "z \<noteq> n" using D(1) by auto
      ultimately show ?thesis using S(2) [of z] by (cases vs) (auto simp: f_def)
    qed
  qed
  moreover have "linked s (vs @ [q]) = linked s0 (vs @ [q])"
  proof (rule linked_cong)
    show "srq_forward s z = srq_forward s0 z" if "z \<in> set (butlast (vs @ [q]))" for z
    proof -
      have "z \<noteq> n" "z \<noteq> p" using that D(1) by auto
      then show ?thesis using S(1) by simp
    qed
    show "srq_backward s z = srq_backward s0 z" if z: "z \<in> set (tl (vs @ [q]))" for z
    proof -
      have "z \<in> set vs \<or> z = q" using z by (cases vs) auto
      then have "z \<noteq> n" using D(1) qin by auto
      moreover have "z \<noteq> f" using z D(1) qin by (cases vs) (auto simp: f_def)
      ultimately show ?thesis using S(2) [of z] by simp
    qed
  qed
  moreover have "linked s0 (vs @ [q])" using D(4) by (cases vs) auto
  moreover have "f \<noteq> n" "p \<noteq> n" using D(1) qin by (cases vs; auto simp: f_def)+
  then have "srq_forward s p = f \<and> srq_backward s f = p" using S(1) [of p] S(2) [of f] by simp
  ultimately have "linked s (ys @ [p])" "linked s (p # vs @ [q])" using D(3) by (cases vs; simp add: f_def)+
  moreover have "q # remove1 n xs = ys @ p # vs" using e y by (simp add: remove1_append)
  ultimately show ?thesis using D(1,2) by (simp add: ring_split)
qed

lemma removed_other:
  assumes "ring s0 q xs" "n \<in> set xs" "removed s0 n s" "ring s0 q' ys" "set (q' # ys) \<inter> set (q # xs) = {}"
  shows "ring s q' ys"
proof (rule ring_same [OF assms(4)])
  fix x
  assume x: "x \<in> set (q' # ys)"
  have "x \<notin> set (q # xs)" using x assms(5) by blast
  then have "x \<noteq> n" "x \<noteq> srq_forward s0 n" "x \<noteq> srq_backward s0 n"
    using ring_around(6,7) [OF assms(1,2)] assms(2) by auto
  then show "srq_forward s x = srq_forward s0 x \<and> srq_backward s x = srq_backward s0 x"
    using assms(3) by (simp add: removed_def)
qed

subsection \<open>Queues as lists\<close>

text \<open>
  What the rest of the lock manager relies on: the links represent lists, insertion appends,
  removal takes out, and both leave disjoint queues alone.
\<close>

locale list_queues =
  fixes rep :: "'s \<Rightarrow> nat \<Rightarrow> nat list \<Rightarrow> bool" and ins :: "nat \<Rightarrow> nat \<Rightarrow> 's \<Rightarrow> 's" and rem :: "nat \<Rightarrow> 's \<Rightarrow> 's"
  assumes ins_rep: "rep s q xs \<Longrightarrow> n \<notin> set (q # xs) \<Longrightarrow> n \<noteq> 0 \<Longrightarrow> rep (ins q n s) q (xs @ [n])"
    and rem_rep: "rep s q xs \<Longrightarrow> n \<in> set xs \<Longrightarrow> rep (rem n s) q (remove1 n xs)"
    and rep_proper: "rep s q xs \<Longrightarrow> distinct (q # xs) \<and> 0 \<notin> set (q # xs)"
begin

lemma move_to_tail:
  assumes "rep s q xs" "n \<in> set xs"
  shows "rep (ins q n (rem n s)) q (remove1 n xs @ [n])"
proof -
  have "n \<notin> set (q # remove1 n xs)" using rep_proper [OF assms(1)] assms(2) by auto
  moreover have "n \<noteq> 0" using rep_proper [OF assms(1)] assms(2) by (metis list.set_intros(2))
  ultimately show ?thesis using ins_rep [OF rem_rep [OF assms]] by blast
qed

lemma drain:
  assumes "rep s q xs"
  shows "rep (fold rem xs s) q []"
  using assms
proof (induction xs arbitrary: s)
  case (Cons x xs)
  then show ?case using rem_rep [OF Cons.prems, of x] by simp
qed simp

end

subsection \<open>What insertion and removal come to\<close>

text \<open>No operation is noted as under way.\<close>

definition quiet_links :: "links \<Rightarrow> bool" where
  "quiet_links s \<longleftrightarrow> shb_remove_node s = 0 \<and> (shb_insert_que s = 0 \<or> shb_insert_prior s = 0)"

lemma quiet_recover: "quiet_links s \<Longrightarrow> same_links s (acquire_after ds w s)"
  by (rule nothing_to_recover) (auto simp: quiet_links_def recover_stores_def)

lemma same_links_ring: "same_links s s' \<Longrightarrow> ring s' q xs = ring s q xs"
  using ring_same [of s q xs s'] ring_same [of s' q xs s] same_linksD [of s s'] by auto

lemma same_links_quiet: "same_links s s' \<Longrightarrow> quiet_links s' = quiet_links s"
  using same_linksD [of s s'] by (simp add: quiet_links_def)

lemma removing_start:
  assumes "ring s q xs" "n \<in> set xs" "quiet_links s"
  shows "removing s n (s\<lparr>shb_remove_node := n\<rparr>)"
  using assms ring_around(4,5) [OF assms(1,2)] by (auto simp: removing_def quiet_links_def)

lemma remove_from_start:
  "0 < k \<Longrightarrow> run (take k (remove_stores n)) s = run (take k (remove_stores n)) (s\<lparr>shb_remove_node := n\<rparr>)"
  "remove_que n s = remove_que n (s\<lparr>shb_remove_node := n\<rparr>)"
  by (cases k; simp add: remove_stores_def remove_que_def run_Cons)+

interpretation srq: list_queues "\<lambda>s q xs. ring s q xs \<and> quiet_links s" insert_tail remove_que
proof
  fix s q xs n
  assume r: "ring s q xs \<and> quiet_links s"
  show "ring (insert_tail q n s) q (xs @ [n]) \<and> quiet_links (insert_tail q n s)" if n: "n \<notin> set (q # xs)" "n \<noteq> 0"
  proof -
    have nq: "n \<noteq> q" using n by simp
    note l = insert_tail_links [OF nq, of s]
    show ?thesis using ring_insert [OF conjunct1 [OF r] n refl l(1,2)] r l(3,4) by (simp add: quiet_links_def)
  qed
  show "ring (remove_que n s) q (remove1 n xs) \<and> quiet_links (remove_que n s)" if n: "n \<in> set xs"
  proof -
    have m: "removed s n (remove_que n s)"
      using removing_runs(2) [OF conjunct1 [OF r] n removing_start [OF conjunct1 [OF r] n conjunct2 [OF r]]] remove_from_start(2) by metis
    then show ?thesis using removed_ring [OF conjunct1 [OF r] n] by (simp add: removed_def quiet_links_def)
  qed
  show "distinct (q # xs) \<and> 0 \<notin> set (q # xs)" using r unfolding ring_def by blast
qed

text \<open>
  C32. The links implement lists: \<open>insert_tail\<close> appends, \<open>remove_que\<close> takes out, leaving the node
  linked to itself, and its consistency checks never fail; taking a member out and inserting it
  again moves it to the end, as \<open>wait_for_request\<close> does.
\<close>

theorem links_implement_lists:
  assumes "ring s q xs" "quiet_links s" "n \<in> set xs" "m \<notin> set (q # xs)" "m \<noteq> 0"
  shows "ring (insert_tail q m s) q (xs @ [m]) \<and> ring (remove_que n s) q (remove1 n xs) \<and> remove_checks n (s\<lparr>shb_remove_node := n\<rparr>) \<and>
    srq_forward (remove_que n s) n = n \<and> ring (insert_tail q n (remove_que n s)) q (remove1 n xs @ [n])"
  using srq.ins_rep [of s q xs m] srq.rem_rep [of s q xs n] srq.move_to_tail [of s q xs n]
    removing_runs(3,4) [OF assms(1,3) removing_start [OF assms(1,3,2)]] remove_from_start(2) [of n s] assms
  by simp

definition demo_links :: links where
  "demo_links = \<lparr>srq_forward = (\<lambda>x. x)(1 := 3, 3 := 5, 5 := 1), srq_backward = (\<lambda>x. x)(1 := 5, 3 := 1, 5 := 3),
     shb_remove_node = 0, shb_insert_que = 0, shb_insert_prior = 0, lhb_active_owner = 8\<rparr>"

lemma demo_ring: "ring demo_links 1 [3, 5]" "ring demo_links 2 []" "quiet_links demo_links"
  by (simp_all add: demo_links_def ring_def quiet_links_def)

theorem links_implement_lists_witness: "ring (insert_tail 1 7 demo_links) 1 [3, 5, 7] \<and> ring (remove_que 3 demo_links) 1 [5]"
  using links_implement_lists [OF demo_ring(1,3), of 3 7] by simp

text \<open>
  C6. A process that has set its owner may die after any number of stores of an insertion, and so may
  any number of owners that then repair the queue: it is as it was if the insertion was still noted,
  and has the node at its end otherwise; other queues are not touched, and nothing is left to repair.
  The exception is a death right after the first store, when an earlier death has left
  \<open>shb_insert_prior\<close> set: the repair takes the old value for this insertion's and breaks the queue.
\<close>

theorem insert_survives_crashes:
  assumes r: "ring s q xs" and n: "n \<notin> set (q # xs)" "n \<noteq> 0" and nt: "quiet_links s"
    and o: "0 < lhb_active_owner s" "owners_die ds"
    and s': "s' = acquire_after ds w (run (take k (insert_stores q n)) s)"
  shows "if k = 1 \<and> shb_insert_prior s \<notin> {0, srq_backward s q}
    then \<not> ring (acquire w (run (take k (insert_stores q n)) s)) q xs
    else ring s' q (if k < 7 then xs else xs @ [n]) \<and> quiet_links s' \<and>
      (ring s q' ys \<and> set (q' # ys) \<inter> set (n # q # xs) = {} \<longrightarrow> ring s' q' ys)"
proof -
  define s1 where "s1 = run (take k (insert_stores q n)) s"
  have nq: "n \<noteq> q" using n(1) by simp
  obtain zs p where z: "q # xs = zs @ [p]" by (metis append_butlast_last_id list.discI)
  have p: "srq_backward s q = p" "p \<in> set (q # xs)" using ring_links(2) [OF r z] z by simp_all
  then have np: "n \<noteq> p" using n(1) by auto
  have qz: "q \<noteq> 0" using r by (simp add: ring_def)
  have rn: "shb_remove_node s = 0" using nt by (simp add: quiet_links_def)
  have o1: "0 < lhb_active_owner s1"
  proof -
    have "lhb_active_owner s1 = lhb_active_owner s"
      unfolding s1_def by (rule run_owner) (auto simp: insert_stores_def dest!: in_set_takeD)
    then show ?thesis using o(1) by simp
  qed
  have undone: "ring s' q xs \<and> quiet_links s' \<and> (ring s q' ys \<and> set (q' # ys) \<inter> set (n # q # xs) = {} \<longrightarrow> ring s' q' ys)"
    if i: "inserting s q n s1"
  proof -
    have "as_before s n s' \<and> shb_insert_que s' = 0"
      unfolding s' s1_def [symmetric] by (rule acquire_after_inserting [OF r i o1 o(2)])
    then have b: "as_before s n s'" "shb_insert_que s' = 0" by simp_all
    have "ring s' q2 zs2" if "ring s q2 zs2" "n \<notin> set (q2 # zs2)" for q2 zs2 by (rule as_before_ring [OF that b(1)])
    then show ?thesis using r n b by (auto simp: quiet_links_def as_before_def)
  qed
  have still: "ring s' q2 zs2 = ring s1 q2 zs2" "quiet_links s'" if "quiet_links s1" for q2 zs2
  proof -
    have q: "same_links s1 s'" unfolding s' s1_def [symmetric] by (rule quiet_recover [OF that])
    show "ring s' q2 zs2 = ring s1 q2 zs2" by (rule same_links_ring [OF q])
    show "quiet_links s'" using that same_links_quiet [OF q] by simp
  qed
  consider "k = 0" | "k = 1" | "k = 2 \<or> k = 3 \<or> k = 4 \<or> k = 5 \<or> k = 6" | "7 \<le> k" by linarith
  then show ?thesis
  proof cases
    case 1
    then have e: "s1 = s" by (simp add: s1_def run_def)
    have "ring s' q2 zs2 = ring s q2 zs2" "quiet_links s'" for q2 zs2 using still(1) [of q2 zs2] still(2) nt e by simp_all
    then show ?thesis using r 1 by simp
  next
    case 2
    then have e: "s1 = s\<lparr>shb_insert_que := q\<rparr>" by (simp add: s1_def run_def insert_stores_def)
    consider "shb_insert_prior s = 0" | "shb_insert_prior s = p" | "shb_insert_prior s \<noteq> 0" "shb_insert_prior s \<noteq> p" by blast
    then show ?thesis
    proof cases
      case 1
      have "ring s1 q2 zs2" if "ring s q2 zs2" for q2 zs2 by (rule ring_same [OF that]) (simp add: e)
      moreover have "quiet_links s1" using 1 rn by (simp add: e quiet_links_def)
      note st = still(1) [OF this] still(2) [OF this]
      ultimately have "ring s' q xs" "quiet_links s'" "ring s q' ys \<Longrightarrow> ring s' q' ys" using r st by simp_all
      then show ?thesis using 2 1 by simp
    next
      case prior: 2
      have "inserting s q n s1" using prior p by (simp add: e inserting_def rn)
      then show ?thesis using undone 2 prior p(1) by simp
    next
      case 3
      have "srq_backward (acquire w s1) q = shb_insert_prior s"
        using o1 3(1) qz by (simp add: e acquire_def acquire_stores_def recover_stores_def rn run_def)
      note prior = this
      have "\<not> ring (acquire w s1) q xs"
      proof
        assume "ring (acquire w s1) q xs"
        from ring_links(2) [OF this z] show False using prior 3(2) by simp
      qed
      moreover have c: "k = 1 \<and> shb_insert_prior s \<notin> {0, srq_backward s q}" using 2 3 p(1) by simp
      ultimately show ?thesis unfolding if_P [OF c] s1_def [symmetric] by blast
    qed
  next
    case 3
    then have "inserting s q n s1"
      using p nq np rn by (auto simp: s1_def run_def insert_stores_def inserting_def)
    note u = undone [OF this]
    have "k \<noteq> 1" "k < 7" using 3 by auto
    then show ?thesis using u by simp
  next
    case 4
    have l: "srq_forward s1 = (srq_forward s)(n := q, p := n)" "srq_backward s1 = (srq_backward s)(n := p, q := n)"
      "quiet_links s1"
      using 4 nq rn p(1) by (cases "k = 7"; simp add: s1_def run_def insert_stores_def quiet_links_def)+
    have "ring s1 q (xs @ [n])" by (rule ring_insert [OF r n p(1) [symmetric] l(1,2)])
    moreover have "ring s1 q' ys" if "ring s q' ys" "set (q' # ys) \<inter> set (n # q # xs) = {}"
      by (rule ring_same [OF that(1)]) (use that(2) p(2) in \<open>auto simp: l\<close>)
    ultimately have "ring s' q (xs @ [n])" "quiet_links s'"
      "ring s q' ys \<and> set (q' # ys) \<inter> set (n # q # xs) = {} \<longrightarrow> ring s' q' ys"
      using still(1) [OF l(3)] still(2) [OF l(3)] by simp_all
    moreover have "k \<noteq> 1" "\<not> k < 7" using 4 by auto
    ultimately show ?thesis by simp
  qed
qed

theorem insert_survives_crashes_witness:
  "ring (acquire_after [(8, 2), (16, 3)] 24 (run (take 5 (insert_stores 1 7)) demo_links)) 1 [3, 5] \<and>
   ring (acquire_after [] 24 (run (take 7 (insert_stores 1 7)) demo_links)) 1 [3, 5, 7] \<and>
   \<not> ring (acquire 24 (run (take 1 (insert_stores 2 9)) (demo_links\<lparr>shb_insert_prior := 5\<rparr>))) 2 []"
proof -
  have 1: "n \<notin> set (1 # [3, 5]) \<Longrightarrow> n \<noteq> 0 \<Longrightarrow> owners_die ds \<Longrightarrow> k \<noteq> 1 \<Longrightarrow>
      ring (acquire_after ds 24 (run (take k (insert_stores 1 n)) demo_links)) 1 (if k < 7 then [3, 5] else [3, 5] @ [n])" for n ds k
    using insert_survives_crashes [OF demo_ring(1) _ _ demo_ring(3) _ _ refl, where n = n and ds = ds and w = 24 and k = k]
    by (simp add: demo_links_def)
  have "ring (demo_links\<lparr>shb_insert_prior := 5\<rparr>) 2 []" "quiet_links (demo_links\<lparr>shb_insert_prior := 5\<rparr>)"
    by (simp_all add: demo_links_def ring_def quiet_links_def)
  from insert_survives_crashes [OF this(1) _ _ this(2) _ _ refl, where n = 9 and ds = "[]" and w = 24 and k = 1]
  show ?thesis using 1 [of 7 "[(8, 2), (16, 3)]" 5] 1 [of 7 "[]" 7] by (simp add: owners_die_def demo_links_def)
qed

text \<open>
  C5. A process that has set its owner may die after any number of stores of a removal, and so may any
  number of owners that then complete it: unless the removal had not been noted at all, the node is out
  of the queue; other queues are not touched, and nothing is left to repair. But who works as \<open>DUMMY_OWNER\<close>,
  as those do that create an owner or a process, gets no repair: if it dies between the two links, the
  next process finds the queue half linked.
\<close>

theorem remove_survives_crashes:
  assumes r: "ring s q xs" "n \<in> set xs" and nt: "quiet_links s" and d: "owners_die ds"
    and s': "s' = acquire_after ds w (run (take k (remove_stores n)) s)"
  shows "(0 < lhb_active_owner s \<longrightarrow> ring s' q (if k = 0 then xs else remove1 n xs) \<and> quiet_links s' \<and>
      (ring s q' ys \<and> set (q' # ys) \<inter> set (q # xs) = {} \<longrightarrow> ring s' q' ys)) \<and>
    (lhb_active_owner s = DUMMY_OWNER \<and> k = 2 \<longrightarrow>
      (let s'' = acquire w (run (take k (remove_stores n)) s) in \<not> ring s'' q xs \<and> \<not> ring s'' q (remove1 n xs)))"
proof -
  define s1 where "s1 = run (take k (remove_stores n)) s"
  have repaired: "ring s' q (if k = 0 then xs else remove1 n xs) \<and> quiet_links s' \<and>
      (ring s q' ys \<and> set (q' # ys) \<inter> set (q # xs) = {} \<longrightarrow> ring s' q' ys)" if o: "0 < lhb_active_owner s"
  proof (cases "k = 0")
    case True
    then have "same_links s s'" unfolding s' using quiet_recover [OF nt] by (simp add: run_def)
    then show ?thesis using r True nt by (simp add: same_links_ring same_links_quiet)
  next
    case False
    have "lhb_active_owner s1 = lhb_active_owner s"
      unfolding s1_def by (rule run_owner) (auto simp: remove_stores_def dest!: in_set_takeD)
    then have o1: "0 < lhb_active_owner s1" using o by simp
    have "removing s n s1 \<or> removed s n s1"
      using removing_runs(1) [OF r removing_start [OF r nt], of k] remove_from_start(1) [of k n s] False by (simp add: s1_def)
    then have m: "removed s n s'"
      unfolding s' s1_def [symmetric]
    proof
      assume "removing s n s1"
      then show "removed s n (acquire_after ds w s1)" by (rule acquire_after_removing [OF r _ o1 d])
    next
      assume m: "removed s n s1"
      then have "same_links s1 (acquire_after ds w s1)" by (intro quiet_recover) (simp add: removed_def quiet_links_def)
      from same_linksD [OF this] show "removed s n (acquire_after ds w s1)" using m by (simp add: removed_def)
    qed
    then show ?thesis using removed_ring [OF r m] removed_other [OF r m] False by (simp add: removed_def quiet_links_def)
  qed
  have half: "\<not> ring (acquire w s1) q xs \<and> \<not> ring (acquire w s1) q (remove1 n xs)"
    if d: "lhb_active_owner s = DUMMY_OWNER" "k = 2"
  proof -
    note a = ring_around [OF r]
    have l: "srq_forward (acquire w s1) = srq_forward s" "srq_backward (acquire w s1) = (srq_backward s)(srq_forward s n := srq_backward s n)"
      using d by (simp_all add: s1_def acquire_def acquire_stores_def run_def remove_stores_def DUMMY_OWNER_def)
    have "\<not> ring (acquire w s1) q xs"
    proof
      assume "ring (acquire w s1) q xs"
      from ring_around(4) [OF this r(2)] show False using a(2) by (simp add: l)
    qed
    moreover have "\<not> ring (acquire w s1) q (remove1 n xs)"
    proof
      assume b: "ring (acquire w s1) q (remove1 n xs)"
      have "distinct (q # xs)" using r(1) unfolding ring_def by blast
      then have n: "n \<notin> set (q # remove1 n xs)" using r(2) by auto
      have p: "srq_backward s n \<in> set (q # remove1 n xs)" using a(2,7) by (auto simp: in_set_remove1)
      have "srq_forward (acquire w s1) (srq_backward s n) \<in> set (q # remove1 n xs)" by (rule ring_forward_in [OF b p])
      then show False using n a(5) by (simp add: l)
    qed
    ultimately show ?thesis by blast
  qed
  show ?thesis using repaired half unfolding s1_def Let_def by blast
qed

theorem remove_survives_crashes_witness:
  "ring (acquire_after [(8, 4), (16, 2)] 24 (run (take 2 (remove_stores 3)) demo_links)) 1 [5] \<and>
   \<not> ring (acquire 24 (run (take 2 (remove_stores 3)) (demo_links\<lparr>lhb_active_owner := DUMMY_OWNER\<rparr>))) 1 [5]"
proof -
  have d: "ring (demo_links\<lparr>lhb_active_owner := DUMMY_OWNER\<rparr>) 1 [3, 5]" "quiet_links (demo_links\<lparr>lhb_active_owner := DUMMY_OWNER\<rparr>)"
    by (simp_all add: demo_links_def ring_def quiet_links_def)
  show ?thesis
    using remove_survives_crashes [OF demo_ring(1) _ demo_ring(3) _ refl, of 3 "[(8, 4), (16, 2)]" 24 2]
      remove_survives_crashes [OF d(1) _ d(2) _ refl, of 3 "[]" 24 2]
    by (simp add: owners_die_def Let_def, simp add: demo_links_def)
qed

text \<open>
  How \<open>shb_insert_prior\<close> is left set: a process dies between the last two stores of an insertion, and
  nobody clears it.
\<close>

lemma stale_note_breaks_queue:
  assumes r: "ring s q xs" and n: "n \<notin> set (q # xs)" "n \<noteq> 0" and nt: "shb_remove_node s = 0"
    and t: "t = acquire v (run (take 7 (insert_stores q n)) s)" and v: "0 < v"
    and r2: "ring t q2 xs2" "srq_backward s q \<notin> set (q2 # xs2)"
  shows "\<not> ring (acquire w (run (take 1 (insert_stores q2 m)) t)) q2 xs2"
proof -
  obtain zs p where z: "q # xs = zs @ [p]" by (metis append_butlast_last_id list.discI)
  have p: "srq_backward s q = p" using ring_links(2) [OF r z] by simp
  have "p \<noteq> 0" using r z unfolding ring_def by (metis in_set_conv_decomp)
  moreover obtain zs2 p2 where z2: "q2 # xs2 = zs2 @ [p2]" by (metis append_butlast_last_id list.discI)
  moreover have "p2 \<noteq> p" using r2(2) p z2 by auto
  moreover have "q2 \<noteq> 0" using r2(1) by (simp add: ring_def)
  moreover have "shb_insert_prior t = p \<and> shb_remove_node t = 0 \<and> lhb_active_owner t = v"
    using nt p n(1) unfolding t by (simp add: run_def insert_stores_def acquire_def acquire_stores_def recover_stores_def)
  ultimately have "srq_backward (acquire w (run (take 1 (insert_stores q2 m)) t)) q2 \<noteq> p2"
    using v by (simp add: run_def insert_stores_def acquire_def acquire_stores_def recover_stores_def)
  then show ?thesis using ring_links(2) [OF _ z2] by blast
qed

end
