(* ===== verification/LockTable.thy ===== *)
theory LockTable
  imports Prelude
begin

text \<open>
  The lock table of \<open>src/lock/lock.cpp\<close> and \<open>lock_proto.h\<close>: owner, lock and request
  blocks, their queues, and the operations that run while the table's mutex is held. Blocks
  are addressed by their offset in the table (\<open>SRQ_PTR\<close>); the self-relative queues are lists
  of offsets. The history buffers and debugging output, which nothing reads, are
  not part of the state.
\<close>

subsection \<open>Lock levels\<close>

definition LCK_none :: nat where [simp]: "LCK_none = 0"
definition LCK_null :: nat where [simp]: "LCK_null = 1"
definition LCK_SR :: nat where [simp]: "LCK_SR = 2"
definition LCK_PR :: nat where [simp]: "LCK_PR = 3"
definition LCK_SW :: nat where [simp]: "LCK_SW = 4"
definition LCK_PW :: nat where [simp]: "LCK_PW = 5"
definition LCK_EX :: nat where [simp]: "LCK_EX = 6"
definition LCK_max :: nat where [simp]: "LCK_max = 7"

definition LCK_MAX_SERIES :: nat where [simp]: "LCK_MAX_SERIES = 6"

definition compatibility :: "nat \<Rightarrow> nat \<Rightarrow> bool" where
  "compatibility a b =
     [[True, True, True, True, True, True, True],
      [True, True, True, True, True, True, True],
      [True, True, True, True, True, True, False],
      [True, True, True, True, False, False, False],
      [True, True, True, False, True, False, False],
      [True, True, True, False, False, False, False],
      [True, True, False, False, False, False, False]] ! a ! b"

subsection \<open>Blocks\<close>

datatype lrq_flag = LRQ_blocking | LRQ_pending | LRQ_rejected | LRQ_deadlock | LRQ_repost
  | LRQ_scanned | LRQ_blocking_seen | LRQ_just_granted | LRQ_wait_timeout

datatype own_flag = OWN_scanned | OWN_wakeup | OWN_signaled

text \<open>
  The type tags are true for \<open>type_lrq\<close> and \<open>type_lbl\<close>, false for \<open>type_null\<close>. An AST routine or
  argument is a number, 0 the null pointer.
\<close>

record lrq =
  lrq_type :: bool
  lrq_requested :: nat
  lrq_state :: nat
  lrq_flags :: "lrq_flag set"
  lrq_owner :: nat
  lrq_lock :: nat
  lrq_data :: int
  lrq_ast_routine :: nat
  lrq_ast_argument :: nat

record lbl =
  lbl_type :: bool
  lbl_state :: nat
  lbl_size :: nat
  lbl_length :: nat
  lbl_key :: "uchar list"
  lbl_series :: nat
  lbl_data :: int
  lbl_pending_lrq_count :: ushort
  lbl_counts :: "nat \<Rightarrow> ushort"
  lbl_requests :: "nat list"

text \<open>\<open>own_count\<close> is signed, the two other counts are not. A process block is identified by its
  offset, \<open>prc_process_id\<close> is the number the operating system gives.\<close>

record prc =
  prc_process_id :: nat
  prc_owners :: "nat list"

record own =
  own_owner_type :: nat
  own_owner_id :: nat
  own_count :: ushort
  own_process :: nat
  own_requests :: "nat list"
  own_blocks :: "nat list"
  own_pending :: "nat list"
  own_waits :: ushort
  own_ast_count :: ushort
  own_flags :: "own_flag set"

datatype stat = Enqs | Converts | Downgrades | Deqs | Read_data | Write_data | Query_data
  | Operations nat | Waits | Denies | Timeouts | Blocks | Wakeups | Scans | Deadlocks

text \<open>The table: the header \<open>lhb\<close> with the blocks it addresses.\<close>

record table =
  reqs :: "nat \<Rightarrow> lrq"
  lcks :: "nat \<Rightarrow> lbl"
  owns :: "nat \<Rightarrow> own"
  prcs :: "nat \<Rightarrow> prc"
  lhb_owners :: "nat list"
  lhb_processes :: "nat list"
  lhb_free_processes :: "nat list"
  lhb_free_owners :: "nat list"
  lhb_free_locks :: "nat list"
  lhb_free_requests :: "nat list"
  lhb_length :: nat
  lhb_used :: nat
  lhb_hash_slots :: nat
  lhb_hash :: "nat \<Rightarrow> nat list"
  lhb_data :: "nat \<Rightarrow> nat list"
  lhb_stats :: "stat \<Rightarrow> nat"

definition mod_req :: "nat \<Rightarrow> (lrq \<Rightarrow> lrq) \<Rightarrow> table \<Rightarrow> table" where
  "mod_req r f t = t\<lparr>reqs := (reqs t)(r := f (reqs t r))\<rparr>"

definition mod_lck :: "nat \<Rightarrow> (lbl \<Rightarrow> lbl) \<Rightarrow> table \<Rightarrow> table" where
  "mod_lck l f t = t\<lparr>lcks := (lcks t)(l := f (lcks t l))\<rparr>"

definition mod_own :: "nat \<Rightarrow> (own \<Rightarrow> own) \<Rightarrow> table \<Rightarrow> table" where
  "mod_own w f t = t\<lparr>owns := (owns t)(w := f (owns t w))\<rparr>"

definition mod_prc :: "nat \<Rightarrow> (prc \<Rightarrow> prc) \<Rightarrow> table \<Rightarrow> table" where
  "mod_prc p f t = t\<lparr>prcs := (prcs t)(p := f (prcs t p))\<rparr>"

text \<open>The counters of the header have 64 bits.\<close>

definition bump :: "stat \<Rightarrow> table \<Rightarrow> table" where
  "bump s t = t\<lparr>lhb_stats := (lhb_stats t)(s := Suc (lhb_stats t s) mod 2 ^ 64)\<rparr>"

definition bump_operations :: "nat \<Rightarrow> table \<Rightarrow> table" where
  "bump_operations series t =
     (if series < LCK_MAX_SERIES then bump (Operations series) t else bump (Operations 0) t)"

definition set_flag :: "lrq_flag \<Rightarrow> lrq \<Rightarrow> lrq" where
  "set_flag f q = q\<lparr>lrq_flags := insert f (lrq_flags q)\<rparr>"

definition clear_flags :: "lrq_flag set \<Rightarrow> lrq \<Rightarrow> lrq" where
  "clear_flags F q = q\<lparr>lrq_flags := lrq_flags q - F\<rparr>"

subsection \<open>Allocation\<close>

definition MAX_TABLE_LENGTH :: nat where "MAX_TABLE_LENGTH = 2147483647"

text \<open>
  \<open>alloc\<close>: the next \<open>len\<close> bytes of the table (the caller has aligned them), growing
  the table by \<open>memorySize\<close> when they do not fit. \<open>remap\<close> tells whether the operating system
  lets the table grow.
\<close>

definition alloc :: "nat \<Rightarrow> bool \<Rightarrow> nat \<Rightarrow> table \<Rightarrow> nat option \<times> table" where
  "alloc memorySize remap len t =
     (let block = lhb_used t
      in if lhb_length t < lhb_used t + len
         then if MAX_TABLE_LENGTH < lhb_length t + memorySize \<and> MAX_TABLE_LENGTH < lhb_used t + len
              then (None, t)
              else let memorySize' = (if MAX_TABLE_LENGTH < lhb_length t + memorySize
                     then MAX_TABLE_LENGTH - lhb_length t else memorySize)
                   in if remap
                      then (Some block, t\<lparr>lhb_length := lhb_length t + memorySize',
                              lhb_used := lhb_used t + len\<rparr>)
                      else (None, t)
         else (Some block, t\<lparr>lhb_used := lhb_used t + len\<rparr>))"

text \<open>
  What the compiler and the system give: the sizes of the blocks, the hash function, the
  extent by which the table grows, and whether it can.
\<close>

record config =
  sizeof_lrq :: nat
  sizeof_lbl :: nat
  sizeof_own :: nat
  sizeof_prc :: nat
  hash_fn :: "uchar list \<Rightarrow> nat \<Rightarrow> nat"
  memory_size :: nat
  can_remap :: bool

definition FB_ALIGN :: "nat \<Rightarrow> nat \<Rightarrow> nat" where
  "FB_ALIGN n b = (n + b - 1) div b * b"

definition alloc_request :: "config \<Rightarrow> table \<Rightarrow> nat option \<times> table" where
  "alloc_request cfg t =
     (case lhb_free_requests t of
        [] \<Rightarrow> alloc (memory_size cfg) (can_remap cfg) (FB_ALIGN (sizeof_lrq cfg) 8) t
      | r # rest \<Rightarrow> (Some r, t\<lparr>lhb_free_requests := rest\<rparr>))"

text \<open>First fit among the free locks; \<open>lbl_size\<close> is a \<open>UCHAR\<close>.\<close>

definition alloc_lock :: "config \<Rightarrow> nat \<Rightarrow> table \<Rightarrow> nat option \<times> table" where
  "alloc_lock cfg len t =
     (let len' = FB_ALIGN len 8
      in case List.find (\<lambda>l. len' \<le> lbl_size (lcks t l)) (lhb_free_locks t) of
        Some l \<Rightarrow> (Some l, mod_lck l (\<lambda>b. b\<lparr>lbl_type := True\<rparr>)
                     (t\<lparr>lhb_free_locks := remove1 l (lhb_free_locks t)\<rparr>))
      | None \<Rightarrow>
          (case alloc (memory_size cfg) (can_remap cfg) (FB_ALIGN (sizeof_lbl cfg + len') 8) t of
             (None, t') \<Rightarrow> (None, t')
           | (Some l, t') \<Rightarrow> (Some l, mod_lck l (\<lambda>b. b\<lparr>lbl_size := len' mod 256, lbl_type := True\<rparr>) t')))"

definition find_lock :: "config \<Rightarrow> nat \<Rightarrow> uchar list \<Rightarrow> table \<Rightarrow> nat option" where
  "find_lock cfg series key t =
     List.find (\<lambda>l. lbl_series (lcks t l) = series \<and> lbl_length (lcks t l) = length key \<and>
         key = take (length key) (lbl_key (lcks t l)))
       (lhb_hash t (hash_fn cfg key (lhb_hash_slots t)))"

subsection \<open>Granting\<close>

definition lock_state :: "lbl \<Rightarrow> nat" where
  "lock_state b =
     (if lbl_counts b LCK_EX \<noteq> 0 then LCK_EX
      else if lbl_counts b LCK_PW \<noteq> 0 then LCK_PW
      else if lbl_counts b LCK_SW \<noteq> 0 then LCK_SW
      else if lbl_counts b LCK_PR \<noteq> 0 then LCK_PR
      else if lbl_counts b LCK_SR \<noteq> 0 then LCK_SR
      else if lbl_counts b LCK_null \<noteq> 0 then LCK_null
      else LCK_none)"

definition add_count :: "nat \<Rightarrow> ushort \<Rightarrow> lbl \<Rightarrow> lbl" where
  "add_count s n b = b\<lparr>lbl_counts := (lbl_counts b)(s := lbl_counts b s + n)\<rparr>"

definition post_wakeup :: "nat \<Rightarrow> table \<Rightarrow> table" where
  "post_wakeup w t =
     (if 0 < own_waits (owns t w)
      then mod_own w (\<lambda>q. q\<lparr>own_flags := insert OWN_wakeup (own_flags q)\<rparr>) (bump Wakeups t)
      else t)"

definition remove_data_que :: "nat \<Rightarrow> table \<Rightarrow> table" where
  "remove_data_que l t = t\<lparr>lhb_data := (\<lambda>s. remove1 l (lhb_data t s))\<rparr>"

definition insert_data_que :: "nat \<Rightarrow> table \<Rightarrow> table" where
  "insert_data_que l t =
     (let s = lbl_series (lcks t l); d = lbl_data (lcks t l)
      in if s < LCK_MAX_SERIES \<and> d \<noteq> 0
         then t\<lparr>lhb_data := (lhb_data t)(s :=
                takeWhile (\<lambda>l2. \<not> d \<le> lbl_data (lcks t l2)) (lhb_data t s) @ l #
                dropWhile (\<lambda>l2. \<not> d \<le> lbl_data (lcks t l2)) (lhb_data t s))\<rparr>
         else t)"

definition set_data :: "nat \<Rightarrow> int \<Rightarrow> table \<Rightarrow> table" where
  "set_data l d t =
     (let t1 = mod_lck l (\<lambda>b. b\<lparr>lbl_data := d\<rparr>) (remove_data_que l t)
      in if d \<noteq> 0 then insert_data_que l t1 else t1)"

text \<open>Takes the request off its owner's pending queue and the lock's count of pending requests.\<close>

definition unpend :: "nat \<Rightarrow> nat \<Rightarrow> table \<Rightarrow> table" where
  "unpend r l t =
     mod_lck l (\<lambda>b. b\<lparr>lbl_pending_lrq_count := lbl_pending_lrq_count b - 1\<rparr>)
       (mod_req r (clear_flags {LRQ_pending})
         (mod_own (lrq_owner (reqs t r)) (\<lambda>w. w\<lparr>own_pending := remove1 r (own_pending w)\<rparr>) t))"

definition grant :: "nat \<Rightarrow> nat \<Rightarrow> table \<Rightarrow> table" where
  "grant r l t =
     (let t1 = mod_lck l (add_count (lrq_requested (reqs t r)) 1) t;
          t2 = mod_req r (\<lambda>q. q\<lparr>lrq_state := lrq_requested q\<rparr>) t1;
          t3 = (if lrq_data (reqs t2 r) \<noteq> 0
                then mod_req r (\<lambda>q. q\<lparr>lrq_data := 0\<rparr>) (set_data l (lrq_data (reqs t2 r)) t2)
                else t2);
          t4 = mod_lck l (\<lambda>b. b\<lparr>lbl_state := lock_state b\<rparr>) t3;
          t5 = (if LRQ_pending \<in> lrq_flags (reqs t4 r) then unpend r l t4 else t4)
      in post_wakeup (lrq_owner (reqs t5 r)) t5)"

text \<open>The first loop of \<open>post_pending\<close>, over the requests of the lock.\<close>

fun grant_pending :: "nat list \<Rightarrow> nat \<Rightarrow> table \<Rightarrow> table" where
  "grant_pending [] l t = t"
| "grant_pending (r # rs) l t =
     (if LRQ_pending \<notin> lrq_flags (reqs t r) then grant_pending rs l t
      else if lrq_state (reqs t r) \<noteq> 0
      then let t1 = mod_lck l (add_count (lrq_state (reqs t r)) (- 1)) t
           in if compatibility (lrq_requested (reqs t1 r)) (lock_state (lcks t1 l))
              then grant_pending rs l (grant r l t1)
              else post_wakeup (lrq_owner (reqs t r)) (mod_lck l (add_count (lrq_state (reqs t1 r)) 1) t1)
      else if compatibility (lrq_requested (reqs t r)) (lbl_state (lcks t l))
      then grant_pending rs l (grant r l t)
      else post_wakeup (lrq_owner (reqs t r)) t)"

text \<open>The second loop marks the granted requests before the first pending one.\<close>

fun mark_just_granted :: "nat list \<Rightarrow> table \<Rightarrow> table" where
  "mark_just_granted [] t = t"
| "mark_just_granted (r # rs) t =
     (if LRQ_pending \<in> lrq_flags (reqs t r) then t
      else mark_just_granted rs
        (if LRQ_blocking \<notin> lrq_flags (reqs t r) \<and> LRQ_blocking_seen \<notin> lrq_flags (reqs t r) \<and>
            lrq_ast_routine (reqs t r) \<noteq> 0
         then mod_req r (set_flag LRQ_just_granted) t else t))"

definition post_pending :: "nat \<Rightarrow> table \<Rightarrow> table" where
  "post_pending l t =
     (if lbl_pending_lrq_count (lcks t l) = 0 then t
      else let t1 = grant_pending (lbl_requests (lcks t l)) l t
           in if lbl_pending_lrq_count (lcks t1 l) \<noteq> 0
              then mark_just_granted (lbl_requests (lcks t1 l)) t1
              else t1)"

subsection \<open>Releasing\<close>

text \<open>The request is disconnected from lock and owner and its block freed.\<close>

definition detach_request :: "nat \<Rightarrow> table \<Rightarrow> table" where
  "detach_request r t =
     (let l = lrq_lock (reqs t r); w = lrq_owner (reqs t r);
          t1 = mod_lck l (\<lambda>b. b\<lparr>lbl_requests := remove1 r (lbl_requests b)\<rparr>) t;
          t2 = mod_own w (\<lambda>q. q\<lparr>own_requests := remove1 r (own_requests q)\<rparr>) t1;
          t3 = mod_req r (\<lambda>q. q\<lparr>lrq_type := False\<rparr>) t2;
          t4 = t3\<lparr>lhb_free_requests := lhb_free_requests t3 @ [r]\<rparr>;
          t5 = (if LRQ_blocking \<in> lrq_flags (reqs t4 r)
                then mod_req r (clear_flags {LRQ_blocking})
                       (mod_own w (\<lambda>q. q\<lparr>own_blocks := remove1 r (own_blocks q)\<rparr>) t4)
                else t4);
          t6 = (if LRQ_pending \<in> lrq_flags (reqs t5 r) then unpend r l t5 else t5)
      in mod_req r (clear_flags {LRQ_blocking_seen, LRQ_just_granted}) t6)"

definition free_lock :: "nat \<Rightarrow> table \<Rightarrow> table" where
  "free_lock l t =
     (let t1 = remove_data_que l (t\<lparr>lhb_hash := (\<lambda>s. remove1 l (lhb_hash t s))\<rparr>);
          t2 = mod_lck l (\<lambda>b. b\<lparr>lbl_type := False\<rparr>) t1
      in t2\<lparr>lhb_free_locks := lhb_free_locks t2 @ [l]\<rparr>)"

definition release_request :: "nat \<Rightarrow> table \<Rightarrow> table" where
  "release_request r t =
     (let l = lrq_lock (reqs t r); t1 = detach_request r t
      in if lbl_requests (lcks t1 l) = [] then free_lock l t1
         else let s = lrq_state (reqs t1 r);
                  t2 = (if s \<noteq> LCK_none then mod_lck l (add_count s (- 1)) t1 else t1);
                  t3 = (if s \<noteq> LCK_none \<and> lbl_counts (lcks t2 l) s = 0
                        then mod_lck l (\<lambda>b. b\<lparr>lbl_state := lock_state b\<rparr>) t2 else t2)
              in post_pending l t3)"

text \<open>A request offset supplied by a client; an invalid one is a bug and ends the process.\<close>

definition get_request :: "nat \<Rightarrow> table \<Rightarrow> bool" where
  "get_request r t \<longleftrightarrow> lrq_type (reqs t r) \<and> lbl_type (lcks t (lrq_lock (reqs t r)))"

definition internal_dequeue :: "nat \<Rightarrow> table \<Rightarrow> table" where
  "internal_dequeue r t = release_request r (mod_req r (\<lambda>q. q\<lparr>lrq_ast_routine := 0\<rparr>) t)"

end
