(* ===== verification/LockInv.thy ===== *)
theory LockInv
  imports LockTable
begin

text \<open>
  The invariant of the lock table (\<open>LockTable\<close>) and its preservation by granting and
  releasing requests: the requests of a lock hold pairwise compatible levels, the counts
  and the state of a lock are those of its requests, and blocks in use are not free.
\<close>

subsection \<open>What an operation changes\<close>

lemma reqs_mod [simp]:
  "reqs (mod_req r f t) = (reqs t)(r := f (reqs t r))" "lcks (mod_req r f t) = lcks t"
  "owns (mod_req r f t) = owns t"
  "reqs (mod_lck l g t) = reqs t" "lcks (mod_lck l g t) = (lcks t)(l := g (lcks t l))"
  "owns (mod_lck l g t) = owns t"
  "reqs (mod_own w h t) = reqs t" "lcks (mod_own w h t) = lcks t"
  "owns (mod_own w h t) = (owns t)(w := h (owns t w))"
  "reqs (bump s t) = reqs t" "lcks (bump s t) = lcks t" "owns (bump s t) = owns t"
  "reqs (mod_prc p k t) = reqs t" "lcks (mod_prc p k t) = lcks t" "owns (mod_prc p k t) = owns t"
  by (simp_all add: mod_req_def mod_lck_def mod_own_def mod_prc_def bump_def)

lemma header_mod [simp]:
  "lhb_free_requests (mod_req r f t) = lhb_free_requests t" "lhb_free_requests (mod_lck l g t) = lhb_free_requests t"
  "lhb_free_requests (mod_own w h t) = lhb_free_requests t" "lhb_free_requests (bump s t) = lhb_free_requests t"
  "lhb_free_locks (mod_req r f t) = lhb_free_locks t" "lhb_free_locks (mod_lck l g t) = lhb_free_locks t"
  "lhb_free_locks (mod_own w h t) = lhb_free_locks t" "lhb_free_locks (bump s t) = lhb_free_locks t"
  "lhb_used (mod_req r f t) = lhb_used t" "lhb_used (mod_lck l g t) = lhb_used t"
  "lhb_used (mod_own w h t) = lhb_used t" "lhb_used (bump s t) = lhb_used t"
  "lhb_free_requests (mod_prc p k t) = lhb_free_requests t" "lhb_free_locks (mod_prc p k t) = lhb_free_locks t"
  "lhb_used (mod_prc p k t) = lhb_used t"
  by (simp_all add: mod_req_def mod_lck_def mod_own_def mod_prc_def bump_def)

text \<open>The part of the table that the state of the locks depends on, besides requests and locks.\<close>

abbreviation allocation :: "table \<Rightarrow> nat list \<times> nat list \<times> nat" where
  "allocation t \<equiv> (lhb_free_requests t, lhb_free_locks t, lhb_used t)"

lemma post_wakeup_same [simp]:
  "reqs (post_wakeup w t) = reqs t" "lcks (post_wakeup w t) = lcks t"
  "lhb_free_requests (post_wakeup w t) = lhb_free_requests t"
  "lhb_free_locks (post_wakeup w t) = lhb_free_locks t" "lhb_used (post_wakeup w t) = lhb_used t"
  by (simp_all add: post_wakeup_def)

lemma remove_data_que_same [simp]:
  "reqs (remove_data_que l t) = reqs t" "lcks (remove_data_que l t) = lcks t"
  "lhb_free_requests (remove_data_que l t) = lhb_free_requests t"
  "lhb_free_locks (remove_data_que l t) = lhb_free_locks t" "lhb_used (remove_data_que l t) = lhb_used t"
  by (simp_all add: remove_data_que_def)

lemma insert_data_que_same [simp]:
  "reqs (insert_data_que l t) = reqs t" "lcks (insert_data_que l t) = lcks t"
  "lhb_free_requests (insert_data_que l t) = lhb_free_requests t"
  "lhb_free_locks (insert_data_que l t) = lhb_free_locks t" "lhb_used (insert_data_que l t) = lhb_used t"
  by (simp_all add: insert_data_que_def Let_def)

lemma set_data_same [simp]:
  "reqs (set_data l d t) = reqs t" "lcks (set_data l d t) = (lcks t)(l := (lcks t l)\<lparr>lbl_data := d\<rparr>)"
  "lhb_free_requests (set_data l d t) = lhb_free_requests t"
  "lhb_free_locks (set_data l d t) = lhb_free_locks t" "lhb_used (set_data l d t) = lhb_used t"
  by (simp_all add: set_data_def Let_def)

lemma unpend_same [simp]:
  "reqs (unpend r l t) = (reqs t)(r := clear_flags {LRQ_pending} (reqs t r))"
  "lcks (unpend r l t) = (lcks t)(l := (lcks t l)\<lparr>lbl_pending_lrq_count := lbl_pending_lrq_count (lcks t l) - 1\<rparr>)"
  "lhb_free_requests (unpend r l t) = lhb_free_requests t"
  "lhb_free_locks (unpend r l t) = lhb_free_locks t" "lhb_used (unpend r l t) = lhb_used t"
  by (simp_all add: unpend_def)

lemma lock_state_cong [simp]:
  "lock_state (b\<lparr>lbl_state := x\<rparr>) = lock_state b" "lock_state (b\<lparr>lbl_data := d\<rparr>) = lock_state b"
  "lock_state (b\<lparr>lbl_pending_lrq_count := n\<rparr>) = lock_state b"
  "lock_state (b\<lparr>lbl_requests := rs\<rparr>) = lock_state b"
  by (simp_all add: lock_state_def)

lemma add_count_simps [simp]:
  "lbl_counts (add_count s n b) = (lbl_counts b)(s := lbl_counts b s + n)"
  "lbl_requests (add_count s n b) = lbl_requests b" "lbl_type (add_count s n b) = lbl_type b"
  "lbl_pending_lrq_count (add_count s n b) = lbl_pending_lrq_count b"
  "lbl_state (add_count s n b) = lbl_state b" "lbl_data (add_count s n b) = lbl_data b"
  by (simp_all add: add_count_def)

lemma clear_flags_simps [simp]:
  "lrq_type (clear_flags F q) = lrq_type q" "lrq_state (clear_flags F q) = lrq_state q"
  "lrq_requested (clear_flags F q) = lrq_requested q" "lrq_lock (clear_flags F q) = lrq_lock q"
  "lrq_owner (clear_flags F q) = lrq_owner q" "lrq_data (clear_flags F q) = lrq_data q"
  "lrq_ast_routine (clear_flags F q) = lrq_ast_routine q"
  "lrq_flags (clear_flags F q) = lrq_flags q - F"
  "lrq_type (set_flag f q) = lrq_type q" "lrq_state (set_flag f q) = lrq_state q"
  "lrq_requested (set_flag f q) = lrq_requested q" "lrq_lock (set_flag f q) = lrq_lock q"
  "lrq_owner (set_flag f q) = lrq_owner q" "lrq_flags (set_flag f q) = insert f (lrq_flags q)"
  by (simp_all add: clear_flags_def set_flag_def)

lemma grant_same:
  "reqs (grant r l t) = (reqs t)(r := (reqs t r)\<lparr>lrq_state := lrq_requested (reqs t r), lrq_data := 0,
     lrq_flags := lrq_flags (reqs t r) - {LRQ_pending}\<rparr>)"
  "\<exists>d. lcks (grant r l t) = (lcks t)(l := (add_count (lrq_requested (reqs t r)) 1 (lcks t l))
     \<lparr>lbl_data := d, lbl_state := lock_state (add_count (lrq_requested (reqs t r)) 1 (lcks t l)),
      lbl_pending_lrq_count := lbl_pending_lrq_count (lcks t l) -
        (if LRQ_pending \<in> lrq_flags (reqs t r) then 1 else 0)\<rparr>)"
  "lhb_free_requests (grant r l t) = lhb_free_requests t"
  "lhb_free_locks (grant r l t) = lhb_free_locks t" "lhb_used (grant r l t) = lhb_used t"
proof -
  have c: "lock_state (add_count s n b) = lock_state (add_count s n b')" if "lbl_counts b = lbl_counts b'" for s n b b'
    using that by (simp add: lock_state_def)
  show "reqs (grant r l t) = (reqs t)(r := (reqs t r)\<lparr>lrq_state := lrq_requested (reqs t r), lrq_data := 0,
     lrq_flags := lrq_flags (reqs t r) - {LRQ_pending}\<rparr>)"
    by (auto simp: grant_def Let_def clear_flags_def fun_eq_iff)
  show "\<exists>d. lcks (grant r l t) = (lcks t)(l := (add_count (lrq_requested (reqs t r)) 1 (lcks t l))
     \<lparr>lbl_data := d, lbl_state := lock_state (add_count (lrq_requested (reqs t r)) 1 (lcks t l)),
      lbl_pending_lrq_count := lbl_pending_lrq_count (lcks t l) -
        (if LRQ_pending \<in> lrq_flags (reqs t r) then 1 else 0)\<rparr>)"
    by (rule exI [of _ "if lrq_data (reqs t r) \<noteq> 0 then lrq_data (reqs t r) else lbl_data (lcks t l)"])
      (auto simp: grant_def Let_def add_count_def fun_eq_iff)
qed (simp_all add: grant_def Let_def)

subsection \<open>The invariant\<close>

text \<open>What a request on a lock's queue is.\<close>

definition req_ok :: "table \<Rightarrow> nat \<Rightarrow> nat \<Rightarrow> bool" where
  "req_ok t l r \<longleftrightarrow> lrq_type (reqs t r) \<and> lrq_lock (reqs t r) = l \<and> LRQ_repost \<notin> lrq_flags (reqs t r) \<and>
     lrq_requested (reqs t r) < LCK_max \<and> lrq_state (reqs t r) < LCK_max"

text \<open>
  The counts of a lock are those of the states of its requests, where the requests of \<open>X\<close>
  (one that is being converted) are left out. They have 16 bits.
\<close>

definition counts_ok :: "nat set \<Rightarrow> table \<Rightarrow> nat \<Rightarrow> bool" where
  "counts_ok X t l \<longleftrightarrow> (\<forall>s \<in> {1..<LCK_max}. lbl_counts (lcks t l) s =
     of_nat (length (filter (\<lambda>r. r \<notin> X \<and> lrq_state (reqs t r) = s) (lbl_requests (lcks t l)))))"

definition pending_ok :: "table \<Rightarrow> nat \<Rightarrow> bool" where
  "pending_ok t l \<longleftrightarrow> lbl_pending_lrq_count (lcks t l) =
     of_nat (length (filter (\<lambda>r. LRQ_pending \<in> lrq_flags (reqs t r)) (lbl_requests (lcks t l))))"

text \<open>The requests of a lock hold pairwise compatible levels.\<close>

definition compatible_on :: "nat set \<Rightarrow> table \<Rightarrow> nat \<Rightarrow> bool" where
  "compatible_on X t l \<longleftrightarrow> (\<forall>r \<in> set (lbl_requests (lcks t l)) - X. \<forall>r' \<in> set (lbl_requests (lcks t l)) - X.
     r \<noteq> r' \<longrightarrow> compatibility (lrq_state (reqs t r)) (lrq_state (reqs t r')))"

definition lock_ok :: "nat set \<Rightarrow> table \<Rightarrow> nat \<Rightarrow> bool" where
  "lock_ok X t l \<longleftrightarrow>
     (lbl_type (lcks t l) \<longleftrightarrow> lbl_requests (lcks t l) \<noteq> []) \<and> distinct (lbl_requests (lcks t l)) \<and>
     (\<forall>r \<in> set (lbl_requests (lcks t l)). req_ok t l r) \<and>
     (lbl_requests (lcks t l) \<noteq> [] \<longrightarrow> counts_ok X t l \<and> compatible_on X t l \<and> pending_ok t l \<and>
       (X = {} \<longrightarrow> lbl_state (lcks t l) = lock_state (lcks t l)))"

text \<open>Blocks in use are not on a free list.\<close>

definition allocation_ok :: "table \<Rightarrow> bool" where
  "allocation_ok t \<longleftrightarrow>
     distinct (lhb_free_requests t) \<and> distinct (lhb_free_locks t) \<and>
     (\<forall>r \<in> set (lhb_free_requests t). \<not> lrq_type (reqs t r) \<and> r < lhb_used t) \<and>
     (\<forall>l \<in> set (lhb_free_locks t). \<not> lbl_type (lcks t l) \<and> l < lhb_used t) \<and>
     (\<forall>r. lrq_type (reqs t r) \<longrightarrow> r < lhb_used t) \<and> (\<forall>l. lbl_type (lcks t l) \<longrightarrow> l < lhb_used t) \<and>
     (\<forall>r. lrq_type (reqs t r) \<and> LRQ_repost \<notin> lrq_flags (reqs t r) \<longrightarrow>
        r \<in> set (lbl_requests (lcks t (lrq_lock (reqs t r)))))"

definition table_ok :: "table \<Rightarrow> bool" where
  "table_ok t \<longleftrightarrow> (\<forall>l. lock_ok {} t l) \<and> allocation_ok t"

text \<open>Few enough requests on each lock for 16-bit counts.\<close>

definition small :: "table \<Rightarrow> bool" where
  "small t \<longleftrightarrow> (\<forall>l. length (lbl_requests (lcks t l)) < 2 ^ 16)"


subsection \<open>The state of a lock and compatibility\<close>

lemma levels: "n < 7 \<Longrightarrow> n = 0 \<or> n = 1 \<or> n = 2 \<or> n = 3 \<or> n = 4 \<or> n = 5 \<or> n = (6::nat)"
  by presburger

lemma compatibility_eq:
  assumes "a < LCK_max" "b < LCK_max"
  shows "compatibility a b \<longleftrightarrow>
     a \<le> 1 \<or> b \<le> 1 \<or> (a = 2 \<and> b < 6) \<or> (b = 2 \<and> a < 6) \<or> (a = 3 \<and> b = 3) \<or> (a = 4 \<and> b = 4)"
proof -
  have "a < 7" "b < 7" using assms by simp_all
  from levels [OF this(1)] levels [OF this(2)] show ?thesis
    by (elim disjE) (simp_all add: compatibility_def)
qed

lemma compatibility_sym: "a < LCK_max \<Longrightarrow> b < LCK_max \<Longrightarrow> compatibility a b = compatibility b a"
  by (auto simp: compatibility_eq)

lemma compatibility_0:
  "a < LCK_max \<Longrightarrow> compatibility a 0" "b < LCK_max \<Longrightarrow> compatibility 0 b"
  by (simp_all add: compatibility_eq)

text \<open>The highest level of the counts, in the order of \<open>lock_state\<close>.\<close>

lemma lock_state_cases:
  obtains (EX) "lock_state b = 6" "lbl_counts b 6 \<noteq> 0"
  | (PW) "lock_state b = 5" "lbl_counts b 6 = 0" "lbl_counts b 5 \<noteq> 0"
  | (SW) "lock_state b = 4" "lbl_counts b 6 = 0" "lbl_counts b 5 = 0" "lbl_counts b 4 \<noteq> 0"
  | (PR) "lock_state b = 3" "lbl_counts b 6 = 0" "lbl_counts b 5 = 0" "lbl_counts b 4 = 0" "lbl_counts b 3 \<noteq> 0"
  | (low) "lock_state b \<le> 2" "lbl_counts b 6 = 0" "lbl_counts b 5 = 0" "lbl_counts b 4 = 0" "lbl_counts b 3 = 0"
      "lbl_counts b 2 \<noteq> 0 \<longrightarrow> lock_state b = 2"
  by (cases "lbl_counts b 6 = 0"; cases "lbl_counts b 5 = 0"; cases "lbl_counts b 4 = 0";
      cases "lbl_counts b 3 = 0") (auto simp: lock_state_def)

lemma lock_state_less: "lock_state b < LCK_max"
  by (simp add: lock_state_def)

lemma high_compatible:
  assumes "c < LCK_max" "s < LCK_max" "3 \<le> m" "m < LCK_max" "compatibility c m" "compatibility s m \<or> s = m"
  shows "compatibility c s"
proof -
  have m: "m = 3 \<or> m = 4 \<or> m = 5 \<or> m = 6" using assms(3,4) by auto
  have c: "c \<le> 1 \<or> (c = 2 \<and> m < 6) \<or> (c = 3 \<and> m = 3) \<or> (c = 4 \<and> m = 4)"
    using assms(5) m unfolding compatibility_eq [OF assms(1,4)] by auto
  have s: "s \<le> 1 \<or> (s = 2 \<and> m < 6) \<or> (s = 3 \<and> m = 3) \<or> (s = 4 \<and> m = 4) \<or> s = m"
    using assms(6) m unfolding compatibility_eq [OF assms(2,4)] by auto
  show ?thesis
    unfolding compatibility_eq [OF assms(1,2)] using c s m by (elim disjE) auto
qed

text \<open>
  A level compatible with the state of a lock is compatible with every request on it, the
  requests themselves being compatible and few enough not to overflow the counts.
\<close>

lemma compatible_with_all:
  assumes counts: "counts_ok X t l" and comp: "compatible_on X t l"
    and small: "length (lbl_requests (lcks t l)) < 2 ^ 16"
    and req: "\<forall>r \<in> set (lbl_requests (lcks t l)). req_ok t l r"
    and c: "c < LCK_max" "compatibility c (lock_state (lcks t l))"
    and r: "r \<in> set (lbl_requests (lcks t l))" "r \<notin> X"
  shows "compatibility c (lrq_state (reqs t r))"
proof -
  define st where "st r = lrq_state (reqs t r)" for r
  define k where "k = lbl_counts (lcks t l)"
  define m where "m = lock_state (lcks t l)"
  have lt: "st r' < 7" if "r' \<in> set (lbl_requests (lcks t l))" for r'
    using req that by (auto simp: req_ok_def st_def)
  have present: "k s \<noteq> 0 \<longleftrightarrow> (\<exists>r' \<in> set (lbl_requests (lcks t l)) - X. st r' = s)" if "1 \<le> s" "s < 7" for s
  proof -
    let ?n = "length (filter (\<lambda>r. r \<notin> X \<and> st r = s) (lbl_requests (lcks t l)))"
    have "?n < 2 ^ 16" by (rule le_less_trans [OF length_filter_le small])
    then have u: "unat (of_nat ?n :: ushort) = ?n" by (simp add: unat_of_nat take_bit_nat_eq_self)
    have "(of_nat ?n :: ushort) \<noteq> 0 \<longleftrightarrow> unat (of_nat ?n :: ushort) \<noteq> 0" by (simp only: unat_eq_zero)
    then have "(of_nat ?n :: ushort) \<noteq> 0 \<longleftrightarrow> ?n \<noteq> 0" unfolding u .
    moreover have "k s = of_nat ?n" using counts that by (simp add: counts_ok_def k_def st_def)
    ultimately show ?thesis by (auto simp: filter_empty_conv)
  qed
  have pair: "compatibility (st r) (st r')" if "r' \<in> set (lbl_requests (lcks t l)) - X" "r \<noteq> r'" for r'
    using comp r that by (auto simp: compatible_on_def st_def)
  have s7: "st r < 7" using lt r by blast
  have kr: "k (st r) \<noteq> 0" if "st r \<noteq> 0" using present [of "st r"] s7 r that by auto
  have cm: "compatibility c m" using c(2) by (simp add: m_def)
  have pm: "compatibility (st r) m \<or> st r = m" if "1 \<le> m" "m < 7" "k m \<noteq> 0"
    using present [OF that(1,2)] that(3) pair by auto
  have "compatibility c (st r)"
  proof (cases "3 \<le> m")
    case True
    moreover have "m < 7" using lock_state_less [of "lcks t l"] by (simp add: m_def)
    moreover have "k m \<noteq> 0"
      using True by (cases rule: lock_state_cases [of "lcks t l"]) (simp_all add: m_def k_def)
    ultimately show ?thesis
      using high_compatible [of c "st r" m] c(1) s7 cm pm by simp
  next
    case False
    then have m: "k 6 = 0" "k 5 = 0" "k 4 = 0" "k 3 = 0" "k 2 \<noteq> 0 \<longrightarrow> m = 2"
      by (cases rule: lock_state_cases [of "lcks t l"]; simp add: m_def k_def)+
    have "st r \<noteq> 6" "st r \<noteq> 5" "st r \<noteq> 4" "st r \<noteq> 3" using kr m(1-4) by auto
    then have "st r \<le> 2" using s7 by linarith
    moreover have "m = 2" if "st r = 2" using kr m(5) that by auto
    ultimately show ?thesis
      using cm c(1) by (cases "st r = 2") (auto simp: compatibility_eq)
  qed
  then show ?thesis by (simp add: st_def)
qed

subsection \<open>Operations on one lock leave the others alone\<close>

lemma lock_ok_cong:
  assumes "lbl_requests (lcks t' l) = lbl_requests (lcks t l)" "lbl_type (lcks t' l) = lbl_type (lcks t l)"
    "lbl_counts (lcks t' l) = lbl_counts (lcks t l)" "lbl_state (lcks t' l) = lbl_state (lcks t l)"
    "lbl_pending_lrq_count (lcks t' l) = lbl_pending_lrq_count (lcks t l)"
    and "\<And>r. r \<in> set (lbl_requests (lcks t l)) \<Longrightarrow> lrq_type (reqs t' r) = lrq_type (reqs t r) \<and>
      lrq_lock (reqs t' r) = lrq_lock (reqs t r) \<and> lrq_state (reqs t' r) = lrq_state (reqs t r) \<and>
      (lrq_requested (reqs t' r) < LCK_max \<longleftrightarrow> lrq_requested (reqs t r) < LCK_max) \<and>
      (LRQ_repost \<in> lrq_flags (reqs t' r) \<longleftrightarrow> LRQ_repost \<in> lrq_flags (reqs t r)) \<and>
      (LRQ_pending \<in> lrq_flags (reqs t' r) \<longleftrightarrow> LRQ_pending \<in> lrq_flags (reqs t r))"
  shows "lock_ok X t' l = lock_ok X t l"
proof -
  have f: "filter (\<lambda>r. P (reqs t' r)) (lbl_requests (lcks t l)) = filter (\<lambda>r. P (reqs t r)) (lbl_requests (lcks t l))"
    if "\<And>r. r \<in> set (lbl_requests (lcks t l)) \<Longrightarrow> P (reqs t' r) = P (reqs t r)" for P
    using that by (rule filter_cong [OF refl])
  have ls: "lock_state (lcks t' l) = lock_state (lcks t l)"
    using assms(3) by (simp add: lock_state_def)
  have "counts_ok X t' l = counts_ok X t l"
    unfolding counts_ok_def assms(1,3)
    by (intro ball_cong refl arg_cong2 [where f = "(=)"] arg_cong [where f = of_nat] arg_cong [where f = length] filter_cong)
      (use assms(6) in auto)
  moreover have "pending_ok t' l = pending_ok t l"
    unfolding pending_ok_def assms(1,5)
    by (intro arg_cong2 [where f = "(=)"] refl arg_cong [where f = of_nat] arg_cong [where f = length] filter_cong)
      (use assms(6) in auto)
  moreover have "compatible_on X t' l = compatible_on X t l"
    unfolding compatible_on_def assms(1) using assms(6) by auto
  moreover have "(\<forall>r \<in> set (lbl_requests (lcks t l)). req_ok t' l r) = (\<forall>r \<in> set (lbl_requests (lcks t l)). req_ok t l r)"
    unfolding req_ok_def using assms(6) by auto
  ultimately show ?thesis
    unfolding lock_ok_def assms(1,2,4) ls by simp
qed


lemma length_filter_split:
  assumes "distinct xs" "r \<in> set xs"
  shows "length (filter P xs) = length (filter (\<lambda>x. x \<noteq> r \<and> P x) xs) + (if P r then 1 else 0)"
  using assms
proof (induction xs)
  case (Cons x xs)
  show ?case
  proof (cases "x = r")
    case True
    then have "filter (\<lambda>x. x \<noteq> r \<and> P x) xs = filter P xs"
      using Cons.prems(1) by (intro filter_cong) auto
    then show ?thesis using True by simp
  next
    case False
    then show ?thesis using Cons by auto
  qed
qed simp

lemma table_ok_cong:
  assumes "reqs t' = reqs t" "lcks t' = lcks t" "allocation t' = allocation t"
  shows "table_ok t' = table_ok t"
proof -
  have "lock_ok {} t' l = lock_ok {} t l" for l
    by (rule lock_ok_cong) (simp_all add: assms)
  then show ?thesis using assms by (simp add: table_ok_def allocation_ok_def)
qed

lemma allocation_ok_cong:
  assumes "\<And>r. lrq_type (reqs t' r) = lrq_type (reqs t r)" "\<And>r. lrq_lock (reqs t' r) = lrq_lock (reqs t r)"
    "\<And>r. (LRQ_repost \<in> lrq_flags (reqs t' r)) = (LRQ_repost \<in> lrq_flags (reqs t r))"
    "\<And>l. lbl_type (lcks t' l) = lbl_type (lcks t l)"
    "\<And>l. set (lbl_requests (lcks t' l)) = set (lbl_requests (lcks t l))"
    "allocation t' = allocation t"
  shows "allocation_ok t' = allocation_ok t"
  using assms by (simp add: allocation_ok_def)

lemma table_okI:
  "lock_ok {} t l \<Longrightarrow> (\<And>l'. l' \<noteq> l \<Longrightarrow> lock_ok {} t l') \<Longrightarrow> allocation_ok t \<Longrightarrow> table_ok t"
  unfolding table_ok_def by metis

lemma table_okD:
  assumes "table_ok t"
  shows "lock_ok {} t l" "allocation_ok t"
  using assms by (simp_all add: table_ok_def)

lemma table_ok_req:
  assumes "table_ok t" "r \<in> set (lbl_requests (lcks t l))"
  shows "req_ok t l r" "lbl_type (lcks t l)" "distinct (lbl_requests (lcks t l))"
    "counts_ok {} t l" "compatible_on {} t l" "pending_ok t l" "lbl_state (lcks t l) = lock_state (lcks t l)"
proof -
  have "lbl_requests (lcks t l) \<noteq> []" using assms(2) by auto
  then show "req_ok t l r" "lbl_type (lcks t l)" "distinct (lbl_requests (lcks t l))"
    "counts_ok {} t l" "compatible_on {} t l" "pending_ok t l" "lbl_state (lcks t l) = lock_state (lcks t l)"
    using table_okD(1) [OF assms(1), of l] assms(2) by (simp_all add: lock_ok_def)
qed

text \<open>The table while request \<open>r\<close> of lock \<open>l\<close> is taken out of the counts.\<close>

definition table_except :: "nat \<Rightarrow> nat \<Rightarrow> table \<Rightarrow> bool" where
  "table_except r l t \<longleftrightarrow> r \<in> set (lbl_requests (lcks t l)) \<and> lock_ok {r} t l \<and>
     (\<forall>l'. l' \<noteq> l \<longrightarrow> lock_ok {} t l') \<and> allocation_ok t"

lemma table_except_waiting:
  assumes "table_ok t" "r \<in> set (lbl_requests (lcks t l))" "lrq_state (reqs t r) = 0"
  shows "table_except r l t"
proof -
  note tr = table_ok_req [OF assms(1,2)]
  have "counts_ok {r} t l"
    unfolding counts_ok_def
  proof
    fix s assume s: "s \<in> {1..<LCK_max}"
    have "filter (\<lambda>r'. r' \<notin> {r} \<and> lrq_state (reqs t r') = s) (lbl_requests (lcks t l)) =
        filter (\<lambda>r'. r' \<notin> {} \<and> lrq_state (reqs t r') = s) (lbl_requests (lcks t l))"
      using assms(3) s by (intro filter_cong) auto
    then show "lbl_counts (lcks t l) s = of_nat (length (filter (\<lambda>r'. r' \<notin> {r} \<and> lrq_state (reqs t r') = s) (lbl_requests (lcks t l))))"
      using tr(4) s by (simp add: counts_ok_def)
  qed
  moreover have "compatible_on {r} t l" using tr(5) by (auto simp: compatible_on_def)
  ultimately show ?thesis
    using assms table_okD [OF assms(1)] tr unfolding table_except_def lock_ok_def by simp
qed

lemma table_except_converting:
  assumes "table_ok t" "r \<in> set (lbl_requests (lcks t l))"
    and t': "t' = mod_lck l (add_count (lrq_state (reqs t r)) (- 1)) t"
  shows "table_except r l t'"
proof -
  note tr = table_ok_req [OF assms(1,2)]
  define st where "st = lrq_state (reqs t r)"
  have "counts_ok {r} t' l"
    unfolding counts_ok_def
  proof
    fix s assume s: "s \<in> {1..<LCK_max}"
    let ?n = "\<lambda>X. length (filter (\<lambda>r'. r' \<notin> X \<and> lrq_state (reqs t r') = s) (lbl_requests (lcks t l)))"
    have "?n {} = ?n {r} + (if st = s then 1 else 0)"
      using length_filter_split [OF tr(3) assms(2), of "\<lambda>r'. lrq_state (reqs t r') = s"] by (simp add: st_def)
    moreover have "lbl_counts (lcks t l) s = of_nat (?n {})" using tr(4) s by (simp add: counts_ok_def)
    ultimately show "lbl_counts (lcks t' l) s =
        of_nat (length (filter (\<lambda>r'. r' \<notin> {r} \<and> lrq_state (reqs t' r') = s) (lbl_requests (lcks t' l))))"
      by (auto simp: t' st_def)
  qed
  moreover have "compatible_on {r} t' l" using tr(5) by (auto simp: compatible_on_def t')
  moreover have "pending_ok t' l" using tr(6) by (simp add: pending_ok_def t')
  moreover have "\<forall>r' \<in> set (lbl_requests (lcks t' l)). req_ok t' l r'"
    using table_ok_req(1) [OF assms(1)] by (auto simp: t' req_ok_def)
  moreover have "lock_ok {} t' l'" if "l' \<noteq> l" for l'
    using table_okD(1) [OF assms(1), of l'] that by (subst lock_ok_cong [of _ _ t]) (simp_all add: t')
  moreover have "allocation_ok t'"
    using table_okD(2) [OF assms(1)] by (subst allocation_ok_cong [of _ t]) (auto simp: t')
  ultimately show ?thesis
    using assms(2) tr unfolding table_except_def lock_ok_def by (auto simp: t')
qed

lemma grant_ok:
  assumes "table_except r l t"
    and comp: "\<forall>r' \<in> set (lbl_requests (lcks t l)) - {r}. compatibility (lrq_requested (reqs t r)) (lrq_state (reqs t r'))"
  shows "table_ok (grant r l t)"
proof -
  have r: "r \<in> set (lbl_requests (lcks t l))" and lr: "lock_ok {r} t l"
    and other: "\<And>l'. l' \<noteq> l \<Longrightarrow> lock_ok {} t l'" and al: "allocation_ok t"
    using assms(1) by (auto simp: table_except_def)
  have ne: "lbl_requests (lcks t l) \<noteq> []" using r by auto
  have cn: "counts_ok {r} t l" and cp: "compatible_on {r} t l" and pd: "pending_ok t l"
    and ds: "distinct (lbl_requests (lcks t l))" and ty: "lbl_type (lcks t l)"
    and rq: "\<And>r'. r' \<in> set (lbl_requests (lcks t l)) \<Longrightarrow> req_ok t l r'"
    using lr ne by (auto simp: lock_ok_def)
  define t' where "t' = grant r l t"
  obtain d where lk: "lcks t' = (lcks t)(l := (add_count (lrq_requested (reqs t r)) 1 (lcks t l))
     \<lparr>lbl_data := d, lbl_state := lock_state (add_count (lrq_requested (reqs t r)) 1 (lcks t l)),
      lbl_pending_lrq_count := lbl_pending_lrq_count (lcks t l) -
        (if LRQ_pending \<in> lrq_flags (reqs t r) then 1 else 0)\<rparr>)"
    using grant_same(2) [of r l t] by (auto simp: t'_def)
  have rs: "reqs t' = (reqs t)(r := (reqs t r)\<lparr>lrq_state := lrq_requested (reqs t r), lrq_data := 0,
     lrq_flags := lrq_flags (reqs t r) - {LRQ_pending}\<rparr>)"
    by (simp add: t'_def grant_same(1))
  have "counts_ok {} t' l"
    unfolding counts_ok_def
  proof
    fix s assume s: "s \<in> {1..<LCK_max}"
    have "filter (\<lambda>r'. r' \<noteq> r \<and> lrq_state (reqs t' r') = s) (lbl_requests (lcks t l)) =
        filter (\<lambda>r'. r' \<noteq> r \<and> lrq_state (reqs t r') = s) (lbl_requests (lcks t l))"
      by (intro filter_cong) (auto simp: rs)
    then have "length (filter (\<lambda>r'. lrq_state (reqs t' r') = s) (lbl_requests (lcks t l))) =
        length (filter (\<lambda>r'. r' \<notin> {r} \<and> lrq_state (reqs t r') = s) (lbl_requests (lcks t l))) +
        (if lrq_requested (reqs t r) = s then 1 else 0)"
      using length_filter_split [OF ds r, of "\<lambda>r'. lrq_state (reqs t' r') = s"] by (simp add: rs)
    then show "lbl_counts (lcks t' l) s =
        of_nat (length (filter (\<lambda>r'. r' \<notin> {} \<and> lrq_state (reqs t' r') = s) (lbl_requests (lcks t' l))))"
      using cn s by (auto simp: lk counts_ok_def)
  qed
  moreover have "pending_ok t' l"
  proof -
    have "filter (\<lambda>r'. r' \<noteq> r \<and> LRQ_pending \<in> lrq_flags (reqs t' r')) (lbl_requests (lcks t l)) =
        filter (\<lambda>r'. r' \<noteq> r \<and> LRQ_pending \<in> lrq_flags (reqs t r')) (lbl_requests (lcks t l))"
      by (intro filter_cong) (auto simp: rs)
    then show ?thesis
      using length_filter_split [OF ds r, of "\<lambda>r'. LRQ_pending \<in> lrq_flags (reqs t' r')"]
        length_filter_split [OF ds r, of "\<lambda>r'. LRQ_pending \<in> lrq_flags (reqs t r')"] pd
      by (simp add: pending_ok_def lk rs)
  qed
  moreover have "compatible_on {} t' l"
    unfolding compatible_on_def
  proof (intro ballI impI)
    fix a b assume ab: "a \<in> set (lbl_requests (lcks t' l)) - {}" "b \<in> set (lbl_requests (lcks t' l)) - {}" "a \<noteq> b"
    have lev: "lrq_state (reqs t x) < LCK_max" "lrq_requested (reqs t x) < LCK_max" if "x \<in> set (lbl_requests (lcks t l))" for x
      using rq [OF that] by (auto simp: req_ok_def)
    show "compatibility (lrq_state (reqs t' a)) (lrq_state (reqs t' b))"
      using ab cp comp r lev compatibility_sym
      by (cases "a = r"; cases "b = r") (auto simp: lk rs compatible_on_def)
  qed
  moreover have "\<forall>r' \<in> set (lbl_requests (lcks t' l)). req_ok t' l r'"
    using rq r by (auto simp: lk rs req_ok_def)
  moreover have "lbl_state (lcks t' l) = lock_state (lcks t' l)"
    by (simp add: lk lock_state_def)
  ultimately have "lock_ok {} t' l"
    using ds ty ne by (simp add: lock_ok_def lk)
  moreover have "lock_ok {} t' l'" if "l' \<noteq> l" for l'
  proof -
    have "r \<notin> set (lbl_requests (lcks t l'))"
      using other [OF that] rq [OF r] that by (auto simp: lock_ok_def req_ok_def)
    then show ?thesis
      using other [OF that] that by (subst lock_ok_cong [of _ _ t]) (auto simp: lk rs)
  qed
  moreover have "allocation_ok t'"
    using al by (subst allocation_ok_cong [of _ t]) (auto simp: rs lk t'_def [symmetric] grant_same [of r l t, folded t'_def])
  ultimately show ?thesis unfolding t'_def [symmetric] by (rule table_okI)
qed


lemma grant_requests [simp]: "lbl_requests (lcks (grant r l t) l') = lbl_requests (lcks t l')"
  using grant_same(2) [of r l t] by auto

lemma small_cong: "(\<And>l. lbl_requests (lcks t' l) = lbl_requests (lcks t l)) \<Longrightarrow> small t' = small t"
  by (simp add: small_def)

lemma post_wakeup_ok [simp]: "table_ok (post_wakeup w t) = table_ok t"
  by (rule table_ok_cong) simp_all

lemma undo_count: "mod_lck l (add_count s 1) (mod_lck l (add_count s (- 1)) t) = t"
proof -
  have "add_count s 1 (add_count s (- 1) b) = b" for b by (simp add: add_count_def)
  then show ?thesis by (simp add: mod_lck_def)
qed

lemma except_compatible:
  assumes "table_except r l t" "small t" "compatibility (lrq_requested (reqs t r)) (lock_state (lcks t l))"
  shows "\<forall>r' \<in> set (lbl_requests (lcks t l)) - {r}. compatibility (lrq_requested (reqs t r)) (lrq_state (reqs t r'))"
proof
  fix r' assume r': "r' \<in> set (lbl_requests (lcks t l)) - {r}"
  have l: "lock_ok {r} t l" "r \<in> set (lbl_requests (lcks t l))" using assms(1) by (simp_all add: table_except_def)
  have ne: "lbl_requests (lcks t l) \<noteq> []" using l(2) by auto
  have q: "req_ok t l r" using l by (simp add: lock_ok_def)
  show "compatibility (lrq_requested (reqs t r)) (lrq_state (reqs t r'))"
    by (rule compatible_with_all [of "{r}" t l]) (use l ne q r' assms(2,3) in \<open>auto simp: lock_ok_def small_def req_ok_def\<close>)
qed

lemma grant_waiting_ok:
  assumes "table_ok t" "small t" "r \<in> set (lbl_requests (lcks t l))" "lrq_state (reqs t r) = 0"
    "compatibility (lrq_requested (reqs t r)) (lbl_state (lcks t l))"
  shows "table_ok (grant r l t)"
proof (rule grant_ok [OF table_except_waiting [OF assms(1,3,4)]])
  show "\<forall>r' \<in> set (lbl_requests (lcks t l)) - {r}. compatibility (lrq_requested (reqs t r)) (lrq_state (reqs t r'))"
    by (rule except_compatible [OF table_except_waiting [OF assms(1,3,4)] assms(2)])
      (use assms(5) table_ok_req(7) [OF assms(1,3)] in simp)
qed

lemma grant_converting_ok:
  assumes "table_ok t" "small t" "r \<in> set (lbl_requests (lcks t l))"
    "t' = mod_lck l (add_count (lrq_state (reqs t r)) (- 1)) t"
    "compatibility (lrq_requested (reqs t' r)) (lock_state (lcks t' l))"
  shows "table_ok (grant r l t')"
proof -
  note ex = table_except_converting [OF assms(1,3,4)]
  have "small t'" using assms(2) by (subst small_cong [of _ t]) (simp_all add: assms(4))
  from grant_ok [OF ex except_compatible [OF ex this assms(5)]] show ?thesis .
qed

lemma grant_pending_ok:
  assumes "table_ok t" "small t" "set rs \<subseteq> set (lbl_requests (lcks t l))"
  shows "table_ok (grant_pending rs l t) \<and> (\<forall>l'. lbl_requests (lcks (grant_pending rs l t) l') = lbl_requests (lcks t l'))"
  using assms
proof (induction rs l t rule: grant_pending.induct)
  case (2 r rs l t)
  have r: "r \<in> set (lbl_requests (lcks t l))" using "2.prems" by simp
  show ?case
  proof (cases "LRQ_pending \<in> lrq_flags (reqs t r)")
    case False
    then show ?thesis using 2 by simp
  next
    case pend: True
    show ?thesis
    proof (cases "lrq_state (reqs t r) = 0")
      case True
      show ?thesis
      proof (cases "compatibility (lrq_requested (reqs t r)) (lbl_state (lcks t l))")
        case c: True
        have g: "table_ok (grant r l t)" by (rule grant_waiting_ok [OF "2.prems"(1,2) r True c])
        have "small (grant r l t)" using "2.prems"(2) by (subst small_cong [of _ t]) simp_all
        then show ?thesis using 2 pend True c g by simp
      next
        case False
        then show ?thesis using 2 pend True by simp
      qed
    next
      case st: False
      define t1 where "t1 = mod_lck l (add_count (lrq_state (reqs t r)) (- 1)) t"
      have rq: "lbl_requests (lcks t1 l') = lbl_requests (lcks t l')" for l' by (simp add: t1_def)
      show ?thesis
      proof (cases "compatibility (lrq_requested (reqs t1 r)) (lock_state (lcks t1 l))")
        case True
        have g: "table_ok (grant r l t1)" by (rule grant_converting_ok [OF "2.prems"(1,2) r t1_def True])
        have sm: "small (grant r l t1)" using "2.prems"(2) by (subst small_cong [of _ t]) (simp_all add: rq)
        have "table_ok (grant_pending rs l (grant r l t1)) \<and>
          (\<forall>l'. lbl_requests (lcks (grant_pending rs l (grant r l t1)) l') = lbl_requests (lcks (grant r l t1) l'))"
          using "2.prems"(3) by (intro "2.IH"(2) [OF _ st t1_def True g sm]) (use pend in \<open>simp_all add: rq\<close>)
        then show ?thesis using pend st True by (simp add: t1_def [symmetric] rq Let_def)
      next
        case False
        have "grant_pending (r # rs) l t = post_wakeup (lrq_owner (reqs t r)) t"
          using pend st False undo_count [of l "lrq_state (reqs t r)" t]
          by (simp add: t1_def [symmetric] Let_def) (simp add: t1_def)
        then show ?thesis using "2.prems" by simp
      qed
    qed
  qed
qed simp

text \<open>Changes to a request that the state of the locks does not depend on.\<close>

definition same_request :: "lrq \<Rightarrow> lrq \<Rightarrow> bool" where
  "same_request q' q \<longleftrightarrow> lrq_type q' = lrq_type q \<and> lrq_lock q' = lrq_lock q \<and> lrq_state q' = lrq_state q \<and>
      (lrq_requested q < LCK_max \<longrightarrow> lrq_requested q' < LCK_max) \<and>
      (LRQ_repost \<in> lrq_flags q' \<longleftrightarrow> LRQ_repost \<in> lrq_flags q) \<and>
      (LRQ_pending \<in> lrq_flags q' \<longleftrightarrow> LRQ_pending \<in> lrq_flags q)"

lemma table_ok_same_requests:
  assumes "table_ok t" "\<And>r. same_request (reqs t' r) (reqs t r)" "lcks t' = lcks t" "allocation t' = allocation t"
  shows "table_ok t'"
proof -
  have sm: "lrq_type (reqs t' r) = lrq_type (reqs t r)" "lrq_lock (reqs t' r) = lrq_lock (reqs t r)"
    "lrq_state (reqs t' r) = lrq_state (reqs t r)"
    "(LRQ_repost \<in> lrq_flags (reqs t' r)) = (LRQ_repost \<in> lrq_flags (reqs t r))"
    "(LRQ_pending \<in> lrq_flags (reqs t' r)) = (LRQ_pending \<in> lrq_flags (reqs t r))"
    "lrq_requested (reqs t r) < LCK_max \<longrightarrow> lrq_requested (reqs t' r) < LCK_max" for r
    using assms(2) [of r] by (simp_all add: same_request_def)
  have "lock_ok {} t' l" for l
  proof -
    have "lrq_requested (reqs t r) < LCK_max" if "r \<in> set (lbl_requests (lcks t l))" for r
      using table_ok_req(1) [OF assms(1) that] by (simp add: req_ok_def)
    then show ?thesis
      using table_okD(1) [OF assms(1), of l] by (subst lock_ok_cong [of _ _ t]) (use sm in \<open>simp_all add: assms(3)\<close>)
  qed
  moreover have "allocation_ok t'"
    using table_okD(2) [OF assms(1)] by (subst allocation_ok_cong [of _ t]) (use sm assms(3,4) in simp_all)
  ultimately show ?thesis by (simp add: table_ok_def)
qed

lemma mod_req_ok:
  "table_ok t \<Longrightarrow> same_request (f (reqs t r)) (reqs t r) \<Longrightarrow> table_ok (mod_req r f t)"
  by (rule table_ok_same_requests [of t]) (auto simp: same_request_def)

lemma mod_own_ok [simp]: "table_ok (mod_own w f t) = table_ok t"
  by (rule table_ok_cong) simp_all

lemma bump_ok [simp]: "table_ok (bump s t) = table_ok t"
  by (rule table_ok_cong) simp_all

lemma mark_just_granted_ok:
  "table_ok t \<Longrightarrow> table_ok (mark_just_granted rs t) \<and> lcks (mark_just_granted rs t) = lcks t"
proof (induction rs t rule: mark_just_granted.induct)
  case (2 r rs t)
  have "table_ok (mod_req r (set_flag LRQ_just_granted) t)"
    using 2(2) by (rule mod_req_ok) (simp add: same_request_def)
  with 2 show ?case by simp
qed simp

lemma post_pending_ok:
  assumes "table_ok t" "small t"
  shows "table_ok (post_pending l t)" "lbl_requests (lcks (post_pending l t) l') = lbl_requests (lcks t l')"
  using grant_pending_ok [OF assms, of "lbl_requests (lcks t l)" l]
    mark_just_granted_ok [of "grant_pending (lbl_requests (lcks t l)) l t"] assms
  by (auto simp: post_pending_def Let_def)


lemma detach_same:
  "reqs (detach_request r t) = (reqs t)(r := (reqs t r)\<lparr>lrq_type := False,
     lrq_flags := lrq_flags (reqs t r) - {LRQ_blocking, LRQ_pending, LRQ_blocking_seen, LRQ_just_granted}\<rparr>)"
  "lcks (detach_request r t) = (lcks t)(lrq_lock (reqs t r) := (lcks t (lrq_lock (reqs t r)))
     \<lparr>lbl_requests := remove1 r (lbl_requests (lcks t (lrq_lock (reqs t r)))),
      lbl_pending_lrq_count := lbl_pending_lrq_count (lcks t (lrq_lock (reqs t r))) -
        (if LRQ_pending \<in> lrq_flags (reqs t r) then 1 else 0)\<rparr>)"
  "lhb_free_requests (detach_request r t) = lhb_free_requests t @ [r]"
  "lhb_free_locks (detach_request r t) = lhb_free_locks t" "lhb_used (detach_request r t) = lhb_used t"
  by (auto simp: detach_request_def Let_def clear_flags_def fun_eq_iff intro!: lrq.equality)

lemma lock_state_zeros:
  "(\<And>s. 1 \<le> s \<Longrightarrow> s < 7 \<Longrightarrow> (lbl_counts b s = 0) = (lbl_counts b' s = 0)) \<Longrightarrow> lock_state b = lock_state b'"
  by (simp add: lock_state_def)

lemma remove1_filter: "distinct xs \<Longrightarrow> filter P (remove1 r xs) = filter (\<lambda>x. x \<noteq> r \<and> P x) xs"
  by (simp add: distinct_remove1_removeAll removeAll_filter_not_eq) (rule filter_cong, auto)

lemma free_lock_same:
  "reqs (free_lock l t) = reqs t" "lcks (free_lock l t) = (lcks t)(l := (lcks t l)\<lparr>lbl_type := False\<rparr>)"
  "lhb_free_requests (free_lock l t) = lhb_free_requests t"
  "lhb_free_locks (free_lock l t) = lhb_free_locks t @ [l]" "lhb_used (free_lock l t) = lhb_used t"
  by (simp_all add: free_lock_def Let_def)

lemma release_request_ok:
  assumes ok: "table_ok t" and sm: "small t" and r: "r \<in> set (lbl_requests (lcks t l))"
  shows "table_ok (release_request r t)"
proof -
  note tr = table_ok_req [OF ok r]
  have l: "lrq_lock (reqs t r) = l" and ty: "lrq_type (reqs t r)" using tr(1) by (auto simp: req_ok_def)
  define t1 where "t1 = detach_request r t"
  note ds = detach_same [of r t, folded t1_def, unfolded l]
  have others: "r \<notin> set (lbl_requests (lcks t l'))" if "l' \<noteq> l" for l'
    using table_ok_req(1) [OF ok, of r l'] l that by (auto simp: req_ok_def)
  have ok1: "lock_ok {} t1 l'" if "l' \<noteq> l" for l'
    using table_okD(1) [OF ok, of l'] others [OF that] that
    by (subst lock_ok_cong [of _ _ t]) (auto simp: ds)
  have al: "allocation_ok t" by (rule table_okD(2) [OF ok])
  have rfree: "r \<notin> set (lhb_free_requests t)" "r < lhb_used t"
    using al ty by (auto simp: allocation_ok_def)
  have al1: "distinct (lhb_free_requests t1)" "distinct (lhb_free_locks t1)"
    "\<forall>r \<in> set (lhb_free_requests t1). \<not> lrq_type (reqs t1 r) \<and> r < lhb_used t1"
    "\<forall>l \<in> set (lhb_free_locks t1). \<not> lbl_type (lcks t1 l) \<and> l < lhb_used t1"
    "\<forall>r. lrq_type (reqs t1 r) \<longrightarrow> r < lhb_used t1" "\<forall>l. lbl_type (lcks t1 l) \<longrightarrow> l < lhb_used t1"
    using al rfree unfolding allocation_ok_def by (auto simp: ds)
  have mem: "r' \<in> set (lbl_requests (lcks t1 (lrq_lock (reqs t1 r'))))"
    if "lrq_type (reqs t1 r')" "LRQ_repost \<notin> lrq_flags (reqs t1 r')" for r'
  proof -
    have "r' \<noteq> r" using that by (auto simp: ds)
    moreover have "r' \<in> set (lbl_requests (lcks t (lrq_lock (reqs t r'))))"
      using al that calculation by (auto simp: allocation_ok_def ds)
    ultimately show ?thesis by (cases "lrq_lock (reqs t r') = l") (simp_all add: ds in_set_remove1)
  qed
  show ?thesis
  proof (cases "lbl_requests (lcks t1 l) = []")
    case True
    have rel: "release_request r t = free_lock l t1"
      using True by (simp add: release_request_def l t1_def [symmetric] Let_def)
    have lfree: "l \<notin> set (lhb_free_locks t)" "l < lhb_used t"
      using al tr(2) by (auto simp: allocation_ok_def)
    show ?thesis
      unfolding rel
    proof (rule table_okI)
      show "lock_ok {} (free_lock l t1) l" using True by (simp add: lock_ok_def free_lock_same)
      show "lock_ok {} (free_lock l t1) l'" if "l' \<noteq> l" for l'
        using ok1 [OF that] that by (subst lock_ok_cong [of _ _ t1]) (auto simp: free_lock_same)
      have "r' \<in> set (lbl_requests (lcks (free_lock l t1) (lrq_lock (reqs (free_lock l t1) r'))))"
        if "lrq_type (reqs (free_lock l t1) r')" "LRQ_repost \<notin> lrq_flags (reqs (free_lock l t1) r')" for r'
        using mem [of r'] that by (auto simp: free_lock_same)
      then show "allocation_ok (free_lock l t1)"
        using al1 lfree unfolding allocation_ok_def by (auto simp: free_lock_same ds)
    qed
  next
    case False
    define s where "s = lrq_state (reqs t r)"
    define t2 where "t2 = (if s \<noteq> LCK_none then mod_lck l (add_count s (- 1)) t1 else t1)"
    define t3 where "t3 = (if s \<noteq> LCK_none \<and> lbl_counts (lcks t2 l) s = 0
                        then mod_lck l (\<lambda>b. b\<lparr>lbl_state := lock_state b\<rparr>) t2 else t2)"
    have rel: "release_request r t = post_pending l t3"
      using False by (simp add: release_request_def l t1_def [symmetric] Let_def ds s_def [symmetric] t2_def t3_def)
    have rq3: "lbl_requests (lcks t3 l') = lbl_requests (lcks t1 l')" for l' by (simp add: t3_def t2_def)
    have rs3: "reqs t3 = reqs t1" by (simp add: t3_def t2_def)
    have al3: "allocation t3 = allocation t1" by (simp add: t3_def t2_def)
    have ty3: "lbl_type (lcks t3 l') = lbl_type (lcks t1 l')" for l' by (simp add: t3_def t2_def)
    have cnt3: "lbl_counts (lcks t3 l) x = lbl_counts (lcks t l) x - (if x = s \<and> s \<noteq> 0 then 1 else 0)" for x
      by (simp add: t3_def t2_def ds)
    have "counts_ok {} t3 l"
      unfolding counts_ok_def
    proof
      fix x assume x: "x \<in> {1..<LCK_max}"
      have "filter (\<lambda>r'. lrq_state (reqs t3 r') = x) (lbl_requests (lcks t3 l)) =
          filter (\<lambda>r'. r' \<noteq> r \<and> lrq_state (reqs t r') = x) (lbl_requests (lcks t l))"
        unfolding rq3 rs3 by (simp add: ds remove1_filter [OF tr(3)]) (rule filter_cong, auto)
      then show "lbl_counts (lcks t3 l) x =
          of_nat (length (filter (\<lambda>r'. r' \<notin> {} \<and> lrq_state (reqs t3 r') = x) (lbl_requests (lcks t3 l))))"
        using length_filter_split [OF tr(3) r, of "\<lambda>r'. lrq_state (reqs t r') = x"] tr(4) x
        unfolding cnt3 by (auto simp: counts_ok_def s_def)
    qed
    moreover have "compatible_on {} t3 l"
      using tr(5) tr(3) unfolding compatible_on_def rq3 rs3 by (auto simp: ds)
    moreover have "pending_ok t3 l"
    proof -
      have "filter (\<lambda>r'. LRQ_pending \<in> lrq_flags (reqs t3 r')) (lbl_requests (lcks t3 l)) =
          filter (\<lambda>r'. r' \<noteq> r \<and> LRQ_pending \<in> lrq_flags (reqs t r')) (lbl_requests (lcks t l))"
        unfolding rq3 rs3 by (simp add: ds remove1_filter [OF tr(3)]) (rule filter_cong, auto)
      moreover have "lbl_pending_lrq_count (lcks t3 l) = lbl_pending_lrq_count (lcks t1 l)"
        by (simp add: t3_def t2_def)
      ultimately show ?thesis
        using length_filter_split [OF tr(3) r, of "\<lambda>r'. LRQ_pending \<in> lrq_flags (reqs t r')"] tr(6)
        by (auto simp: pending_ok_def ds)
    qed
    moreover have "lbl_state (lcks t3 l) = lock_state (lcks t3 l)"
    proof (cases "s \<noteq> LCK_none \<and> lbl_counts (lcks t2 l) s = 0")
      case True
      then show ?thesis by (simp add: t3_def)
    next
      case ns: False
      have "lbl_counts (lcks t l) s \<noteq> 0" if "s \<noteq> 0"
      proof -
        have s7: "s < 7" using tr(1) by (simp add: req_ok_def s_def)
        let ?n = "length (filter (\<lambda>r. r \<notin> {} \<and> lrq_state (reqs t r) = s) (lbl_requests (lcks t l)))"
        have "?n < 2 ^ 16" by (rule le_less_trans [OF length_filter_le]) (use sm in \<open>simp add: small_def\<close>)
        moreover have "0 < ?n" using r by (auto simp: s_def filter_empty_conv)
        ultimately have "unat (of_nat ?n :: ushort) \<noteq> 0" by (simp add: unat_of_nat take_bit_nat_eq_self)
        moreover have "lbl_counts (lcks t l) s = of_nat ?n"
          using tr(4) s7 that by (simp add: counts_ok_def)
        ultimately show ?thesis by (metis unat_0)
      qed
      then have "lock_state (lcks t3 l) = lock_state (lcks t l)"
        using ns by (intro lock_state_zeros) (auto simp: cnt3 t2_def ds)
      moreover have "lbl_state (lcks t3 l) = lbl_state (lcks t l)" using ns by (auto simp: t3_def t2_def ds)
      ultimately show ?thesis using tr(7) by simp
    qed
    moreover have "\<forall>r' \<in> set (lbl_requests (lcks t3 l)). req_ok t3 l r'"
      using table_ok_req(1) [OF ok] tr(3) unfolding rq3 by (auto simp: ds rs3 req_ok_def)
    ultimately have l3: "lock_ok {} t3 l"
      using tr(2,3) False by (simp add: lock_ok_def rq3 ty3) (simp add: ds)
    have "table_ok t3"
    proof (rule table_okI [OF l3])
      show "lock_ok {} t3 l'" if "l' \<noteq> l" for l'
        using ok1 [OF that] that by (subst lock_ok_cong [of _ _ t1]) (auto simp: t3_def t2_def)
      show "allocation_ok t3"
        using al1 mem al3 unfolding allocation_ok_def by (simp add: rs3 ty3 rq3)
    qed
    moreover have "small t3"
      using sm by (auto simp: small_def rq3 ds length_remove1 intro: le_less_trans [OF diff_le_self])
    ultimately show ?thesis unfolding rel by (rule post_pending_ok(1))
  qed
qed

end
