(* ===== verification/LockOps.thy ===== *)
theory LockOps
  imports LockInv
begin

text \<open>
  The operations of the lock manager (\<open>src/lock/lock.cpp\<close>) as the steps they make while
  the table's mutex is held: each function below is the code from one acquisition of the
  mutex to the next point where it is released, waiting for a request included up to the
  first sleep. \<open>LockWait\<close> composes them.
\<close>

subsection \<open>Queueing a request\<close>

text \<open>The answers a status vector carries, and what a request that cannot be granted gets.\<close>

datatype status = Deadlock | Lock_timeout | Lock_conflict

definition deny_status :: "int \<Rightarrow> status" where
  "deny_status lck_wait =
     (if 0 < lck_wait then Deadlock else if lck_wait < 0 then Lock_timeout else Lock_conflict)"

text \<open>
  \<open>wait_for_request\<close> up to the blocking notices; \<open>lck_wait\<close> is positive to wait for ever, and
  minus the number of seconds otherwise.
\<close>

definition begin_wait :: "nat \<Rightarrow> int \<Rightarrow> table \<Rightarrow> table" where
  "begin_wait r lck_wait t =
     (let w = lrq_owner (reqs t r); l = lrq_lock (reqs t r);
          t1 = mod_own w (\<lambda>q. q\<lparr>own_flags := own_flags q - {OWN_scanned, OWN_wakeup},
                 own_waits := own_waits q + 1\<rparr>) (bump Waits t);
          t2 = mod_req r (\<lambda>q. q\<lparr>lrq_flags := insert LRQ_pending (lrq_flags q - {LRQ_rejected})\<rparr>) t1;
          t3 = mod_own w (\<lambda>q. q\<lparr>own_pending := own_pending q @ [r]\<rparr>) t2;
          t4 = mod_lck l (\<lambda>b. b\<lparr>lbl_pending_lrq_count := lbl_pending_lrq_count b + 1\<rparr>) t3;
          t5 = (if lrq_state (reqs t4 r) = 0
                then mod_lck l (\<lambda>b. b\<lparr>lbl_requests := remove1 r (lbl_requests b) @ [r]\<rparr>) t4 else t4)
      in if lck_wait \<le> 0 then mod_req r (set_flag LRQ_wait_timeout) t5 else t5)"

definition bump_denies :: "int \<Rightarrow> table \<Rightarrow> table" where
  "bump_denies lck_wait t = (if lck_wait < 0 then bump Timeouts (bump Denies t) else bump Denies t)"

text \<open>The end of \<open>grant_or_que\<close>, without waiting or once the wait is over.\<close>

definition deny_enqueue :: "nat \<Rightarrow> int \<Rightarrow> table \<Rightarrow> table" where
  "deny_enqueue r lck_wait t = release_request r (bump_denies lck_wait t)"

definition finish_enqueue :: "nat \<Rightarrow> int \<Rightarrow> table \<Rightarrow> bool \<times> table" where
  "finish_enqueue r lck_wait t =
     (if LRQ_rejected \<notin> lrq_flags (reqs t r) then (True, t) else (False, deny_enqueue r lck_wait t))"

text \<open>What a call has come to: an error, an answer, or a wait.\<close>

datatype outcome = Failed | Granted nat | Denied status | Waiting nat

definition grant_or_que :: "nat \<Rightarrow> nat \<Rightarrow> int \<Rightarrow> table \<Rightarrow> outcome \<times> table" where
  "grant_or_que r l lck_wait t =
     (let t1 = mod_req r (\<lambda>q. q\<lparr>lrq_lock := l\<rparr>) t
      in if compatibility (lrq_requested (reqs t1 r)) (lbl_state (lcks t1 l)) \<and>
           (lrq_requested (reqs t1 r) = LCK_null \<or> lbl_pending_lrq_count (lcks t1 l) = 0)
         then (Granted r, post_pending l (grant r l t1))
         else if lck_wait \<noteq> 0 then (Waiting r, begin_wait r lck_wait t1)
         else (Denied (deny_status lck_wait), deny_enqueue r lck_wait t1))"

text \<open>The fields of a request block that \<open>enqueue\<close> sets.\<close>

definition init_request :: "nat \<Rightarrow> nat \<Rightarrow> nat \<Rightarrow> nat \<Rightarrow> lrq \<Rightarrow> lrq" where
  "init_request type w ast arg q = q\<lparr>lrq_type := True, lrq_flags := {}, lrq_requested := type,
     lrq_state := LCK_none, lrq_data := 0, lrq_owner := w, lrq_ast_routine := ast, lrq_ast_argument := arg\<rparr>"

text \<open>The fields of a lock block; the key's length and the series are stored as \<open>UCHAR\<close>.\<close>

definition init_lock :: "nat \<Rightarrow> nat \<Rightarrow> uchar list \<Rightarrow> lbl \<Rightarrow> lbl" where
  "init_lock type series key b = b\<lparr>lbl_state := type, lbl_pending_lrq_count := 0, lbl_counts := (\<lambda>_. 0),
     lbl_length := length key mod 256, lbl_key := key @ drop (length key) (lbl_key b), lbl_requests := []\<rparr>"

definition new_lock :: "config \<Rightarrow> nat \<Rightarrow> nat \<Rightarrow> nat \<Rightarrow> uchar list \<Rightarrow> nat \<Rightarrow> int \<Rightarrow> table \<Rightarrow> table" where
  "new_lock cfg r l series key type data t =
     (let t1 = mod_lck l (\<lambda>b. b\<lparr>lbl_series := series mod 256, lbl_data := data\<rparr>) t;
          t2 = (if data \<noteq> 0 then insert_data_que l t1 else t1);
          t3 = mod_lck l (init_lock type series key) (bump_operations series t2);
          slot = hash_fn cfg key (lhb_hash_slots t3);
          t4 = t3\<lparr>lhb_hash := (lhb_hash t3)(slot := lhb_hash t3 slot @ [l])\<rparr>;
          t5 = mod_lck l (\<lambda>b. b\<lparr>lbl_requests := lbl_requests b @ [r]\<rparr>) t4;
          t6 = mod_req r (\<lambda>q. q\<lparr>lrq_lock := l\<rparr>) t5
      in grant r l t6)"

text \<open>The lock table is exhausted: the request is given back.\<close>

definition drop_request :: "nat \<Rightarrow> nat \<Rightarrow> table \<Rightarrow> table" where
  "drop_request r w t =
     (let t1 = mod_req r (\<lambda>q. q\<lparr>lrq_type := False\<rparr>)
                 (mod_own w (\<lambda>q. q\<lparr>own_requests := remove1 r (own_requests q)\<rparr>) t)
      in t1\<lparr>lhb_free_requests := lhb_free_requests t1 @ [r]\<rparr>)"

definition enqueue :: "config \<Rightarrow> nat \<Rightarrow> nat \<Rightarrow> uchar list \<Rightarrow> nat \<Rightarrow> nat \<Rightarrow> nat \<Rightarrow> int \<Rightarrow> int \<Rightarrow> nat \<Rightarrow>
    table \<Rightarrow> outcome \<times> table" where
  "enqueue cfg prior series key type ast arg data lck_wait w t =
     (if w = 0 \<or> own_count (owns t w) = 0 then (Failed, t)
      else let t1 = bump Enqs t;
               t2 = (if prior \<noteq> 0 then internal_dequeue prior t1 else t1)
           in case alloc_request cfg t2 of
                (None, t3) \<Rightarrow> (Failed, t3)
              | (Some r, t3) \<Rightarrow>
                  let t4 = mod_own w (\<lambda>q. q\<lparr>own_requests := own_requests q @ [r]\<rparr>)
                             (mod_req r (init_request type w ast arg) t3)
                  in case find_lock cfg series key t4 of
                       Some l \<Rightarrow>
                         let t5 = mod_lck l (\<lambda>b. b\<lparr>lbl_requests := lbl_requests b @ [r]\<rparr>)
                                    (bump_operations series t4);
                             t6 = mod_req r (\<lambda>q. q\<lparr>lrq_data := data\<rparr>) t5
                         in grant_or_que r l lck_wait t6
                     | None \<Rightarrow>
                         (case alloc_lock cfg (length key) t4 of
                            (None, t5) \<Rightarrow> (Failed, drop_request r w t5)
                          | (Some l, t5) \<Rightarrow> (Granted r, new_lock cfg r l series key type data t5)))"

subsection \<open>Conversion\<close>

definition deny_convert :: "nat \<Rightarrow> int \<Rightarrow> table \<Rightarrow> table" where
  "deny_convert r lck_wait t =
     bump_denies lck_wait (mod_req r (\<lambda>q. q\<lparr>lrq_requested := lrq_state q\<rparr>) t)"

text \<open>The end of \<open>internal_convert\<close> once the wait is over; \<open>ast\<close> is \<open>None\<close> if it did not change.\<close>

definition finish_convert :: "nat \<Rightarrow> int \<Rightarrow> (nat \<times> nat) option \<Rightarrow> table \<Rightarrow> bool \<times> table" where
  "finish_convert r lck_wait ast t =
     (if LRQ_rejected \<notin> lrq_flags (reqs t r)
      then (True, case ast of None \<Rightarrow> t
             | Some (rt, arg) \<Rightarrow> mod_req r (\<lambda>q. q\<lparr>lrq_ast_routine := rt, lrq_ast_argument := arg\<rparr>) t)
      else (False, deny_convert r lck_wait (post_pending (lrq_lock (reqs t r)) t)))"

definition new_ast :: "nat \<Rightarrow> nat \<Rightarrow> lrq \<Rightarrow> (nat \<times> nat) option" where
  "new_ast ast arg q =
     (if lrq_ast_routine q \<noteq> ast \<or> lrq_ast_argument q \<noteq> arg then Some (ast, arg) else None)"

definition internal_convert :: "nat \<Rightarrow> nat \<Rightarrow> int \<Rightarrow> nat \<Rightarrow> nat \<Rightarrow> table \<Rightarrow> outcome \<times> table" where
  "internal_convert r type lck_wait ast arg t =
     (let l = lrq_lock (reqs t r);
          t1 = mod_req r (\<lambda>q. q\<lparr>lrq_requested := type, lrq_flags := lrq_flags q - {LRQ_blocking_seen}\<rparr>) t;
          t2 = mod_lck l (add_count (lrq_state (reqs t1 r)) (- 1)) t1;
          temp = lock_state (lcks t2 l)
      in if compatibility type temp
         then let t3 = mod_req r (\<lambda>q. q\<lparr>lrq_ast_routine := ast, lrq_ast_argument := arg\<rparr>) t2
              in (Granted r, post_pending l (grant r l t3))
         else let t3 = mod_lck l (add_count (lrq_state (reqs t2 r)) 1) t2
              in if lck_wait \<noteq> 0 then (Waiting r, begin_wait r lck_wait t3)
                 else (Denied (deny_status lck_wait), deny_convert r lck_wait t3))"

definition convert :: "nat \<Rightarrow> nat \<Rightarrow> int \<Rightarrow> nat \<Rightarrow> nat \<Rightarrow> table \<Rightarrow> outcome \<times> table" where
  "convert r type lck_wait ast arg t =
     (if own_count (owns t (lrq_owner (reqs t r))) = 0 then (Failed, t)
      else internal_convert r type lck_wait ast arg
             (bump_operations (lbl_series (lcks t (lrq_lock (reqs t r)))) (bump Converts t)))"

text \<open>The highest level that pending requests other than \<open>r\<close> ask for, and the level to keep.\<close>

fun pending_level :: "nat \<Rightarrow> nat list \<Rightarrow> nat \<Rightarrow> table \<Rightarrow> nat" where
  "pending_level r [] ps t = ps"
| "pending_level r (p # rs) ps t =
     (if LRQ_pending \<in> lrq_flags (reqs t p) \<and> p \<noteq> r
      then let ps' = max (lrq_requested (reqs t p)) ps
           in if ps' = LCK_EX then ps' else pending_level r rs ps' t
      else pending_level r rs ps t)"

fun lower_level :: "nat \<Rightarrow> nat \<Rightarrow> nat" where
  "lower_level ps 0 = 0"
| "lower_level ps (Suc s) = (if compatibility ps (Suc s) then Suc s else lower_level ps s)"

definition downgrade :: "nat \<Rightarrow> table \<Rightarrow> nat \<times> table" where
  "downgrade r t =
     (if own_count (owns t (lrq_owner (reqs t r))) = 0 then (LCK_none, t)
      else let t1 = bump Downgrades t;
               ps = pending_level r (lbl_requests (lcks t1 (lrq_lock (reqs t1 r)))) LCK_none t1;
               s = lower_level ps (lrq_state (reqs t1 r))
           in if s = LCK_none \<or> s = LCK_null then (LCK_none, internal_dequeue r t1)
              else (s, snd (internal_convert r s 0 (lrq_ast_routine (reqs t1 r))
                         (lrq_ast_argument (reqs t1 r)) t1)))"

definition dequeue :: "nat \<Rightarrow> table \<Rightarrow> bool \<times> table" where
  "dequeue r t =
     (if own_count (owns t (lrq_owner (reqs t r))) = 0 then (False, t)
      else (True, internal_dequeue r
             (bump_operations (lbl_series (lcks t (lrq_lock (reqs t r)))) (bump Deqs t))))"

subsection \<open>Reposting and cancelling\<close>

text \<open>
  \<open>repost\<close> up to the signal: the owner to signal, if any.
\<close>

definition repost :: "config \<Rightarrow> nat \<Rightarrow> nat \<Rightarrow> nat \<Rightarrow> table \<Rightarrow> nat option \<times> table" where
  "repost cfg ast arg w t =
     (if w = 0 then (None, t)
      else case alloc_request cfg t of
        (None, t1) \<Rightarrow> (None, t1)
      | (Some r, t1) \<Rightarrow>
          let t2 = mod_req r (\<lambda>q. q\<lparr>lrq_type := True, lrq_flags := {LRQ_repost}, lrq_ast_routine := ast,
                     lrq_ast_argument := arg, lrq_requested := LCK_none, lrq_state := LCK_none,
                     lrq_owner := w, lrq_lock := 0\<rparr>) t1;
              t3 = mod_own w (\<lambda>q. q\<lparr>own_blocks := own_blocks q @ [r]\<rparr>) t2
          in (if OWN_signaled \<notin> own_flags (owns t3 w) then Some w else None, t3))"

definition cancelWait :: "nat \<Rightarrow> table \<Rightarrow> bool \<times> table" where
  "cancelWait w t =
     (if w = 0 \<or> own_count (owns t w) = 0 then (False, t) else (True, post_wakeup w t))"

subsection \<open>Lock data\<close>

datatype aggregate = LCK_MIN | LCK_MAX | LCK_CNT | LCK_SUM | LCK_AVG | LCK_ANY

text \<open>
  \<open>queryData\<close>, with a sum that does not leave the 64 bits of \<open>LOCK_DATA_T\<close>.
\<close>

definition queryData :: "nat \<Rightarrow> aggregate \<Rightarrow> table \<Rightarrow> int \<times> table" where
  "queryData series agg t =
     (if LCK_MAX_SERIES \<le> series then (0, t)
      else let t1 = bump Query_data t;
               ds = map (\<lambda>l. lbl_data (lcks t1 l)) (lhb_data t1 series)
           in (case agg of
                 LCK_CNT \<Rightarrow> foldl (\<lambda>count d. count + 1) 0 ds
               | LCK_SUM \<Rightarrow> foldl (\<lambda>data d. data + d) 0 ds
               | LCK_AVG \<Rightarrow> (case foldl (\<lambda>(data, count) d. (data + d, count + 1)) (0, 0) ds of
                    (data, count) \<Rightarrow> if count \<noteq> 0 then data sdiv count else 0)
               | LCK_ANY \<Rightarrow> if ds \<noteq> [] then 1 else 0
               | LCK_MIN \<Rightarrow> if ds \<noteq> [] then hd ds else 0
               | LCK_MAX \<Rightarrow> if ds \<noteq> [] then List.last ds else 0, t1))"

definition readData :: "nat \<Rightarrow> table \<Rightarrow> int \<times> table" where
  "readData r t =
     (let t1 = bump Read_data t; b = lcks t1 (lrq_lock (reqs t1 r))
      in (lbl_data b, bump_operations (lbl_series b) t1))"

definition readData2 :: "config \<Rightarrow> nat \<Rightarrow> uchar list \<Rightarrow> nat \<Rightarrow> table \<Rightarrow> int \<times> table" where
  "readData2 cfg series key w t =
     (if w = 0 then (0, t)
      else let t1 = bump_operations series (bump Read_data t)
           in (case find_lock cfg series key t1 of Some l \<Rightarrow> lbl_data (lcks t1 l) | None \<Rightarrow> 0, t1))"

definition writeData :: "nat \<Rightarrow> int \<Rightarrow> table \<Rightarrow> int \<times> table" where
  "writeData r data t =
     (let t1 = bump Write_data t; l = lrq_lock (reqs t1 r); t2 = set_data l data t1
      in (data, bump_operations (lbl_series (lcks t2 l)) t2))"

subsection \<open>Owners and processes\<close>

text \<open>
  \<open>purge_owner\<close>: the two loops take the first request of a queue until there is none; each
  turn takes one away, so the length of the queue bounds their number.
\<close>

fun release_requests :: "nat \<Rightarrow> nat \<Rightarrow> table \<Rightarrow> table" where
  "release_requests 0 w t = t"
| "release_requests (Suc n) w t =
     (case own_requests (owns t w) of [] \<Rightarrow> t | r # _ \<Rightarrow> release_requests n w (release_request r t))"

definition free_repost :: "nat \<Rightarrow> nat \<Rightarrow> table \<Rightarrow> table" where
  "free_repost r w t =
     (let t1 = mod_own w (\<lambda>q. q\<lparr>own_blocks := remove1 r (own_blocks q)\<rparr>) t;
          t2 = mod_req r (\<lambda>q. q\<lparr>lrq_type := False\<rparr>) t1
      in t2\<lparr>lhb_free_requests := lhb_free_requests t2 @ [r]\<rparr>)"

fun free_reposts :: "nat \<Rightarrow> nat \<Rightarrow> table \<Rightarrow> table" where
  "free_reposts 0 w t = t"
| "free_reposts (Suc n) w t =
     (case own_blocks (owns t w) of [] \<Rightarrow> t | r # _ \<Rightarrow> free_reposts n w (free_repost r w t))"

definition purge_owner :: "nat \<Rightarrow> table \<Rightarrow> table" where
  "purge_owner w t =
     (let t1 = release_requests (length (own_requests (owns t w))) w t;
          t2 = free_reposts (length (own_blocks (owns t1 w))) w t1;
          t3 = mod_prc (own_process (owns t2 w)) (\<lambda>p. p\<lparr>prc_owners := remove1 w (prc_owners p)\<rparr>) t2;
          t4 = t3\<lparr>lhb_owners := remove1 w (lhb_owners t3), lhb_free_owners := lhb_free_owners t3 @ [w]\<rparr>
      in mod_own w (\<lambda>q. q\<lparr>own_owner_type := 0, own_owner_id := 0, own_process := 0, own_flags := {}\<rparr>) t4)"

fun purge_owners :: "nat \<Rightarrow> nat \<Rightarrow> table \<Rightarrow> table" where
  "purge_owners 0 p t = t"
| "purge_owners (Suc n) p t =
     (case prc_owners (prcs t p) of [] \<Rightarrow> t | w # _ \<Rightarrow> purge_owners n p (purge_owner w t))"

definition purge_process :: "nat \<Rightarrow> table \<Rightarrow> table" where
  "purge_process p t =
     (let t1 = purge_owners (length (prc_owners (prcs t p))) p t;
          t2 = t1\<lparr>lhb_processes := remove1 p (lhb_processes t1),
                  lhb_free_processes := lhb_free_processes t1 @ [p]\<rparr>
      in mod_prc p (\<lambda>q. q\<lparr>prc_process_id := 0\<rparr>) t2)"

text \<open>\<open>exists\<close> tells which processes the operating system knows.\<close>

definition probe_processes :: "(nat \<Rightarrow> bool) \<Rightarrow> nat \<Rightarrow> table \<Rightarrow> bool \<times> table" where
  "probe_processes exists pid t =
     fold (\<lambda>p (purged, t). let id = prc_process_id (prcs t p)
             in if id \<noteq> pid \<and> \<not> exists id then (True, purge_process p t) else (purged, t))
       (lhb_processes t) (False, t)"

text \<open>
  \<open>init_ok\<close> tells whether the system initialises the event of a block. The offset of the
  process block, null when it fails, is what \<open>m_processOffset\<close> becomes.
\<close>

definition create_process :: "config \<Rightarrow> bool \<Rightarrow> nat \<Rightarrow> table \<Rightarrow> nat \<times> table" where
  "create_process cfg init_ok pid t =
     (let t1 = (case List.find (\<lambda>p. prc_process_id (prcs t p) = pid) (lhb_processes t) of
                  Some p \<Rightarrow> purge_process p t | None \<Rightarrow> t);
          (p, t2) = (case lhb_free_processes t1 of
              [] \<Rightarrow> alloc (memory_size cfg) (can_remap cfg) (FB_ALIGN (sizeof_prc cfg) 8) t1
            | p # rest \<Rightarrow> (Some p, t1\<lparr>lhb_free_processes := rest\<rparr>))
      in case p of
           None \<Rightarrow> (0, t2)
         | Some p \<Rightarrow>
             let t3 = mod_prc p (\<lambda>q. q\<lparr>prc_process_id := pid, prc_owners := []\<rparr>) t2;
                 t4 = t3\<lparr>lhb_processes := lhb_processes t3 @ [p]\<rparr>
             in (if init_ok then p else 0, t4))"

definition init_owner_block :: "nat \<Rightarrow> nat \<Rightarrow> nat \<Rightarrow> own \<Rightarrow> own" where
  "init_owner_block process owner_type owner_id q = q\<lparr>own_owner_type := owner_type, own_flags := {},
     own_count := 1, own_owner_id := owner_id, own_process := process, own_requests := [], own_blocks := [],
     own_pending := [], own_waits := 0, own_ast_count := 0\<rparr>"

text \<open>\<open>create_owner\<close> once the process has its block \<open>process\<close>.\<close>

definition create_owner :: "config \<Rightarrow> (nat \<Rightarrow> bool) \<Rightarrow> bool \<Rightarrow> nat \<Rightarrow> nat \<Rightarrow> nat \<Rightarrow> nat \<Rightarrow> table \<Rightarrow> nat \<times> table" where
  "create_owner cfg exists init_ok pid process owner_id owner_type t =
     (let t1 = (case List.find (\<lambda>w. own_owner_id (owns t w) = owner_id \<and> own_owner_type (owns t w) = owner_type)
                       (lhb_owners t) of
                  Some w \<Rightarrow> purge_owner w t | None \<Rightarrow> t);
          (w, t2) = (case lhb_free_owners t1 of
              [] \<Rightarrow> alloc (memory_size cfg) (can_remap cfg) (FB_ALIGN (sizeof_own cfg) 8) t1
            | w # rest \<Rightarrow> (Some w, t1\<lparr>lhb_free_owners := rest\<rparr>))
      in case w of
           None \<Rightarrow> (0, t2)
         | Some w \<Rightarrow>
             let t3 = mod_own w (init_owner_block process owner_type owner_id) t2
             in if \<not> init_ok then (0, t3)
                else let t4 = t3\<lparr>lhb_owners := lhb_owners t3 @ [w]\<rparr>;
                         t5 = mod_prc process (\<lambda>q. q\<lparr>prc_owners := prc_owners q @ [w]\<rparr>) t4
                     in (w, snd (probe_processes exists pid t5)))"

text \<open>
  \<open>initializeOwner\<close>: the offset of the owner, null when it fails, and of the process block
  \<open>m_processOffset\<close>. \<open>owner_handle\<close> is the offset that the caller has so far.
\<close>

definition initializeOwner :: "config \<Rightarrow> (nat \<Rightarrow> bool) \<Rightarrow> bool \<Rightarrow> bool \<Rightarrow> nat \<Rightarrow> nat \<Rightarrow> nat \<Rightarrow> nat \<Rightarrow> nat \<Rightarrow>
    table \<Rightarrow> nat \<times> nat \<times> table" where
  "initializeOwner cfg exists prc_ok own_ok pid process owner_id owner_type owner_handle t =
     (if owner_handle \<noteq> 0
      then (owner_handle, process, mod_own owner_handle (\<lambda>q. q\<lparr>own_count := own_count q + 1\<rparr>) t)
      else let (process', t1) = (if process = 0 then create_process cfg prc_ok pid t else (process, t))
           in if process' = 0 then (0, 0, t1)
              else let (w, t2) = create_owner cfg exists own_ok pid process' owner_id owner_type t1
                   in (w, process', t2))"

text \<open>\<open>shutdownOwner\<close> up to the loop that waits for the running notices: whether it gets there.\<close>

definition release_owner :: "nat \<Rightarrow> table \<Rightarrow> bool \<times> table" where
  "release_owner w t =
     (if w = 0 \<or> own_count (owns t w) = 0 then (False, t)
      else let t1 = mod_own w (\<lambda>q. q\<lparr>own_count := own_count q - 1\<rparr>) t
           in (\<not> 0 < sint (own_count (owns t1 w)), t1))"

end
