(* ===== verification/LockOwners.thy ===== *)
theory LockOwners
  imports LockOps
begin

text \<open>
  The queues of owners and processes: an owner's queues hold exactly the requests they are
  meant for, and every owner is on the queue of its process. Every operation keeps this.
\<close>

subsection \<open>The invariant\<close>

definition owner_ok :: "table \<Rightarrow> nat \<Rightarrow> bool" where
  "owner_ok t w \<longleftrightarrow>
     distinct (own_requests (owns t w)) \<and> distinct (own_pending (owns t w)) \<and> distinct (own_blocks (owns t w)) \<and>
     (\<forall>r. r \<in> set (own_requests (owns t w)) \<longleftrightarrow>
        lrq_type (reqs t r) \<and> lrq_owner (reqs t r) = w \<and> LRQ_repost \<notin> lrq_flags (reqs t r)) \<and>
     (\<forall>r. r \<in> set (own_pending (owns t w)) \<longleftrightarrow>
        lrq_type (reqs t r) \<and> lrq_owner (reqs t r) = w \<and> LRQ_pending \<in> lrq_flags (reqs t r)) \<and>
     (\<forall>r. r \<in> set (own_blocks (owns t w)) \<longleftrightarrow>
        lrq_type (reqs t r) \<and> lrq_owner (reqs t r) = w \<and>
        (LRQ_repost \<in> lrq_flags (reqs t r) \<or> LRQ_blocking \<in> lrq_flags (reqs t r)))"

text \<open>A request block is in use by an owner that is; a reposted notice is nothing else.\<close>

definition owners_ok :: "table \<Rightarrow> bool" where
  "owners_ok t \<longleftrightarrow> (\<forall>w. owner_ok t w) \<and>
     distinct (lhb_owners t @ lhb_free_owners t) \<and>
     (\<forall>w \<in> set (lhb_owners t) \<union> set (lhb_free_owners t). w < lhb_used t) \<and>
     (\<forall>r. lrq_type (reqs t r) \<longrightarrow> lrq_owner (reqs t r) \<in> set (lhb_owners t)) \<and>
     (\<forall>r. lrq_type (reqs t r) \<and> LRQ_repost \<in> lrq_flags (reqs t r) \<longrightarrow>
        LRQ_pending \<notin> lrq_flags (reqs t r) \<and> LRQ_blocking \<notin> lrq_flags (reqs t r))"

definition prcs_ok :: "table \<Rightarrow> bool" where
  "prcs_ok t \<longleftrightarrow> distinct (lhb_processes t @ lhb_free_processes t) \<and>
     (\<forall>p \<in> set (lhb_processes t) \<union> set (lhb_free_processes t). p < lhb_used t) \<and>
     (\<forall>p \<in> set (lhb_processes t). distinct (prc_owners (prcs t p)) \<and>
        set (prc_owners (prcs t p)) = {w \<in> set (lhb_owners t). own_process (owns t w) = p}) \<and>
     (\<forall>w \<in> set (lhb_owners t). own_process (owns t w) \<in> set (lhb_processes t))"

text \<open>What the invariant depends on.\<close>

definition req_key :: "lrq \<Rightarrow> bool \<times> nat \<times> bool \<times> bool \<times> bool" where
  "req_key q = (lrq_type q, lrq_owner q, LRQ_repost \<in> lrq_flags q, LRQ_pending \<in> lrq_flags q,
     LRQ_blocking \<in> lrq_flags q)"

definition own_key :: "own \<Rightarrow> nat list \<times> nat list \<times> nat list" where
  "own_key q = (own_requests q, own_pending q, own_blocks q)"

abbreviation owner_lists :: "table \<Rightarrow> nat list \<times> nat list \<times> nat" where
  "owner_lists t \<equiv> (lhb_owners t, lhb_free_owners t, lhb_used t)"

abbreviation process_part :: "table \<Rightarrow> nat list \<times> nat list \<times> (nat \<Rightarrow> prc)" where
  "process_part t \<equiv> (lhb_processes t, lhb_free_processes t, prcs t)"

lemma owners_ok_cong:
  assumes "\<And>r. req_key (reqs t' r) = req_key (reqs t r)" "\<And>w. own_key (owns t' w) = own_key (owns t w)"
    "owner_lists t' = owner_lists t"
  shows "owners_ok t' = owners_ok t"
  using assms by (simp add: owners_ok_def owner_ok_def req_key_def own_key_def)

lemma prcs_ok_cong:
  assumes "\<And>w. own_process (owns t' w) = own_process (owns t w)" "owner_lists t' = owner_lists t"
    "process_part t' = process_part t"
  shows "prcs_ok t' = prcs_ok t"
  using assms by (simp add: prcs_ok_def)

lemma owner_lists_mod [simp]:
  "lhb_owners (mod_req r f t) = lhb_owners t" "lhb_free_owners (mod_req r f t) = lhb_free_owners t"
  "lhb_owners (mod_lck l g t) = lhb_owners t" "lhb_free_owners (mod_lck l g t) = lhb_free_owners t"
  "lhb_owners (mod_own w h t) = lhb_owners t" "lhb_free_owners (mod_own w h t) = lhb_free_owners t"
  "lhb_owners (mod_prc p k t) = lhb_owners t" "lhb_free_owners (mod_prc p k t) = lhb_free_owners t"
  "lhb_owners (bump s t) = lhb_owners t" "lhb_free_owners (bump s t) = lhb_free_owners t"
  by (simp_all add: mod_req_def mod_lck_def mod_own_def mod_prc_def bump_def)

lemma process_part_mod [simp]:
  "lhb_processes (mod_req r f t) = lhb_processes t" "lhb_free_processes (mod_req r f t) = lhb_free_processes t"
  "lhb_processes (mod_lck l g t) = lhb_processes t" "lhb_free_processes (mod_lck l g t) = lhb_free_processes t"
  "lhb_processes (mod_own w h t) = lhb_processes t" "lhb_free_processes (mod_own w h t) = lhb_free_processes t"
  "lhb_processes (mod_prc p k t) = lhb_processes t" "lhb_free_processes (mod_prc p k t) = lhb_free_processes t"
  "lhb_processes (bump s t) = lhb_processes t" "lhb_free_processes (bump s t) = lhb_free_processes t"
  "prcs (mod_req r f t) = prcs t" "prcs (mod_lck l g t) = prcs t" "prcs (mod_own w h t) = prcs t"
  "prcs (bump s t) = prcs t" "prcs (mod_prc p k t) = (prcs t)(p := k (prcs t p))"
  by (simp_all add: mod_req_def mod_lck_def mod_own_def mod_prc_def bump_def)

subsection \<open>Operations that leave owners alone\<close>

text \<open>
  Two tables with the same owners: all that \<open>owners_ok\<close> and \<open>prcs_ok\<close> look at is the same.
\<close>

definition same_owners :: "table \<Rightarrow> table \<Rightarrow> bool" where
  "same_owners t' t \<longleftrightarrow> (\<forall>r. req_key (reqs t' r) = req_key (reqs t r)) \<and>
     (\<forall>w. own_key (owns t' w) = own_key (owns t w) \<and> own_process (owns t' w) = own_process (owns t w)) \<and>
     owner_lists t' = owner_lists t \<and> process_part t' = process_part t"

text \<open>The part that concerns owners and processes, whatever happens to requests.\<close>

definition same_processes :: "table \<Rightarrow> table \<Rightarrow> bool" where
  "same_processes t' t \<longleftrightarrow> (\<forall>w. own_process (owns t' w) = own_process (owns t w)) \<and>
     owner_lists t' = owner_lists t \<and> process_part t' = process_part t"

lemma same_ownersD:
  assumes "same_owners t' t"
  shows "owners_ok t' = owners_ok t" "same_processes t' t"
  using assms owners_ok_cong [of t' t] by (auto simp: same_owners_def same_processes_def)

lemma same_processesD: "same_processes t' t \<Longrightarrow> prcs_ok t' = prcs_ok t"
  by (rule prcs_ok_cong) (auto simp: same_processes_def)

lemma same_refl [simp]: "same_owners t t" "same_processes t t"
  by (simp_all add: same_owners_def same_processes_def)

lemma same_trans [trans]:
  "same_owners t'' t' \<Longrightarrow> same_owners t' t \<Longrightarrow> same_owners t'' t"
  "same_processes t'' t' \<Longrightarrow> same_processes t' t \<Longrightarrow> same_processes t'' t"
  by (simp_all add: same_owners_def same_processes_def)

lemma same_owners_mod [simp]:
  "same_owners (mod_lck l g t) t'' = same_owners t t''"
  "same_owners (bump s t) t'' = same_owners t t''"
  "same_processes (mod_lck l g t) t'' = same_processes t t''"
  "same_processes (bump s t) t'' = same_processes t t''"
  "same_processes (mod_req r f t) t'' = same_processes t t''"
  by (simp_all add: same_owners_def same_processes_def)

lemma same_owners_mod_req:
  "req_key (f (reqs t r)) = req_key (reqs t r) \<Longrightarrow> same_owners (mod_req r f t) t'' = same_owners t t''"
  unfolding same_owners_def by (auto simp: fun_upd_def)

lemma same_owners_mod_own:
  "own_key (f (owns t w)) = own_key (owns t w) \<Longrightarrow> own_process (f (owns t w)) = own_process (owns t w) \<Longrightarrow>
     same_owners (mod_own w f t) t'' = same_owners t t''"
  "own_process (f (owns t w)) = own_process (owns t w) \<Longrightarrow>
     same_processes (mod_own w f t) t'' = same_processes t t''"
  unfolding same_owners_def same_processes_def by (auto simp: fun_upd_def)

lemma same_owners_header [simp]:
  "same_owners (t\<lparr>lhb_free_requests := x\<rparr>) t'' = same_owners t t''"
  "same_owners (t\<lparr>lhb_free_locks := y\<rparr>) t'' = same_owners t t''"
  "same_owners (t\<lparr>lhb_hash := h\<rparr>) t'' = same_owners t t''"
  "same_owners (t\<lparr>lhb_data := d\<rparr>) t'' = same_owners t t''"
  "same_processes (t\<lparr>lhb_free_requests := x\<rparr>) t'' = same_processes t t''"
  "same_processes (t\<lparr>lhb_free_locks := y\<rparr>) t'' = same_processes t t''"
  "same_processes (t\<lparr>lhb_hash := h\<rparr>) t'' = same_processes t t''"
  "same_processes (t\<lparr>lhb_data := d\<rparr>) t'' = same_processes t t''"
  by (simp_all add: same_owners_def same_processes_def)

lemma post_wakeup_owners [simp]: "same_owners (post_wakeup w t) t'' = same_owners t t''"
  "same_processes (post_wakeup w t) t'' = same_processes t t''"
  by (auto simp: post_wakeup_def same_owners_mod_own own_key_def)

lemma set_data_owners [simp]: "same_owners (set_data l d t) t'' = same_owners t t''"
  "same_processes (set_data l d t) t'' = same_processes t t''"
  by (simp_all add: set_data_def remove_data_que_def insert_data_que_def Let_def)

lemma unpend_processes [simp]: "same_processes (unpend r l t) t'' = same_processes t t''"
  by (simp add: unpend_def same_owners_mod_own)

lemma grant_processes [simp]: "same_processes (grant r l t) t'' = same_processes t t''"
  by (simp add: grant_def Let_def)

lemma grant_pending_processes [simp]: "same_processes (grant_pending rs l t) t'' = same_processes t t''"
  by (induction rs l t rule: grant_pending.induct) (simp_all add: Let_def)

lemma mark_just_granted_same [simp]: "same_owners (mark_just_granted rs t) t'' = same_owners t t''"
  by (induction rs t rule: mark_just_granted.induct)
    (simp_all add: same_owners_mod_req req_key_def)

lemma mark_just_granted_processes [simp]: "same_processes (mark_just_granted rs t) t'' = same_processes t t''"
  by (induction rs t rule: mark_just_granted.induct) simp_all

lemma post_pending_processes [simp]: "same_processes (post_pending l t) t'' = same_processes t t''"
  by (simp add: post_pending_def Let_def)

lemma release_request_processes [simp]: "same_processes (release_request r t) t'' = same_processes t t''"
  by (simp add: release_request_def detach_request_def free_lock_def remove_data_que_def
      same_owners_mod_own Let_def)

subsection \<open>Granting\<close>

lemma owner_queues:
  assumes "owners_ok t"
  shows "distinct (own_requests (owns t w))" "distinct (own_pending (owns t w))" "distinct (own_blocks (owns t w))"
    "r \<in> set (own_requests (owns t w)) \<longleftrightarrow>
        lrq_type (reqs t r) \<and> lrq_owner (reqs t r) = w \<and> LRQ_repost \<notin> lrq_flags (reqs t r)"
    "r \<in> set (own_pending (owns t w)) \<longleftrightarrow>
        lrq_type (reqs t r) \<and> lrq_owner (reqs t r) = w \<and> LRQ_pending \<in> lrq_flags (reqs t r)"
    "r \<in> set (own_blocks (owns t w)) \<longleftrightarrow>
        lrq_type (reqs t r) \<and> lrq_owner (reqs t r) = w \<and>
        (LRQ_repost \<in> lrq_flags (reqs t r) \<or> LRQ_blocking \<in> lrq_flags (reqs t r))"
  using assms by (simp_all add: owners_ok_def owner_ok_def)

lemma unpend_owners:
  assumes "owners_ok t"
  shows "owners_ok (unpend r l t)"
  using assms unfolding owners_ok_def owner_ok_def unpend_def
  by (auto simp: in_set_remove1)

lemma grant_owners:
  assumes "owners_ok t"
  shows "owners_ok (grant r l t)"
proof -
  define t4 where "t4 = (let t1 = mod_lck l (add_count (lrq_requested (reqs t r)) 1) t;
          t2 = mod_req r (\<lambda>q. q\<lparr>lrq_state := lrq_requested q\<rparr>) t1;
          t3 = (if lrq_data (reqs t2 r) \<noteq> 0
                then mod_req r (\<lambda>q. q\<lparr>lrq_data := 0\<rparr>) (set_data l (lrq_data (reqs t2 r)) t2)
                else t2)
     in mod_lck l (\<lambda>b. b\<lparr>lbl_state := lock_state b\<rparr>) t3)"
  have "same_owners t4 t" by (simp add: t4_def Let_def same_owners_mod_req req_key_def)
  then have "owners_ok t4" using assms by (simp add: same_ownersD)
  moreover have "grant r l t = (let t5 = (if LRQ_pending \<in> lrq_flags (reqs t4 r) then unpend r l t4 else t4)
      in post_wakeup (lrq_owner (reqs t5 r)) t5)"
    by (simp add: grant_def t4_def Let_def)
  moreover have "owners_ok (post_wakeup w t') = owners_ok t'" for w t' by (rule same_ownersD) simp
  ultimately show ?thesis by (simp add: Let_def unpend_owners)
qed

lemma mod_lck_owners [simp]: "owners_ok (mod_lck l g t) = owners_ok t"
  "owners_ok (bump s t) = owners_ok t" "owners_ok (post_wakeup w t) = owners_ok t"
  by (rule same_ownersD; simp)+

lemma grant_pending_owners: "owners_ok t \<Longrightarrow> owners_ok (grant_pending rs l t)"
  by (induction rs l t rule: grant_pending.induct) (simp_all add: grant_owners Let_def)

lemma post_pending_owners: "owners_ok t \<Longrightarrow> owners_ok (post_pending l t)"
  by (simp add: post_pending_def Let_def grant_pending_owners same_ownersD(1) [OF mark_just_granted_same [THEN iffD2, OF same_refl(1)]])

subsection \<open>Releasing\<close>

lemma detach_owners:
  assumes "owners_ok t" "lrq_type (reqs t r)" "LRQ_repost \<notin> lrq_flags (reqs t r)"
  shows "owners_ok (detach_request r t)"
  using assms unfolding owners_ok_def owner_ok_def detach_request_def unpend_def Let_def
  by (auto simp: in_set_remove1)

lemma release_request_owners:
  assumes "owners_ok t" "lrq_type (reqs t r)" "LRQ_repost \<notin> lrq_flags (reqs t r)"
  shows "owners_ok (release_request r t)"
proof -
  define t1 where "t1 = detach_request r t"
  have d: "owners_ok t1" unfolding t1_def by (rule detach_owners [OF assms])
  have "owners_ok (free_lock l t1)" for l
    using d by (subst same_ownersD(1) [of _ t1]) (simp_all add: free_lock_def remove_data_que_def Let_def)
  then show ?thesis using d
    unfolding release_request_def Let_def t1_def [symmetric] by (simp add: post_pending_owners)
qed

end
