(* ===== verification/LockSafe.thy ===== *)
theory LockSafe
  imports LockOwners "HOL-Library.Multiset"
begin

text \<open>
  Every operation of \<open>LockOps\<close> keeps the invariants of \<open>LockInv\<close> and \<open>LockOwners\<close>.
\<close>

subsection \<open>Allocation\<close>

definition config_ok :: "config \<Rightarrow> bool" where
  "config_ok cfg \<longleftrightarrow> 0 < sizeof_lrq cfg \<and> 0 < sizeof_lbl cfg \<and> 0 < sizeof_own cfg \<and> 0 < sizeof_prc cfg"

lemma FB_ALIGN_bounds: "n \<le> FB_ALIGN n 8" "FB_ALIGN n 8 < n + 8" "8 dvd FB_ALIGN n 8"
proof -
  show "8 dvd FB_ALIGN n 8" by (simp add: FB_ALIGN_def)
  have "(n + 7) div 8 * 8 + (n + 7) mod 8 = n + 7" by simp
  moreover have "(n + 7) mod 8 < 8" by simp
  ultimately show "n \<le> FB_ALIGN n 8" "FB_ALIGN n 8 < n + 8" by (simp_all add: FB_ALIGN_def)
qed

text \<open>Growing the table changes nothing else.\<close>

lemma alloc_cases:
  assumes "alloc m remap len t = (b, t')"
  obtains "b = None" "t' = t"
  | n where "b = Some (lhb_used t)" "t' = t\<lparr>lhb_length := n, lhb_used := lhb_used t + len\<rparr>"
proof -
  have "b = None \<and> t' = t \<or>
      b = Some (lhb_used t) \<and> (\<exists>n. t' = t\<lparr>lhb_length := n, lhb_used := lhb_used t + len\<rparr>)"
    using assms by (auto simp: alloc_def Let_def split: if_splits intro: exI [of _ "lhb_length t"])
  then show thesis using that by blast
qed

definition lock_inv :: "table \<Rightarrow> bool" where
  "lock_inv t \<longleftrightarrow> table_ok t \<and> owners_ok t \<and> prcs_ok t"

lemma lock_invD: "lock_inv t \<Longrightarrow> table_ok t" "lock_inv t \<Longrightarrow> owners_ok t" "lock_inv t \<Longrightarrow> prcs_ok t"
  by (simp_all add: lock_inv_def)

lemma lock_invI: "table_ok t \<Longrightarrow> owners_ok t \<Longrightarrow> prcs_ok t \<Longrightarrow> lock_inv t"
  by (simp add: lock_inv_def)

lemma lock_ok_header: "reqs t' = reqs t \<Longrightarrow> lcks t' = lcks t \<Longrightarrow> lock_ok X t' l = lock_ok X t l"
  by (rule lock_ok_cong) simp_all

lemma lock_inv_grow:
  assumes "lock_inv t"
  shows "lock_inv (t\<lparr>lhb_length := n, lhb_used := lhb_used t + len\<rparr>)"
proof -
  have "lock_ok {} (t\<lparr>lhb_length := n, lhb_used := lhb_used t + len\<rparr>) l" for l
    using assms by (subst lock_ok_header [of _ t]) (simp_all add: lock_inv_def table_ok_def)
  then show ?thesis using assms
    by (auto simp: lock_inv_def table_ok_def allocation_ok_def owners_ok_def owner_ok_def prcs_ok_def
        intro: trans_less_add1)
qed

text \<open>The block that a request is given is new: no queue of any lock has it.\<close>

definition fresh_request :: "nat \<Rightarrow> table \<Rightarrow> bool" where
  "fresh_request r t \<longleftrightarrow> \<not> lrq_type (reqs t r) \<and> r < lhb_used t \<and> r \<notin> set (lhb_free_requests t)"

lemma fresh_unqueued:
  assumes "table_ok t" "fresh_request r t"
  shows "r \<notin> set (lbl_requests (lcks t l))"
  using table_ok_req(1) [OF assms(1), of r l] assms(2) by (auto simp: fresh_request_def req_ok_def)

lemma lock_inv_free_requests:
  assumes "lock_inv t" "distinct rs" "\<forall>r \<in> set rs. \<not> lrq_type (reqs t r) \<and> r < lhb_used t"
  shows "lock_inv (t\<lparr>lhb_free_requests := rs\<rparr>)"
proof -
  have "lock_ok {} (t\<lparr>lhb_free_requests := rs\<rparr>) l" for l
    using assms(1) by (subst lock_ok_header [of _ t]) (simp_all add: lock_inv_def table_ok_def)
  then show ?thesis using assms
    by (auto simp: lock_inv_def table_ok_def allocation_ok_def owners_ok_def owner_ok_def prcs_ok_def)
qed

text \<open>What allocation leaves alone.\<close>

abbreviation contents :: "table \<Rightarrow> (nat \<Rightarrow> lrq) \<times> (nat \<Rightarrow> lbl) \<times> (nat \<Rightarrow> own) \<times> (nat \<Rightarrow> prc)" where
  "contents t \<equiv> (reqs t, lcks t, owns t, prcs t)"

lemma alloc_request_ok:
  assumes "lock_inv t" "alloc_request cfg t = (b, t')" "config_ok cfg"
  shows "lock_inv t'" "b = Some r \<Longrightarrow> fresh_request r t'" "contents t' = contents t"
    "lhb_owners t' = lhb_owners t" "lhb_processes t' = lhb_processes t"
    "lhb_hash t' = lhb_hash t" "lhb_data t' = lhb_data t" "lhb_hash_slots t' = lhb_hash_slots t"
proof -
  have al: "allocation_ok t" using assms(1) by (simp add: lock_inv_def table_ok_def)
  have "lock_inv t' \<and> (\<forall>r. b = Some r \<longrightarrow> fresh_request r t') \<and> contents t' = contents t \<and>
    lhb_owners t' = lhb_owners t \<and> lhb_processes t' = lhb_processes t \<and> lhb_hash t' = lhb_hash t \<and>
    lhb_data t' = lhb_data t \<and> lhb_hash_slots t' = lhb_hash_slots t"
  proof (cases "lhb_free_requests t")
    case Nil
    have len: "0 < FB_ALIGN (sizeof_lrq cfg) 8"
      using assms(3) FB_ALIGN_bounds(1) [of "sizeof_lrq cfg"] by (simp add: config_ok_def)
    from Nil assms(2) have "alloc (memory_size cfg) (can_remap cfg) (FB_ALIGN (sizeof_lrq cfg) 8) t = (b, t')"
      by (simp add: alloc_request_def)
    then show ?thesis
    proof (cases rule: alloc_cases)
      case 1
      then show ?thesis using assms(1) by simp
    next
      case (2 n)
      then show ?thesis
        using lock_inv_grow [OF assms(1), of "FB_ALIGN (sizeof_lrq cfg) 8" n] al len Nil
        by (auto simp: fresh_request_def allocation_ok_def)
    qed
  next
    case (Cons r rs)
    then show ?thesis
      using assms(2) al lock_inv_free_requests [OF assms(1), of rs]
      by (auto simp: alloc_request_def allocation_ok_def fresh_request_def)
  qed
  then show "lock_inv t'" "b = Some r \<Longrightarrow> fresh_request r t'" "contents t' = contents t"
    "lhb_owners t' = lhb_owners t" "lhb_processes t' = lhb_processes t"
    "lhb_hash t' = lhb_hash t" "lhb_data t' = lhb_data t" "lhb_hash_slots t' = lhb_hash_slots t" by simp_all
qed

subsection \<open>Pending requests\<close>

lemma length_filter_mset: "mset ys = mset xs \<Longrightarrow> length (filter P ys) = length (filter P xs)"
  by (metis mset_filter size_mset)

text \<open>Moving a request to the end of its lock's queue.\<close>

lemma reorder_ok:
  assumes ok: "table_ok t" and r: "r \<in> set (lbl_requests (lcks t l))"
  shows "table_ok (mod_lck l (\<lambda>b. b\<lparr>lbl_requests := remove1 r (lbl_requests b) @ [r]\<rparr>) t)"
proof -
  note tr = table_ok_req [OF ok r]
  define ys where "ys = remove1 r (lbl_requests (lcks t l)) @ [r]"
  define t' where "t' = mod_lck l (\<lambda>b. b\<lparr>lbl_requests := remove1 r (lbl_requests b) @ [r]\<rparr>) t"
  have rs: "reqs t' = reqs t" and lk: "lcks t' = (lcks t)(l := (lcks t l)\<lparr>lbl_requests := ys\<rparr>)"
    and al: "allocation t' = allocation t"
    by (simp_all add: t'_def ys_def)
  have ms: "mset ys = mset (lbl_requests (lcks t l))" using r by (simp add: ys_def)
  have st: "set ys = set (lbl_requests (lcks t l))" using ms by (metis set_mset_mset)
  have ds: "distinct ys" using ms tr(3) by (metis mset_eq_imp_distinct_iff)
  have "lock_ok {} t' l'" if "l' \<noteq> l" for l'
    using table_okD(1) [OF ok, of l'] that by (subst lock_ok_cong [of _ _ t]) (simp_all add: rs lk)
  moreover have "lock_ok {} t' l"
    using tr ds st length_filter_mset [OF ms] table_ok_req(1) [OF ok] r
    unfolding lock_ok_def counts_ok_def compatible_on_def pending_ok_def by (auto simp: req_ok_def rs lk)
  moreover have "allocation_ok t'"
    using table_okD(2) [OF ok] al by (subst allocation_ok_cong [of _ t]) (auto simp: rs lk st)
  ultimately show ?thesis unfolding t'_def [symmetric] by (metis table_okI)
qed

text \<open>A change of one request's flags with the matching change of the count.\<close>

lemma pending_change_ok:
  assumes ok: "table_ok t" and r: "r \<in> set (lbl_requests (lcks t l))"
    and rs: "reqs t' = (reqs t)(r := (reqs t r)\<lparr>lrq_flags := F\<rparr>)"
    and F: "LRQ_repost \<notin> F" and lk: "lcks t' = (lcks t)(l := (lcks t l)\<lparr>lbl_pending_lrq_count := n\<rparr>)"
    and n: "n = lbl_pending_lrq_count (lcks t l) + (if LRQ_pending \<in> F then 1 else 0) -
      (if LRQ_pending \<in> lrq_flags (reqs t r) then 1 else 0)"
    and al: "allocation t' = allocation t"
  shows "table_ok t'"
proof (rule table_okI)
  note tr = table_ok_req [OF ok r]
  have nr: "LRQ_repost \<notin> lrq_flags (reqs t r)" using tr(1) by (simp add: req_ok_def)
  have others: "r \<notin> set (lbl_requests (lcks t l'))" if "l' \<noteq> l" for l'
    using table_ok_req(1) [OF ok, of r l'] tr(1) that by (auto simp: req_ok_def)
  show "lock_ok {} t' l'" if "l' \<noteq> l" for l'
    using table_okD(1) [OF ok, of l'] that others [OF that] by (subst lock_ok_cong [of _ _ t]) (auto simp: rs lk)
  have "filter (\<lambda>r'. r' \<noteq> r \<and> LRQ_pending \<in> lrq_flags (reqs t' r')) (lbl_requests (lcks t l)) =
      filter (\<lambda>r'. r' \<noteq> r \<and> LRQ_pending \<in> lrq_flags (reqs t r')) (lbl_requests (lcks t l))"
    by (rule filter_cong) (auto simp: rs)
  then have "pending_ok t' l"
    using length_filter_split [OF tr(3) r, of "\<lambda>r'. LRQ_pending \<in> lrq_flags (reqs t' r')"]
      length_filter_split [OF tr(3) r, of "\<lambda>r'. LRQ_pending \<in> lrq_flags (reqs t r')"] tr(6)
    by (simp add: pending_ok_def rs lk n)
  moreover have "counts_ok {} t' l"
  proof -
    have "filter (\<lambda>r'. r' \<notin> {} \<and> lrq_state (reqs t' r') = s) (lbl_requests (lcks t l)) =
        filter (\<lambda>r'. r' \<notin> {} \<and> lrq_state (reqs t r') = s) (lbl_requests (lcks t l))" for s
      by (rule filter_cong) (auto simp: rs)
    then show ?thesis using tr(4) by (simp add: counts_ok_def lk)
  qed
  moreover have "compatible_on {} t' l" using tr(5) by (auto simp: compatible_on_def rs lk)
  moreover have "\<forall>r' \<in> set (lbl_requests (lcks t' l)). req_ok t' l r'"
    using table_ok_req(1) [OF ok] F by (auto simp: req_ok_def rs lk)
  moreover have "lbl_requests (lcks t l) \<noteq> []" using r by auto
  ultimately show "lock_ok {} t' l"
    using tr by (simp add: lock_ok_def lk)
  show "allocation_ok t'"
    using table_okD(2) [OF ok] F nr al by (subst allocation_ok_cong [of _ t]) (auto simp: rs lk)
qed

lemma pend_ok:
  assumes "table_ok t" "r \<in> set (lbl_requests (lcks t l))" "LRQ_pending \<notin> lrq_flags (reqs t r)"
  shows "table_ok (mod_lck l (\<lambda>b. b\<lparr>lbl_pending_lrq_count := lbl_pending_lrq_count b + 1\<rparr>)
     (mod_req r (\<lambda>q. q\<lparr>lrq_flags := insert LRQ_pending (lrq_flags q - {LRQ_rejected})\<rparr>) t))"
  by (rule pending_change_ok [OF assms(1,2), where F = "insert LRQ_pending (lrq_flags (reqs t r) - {LRQ_rejected})"])
    (use table_ok_req(1) [OF assms(1,2)] assms(3) in \<open>simp_all add: req_ok_def\<close>)

text \<open>A request stops being pending and is not granted.\<close>

lemma unpend_ok:
  assumes "table_ok t" "r \<in> set (lbl_requests (lcks t l))" "LRQ_pending \<in> lrq_flags (reqs t r)"
  shows "table_ok (unpend r l t)"
  by (rule pending_change_ok [OF assms(1,2), where F = "lrq_flags (reqs t r) - {LRQ_pending}"])
    (use table_ok_req(1) [OF assms(1,2)] assms(3) in \<open>simp_all add: req_ok_def clear_flags_def\<close>)


subsection \<open>What an operation does to the requests of others\<close>

text \<open>
  While an operation works on one request, another keeps its lock, its owner and the level it
  asks for; if it is pending it may be granted, and nothing else happens to it.
\<close>

definition steady :: "lrq \<Rightarrow> lrq \<Rightarrow> bool" where
  "steady q q' \<longleftrightarrow> lrq_type q' = lrq_type q \<and> lrq_lock q' = lrq_lock q \<and> lrq_owner q' = lrq_owner q \<and>
     (LRQ_repost \<in> lrq_flags q' \<longleftrightarrow> LRQ_repost \<in> lrq_flags q) \<and>
     (LRQ_rejected \<in> lrq_flags q' \<longleftrightarrow> LRQ_rejected \<in> lrq_flags q) \<and> lrq_requested q' = lrq_requested q \<and>
     ((LRQ_pending \<in> lrq_flags q' \<longleftrightarrow> LRQ_pending \<in> lrq_flags q) \<and> lrq_state q' = lrq_state q \<or>
      LRQ_pending \<in> lrq_flags q \<and> LRQ_pending \<notin> lrq_flags q' \<and> lrq_state q' = lrq_requested q)"

abbreviation others_steady :: "nat set \<Rightarrow> table \<Rightarrow> table \<Rightarrow> bool" where
  "others_steady X t t' \<equiv> (\<forall>x. x \<notin> X \<longrightarrow> steady (reqs t x) (reqs t' x))"

lemma steady_refl [simp]: "steady q q"
  by (simp add: steady_def)

lemma steady_trans: "steady q q' \<Longrightarrow> steady q' q'' \<Longrightarrow> steady q q''"
  unfolding steady_def by auto

lemma others_steady_trans: "others_steady X t t' \<Longrightarrow> others_steady X t' t'' \<Longrightarrow> others_steady X t t''"
  using steady_trans by blast

lemma grant_steady:
  "others_steady {r} t (grant r l t)"
  "LRQ_pending \<in> lrq_flags (reqs t r) \<Longrightarrow> others_steady {} t (grant r l t)"
  by (auto simp: grant_same steady_def)

lemma grant_pending_steady: "others_steady {} t (grant_pending rs l t)"
proof (induction rs l t rule: grant_pending.induct)
  case (2 r rs l t)
  show ?case
  proof (cases "LRQ_pending \<in> lrq_flags (reqs t r)")
    case True
    let ?t1 = "mod_lck l (add_count (lrq_state (reqs t r)) (- 1)) t"
    have "others_steady {} t (grant r l t)" "others_steady {} t (grant r l ?t1)"
      using grant_steady(2) [OF True] grant_steady(2) [of ?t1 r l] True by simp_all
    then show ?thesis using 2 True steady_trans by (simp add: Let_def) meson
  next
    case False
    then show ?thesis using 2 by simp
  qed
qed simp

lemma mark_just_granted_steady: "others_steady {} t (mark_just_granted rs t)"
proof (induction rs t rule: mark_just_granted.induct)
  case (2 r rs t)
  define t1 where "t1 = (if LRQ_blocking \<notin> lrq_flags (reqs t r) \<and> LRQ_blocking_seen \<notin> lrq_flags (reqs t r) \<and>
            lrq_ast_routine (reqs t r) \<noteq> 0
         then mod_req r (set_flag LRQ_just_granted) t else t)"
  have "steady (reqs t x) (reqs t1 x)" for x by (simp add: t1_def steady_def set_flag_def)
  moreover have "LRQ_pending \<notin> lrq_flags (reqs t r) \<Longrightarrow> steady (reqs t1 x) (reqs (mark_just_granted rs t1) x)" for x
    using 2 by (simp add: t1_def)
  ultimately have "LRQ_pending \<notin> lrq_flags (reqs t r) \<Longrightarrow> steady (reqs t x) (reqs (mark_just_granted rs t1) x)" for x
    using steady_trans by blast
  moreover have "mark_just_granted (r # rs) t =
      (if LRQ_pending \<in> lrq_flags (reqs t r) then t else mark_just_granted rs t1)"
    by (simp only: mark_just_granted.simps t1_def)
  ultimately show ?case by simp
qed simp

lemma post_pending_steady: "steady (reqs t x) (reqs (post_pending l t) x)"
proof -
  define t1 where "t1 = grant_pending (lbl_requests (lcks t l)) l t"
  have "steady (reqs t x) (reqs t1 x)" using grant_pending_steady [of t] by (simp add: t1_def)
  moreover have "steady (reqs t1 x) (reqs (mark_just_granted rs t1) x)" for rs
    using mark_just_granted_steady [of t1] by simp
  ultimately have "steady (reqs t x) (reqs (mark_just_granted rs t1) x)" for rs by (rule steady_trans)
  with \<open>steady (reqs t x) (reqs t1 x)\<close> show ?thesis by (simp add: post_pending_def Let_def t1_def [symmetric])
qed

lemma release_request_steady:
  assumes "x \<noteq> r"
  shows "steady (reqs t x) (reqs (release_request r t) x)"
proof -
  define t1 where "t1 = detach_request r t"
  have s1: "steady (reqs t x) (reqs t1 x)" using assms by (simp add: t1_def detach_same)
  have "steady (reqs t x) (reqs (post_pending l t2) x)" if "reqs t2 = reqs t1" for l t2
    using steady_trans [OF s1] post_pending_steady [of t2 x l] that by simp
  then show ?thesis
    using s1 unfolding release_request_def Let_def t1_def [symmetric] by (simp add: free_lock_same)
qed

subsection \<open>The length of the queues\<close>

definition queues_le :: "table \<Rightarrow> table \<Rightarrow> bool" where
  "queues_le t' t \<longleftrightarrow> (\<forall>l. length (lbl_requests (lcks t' l)) \<le> length (lbl_requests (lcks t l)))"

lemma queues_le_small: "queues_le t' t \<Longrightarrow> small t \<Longrightarrow> small t'"
  unfolding queues_le_def small_def by (meson le_less_trans)

lemma queues_le_trans: "queues_le t'' t' \<Longrightarrow> queues_le t' t \<Longrightarrow> queues_le t'' t"
  unfolding queues_le_def by (meson le_trans)

lemma grant_pending_queues: "lbl_requests (lcks (grant_pending rs l t) l') = lbl_requests (lcks t l')"
  by (induction rs l t rule: grant_pending.induct) (auto simp: Let_def)

lemma mark_just_granted_queues [simp]: "lcks (mark_just_granted rs t) = lcks t"
  by (induction rs t rule: mark_just_granted.induct) simp_all

lemma post_pending_queues [simp]: "lbl_requests (lcks (post_pending l t) l') = lbl_requests (lcks t l')"
  by (simp add: post_pending_def Let_def grant_pending_queues)

lemma release_request_queues:
  "lbl_requests (lcks (release_request r t) l) =
     (if l = lrq_lock (reqs t r) then remove1 r (lbl_requests (lcks t l)) else lbl_requests (lcks t l))"
  by (simp add: release_request_def Let_def free_lock_same detach_same)

lemma release_request_le: "queues_le (release_request r t) t"
  by (simp add: queues_le_def release_request_queues length_remove1)

subsection \<open>Waiting for a request and giving it up\<close>

definition live_request :: "table \<Rightarrow> nat \<Rightarrow> bool" where
  "live_request t r \<longleftrightarrow> lrq_type (reqs t r) \<and> LRQ_repost \<notin> lrq_flags (reqs t r)"

lemma live_requestD:
  assumes "lock_inv t" "live_request t r"
  shows "r \<in> set (lbl_requests (lcks t (lrq_lock (reqs t r))))" "req_ok t (lrq_lock (reqs t r)) r"
    "lrq_owner (reqs t r) \<in> set (lhb_owners t)"
proof -
  have "table_ok t" using assms(1) by (simp add: lock_inv_def)
  moreover show r: "r \<in> set (lbl_requests (lcks t (lrq_lock (reqs t r))))"
    using assms by (auto simp: lock_inv_def table_ok_def allocation_ok_def live_request_def)
  ultimately show "req_ok t (lrq_lock (reqs t r)) r" by (rule table_ok_req)
  show "lrq_owner (reqs t r) \<in> set (lhb_owners t)"
    using assms by (auto simp: lock_inv_def owners_ok_def live_request_def)
qed

lemma live_requestI: "table_ok t \<Longrightarrow> r \<in> set (lbl_requests (lcks t l)) \<Longrightarrow> live_request t r \<and> lrq_lock (reqs t r) = l"
  using table_ok_req(1) [of t r l] by (simp add: live_request_def req_ok_def)

lemma release_request_inv:
  assumes "lock_inv t" "small t" "live_request t r"
  shows "lock_inv (release_request r t)"
proof (rule lock_invI)
  show "table_ok (release_request r t)"
    by (rule release_request_ok [OF lock_invD(1) [OF assms(1)] assms(2) live_requestD(1) [OF assms(1,3)]])
  show "owners_ok (release_request r t)"
    using release_request_owners [OF lock_invD(2) [OF assms(1)]] assms(3) by (simp add: live_request_def)
  show "prcs_ok (release_request r t)"
    using lock_invD(3) [OF assms(1)] by (subst same_processesD [of _ t]) simp_all
qed

lemma post_pending_inv:
  assumes "lock_inv t" "small t"
  shows "lock_inv (post_pending l t)"
proof (rule lock_invI)
  show "table_ok (post_pending l t)" by (rule post_pending_ok(1) [OF lock_invD(1) [OF assms(1)] assms(2)])
  show "owners_ok (post_pending l t)" by (rule post_pending_owners [OF lock_invD(2) [OF assms(1)]])
  show "prcs_ok (post_pending l t)"
    using lock_invD(3) [OF assms(1)] by (subst same_processesD [of _ t]) simp_all
qed

lemma same_inv:
  assumes "table_ok t' = table_ok t" "same_owners t' t"
  shows "lock_inv t' = lock_inv t"
  using assms same_ownersD [OF assms(2)] same_processesD by (auto simp: lock_inv_def)

lemma bump_inv [simp]: "lock_inv (bump s t) = lock_inv t"
  by (rule same_inv) simp_all

lemma bump_more_inv [simp]: "lock_inv (bump_operations n t) = lock_inv t"
  "lock_inv (bump_denies i t) = lock_inv t"
  by (simp_all add: bump_operations_def bump_denies_def)

lemma post_wakeup_inv [simp]: "lock_inv (post_wakeup w t) = lock_inv t"
  by (rule same_inv) simp_all

lemma bump_same [simp]:
  "reqs (bump_operations n t) = reqs t" "lcks (bump_operations n t) = lcks t" "owns (bump_operations n t) = owns t"
  "reqs (bump_denies i t) = reqs t" "lcks (bump_denies i t) = lcks t" "owns (bump_denies i t) = owns t"
  "small (bump s t) = small t" "small (bump_operations n t) = small t" "small (bump_denies i t) = small t"
  "live_request (bump s t) r = live_request t r" "live_request (bump_operations n t) r = live_request t r"
  "live_request (bump_denies i t) r = live_request t r"
  by (simp_all add: bump_operations_def bump_denies_def small_def live_request_def)

lemma mod_req_inv:
  "lock_inv t \<Longrightarrow> same_request (f (reqs t r)) (reqs t r) \<Longrightarrow> req_key (f (reqs t r)) = req_key (reqs t r) \<Longrightarrow>
     lock_inv (mod_req r f t)"
  using same_ownersD(1) [of "mod_req r f t" t] same_processesD [of "mod_req r f t" t]
  by (intro lock_invI) (simp_all add: mod_req_ok lock_invD same_owners_mod_req)

lemma mod_own_inv:
  "own_key (f (owns t w)) = own_key (owns t w) \<Longrightarrow> own_process (f (owns t w)) = own_process (owns t w) \<Longrightarrow>
     lock_inv (mod_own w f t) = lock_inv t"
  by (rule same_inv) (simp_all add: same_owners_mod_own)

lemma pend_owners:
  assumes "owners_ok t" "lrq_type (reqs t r)" "LRQ_repost \<notin> lrq_flags (reqs t r)" "LRQ_pending \<notin> lrq_flags (reqs t r)"
  shows "owners_ok (mod_own (lrq_owner (reqs t r)) (\<lambda>q. q\<lparr>own_pending := own_pending q @ [r]\<rparr>)
     (mod_req r (\<lambda>q. q\<lparr>lrq_flags := insert LRQ_pending (lrq_flags q - {LRQ_rejected})\<rparr>) t))"
  using assms unfolding owners_ok_def owner_ok_def by auto

lemma begin_wait_inv:
  assumes inv: "lock_inv t" and lr: "live_request t r" and np: "LRQ_pending \<notin> lrq_flags (reqs t r)"
  shows "lock_inv (begin_wait r lck_wait t)"
proof -
  define w l where "w = lrq_owner (reqs t r)" and "l = lrq_lock (reqs t r)"
  define t1 where "t1 = mod_own w (\<lambda>q. q\<lparr>own_flags := own_flags q - {OWN_scanned, OWN_wakeup},
     own_waits := own_waits q + 1\<rparr>) (bump Waits t)"
  define P :: "lrq \<Rightarrow> lrq" where "P = (\<lambda>q. q\<lparr>lrq_flags := insert LRQ_pending (lrq_flags q - {LRQ_rejected})\<rparr>)"
  define A :: "own \<Rightarrow> own" where "A = (\<lambda>q. q\<lparr>own_pending := own_pending q @ [r]\<rparr>)"
  define C :: "lbl \<Rightarrow> lbl" where "C = (\<lambda>b. b\<lparr>lbl_pending_lrq_count := lbl_pending_lrq_count b + 1\<rparr>)"
  define t4 where "t4 = mod_lck l C (mod_own w A (mod_req r P t1))"
  define t5 where "t5 = (if lrq_state (reqs t4 r) = 0
     then mod_lck l (\<lambda>b. b\<lparr>lbl_requests := remove1 r (lbl_requests b) @ [r]\<rparr>) t4 else t4)"
  have bw: "begin_wait r lck_wait t = (if lck_wait \<le> 0 then mod_req r (set_flag LRQ_wait_timeout) t5 else t5)"
    by (simp add: begin_wait_def Let_def w_def l_def t1_def P_def A_def C_def t4_def t5_def)
  have i1: "lock_inv t1" using inv by (simp add: t1_def mod_own_inv own_key_def)
  have rq: "reqs t1 = reqs t" "lcks t1 = lcks t" by (simp_all add: t1_def)
  have r1: "r \<in> set (lbl_requests (lcks t1 l))"
    using live_requestD(1) [OF inv lr] by (simp add: rq l_def)
  have sw: "mod_lck l C (mod_own w A (mod_req r P t1)) = mod_own w A (mod_lck l C (mod_req r P t1))"
    by (simp add: mod_own_def mod_lck_def mod_req_def)
  have "table_ok t4"
    using pend_ok [OF lock_invD(1) [OF i1] r1] np unfolding t4_def sw by (simp add: P_def C_def rq)
  moreover have "owners_ok t4"
    using pend_owners [OF lock_invD(2) [OF i1], of r] lr np
    by (simp add: t4_def rq live_request_def w_def P_def A_def)
  moreover have "prcs_ok t4"
    using lock_invD(3) [OF i1] by (subst same_processesD [of _ t1]) (simp_all add: t4_def same_owners_mod_own A_def)
  ultimately have i4: "lock_inv t4" by (rule lock_invI)
  have "r \<in> set (lbl_requests (lcks t4 l))" using r1 by (simp add: t4_def C_def)
  from reorder_ok [OF lock_invD(1) [OF i4] this]
  have "table_ok t5" using lock_invD(1) [OF i4] by (simp add: t5_def)
  moreover have "owners_ok t5" using lock_invD(2) [OF i4] by (simp add: t5_def)
  moreover have "prcs_ok t5" using lock_invD(3) [OF i4] by (subst same_processesD [of _ t4]) (simp_all add: t5_def)
  ultimately have "lock_inv t5" by (rule lock_invI)
  then show ?thesis unfolding bw by (auto intro!: mod_req_inv simp: same_request_def set_flag_def req_key_def)
qed

lemma begin_wait_reqs:
  "reqs (begin_wait r lck_wait t) = (reqs t)(r := (reqs t r)\<lparr>lrq_flags :=
     insert LRQ_pending (lrq_flags (reqs t r) - {LRQ_rejected}) \<union> (if lck_wait \<le> 0 then {LRQ_wait_timeout} else {})\<rparr>)"
  by (auto simp: begin_wait_def Let_def set_flag_def fun_eq_iff intro!: lrq.equality)

lemma begin_wait_queues:
  assumes "r \<in> set (lbl_requests (lcks t (lrq_lock (reqs t r))))"
  shows "mset (lbl_requests (lcks (begin_wait r lck_wait t) l)) = mset (lbl_requests (lcks t l))"
  using assms by (simp add: begin_wait_def Let_def)

lemma begin_wait_small:
  assumes "lock_inv t" "live_request t r" "small t"
  shows "small (begin_wait r lck_wait t)"
  unfolding small_def
  using assms(3) size_mset begin_wait_queues [OF live_requestD(1) [OF assms(1,2)], of lck_wait]
  by (metis small_def)

lemma deny_enqueue_inv:
  "lock_inv t \<Longrightarrow> small t \<Longrightarrow> live_request t r \<Longrightarrow> lock_inv (deny_enqueue r lck_wait t)"
  by (simp add: deny_enqueue_def release_request_inv)

lemma finish_enqueue_inv:
  "lock_inv t \<Longrightarrow> small t \<Longrightarrow> live_request t r \<Longrightarrow> lock_inv (snd (finish_enqueue r lck_wait t))"
  by (simp add: finish_enqueue_def deny_enqueue_inv)


subsection \<open>Conversion\<close>

lemma grant_inv:
  assumes "lock_inv t" "table_ok (grant r l t)"
  shows "lock_inv (grant r l t)"
proof (rule lock_invI [OF assms(2)])
  show "owners_ok (grant r l t)" by (rule grant_owners [OF lock_invD(2) [OF assms(1)]])
  show "prcs_ok (grant r l t)"
    using lock_invD(3) [OF assms(1)] by (subst same_processesD [of _ t]) simp_all
qed

lemma grant_small [simp]: "small (grant r l t) = small t"
  by (rule small_cong) simp

lemma live_mod_lck [simp]: "live_request (mod_lck l g t) r = live_request t r"
  by (simp add: live_request_def)

lemma grant_live [simp]: "live_request (grant r l t) x = live_request t x"
  by (simp add: live_request_def grant_same)

text \<open>
  The first part of \<open>internal_convert\<close>: the request asks for another level, and its own level
  is taken off the counts to see whether it can have it.
\<close>

lemma convert_grant_inv:
  assumes inv: "lock_inv t" and sm: "small t" and lr: "live_request t r" and ty: "type < LCK_max"
    and t1: "t1 = mod_req r (\<lambda>q. q\<lparr>lrq_requested := type, lrq_flags := lrq_flags q - {LRQ_blocking_seen}\<rparr>) t"
    and t2: "t2 = mod_lck (lrq_lock (reqs t r)) (add_count (lrq_state (reqs t r)) (- 1)) t1"
    and t3: "t3 = mod_req r (\<lambda>q. q\<lparr>lrq_ast_routine := ast, lrq_ast_argument := arg\<rparr>) t2"
    and c: "compatibility type (lock_state (lcks t2 (lrq_lock (reqs t r))))"
  shows "lock_inv (grant r (lrq_lock (reqs t r)) t3)"
proof -
  define l where "l = lrq_lock (reqs t r)"
  define t1' where "t1' = mod_req r (\<lambda>q. q\<lparr>lrq_ast_routine := ast, lrq_ast_argument := arg\<rparr>) t1"
  have i1: "lock_inv t1"
    using inv ty by (auto simp: t1 req_key_def same_request_def intro!: mod_req_inv)
  then have i1': "lock_inv t1'"
    by (auto simp: t1'_def req_key_def same_request_def intro!: mod_req_inv)
  have t3': "t3 = mod_lck l (add_count (lrq_state (reqs t1' r)) (- 1)) t1'"
    by (simp add: t3 t2 t1'_def t1 mod_req_def mod_lck_def l_def)
  have r1: "r \<in> set (lbl_requests (lcks t1' l))"
    using live_requestD(1) [OF inv lr] by (simp add: t1'_def t1 l_def)
  have "small t1'" using sm by (subst small_cong [of _ t]) (simp_all add: t1'_def t1)
  moreover have "compatibility (lrq_requested (reqs t3 r)) (lock_state (lcks t3 l))"
    using c by (simp add: t3 t2 t1 l_def)
  ultimately have "table_ok (grant r l t3)"
    using grant_converting_ok [OF lock_invD(1) [OF i1'] _ r1 t3'] by blast
  moreover have o: "same_owners t3 t1'" "same_processes t3 t1'" by (simp_all add: t3')
  then have "owners_ok t3" "prcs_ok t3"
    using lock_invD [OF i1'] same_ownersD(1) same_processesD by blast+
  moreover have "prcs_ok (grant r l t3) = prcs_ok t3" by (rule same_processesD) simp
  ultimately show ?thesis by (auto intro!: lock_invI grant_owners simp: l_def)
qed

lemma bump_denies_reqs [simp]: "reqs (deny_convert r i t) = (reqs t)(r := (reqs t r)\<lparr>lrq_requested := lrq_state (reqs t r)\<rparr>)"
  "lcks (deny_convert r i t) = lcks t"
  by (simp_all add: deny_convert_def)

lemma deny_convert_inv:
  assumes "lock_inv t" "live_request t r"
  shows "lock_inv (deny_convert r i t)"
  using assms live_requestD(2) [OF assms]
  by (auto simp: deny_convert_def req_ok_def same_request_def req_key_def intro!: mod_req_inv)

text \<open>The cases of \<open>internal_convert\<close>.\<close>

definition asked :: "nat \<Rightarrow> nat \<Rightarrow> table \<Rightarrow> table" where
  "asked r type t = mod_req r (\<lambda>q. q\<lparr>lrq_requested := type, lrq_flags := lrq_flags q - {LRQ_blocking_seen}\<rparr>) t"

definition retracted :: "nat \<Rightarrow> nat \<Rightarrow> table \<Rightarrow> table" where
  "retracted r type t = mod_lck (lrq_lock (reqs t r)) (add_count (lrq_state (reqs t r)) (- 1)) (asked r type t)"

lemma internal_convert_cases:
  "internal_convert r type lck_wait ast arg t =
     (if compatibility type (lock_state (lcks (retracted r type t) (lrq_lock (reqs t r))))
      then (Granted r, post_pending (lrq_lock (reqs t r)) (grant r (lrq_lock (reqs t r))
             (mod_req r (\<lambda>q. q\<lparr>lrq_ast_routine := ast, lrq_ast_argument := arg\<rparr>) (retracted r type t))))
      else if lck_wait \<noteq> 0 then (Waiting r, begin_wait r lck_wait (asked r type t))
      else (Denied (deny_status lck_wait), deny_convert r lck_wait (asked r type t)))"
  by (simp add: internal_convert_def Let_def asked_def [symmetric] retracted_def undo_count)
    (simp add: asked_def)

lemma asked_inv:
  "lock_inv t \<Longrightarrow> type < LCK_max \<Longrightarrow> lock_inv (asked r type t)"
  by (auto simp: asked_def req_key_def same_request_def intro!: mod_req_inv)

lemma asked_same [simp]:
  "reqs (asked r type t) = (reqs t)(r := (reqs t r)\<lparr>lrq_requested := type,
     lrq_flags := lrq_flags (reqs t r) - {LRQ_blocking_seen}\<rparr>)"
  "lcks (asked r type t) = lcks t" "owns (asked r type t) = owns t"
  "small (asked r type t) = small t" "live_request (asked r type t) x = live_request t x"
  by (simp_all add: asked_def small_def live_request_def)

lemma internal_convert_inv:
  assumes inv: "lock_inv t" and sm: "small t" and lr: "live_request t r" and ty: "type < LCK_max"
    and np: "LRQ_pending \<notin> lrq_flags (reqs t r)"
  shows "lock_inv (snd (internal_convert r type lck_wait ast arg t))"
proof -
  have "lock_inv (post_pending (lrq_lock (reqs t r)) (grant r (lrq_lock (reqs t r))
      (mod_req r (\<lambda>q. q\<lparr>lrq_ast_routine := ast, lrq_ast_argument := arg\<rparr>) (retracted r type t))))"
    if c: "compatibility type (lock_state (lcks (retracted r type t) (lrq_lock (reqs t r))))"
  proof (rule post_pending_inv)
    show "small (grant r (lrq_lock (reqs t r)) (mod_req r (\<lambda>q. q\<lparr>lrq_ast_routine := ast,
        lrq_ast_argument := arg\<rparr>) (retracted r type t)))"
      using sm by (simp add: small_def retracted_def)
    show "lock_inv (grant r (lrq_lock (reqs t r)) (mod_req r (\<lambda>q. q\<lparr>lrq_ast_routine := ast,
        lrq_ast_argument := arg\<rparr>) (retracted r type t)))"
      using convert_grant_inv [OF inv sm lr ty asked_def] c by (simp add: retracted_def)
  qed
  moreover have "lock_inv (begin_wait r lck_wait (asked r type t))"
    using lr np by (intro begin_wait_inv asked_inv [OF inv ty]) simp_all
  moreover have "lock_inv (deny_convert r w (asked r type t))" for w
    using lr by (intro deny_convert_inv asked_inv [OF inv ty]) simp
  ultimately show ?thesis by (simp add: internal_convert_cases)
qed

lemma internal_convert_steady:
  assumes "x \<noteq> r"
  shows "steady (reqs t x) (reqs (snd (internal_convert r type lck_wait ast arg t)) x)"
proof -
  define t3 where "t3 = mod_req r (\<lambda>q. q\<lparr>lrq_ast_routine := ast, lrq_ast_argument := arg\<rparr>) (retracted r type t)"
  have "reqs t3 x = reqs t x" using assms by (simp add: t3_def retracted_def)
  then have "reqs (grant r (lrq_lock (reqs t r)) t3) x = reqs t x" using assms by (simp add: grant_same)
  then have "steady (reqs t x) (reqs (post_pending l (grant r (lrq_lock (reqs t r)) t3)) x)" for l
    using post_pending_steady [of "grant r (lrq_lock (reqs t r)) t3" x l] by simp
  then show ?thesis
    using assms by (simp add: internal_convert_cases t3_def [symmetric] begin_wait_reqs)
qed

lemma asked_owner [simp]: "lrq_lock (reqs (asked r type t) x) = lrq_lock (reqs t x)"
  by simp

lemma internal_convert_queues:
  assumes "lock_inv t" "live_request t r"
  shows "mset (lbl_requests (lcks (snd (internal_convert r type lck_wait ast arg t)) l)) = mset (lbl_requests (lcks t l))"
proof -
  have "r \<in> set (lbl_requests (lcks (asked r type t) (lrq_lock (reqs (asked r type t) r))))"
    using live_requestD(1) [OF assms] by simp
  from begin_wait_queues [OF this] show ?thesis by (simp add: internal_convert_cases retracted_def)
qed

lemma finish_convert_inv:
  assumes "lock_inv t" "small t" "live_request t r"
  shows "lock_inv (snd (finish_convert r lck_wait ast t))"
proof -
  have "live_request (post_pending l t) r" for l
    using assms(3) post_pending_steady [of t r l] by (simp add: live_request_def steady_def)
  then show ?thesis
    using assms post_pending_inv [OF assms(1,2)]
    by (auto simp: finish_convert_def req_key_def same_request_def intro!: mod_req_inv deny_convert_inv split: option.split)
qed

lemma convert_inv:
  assumes "lock_inv t" "small t" "live_request t r" "type < LCK_max" "LRQ_pending \<notin> lrq_flags (reqs t r)"
  shows "lock_inv (snd (convert r type lck_wait ast arg t))"
  using assms internal_convert_inv [of "bump_operations s (bump Converts t)" r type lck_wait ast arg for s]
  by (simp add: convert_def)

lemma lower_level_le: "lower_level ps s \<le> s"
  by (induction s) auto

lemma internal_dequeue_inv:
  assumes "lock_inv t" "small t" "live_request t r"
  shows "lock_inv (internal_dequeue r t)"
  unfolding internal_dequeue_def
proof (rule release_request_inv)
  show "lock_inv (mod_req r (\<lambda>q. q\<lparr>lrq_ast_routine := 0\<rparr>) t)"
    using assms(1) by (auto simp: req_key_def same_request_def intro!: mod_req_inv)
qed (use assms in \<open>simp_all add: small_def live_request_def\<close>)

lemma internal_dequeue_steady: "x \<noteq> r \<Longrightarrow> steady (reqs t x) (reqs (internal_dequeue r t) x)"
  using release_request_steady [of x r "mod_req r (\<lambda>q. q\<lparr>lrq_ast_routine := 0\<rparr>) t"]
  by (simp add: internal_dequeue_def)

lemma internal_dequeue_le: "queues_le (internal_dequeue r t) t"
  by (simp add: queues_le_def internal_dequeue_def release_request_queues length_remove1)

lemma dequeue_inv:
  "lock_inv t \<Longrightarrow> small t \<Longrightarrow> live_request t r \<Longrightarrow> lock_inv (snd (dequeue r t))"
  by (simp add: dequeue_def internal_dequeue_inv)

lemma downgrade_inv:
  assumes "lock_inv t" "small t" "live_request t r" "LRQ_pending \<notin> lrq_flags (reqs t r)"
  shows "lock_inv (snd (downgrade r t))"
proof -
  have "lower_level ps (lrq_state (reqs t r)) < LCK_max" for ps
    using live_requestD(2) [OF assms(1,3)] lower_level_le [of ps "lrq_state (reqs t r)"] by (simp add: req_ok_def)
  then show ?thesis
    using assms by (auto simp: downgrade_def Let_def intro!: internal_dequeue_inv internal_convert_inv)
qed


subsection \<open>New requests\<close>

text \<open>Few enough requests for one more.\<close>

definition roomy :: "table \<Rightarrow> bool" where
  "roomy t \<longleftrightarrow> (\<forall>l. length (lbl_requests (lcks t l)) < 2 ^ 16 - 1)"

lemma roomy_small: "roomy t \<Longrightarrow> small t"
  by (auto simp: roomy_def small_def intro: less_trans)

lemma queues_le_roomy: "queues_le t' t \<Longrightarrow> roomy t \<Longrightarrow> roomy t'"
  unfolding queues_le_def roomy_def by (meson le_less_trans)

lemma roomy_mset: "(\<And>l. mset (lbl_requests (lcks t' l)) = mset (lbl_requests (lcks t l))) \<Longrightarrow> roomy t' = roomy t"
  unfolding roomy_def by (metis size_mset)

text \<open>A request that has been given to owner \<open>w\<close> and put on the queue of lock \<open>l\<close>.\<close>

definition queued :: "nat \<Rightarrow> nat \<Rightarrow> nat \<Rightarrow> nat \<Rightarrow> table \<Rightarrow> table \<Rightarrow> bool" where
  "queued r l w type t t' \<longleftrightarrow>
     (\<exists>q. reqs t' = (reqs t)(r := q) \<and> lrq_type q \<and> lrq_flags q = {} \<and> lrq_requested q = type \<and>
        lrq_state q = 0 \<and> lrq_owner q = w \<and> lrq_lock q = l) \<and>
     lcks t' = (lcks t)(l := (lcks t l)\<lparr>lbl_requests := lbl_requests (lcks t l) @ [r]\<rparr>) \<and>
     owns t' = (owns t)(w := (owns t w)\<lparr>own_requests := own_requests (owns t w) @ [r]\<rparr>) \<and>
     allocation t' = allocation t \<and> owner_lists t' = owner_lists t \<and> process_part t' = process_part t"

lemma fresh_owners:
  assumes ok: "owners_ok t" and fr: "\<not> lrq_type (reqs t r)" and w: "w \<in> set (lhb_owners t)"
    and q: "reqs t' = (reqs t)(r := q)" "lrq_type q" "lrq_owner q = w" "lrq_flags q = {}"
    and ow: "owns t' = (owns t)(w := (owns t w)\<lparr>own_requests := own_requests (owns t w) @ [r]\<rparr>)"
    and ls: "owner_lists t' = owner_lists t"
  shows "owners_ok t'"
  using assms unfolding owners_ok_def owner_ok_def by auto

lemma queued_ok:
  assumes inv: "lock_inv t" and fr: "fresh_request r t" and w: "w \<in> set (lhb_owners t)"
    and l: "lbl_requests (lcks t l) \<noteq> []" and ty: "type < LCK_max" and qd: "queued r l w type t t'"
  shows "lock_inv t'"
proof (rule lock_invI)
  obtain q where rs: "reqs t' = (reqs t)(r := q)" and q: "lrq_type q" "lrq_flags q = {}" "lrq_requested q = type"
      "lrq_state q = 0" "lrq_owner q = w" "lrq_lock q = l"
    and lk: "lcks t' = (lcks t)(l := (lcks t l)\<lparr>lbl_requests := lbl_requests (lcks t l) @ [r]\<rparr>)"
    and ow: "owns t' = (owns t)(w := (owns t w)\<lparr>own_requests := own_requests (owns t w) @ [r]\<rparr>)"
    and hd: "allocation t' = allocation t" "owner_lists t' = owner_lists t" "process_part t' = process_part t"
    using qd by (auto simp: queued_def)
  have ok: "table_ok t" by (rule lock_invD(1) [OF inv])
  obtain r0 where "r0 \<in> set (lbl_requests (lcks t l))" using l by (cases "lbl_requests (lcks t l)") auto
  note tr = table_ok_req [OF ok this]
  have new: "r \<notin> set (lbl_requests (lcks t l'))" for l' by (rule fresh_unqueued [OF ok fr])
  have keep: "filter (\<lambda>x. P (reqs t' x)) (lbl_requests (lcks t l)) = filter (\<lambda>x. P (reqs t x)) (lbl_requests (lcks t l))" for P
    by (rule filter_cong) (use new in \<open>auto simp: rs\<close>)
  have lev: "lrq_state (reqs t x) < LCK_max" if "x \<in> set (lbl_requests (lcks t l))" for x
    using table_ok_req(1) [OF ok that] by (simp add: req_ok_def)
  show "table_ok t'"
  proof (rule table_okI)
    show "lock_ok {} t' l'" if "l' \<noteq> l" for l'
      using table_okD(1) [OF ok, of l'] that new [of l'] by (subst lock_ok_cong [of _ _ t]) (auto simp: rs lk)
    have "counts_ok {} t' l"
      using tr(4) keep [of "\<lambda>q. lrq_state q = s" for s] q(4) by (auto simp: counts_ok_def lk rs)
    moreover have "pending_ok t' l"
      using tr(6) keep [of "\<lambda>q. LRQ_pending \<in> lrq_flags q"] q(2) by (simp add: pending_ok_def lk rs)
    moreover have "compatible_on {} t' l"
      using tr(5) lev compatibility_0 q(4) new by (auto simp: compatible_on_def lk rs)
    moreover have "\<forall>r' \<in> set (lbl_requests (lcks t' l)). req_ok t' l r'"
      using table_ok_req(1) [OF ok] q ty by (auto simp: req_ok_def lk rs)
    ultimately show "lock_ok {} t' l"
      using tr(2,3,7) new by (simp add: lock_ok_def lk)
    show "allocation_ok t'"
      using table_okD(2) [OF ok] fr hd q new unfolding allocation_ok_def fresh_request_def by (auto simp: rs lk)
  qed
  show "owners_ok t'"
    using fresh_owners [OF lock_invD(2) [OF inv] _ w rs q(1,5,2) ow] fr hd by (simp add: fresh_request_def)
  show "prcs_ok t'"
    using lock_invD(3) [OF inv] hd by (subst prcs_ok_cong [of _ t]) (auto simp: ow)
qed

lemma grant_or_que_inv:
  assumes inv: "lock_inv t1" and sm: "small t1" and t1: "t1 = mod_req r (\<lambda>q. q\<lparr>lrq_lock := l\<rparr>) t"
    and r: "r \<in> set (lbl_requests (lcks t1 l))" "lrq_state (reqs t1 r) = 0" "LRQ_pending \<notin> lrq_flags (reqs t1 r)"
  shows "lock_inv (snd (grant_or_que r l lck_wait t))"
proof -
  have lr: "live_request t1 r" using live_requestI [OF lock_invD(1) [OF inv] r(1)] by simp
  have "lock_inv (post_pending l (grant r l t1))"
    if "compatibility (lrq_requested (reqs t1 r)) (lbl_state (lcks t1 l))"
    using grant_waiting_ok [OF lock_invD(1) [OF inv] sm r(1,2) that] sm
    by (intro post_pending_inv grant_inv [OF inv]) simp_all
  moreover have "lock_inv (begin_wait r w t1)" for w by (rule begin_wait_inv [OF inv lr r(3)])
  moreover have "lock_inv (deny_enqueue r w t1)" for w by (rule deny_enqueue_inv [OF inv sm lr])
  ultimately show ?thesis by (simp add: grant_or_que_def t1 [symmetric] Let_def)
qed

text \<open>The first request of a new lock.\<close>

lemma new_lock_table:
  assumes ok: "table_ok t" and fr: "fresh_request r t" and l: "lbl_requests (lcks t l) = []" "\<not> lbl_type (lcks t l)"
    and al: "l \<notin> set (lhb_free_locks t)" "l < lhb_used t"
    and rs: "reqs t' = (reqs t)(r := q)" "lrq_type q" "lrq_flags q = {}" "lrq_requested q < LCK_max"
      "lrq_state q = 0" "lrq_lock q = l"
    and lk: "\<And>l'. l' \<noteq> l \<Longrightarrow> lcks t' l' = lcks t l'" "lbl_requests (lcks t' l) = [r]" "lbl_type (lcks t' l)"
      "lbl_counts (lcks t' l) = (\<lambda>_. 0)" "lbl_pending_lrq_count (lcks t' l) = 0"
    and hd: "allocation t' = allocation t"
  shows "table_except r l t'"
proof -
  have new: "r \<notin> set (lbl_requests (lcks t l'))" for l' by (rule fresh_unqueued [OF ok fr])
  have "lock_ok {r} t' l"
    using lk rs by (simp add: lock_ok_def counts_ok_def compatible_on_def pending_ok_def req_ok_def)
  moreover have "lock_ok {} t' l'" if "l' \<noteq> l" for l'
    using table_okD(1) [OF ok, of l'] that new [of l'] lk(1) [OF that]
    by (subst lock_ok_cong [of _ _ t]) (auto simp: rs(1))
  moreover have "allocation_ok t'"
    unfolding allocation_ok_def
  proof (intro conjI ballI allI impI)
    have a: "allocation_ok t" by (rule table_okD(2) [OF ok])
    have h: "lhb_free_requests t' = lhb_free_requests t" "lhb_free_locks t' = lhb_free_locks t" "lhb_used t' = lhb_used t"
      using hd by simp_all
    show "distinct (lhb_free_requests t')" "distinct (lhb_free_locks t')" using a by (simp_all add: allocation_ok_def h)
    fix x
    show "\<not> lrq_type (reqs t' x)" "x < lhb_used t'" if "x \<in> set (lhb_free_requests t')"
      using that a fr rs(1) by (auto simp: allocation_ok_def h fresh_request_def)
    show "\<not> lbl_type (lcks t' x)" "x < lhb_used t'" if "x \<in> set (lhb_free_locks t')"
      using that a al lk(1) [of x] by (cases "x = l"; simp add: allocation_ok_def h)+
    show "x < lhb_used t'" if "lrq_type (reqs t' x)"
      using that a fr rs(1) by (auto simp: allocation_ok_def h fresh_request_def split: if_splits)
    show "x < lhb_used t'" if "lbl_type (lcks t' x)"
      using that a al lk(1) [of x] by (cases "x = l") (auto simp: allocation_ok_def h)
    show "x \<in> set (lbl_requests (lcks t' (lrq_lock (reqs t' x))))"
      if "lrq_type (reqs t' x) \<and> LRQ_repost \<notin> lrq_flags (reqs t' x)"
    proof (cases "x = r")
      case True
      then show ?thesis using rs lk by simp
    next
      case False
      then have m: "x \<in> set (lbl_requests (lcks t (lrq_lock (reqs t x))))"
        using that a rs(1) by (auto simp: allocation_ok_def)
      then have "lrq_lock (reqs t x) \<noteq> l" using l(1) by (metis empty_iff empty_set)
      then show ?thesis using m False rs(1) lk(1) by simp
    qed
  qed
  ultimately show ?thesis using lk(2) by (simp add: table_except_def)
qed


lemma alloc_lock_cases:
  assumes "alloc_lock cfg len t = (b, t')" "config_ok cfg"
  obtains (none) "b = None" "t' = t"
  | (free) l where "b = Some l" "l \<in> set (lhb_free_locks t)"
      "t' = mod_lck l (\<lambda>b. b\<lparr>lbl_type := True\<rparr>) (t\<lparr>lhb_free_locks := remove1 l (lhb_free_locks t)\<rparr>)"
  | (grown) n m k where "b = Some (lhb_used t)" "0 < m"
      "t' = mod_lck (lhb_used t) (\<lambda>b. b\<lparr>lbl_size := k, lbl_type := True\<rparr>)
        (t\<lparr>lhb_length := n, lhb_used := lhb_used t + m\<rparr>)"
proof (cases "List.find (\<lambda>l. FB_ALIGN len 8 \<le> lbl_size (lcks t l)) (lhb_free_locks t)")
  case (Some l)
  then have "l \<in> set (lhb_free_locks t)" by (auto simp: find_Some_iff)
  then show thesis using assms Some that(2) [of l] by (auto simp: alloc_lock_def Let_def)
next
  case None
  define m where "m = FB_ALIGN (sizeof_lbl cfg + FB_ALIGN len 8) 8"
  have m: "0 < m"
    using assms(2) FB_ALIGN_bounds(1) [of "sizeof_lbl cfg + FB_ALIGN len 8"] by (simp add: config_ok_def m_def)
  obtain b1 t1 where a: "alloc (memory_size cfg) (can_remap cfg) m t = (b1, t1)" by fastforce
  from a show thesis
  proof (cases rule: alloc_cases)
    case 1
    then show thesis using assms(1) None a that(1) by (simp add: alloc_lock_def Let_def m_def)
  next
    case (2 n)
    then show thesis using assms(1) None a m that(3) [of m "FB_ALIGN len 8 mod 256" n]
      by (auto simp add: alloc_lock_def Let_def m_def)
  qed
qed

lemma lock_inv_free_locks:
  assumes "lock_inv t" "distinct ls" "set ls \<subseteq> set (lhb_free_locks t)"
  shows "lock_inv (t\<lparr>lhb_free_locks := ls\<rparr>)"
proof -
  have "lock_ok {} (t\<lparr>lhb_free_locks := ls\<rparr>) l" for l
    using assms(1) by (subst lock_ok_header [of _ t]) (simp_all add: lock_inv_def table_ok_def)
  moreover have "\<forall>l \<in> set ls. \<not> lbl_type (lcks t l) \<and> l < lhb_used t"
    using assms(1,3) unfolding lock_inv_def table_ok_def allocation_ok_def by blast
  ultimately show ?thesis using assms(1,2)
    by (simp add: lock_inv_def table_ok_def allocation_ok_def owners_ok_def owner_ok_def prcs_ok_def)
qed

lemma insert_data_que_header [simp]:
  "lhb_owners (insert_data_que l t) = lhb_owners t" "lhb_free_owners (insert_data_que l t) = lhb_free_owners t"
  "lhb_processes (insert_data_que l t) = lhb_processes t" "lhb_free_processes (insert_data_que l t) = lhb_free_processes t"
  "prcs (insert_data_que l t) = prcs t" "owns (insert_data_que l t) = owns t"
  by (simp_all add: insert_data_que_def Let_def)

lemma bump_operations_header [simp]:
  "lhb_owners (bump_operations n t) = lhb_owners t" "lhb_free_owners (bump_operations n t) = lhb_free_owners t"
  "lhb_processes (bump_operations n t) = lhb_processes t" "lhb_free_processes (bump_operations n t) = lhb_free_processes t"
  "prcs (bump_operations n t) = prcs t" "lhb_free_requests (bump_operations n t) = lhb_free_requests t"
  "lhb_free_locks (bump_operations n t) = lhb_free_locks t" "lhb_used (bump_operations n t) = lhb_used t"
  by (simp_all add: bump_operations_def)

text \<open>A new lock, granted to its first request.\<close>

lemma new_lock_inv:
  assumes inv: "lock_inv t" and fr: "fresh_request r t" and w: "w \<in> set (lhb_owners t)" and ty: "type < LCK_max"
    and l: "\<not> lbl_type (lcks t l)" "l \<notin> set (lhb_free_locks t)" "l < lhb_used t"
    and tn: "tn = mod_lck l f (mod_own w (\<lambda>q. q\<lparr>own_requests := own_requests q @ [r]\<rparr>)
              (mod_req r (init_request type w ast arg) t))"
    and f: "lbl_type (f (lcks t l))"
  shows "lock_inv (new_lock cfg r l series key type data tn)"
proof -
  have ok: "table_ok t" by (rule lock_invD(1) [OF inv])
  have le: "lbl_requests (lcks t l) = []" using table_okD(1) [OF ok, of l] l(1) by (simp add: lock_ok_def)
  define t2 where "t2 = (if data \<noteq> 0 then insert_data_que l (mod_lck l (\<lambda>b. b\<lparr>lbl_series := series mod 256, lbl_data := data\<rparr>) tn)
     else mod_lck l (\<lambda>b. b\<lparr>lbl_series := series mod 256, lbl_data := data\<rparr>) tn)"
  define t3 where "t3 = mod_lck l (init_lock type series key) (bump_operations series t2)"
  define t4 where "t4 = t3\<lparr>lhb_hash := (lhb_hash t3)(hash_fn cfg key (lhb_hash_slots t3) :=
      lhb_hash t3 (hash_fn cfg key (lhb_hash_slots t3)) @ [l])\<rparr>"
  define t6 where "t6 = mod_req r (\<lambda>q. q\<lparr>lrq_lock := l\<rparr>)
     (mod_lck l (\<lambda>b. b\<lparr>lbl_requests := lbl_requests b @ [r]\<rparr>) t4)"
  have nl: "new_lock cfg r l series key type data tn = grant r l t6"
    by (simp add: new_lock_def Let_def t6_def t4_def t3_def t2_def)
  define q where "q = (init_request type w ast arg (reqs t r))\<lparr>lrq_lock := l\<rparr>"
  have q: "reqs t6 = (reqs t)(r := q)" "lrq_type q" "lrq_flags q = {}" "lrq_requested q = type"
    "lrq_state q = 0" "lrq_lock q = l" "lrq_owner q = w"
    by (auto simp: t6_def t4_def t3_def t2_def tn q_def init_request_def)
  have lk: "lcks t6 l' = lcks t l'" if "l' \<noteq> l" for l'
    using that by (simp add: t6_def t4_def t3_def t2_def tn)
  have ll: "lbl_requests (lcks t6 l) = [r]" "lbl_type (lcks t6 l)" "lbl_counts (lcks t6 l) = (\<lambda>_. 0)"
    "lbl_pending_lrq_count (lcks t6 l) = 0"
    using f by (simp_all add: t6_def t4_def t3_def t2_def tn init_lock_def)
  have hd: "allocation t6 = allocation t" "owner_lists t6 = owner_lists t" "process_part t6 = process_part t"
    by (simp_all add: t6_def t4_def t3_def t2_def tn)
  have ow: "owns t6 = (owns t)(w := (owns t w)\<lparr>own_requests := own_requests (owns t w) @ [r]\<rparr>)"
    by (simp add: t6_def t4_def t3_def t2_def tn)
  have "table_except r l t6"
    by (rule new_lock_table [OF ok fr le l(1) l(2,3) q(1-3) _ q(5,6) lk ll hd(1)]) (use q(4) ty in simp_all)
  then have "table_ok (grant r l t6)" by (rule grant_ok) (simp add: ll)
  moreover have "owners_ok t6"
    using fresh_owners [OF lock_invD(2) [OF inv] _ w q(1,2,7,3) ow hd(2)] fr by (simp add: fresh_request_def)
  then have "owners_ok (grant r l t6)" by (rule grant_owners)
  moreover have "prcs_ok t6"
    using lock_invD(3) [OF inv] hd by (subst prcs_ok_cong [of _ t]) (auto simp: ow)
  then have "prcs_ok (grant r l t6)" by (subst same_processesD [of _ t6]) simp_all
  ultimately show ?thesis unfolding nl by (rule lock_invI)
qed

end
