(* ===== verification/LockIndex.thy ===== *)
theory LockIndex
  imports LockSafe
begin

text \<open>
  The hash table and the data queues of the lock table: a lock in use is on the hash chain of
  its key, no two have the same key, and the data queue of a series holds the locks with
  data in ascending order. Every operation keeps this.
\<close>

subsection \<open>The invariant\<close>

definition lock_key :: "lbl \<Rightarrow> uchar list" where
  "lock_key b = take (lbl_length b) (lbl_key b)"

definition hash_ok :: "config \<Rightarrow> table \<Rightarrow> bool" where
  "hash_ok cfg t \<longleftrightarrow>
     (\<forall>s. distinct (lhb_hash t s)) \<and>
     (\<forall>s l. l \<in> set (lhb_hash t s) \<longleftrightarrow>
        lbl_type (lcks t l) \<and> s = hash_fn cfg (lock_key (lcks t l)) (lhb_hash_slots t)) \<and>
     (\<forall>l. lbl_type (lcks t l) \<longrightarrow> lbl_length (lcks t l) \<le> length (lbl_key (lcks t l))) \<and>
     (\<forall>l l'. lbl_type (lcks t l) \<and> lbl_type (lcks t l') \<and> lbl_series (lcks t l) = lbl_series (lcks t l') \<and>
        lock_key (lcks t l) = lock_key (lcks t l') \<longrightarrow> l = l')"

definition data_ok :: "table \<Rightarrow> bool" where
  "data_ok t \<longleftrightarrow>
     (\<forall>s. distinct (lhb_data t s) \<and> sorted (map (\<lambda>l. lbl_data (lcks t l)) (lhb_data t s))) \<and>
     (\<forall>s l. l \<in> set (lhb_data t s) \<longleftrightarrow>
        lbl_type (lcks t l) \<and> lbl_series (lcks t l) = s \<and> s < LCK_MAX_SERIES \<and> lbl_data (lcks t l) \<noteq> 0)"

definition index_ok :: "config \<Rightarrow> table \<Rightarrow> bool" where
  "index_ok cfg t \<longleftrightarrow> hash_ok cfg t \<and> data_ok t"

text \<open>What it depends on.\<close>

definition lbl_index :: "lbl \<Rightarrow> bool \<times> nat \<times> nat \<times> uchar list \<times> int" where
  "lbl_index b = (lbl_type b, lbl_series b, lbl_length b, lbl_key b, lbl_data b)"

definition same_index :: "table \<Rightarrow> table \<Rightarrow> bool" where
  "same_index t' t \<longleftrightarrow> (\<forall>l. lbl_index (lcks t' l) = lbl_index (lcks t l)) \<and>
     lhb_hash t' = lhb_hash t \<and> lhb_data t' = lhb_data t \<and> lhb_hash_slots t' = lhb_hash_slots t"

lemma same_indexD:
  assumes "same_index t' t"
  shows "index_ok cfg t' = index_ok cfg t" "lbl_type (lcks t' l) = lbl_type (lcks t l)"
proof -
  have "lbl_type (lcks t' l) = lbl_type (lcks t l)" "lbl_series (lcks t' l) = lbl_series (lcks t l)"
    "lbl_length (lcks t' l) = lbl_length (lcks t l)" "lbl_key (lcks t' l) = lbl_key (lcks t l)"
    "lbl_data (lcks t' l) = lbl_data (lcks t l)" for l
    using assms by (simp_all add: same_index_def lbl_index_def)
  then show "index_ok cfg t' = index_ok cfg t" "lbl_type (lcks t' l) = lbl_type (lcks t l)"
    using assms by (simp_all add: index_ok_def hash_ok_def data_ok_def lock_key_def same_index_def)
qed

lemma same_index_refl [simp]: "same_index t t"
  by (simp add: same_index_def)

lemma index_header [simp]:
  "lhb_hash (mod_req r f t) = lhb_hash t" "lhb_data (mod_req r f t) = lhb_data t"
  "lhb_hash_slots (mod_req r f t) = lhb_hash_slots t"
  "lhb_hash (mod_lck l g t) = lhb_hash t" "lhb_data (mod_lck l g t) = lhb_data t"
  "lhb_hash_slots (mod_lck l g t) = lhb_hash_slots t"
  "lhb_hash (mod_own w h t) = lhb_hash t" "lhb_data (mod_own w h t) = lhb_data t"
  "lhb_hash_slots (mod_own w h t) = lhb_hash_slots t"
  "lhb_hash (mod_prc p k t) = lhb_hash t" "lhb_data (mod_prc p k t) = lhb_data t"
  "lhb_hash_slots (mod_prc p k t) = lhb_hash_slots t"
  "lhb_hash (bump s t) = lhb_hash t" "lhb_data (bump s t) = lhb_data t" "lhb_hash_slots (bump s t) = lhb_hash_slots t"
  "lhb_hash (bump_operations n t) = lhb_hash t" "lhb_data (bump_operations n t) = lhb_data t"
  "lhb_hash_slots (bump_operations n t) = lhb_hash_slots t"
  by (simp_all add: mod_req_def mod_lck_def mod_own_def mod_prc_def bump_def bump_operations_def)

lemma same_index_mod [simp]:
  "same_index (mod_req r f t) t'' = same_index t t''" "same_index (mod_own w h t) t'' = same_index t t''"
  "same_index (mod_prc p k t) t'' = same_index t t''" "same_index (bump s t) t'' = same_index t t''"
  "same_index (bump_operations n t) t'' = same_index t t''"
  "same_index (t\<lparr>lhb_free_requests := x\<rparr>) t'' = same_index t t''"
  "same_index (t\<lparr>lhb_free_locks := x\<rparr>) t'' = same_index t t''"
  by (simp_all add: same_index_def)

lemma same_index_mod_lck:
  "lbl_index (g (lcks t l)) = lbl_index (lcks t l) \<Longrightarrow> same_index (mod_lck l g t) t'' = same_index t t''"
  unfolding same_index_def by (auto simp: fun_upd_def)

lemma lbl_index_simps [simp]:
  "lbl_index (add_count s n b) = lbl_index b" "lbl_index (b\<lparr>lbl_state := x\<rparr>) = lbl_index b"
  "lbl_index (b\<lparr>lbl_pending_lrq_count := c\<rparr>) = lbl_index b" "lbl_index (b\<lparr>lbl_requests := rs\<rparr>) = lbl_index b"
  by (simp_all add: lbl_index_def add_count_def)

text \<open>A step that leaves the index alone keeps the invariant.\<close>

lemma index_same [simp]:
  "index_ok cfg (mod_req r f t) = index_ok cfg t" "index_ok cfg (mod_own w h t) = index_ok cfg t"
  "index_ok cfg (mod_prc p k t) = index_ok cfg t" "index_ok cfg (bump s t) = index_ok cfg t"
  "index_ok cfg (bump_operations n t) = index_ok cfg t" "index_ok cfg (post_wakeup w t) = index_ok cfg t"
  "index_ok cfg (t\<lparr>lhb_free_requests := x\<rparr>) = index_ok cfg t" "index_ok cfg (t\<lparr>lhb_free_locks := x\<rparr>) = index_ok cfg t"
  "index_ok cfg (bump_denies i t) = index_ok cfg t"
  by (rule same_indexD(1); simp add: post_wakeup_def bump_denies_def)+

lemma index_mod_lck:
  "lbl_index (g (lcks t l)) = lbl_index (lcks t l) \<Longrightarrow> index_ok cfg (mod_lck l g t) = index_ok cfg t"
  by (rule same_indexD(1)) (simp add: same_index_mod_lck)

subsection \<open>The data queue\<close>

lemma sorted_map_cong: "(\<And>x. x \<in> set xs \<Longrightarrow> f x = g x) \<Longrightarrow> sorted (map f xs) = sorted (map g xs)"
  by (metis map_eq_conv)

lemma remove_data_que_index:
  assumes "data_ok t"
  shows "distinct (lhb_data (remove_data_que l t) s)" "l \<notin> set (lhb_data (remove_data_que l t) s)"
    "sorted (map (\<lambda>l'. lbl_data (lcks t l')) (lhb_data (remove_data_que l t) s))"
    "l' \<noteq> l \<Longrightarrow> l' \<in> set (lhb_data (remove_data_que l t) s) \<longleftrightarrow> l' \<in> set (lhb_data t s)"
proof -
  have d: "distinct (lhb_data t s)" "sorted (map (\<lambda>l'. lbl_data (lcks t l')) (lhb_data t s))"
    using assms by (simp_all add: data_ok_def)
  then show "distinct (lhb_data (remove_data_que l t) s)" "l \<notin> set (lhb_data (remove_data_que l t) s)"
    "l' \<noteq> l \<Longrightarrow> l' \<in> set (lhb_data (remove_data_que l t) s) \<longleftrightarrow> l' \<in> set (lhb_data t s)"
    by (simp_all add: remove_data_que_def in_set_remove1)
  show "sorted (map (\<lambda>l'. lbl_data (lcks t l')) (lhb_data (remove_data_que l t) s))"
    using d by (simp add: remove_data_que_def sorted_map_remove1)
qed

lemma set_takeWhile_dropWhile: "set (takeWhile P xs) \<union> set (dropWhile P xs) = set xs"
  by (metis set_append takeWhile_dropWhile_id)

lemma insert_sorted:
  fixes d :: int
  assumes "sorted (map f xs)" "f l = d"
  shows "sorted (map f (takeWhile (\<lambda>x. \<not> d \<le> f x) xs @ l # dropWhile (\<lambda>x. \<not> d \<le> f x) xs))"
  using assms
proof (induction xs)
  case (Cons x xs)
  let ?P = "\<lambda>x. \<not> d \<le> f x"
  show ?case
  proof (cases "d \<le> f x")
    case True
    then show ?thesis using Cons.prems by auto
  next
    case False
    have "f x \<le> f y" if "y \<in> set (takeWhile ?P xs @ l # dropWhile ?P xs)" for y
      using that set_takeWhile_dropWhile [of ?P xs] Cons.prems False by auto
    moreover have "sorted (map f (takeWhile ?P xs @ l # dropWhile ?P xs))" using Cons by simp
    ultimately have "sorted (map f (x # (takeWhile ?P xs @ l # dropWhile ?P xs)))"
      unfolding list.map sorted_wrt.simps by auto
    then show ?thesis using False by simp
  qed
qed simp

lemma insert_distinct:
  assumes "distinct xs" "l \<notin> set xs"
  shows "distinct (takeWhile P xs @ l # dropWhile P xs)"
proof -
  have "distinct (takeWhile P xs @ dropWhile P xs)" using assms(1) by simp
  then show ?thesis
    unfolding distinct_append using set_takeWhile_dropWhile [of P xs] assms(2) by auto
qed

text \<open>Giving a lock in use new data.\<close>

lemma set_data_ok:
  assumes ok: "data_ok t" and ty: "lbl_type (lcks t l)"
  shows "data_ok (set_data l d t)"
proof -
  let ?t1 = "mod_lck l (\<lambda>b. b\<lparr>lbl_data := d\<rparr>) (remove_data_que l t)"
  let ?dq = "\<lambda>s. lhb_data (remove_data_que l t) s"
  let ?f = "\<lambda>l'. lbl_data (lcks ?t1 l')"
  note rm = remove_data_que_index [OF ok, of l]
  have keep: "l' \<in> set (?dq s) \<Longrightarrow> ?f l' = lbl_data (lcks t l')" for l' s using rm(2) [of s] by auto
  have srt: "sorted (map ?f (?dq s))" for s
    using rm(3) [of s] keep sorted_map_cong [of "?dq s" ?f "\<lambda>l'. lbl_data (lcks t l')"] by blast
  have mem: "l' \<in> set (?dq s) \<longleftrightarrow> l' \<noteq> l \<and> lbl_type (lcks t l') \<and> lbl_series (lcks t l') = s \<and>
      s < LCK_MAX_SERIES \<and> lbl_data (lcks t l') \<noteq> 0" for l' s
    using rm(2) remove_data_que_index(4) [OF ok, of l' l s] ok by (cases "l' = l") (auto simp: data_ok_def)
  have ins: "sorted (map ?f (takeWhile (\<lambda>x. \<not> d \<le> ?f x) (?dq s) @ l # dropWhile (\<lambda>x. \<not> d \<le> ?f x) (?dq s)))" for s
    by (rule insert_sorted [OF srt]) simp
  show ?thesis
  proof (cases "d \<noteq> 0 \<and> lbl_series (lcks t l) < LCK_MAX_SERIES")
    case True
    let ?s = "lbl_series (lcks t l)"
    let ?q = "takeWhile (\<lambda>x. \<not> d \<le> ?f x) (?dq ?s) @ l # dropWhile (\<lambda>x. \<not> d \<le> ?f x) (?dq ?s)"
    have sd: "lhb_data (set_data l d t) = ?dq(?s := ?q)" "lcks (set_data l d t) = lcks ?t1"
      using True by (simp_all add: set_data_def insert_data_que_def Let_def)
    have q: "distinct ?q" "sorted (map ?f ?q)" "set ?q = insert l (set (?dq ?s))"
      using insert_distinct [OF rm(1) rm(2)] ins set_takeWhile_dropWhile [of "\<lambda>x. \<not> d \<le> ?f x" "?dq ?s"] by auto
    show ?thesis
      unfolding data_ok_def sd
    proof (intro conjI allI)
      fix s l'
      show "distinct ((?dq(?s := ?q)) s)" using q(1) rm(1) by simp
      show "sorted (map ?f ((?dq(?s := ?q)) s))" using q(2) srt by simp
      show "(l' \<in> set ((?dq(?s := ?q)) s)) = (lbl_type (lcks ?t1 l') \<and> lbl_series (lcks ?t1 l') = s \<and>
          s < LCK_MAX_SERIES \<and> lbl_data (lcks ?t1 l') \<noteq> 0)"
        using q(3) mem [of l' s] True ty by (cases "s = ?s"; cases "l' = l") simp_all
    qed
  next
    case False
    have sd: "lhb_data (set_data l d t) = ?dq" "lcks (set_data l d t) = lcks ?t1"
      using False by (auto simp: set_data_def insert_data_que_def Let_def)
    show ?thesis
      unfolding data_ok_def sd
      using rm(1) srt mem False by (auto split: if_splits)
  qed
qed

subsection \<open>Granting and releasing\<close>

lemma hash_ok_cong:
  assumes "\<And>l. lbl_type (lcks t' l) = lbl_type (lcks t l)" "\<And>l. lbl_series (lcks t' l) = lbl_series (lcks t l)"
    "\<And>l. lbl_length (lcks t' l) = lbl_length (lcks t l)" "\<And>l. lbl_key (lcks t' l) = lbl_key (lcks t l)"
    "lhb_hash t' = lhb_hash t" "lhb_hash_slots t' = lhb_hash_slots t"
  shows "hash_ok cfg t' = hash_ok cfg t"
  unfolding hash_ok_def lock_key_def assms ..

lemma set_data_index:
  assumes "index_ok cfg t" "lbl_type (lcks t l)"
  shows "index_ok cfg (set_data l d t)"
proof -
  have "lhb_hash (set_data l d t) = lhb_hash t" "lhb_hash_slots (set_data l d t) = lhb_hash_slots t"
    by (simp_all add: set_data_def remove_data_que_def insert_data_que_def Let_def)
  then have "hash_ok cfg (set_data l d t) = hash_ok cfg t"
    by (intro hash_ok_cong) simp_all
  then show ?thesis using assms set_data_ok [of t l d] by (simp add: index_ok_def)
qed

lemma index_mod_state [simp]:
  "index_ok cfg (mod_lck l (add_count s n) t) = index_ok cfg t"
  "index_ok cfg (mod_lck l (\<lambda>b. b\<lparr>lbl_state := lock_state b\<rparr>) t) = index_ok cfg t"
  "index_ok cfg (mod_lck l (\<lambda>b. b\<lparr>lbl_pending_lrq_count := f b\<rparr>) t) = index_ok cfg t"
  "index_ok cfg (mod_lck l (\<lambda>b. b\<lparr>lbl_requests := g b\<rparr>) t) = index_ok cfg t"
  by (simp_all add: index_mod_lck)

lemma unpend_index [simp]: "index_ok cfg (unpend r l t) = index_ok cfg t"
  by (simp add: unpend_def)

lemma grant_index:
  assumes "index_ok cfg t" "lbl_type (lcks t l)"
  shows "index_ok cfg (grant r l t)"
  using assms by (simp add: grant_def Let_def set_data_index)

lemma grant_type [simp]: "lbl_type (lcks (grant r l t) l') = lbl_type (lcks t l')"
proof -
  obtain d where "lcks (grant r l t) = (lcks t)(l := (add_count (lrq_requested (reqs t r)) 1 (lcks t l))
     \<lparr>lbl_data := d, lbl_state := lock_state (add_count (lrq_requested (reqs t r)) 1 (lcks t l)),
      lbl_pending_lrq_count := lbl_pending_lrq_count (lcks t l) -
        (if LRQ_pending \<in> lrq_flags (reqs t r) then 1 else 0)\<rparr>)"
    using grant_same(2) by blast
  then show ?thesis by simp
qed

lemma grant_pending_index:
  "index_ok cfg t \<Longrightarrow> lbl_type (lcks t l) \<Longrightarrow> index_ok cfg (grant_pending rs l t)"
  by (induction rs l t rule: grant_pending.induct) (simp_all add: grant_index Let_def)

lemma mark_just_granted_index [simp]: "index_ok cfg (mark_just_granted rs t) = index_ok cfg t"
  by (induction rs t rule: mark_just_granted.induct) simp_all

lemma post_pending_index:
  assumes "index_ok cfg t" "lbl_type (lcks t l)"
  shows "index_ok cfg (post_pending l t)"
  using assms by (simp add: post_pending_def Let_def grant_pending_index)

lemma detach_index [simp]: "index_ok cfg (detach_request r t) = index_ok cfg t"
  "lbl_type (lcks (detach_request r t) l) = lbl_type (lcks t l)"
  by (simp_all add: detach_request_def Let_def)

lemma free_lock_index:
  assumes "index_ok cfg t"
  shows "index_ok cfg (free_lock l t)"
proof -
  have f: "lhb_hash (free_lock l t) = (\<lambda>s. remove1 l (lhb_hash t s))"
    "lhb_data (free_lock l t) = (\<lambda>s. remove1 l (lhb_data t s))"
    "lhb_hash_slots (free_lock l t) = lhb_hash_slots t"
    "lcks (free_lock l t) = (lcks t)(l := (lcks t l)\<lparr>lbl_type := False\<rparr>)"
    by (simp_all add: free_lock_def remove_data_que_def Let_def)
  have d: "distinct (lhb_hash t s)" "distinct (lhb_data t s)" for s
    using assms by (simp_all add: index_ok_def hash_ok_def data_ok_def)
  have "hash_ok cfg (free_lock l t)"
    unfolding hash_ok_def f
  proof (intro conjI allI impI)
    have h: "hash_ok cfg t" using assms by (simp add: index_ok_def)
    fix s l1 l2
    let ?lk = "(lcks t)(l := (lcks t l)\<lparr>lbl_type := False\<rparr>)"
    show "distinct (remove1 l (lhb_hash t s))" using d(1) by simp
    show "(l1 \<in> set (remove1 l (lhb_hash t s))) =
        (lbl_type (?lk l1) \<and> s = hash_fn cfg (lock_key (?lk l1)) (lhb_hash_slots t))"
      using h d(1) [of s] by (cases "l1 = l") (simp_all add: hash_ok_def)
    show "lbl_length (?lk l1) \<le> length (lbl_key (?lk l1))" if "lbl_type (?lk l1)"
      using that h by (cases "l1 = l") (simp_all add: hash_ok_def)
    show "l1 = l2" if "lbl_type (?lk l1) \<and> lbl_type (?lk l2) \<and> lbl_series (?lk l1) = lbl_series (?lk l2) \<and>
        lock_key (?lk l1) = lock_key (?lk l2)"
      using that h unfolding hash_ok_def by (cases "l1 = l"; cases "l2 = l") simp_all
  qed
  moreover have "data_ok (free_lock l t)"
    unfolding data_ok_def
  proof (intro conjI allI)
    fix s l'
    have d': "data_ok t" using assms by (simp add: index_ok_def)
    note rm = remove_data_que_index [OF d', of l, unfolded remove_data_que_def, simplified]
    show "distinct (lhb_data (free_lock l t) s)" using rm(1) [of s] by (simp add: f)
    show "sorted (map (\<lambda>l'. lbl_data (lcks (free_lock l t) l')) (lhb_data (free_lock l t) s))"
    proof -
      have "(\<lambda>l'. lbl_data (lcks (free_lock l t) l')) = (\<lambda>l'. lbl_data (lcks t l'))"
        by (rule ext) (simp add: f)
      then show ?thesis using rm(3) [of s] by (simp add: f)
    qed
    show "(l' \<in> set (lhb_data (free_lock l t) s)) = (lbl_type (lcks (free_lock l t) l') \<and>
        lbl_series (lcks (free_lock l t) l') = s \<and> s < LCK_MAX_SERIES \<and> lbl_data (lcks (free_lock l t) l') \<noteq> 0)"
      using d(2) [of s] d' by (cases "l' = l") (simp_all add: f data_ok_def)
  qed
  ultimately show ?thesis by (simp add: index_ok_def)
qed

lemma release_request_index:
  assumes "index_ok cfg t" "lbl_type (lcks t (lrq_lock (reqs t r)))"
  shows "index_ok cfg (release_request r t)"
proof -
  let ?t1 = "detach_request r t"
  have "index_ok cfg ?t1" "lbl_type (lcks ?t1 (lrq_lock (reqs t r)))" using assms by simp_all
  then show ?thesis
    unfolding release_request_def Let_def by (simp add: free_lock_index post_pending_index)
qed

subsection \<open>Finding a lock\<close>

text \<open>The lock with a given series and key, if there is one, is what \<open>find_lock\<close> returns.\<close>

lemma find_SomeD: "List.find P xs = Some x \<Longrightarrow> x \<in> set xs \<and> P x"
  by (auto simp: find_Some_iff)

lemma find_lock_iff:
  assumes ok: "hash_ok cfg t"
  shows "find_lock cfg series key t = Some l \<longleftrightarrow>
     lbl_type (lcks t l) \<and> lbl_series (lcks t l) = series \<and> lock_key (lcks t l) = key"
proof -
  let ?P = "\<lambda>l. lbl_series (lcks t l) = series \<and> lbl_length (lcks t l) = length key \<and>
      key = take (length key) (lbl_key (lcks t l))"
  let ?ch = "lhb_hash t (hash_fn cfg key (lhb_hash_slots t))"
  have len: "lbl_length (lcks t l) \<le> length (lbl_key (lcks t l))" if "lbl_type (lcks t l)" for l
    using ok that by (simp add: hash_ok_def)
  have hs: "l \<in> set (lhb_hash t s) \<longleftrightarrow> lbl_type (lcks t l) \<and> s = hash_fn cfg (lock_key (lcks t l)) (lhb_hash_slots t)" for s l
    using ok by (simp add: hash_ok_def)
  have mem: "l \<in> set ?ch \<and> ?P l \<longleftrightarrow> lbl_type (lcks t l) \<and> lbl_series (lcks t l) = series \<and> lock_key (lcks t l) = key" for l
  proof (cases "lbl_type (lcks t l)")
    case True
    define b where "b = lcks t l"
    have lb: "length (lock_key b) = lbl_length b" using len [OF True] by (simp add: lock_key_def b_def)
    have "lbl_length b = length key \<and> key = take (length key) (lbl_key b) \<longleftrightarrow> lock_key b = key"
    proof
      assume "lbl_length b = length key \<and> key = take (length key) (lbl_key b)"
      then show "lock_key b = key" unfolding lock_key_def by simp
    next
      assume k: "lock_key b = key"
      then have "lbl_length b = length key" using lb by simp
      moreover from this have "key = take (length key) (lbl_key b)" using k unfolding lock_key_def by simp
      ultimately show "lbl_length b = length key \<and> key = take (length key) (lbl_key b)" by blast
    qed
    then show ?thesis
      using True hs [of l] unfolding b_def by blast
  qed (simp add: hs)
  have uniq: "l = l'" if "l \<in> set ?ch \<and> ?P l" "l' \<in> set ?ch \<and> ?P l'" for l l'
  proof -
    have "\<forall>l l'. lbl_type (lcks t l) \<and> lbl_type (lcks t l') \<and> lbl_series (lcks t l) = lbl_series (lcks t l') \<and>
        lock_key (lcks t l) = lock_key (lcks t l') \<longrightarrow> l = l'"
      using ok by (simp add: hash_ok_def)
    then show ?thesis using that unfolding mem by simp
  qed
  show ?thesis
  proof
    assume "find_lock cfg series key t = Some l"
    then have "l \<in> set ?ch \<and> ?P l"
      unfolding find_lock_def by (rule find_SomeD)
    then show "lbl_type (lcks t l) \<and> lbl_series (lcks t l) = series \<and> lock_key (lcks t l) = key"
      unfolding mem .
  next
    assume "lbl_type (lcks t l) \<and> lbl_series (lcks t l) = series \<and> lock_key (lcks t l) = key"
    then have l: "l \<in> set ?ch \<and> ?P l" unfolding mem .
    show "find_lock cfg series key t = Some l"
    proof (cases "List.find ?P ?ch")
      case None
      then show ?thesis using l by (auto simp: find_None_iff)
    next
      case (Some l')
      then have "l' \<in> set ?ch \<and> ?P l'" by (rule find_SomeD)
      then show ?thesis using uniq [OF l] Some by (simp add: find_lock_def)
    qed
  qed
qed


subsection \<open>New locks\<close>

lemma data_ok_cong:
  assumes "\<And>l. lbl_type (lcks t' l) = lbl_type (lcks t l)" "\<And>l. lbl_series (lcks t' l) = lbl_series (lcks t l)"
    "\<And>l. lbl_data (lcks t' l) = lbl_data (lcks t l)" "lhb_data t' = lhb_data t"
  shows "data_ok t' = data_ok t"
  unfolding data_ok_def assms ..

lemma data_ok_unused:
  assumes ok: "data_ok t" and l: "\<not> lbl_type (lcks t l)"
    and lk: "\<And>l'. l' \<noteq> l \<Longrightarrow> lcks t' l' = lcks t l'" "lbl_data (lcks t' l) = 0" and ld: "lhb_data t' = lhb_data t"
  shows "data_ok t'"
  unfolding data_ok_def ld
proof (intro conjI allI)
  fix s l'
  have nl: "l \<notin> set (lhb_data t s)" for s using ok l by (simp add: data_ok_def)
  show "distinct (lhb_data t s)" using ok by (simp add: data_ok_def)
  have "sorted (map (\<lambda>l. lbl_data (lcks t l)) (lhb_data t s))" using ok by (simp add: data_ok_def)
  moreover have "lbl_data (lcks t' x) = lbl_data (lcks t x)" if "x \<in> set (lhb_data t s)" for x
    using lk(1) [of x] nl that by metis
  ultimately show "sorted (map (\<lambda>l. lbl_data (lcks t' l)) (lhb_data t s))"
    using sorted_map_cong [of "lhb_data t s" "\<lambda>l. lbl_data (lcks t' l)" "\<lambda>l. lbl_data (lcks t l)"] by blast
  show "(l' \<in> set (lhb_data t s)) = (lbl_type (lcks t' l') \<and> lbl_series (lcks t' l') = s \<and> s < LCK_MAX_SERIES \<and>
      lbl_data (lcks t' l') \<noteq> 0)"
    using ok nl lk(1) [of l'] lk(2) by (cases "l' = l") (simp_all add: data_ok_def)
qed

lemma insert_data_que_index [simp]:
  "lhb_hash (insert_data_que l t) = lhb_hash t" "lhb_hash_slots (insert_data_que l t) = lhb_hash_slots t"
  by (simp_all add: insert_data_que_def Let_def)

text \<open>A lock that is put on the chain of its key.\<close>

lemma hash_ok_add:
  assumes ok: "hash_ok cfg t" and l: "\<not> lbl_type (lcks t l)"
    and none: "\<And>l'. lbl_type (lcks t l') \<Longrightarrow> lbl_series (lcks t l') = series \<Longrightarrow> lock_key (lcks t l') \<noteq> key"
    and lk: "\<And>l'. l' \<noteq> l \<Longrightarrow> lcks t' l' = lcks t l'" "lbl_type (lcks t' l)" "lbl_series (lcks t' l) = series"
      "lock_key (lcks t' l) = key" "lbl_length (lcks t' l) \<le> length (lbl_key (lcks t' l))"
    and sl: "lhb_hash_slots t' = lhb_hash_slots t"
    and h: "lhb_hash t' = (lhb_hash t)(slot := lhb_hash t slot @ [l])" "slot = hash_fn cfg key (lhb_hash_slots t)"
  shows "hash_ok cfg t'"
  unfolding hash_ok_def sl
proof (intro conjI allI impI)
  have nl: "l \<notin> set (lhb_hash t s)" for s using ok l by (simp add: hash_ok_def)
  have uq: "\<forall>l l'. lbl_type (lcks t l) \<and> lbl_type (lcks t l') \<and> lbl_series (lcks t l) = lbl_series (lcks t l') \<and>
        lock_key (lcks t l) = lock_key (lcks t l') \<longrightarrow> l = l'"
    using ok by (simp add: hash_ok_def)
  fix s l1 l2
  show "distinct (lhb_hash t' s)" using ok nl by (simp add: hash_ok_def h(1))
  show "(l1 \<in> set (lhb_hash t' s)) = (lbl_type (lcks t' l1) \<and> s = hash_fn cfg (lock_key (lcks t' l1)) (lhb_hash_slots t))"
    using ok nl [of s] lk h by (cases "l1 = l") (auto simp: hash_ok_def)
  show "lbl_length (lcks t' l1) \<le> length (lbl_key (lcks t' l1))" if "lbl_type (lcks t' l1)"
    using ok lk that by (cases "l1 = l") (auto simp: hash_ok_def)
  assume a: "lbl_type (lcks t' l1) \<and> lbl_type (lcks t' l2) \<and> lbl_series (lcks t' l1) = lbl_series (lcks t' l2) \<and>
      lock_key (lcks t' l1) = lock_key (lcks t' l2)"
  show "l1 = l2"
  proof (cases "l1 = l \<or> l2 = l")
    case True
    then show ?thesis using a none [of l1] none [of l2] lk(1) [of l1] lk(1) [of l2] lk(2-4) by metis
  next
    case False
    then show ?thesis using a uq lk(1) [of l1] lk(1) [of l2] by metis
  qed
qed

lemma new_lock_index:
  assumes ix: "index_ok cfg t" and l: "\<not> lbl_type (lcks t l)"
    and none: "find_lock cfg series key t = None"
    and tn: "\<And>l'. l' \<noteq> l \<Longrightarrow> lcks tn l' = lcks t l'" "lbl_type (lcks tn l)" "lhb_hash tn = lhb_hash t"
      "lhb_data tn = lhb_data t" "lhb_hash_slots tn = lhb_hash_slots t"
    and k: "length key < 256" "series < 256"
  shows "index_ok cfg (new_lock cfg r l series key type data tn)"
proof -
  define t0 where "t0 = mod_lck l (\<lambda>b. b\<lparr>lbl_series := series mod 256, lbl_data := 0\<rparr>) tn"
  define t2 where "t2 = (if data \<noteq> 0 then insert_data_que l (mod_lck l (\<lambda>b. b\<lparr>lbl_series := series mod 256, lbl_data := data\<rparr>) tn)
     else mod_lck l (\<lambda>b. b\<lparr>lbl_series := series mod 256, lbl_data := data\<rparr>) tn)"
  define t3 where "t3 = mod_lck l (init_lock type series key) (bump_operations series t2)"
  define slot where "slot = hash_fn cfg key (lhb_hash_slots t3)"
  define t4 where "t4 = t3\<lparr>lhb_hash := (lhb_hash t3)(slot := lhb_hash t3 slot @ [l])\<rparr>"
  define t6 where "t6 = mod_req r (\<lambda>q. q\<lparr>lrq_lock := l\<rparr>)
     (mod_lck l (\<lambda>b. b\<lparr>lbl_requests := lbl_requests b @ [r]\<rparr>) t4)"
  have nl: "new_lock cfg r l series key type data tn = grant r l t6"
    by (simp add: new_lock_def Let_def t6_def t4_def t3_def t2_def slot_def)
  have hk: "hash_ok cfg t" and dt: "data_ok t" using ix by (simp_all add: index_ok_def)
  have d0: "data_ok t0"
    by (rule data_ok_unused [OF dt l]) (simp_all add: t0_def tn)
  have "l \<notin> set (lhb_data tn s)" for s using dt l by (simp add: data_ok_def tn)
  then have "remove_data_que l t0 = t0"
    by (simp add: remove_data_que_def t0_def remove1_idem)
  moreover have "mod_lck l (\<lambda>b. b\<lparr>lbl_data := data\<rparr>) t0 =
      mod_lck l (\<lambda>b. b\<lparr>lbl_series := series mod 256, lbl_data := data\<rparr>) tn"
    by (simp add: t0_def mod_lck_def)
  ultimately have "t2 = set_data l data t0" by (simp add: t2_def set_data_def Let_def)
  then have "data_ok t2" using set_data_ok [OF d0, of l data] tn(2) by (simp add: t0_def)
  moreover have "data_ok t6 = data_ok t2"
    by (rule data_ok_cong) (simp_all add: t6_def t4_def t3_def init_lock_def)
  ultimately have "data_ok t6" by simp
  moreover have "hash_ok cfg t6"
  proof (rule hash_ok_add [OF hk l])
    show "lock_key (lcks t l') \<noteq> key" if "lbl_type (lcks t l')" "lbl_series (lcks t l') = series" for l'
      using that none find_lock_iff [OF hk, of series key l'] by auto
    show "lcks t6 l' = lcks t l'" if "l' \<noteq> l" for l'
      using that tn(1) [OF that] by (simp add: t6_def t4_def t3_def t2_def)
    show "lbl_type (lcks t6 l)" "lbl_series (lcks t6 l) = series" "lock_key (lcks t6 l) = key"
      "lbl_length (lcks t6 l) \<le> length (lbl_key (lcks t6 l))"
      using tn(2) k by (simp_all add: t6_def t4_def t3_def t2_def init_lock_def lock_key_def)
    show "lhb_hash_slots t6 = lhb_hash_slots t" by (simp add: t6_def t4_def t3_def t2_def tn)
    then show "slot = hash_fn cfg key (lhb_hash_slots t)"
      by (simp add: slot_def t6_def t4_def)
    show "lhb_hash t6 = (lhb_hash t)(slot := lhb_hash t slot @ [l])"
      by (simp add: t6_def t4_def t3_def t2_def tn)
  qed
  ultimately have "index_ok cfg t6" by (simp add: index_ok_def)
  moreover have "lbl_type (lcks t6 l)" using tn(2) by (simp add: t6_def t4_def t3_def t2_def init_lock_def)
  ultimately show ?thesis unfolding nl by (rule grant_index)
qed


subsection \<open>Enqueueing\<close>

lemma internal_dequeue_index:
  assumes "lock_inv t" "live_request t r" "index_ok cfg t"
  shows "index_ok cfg (internal_dequeue r t)"
proof -
  have "lbl_type (lcks t (lrq_lock (reqs t r)))"
    using table_ok_req(2) [OF lock_invD(1) live_requestD(1)] assms(1,2) by blast
  then show ?thesis using assms(3) by (simp add: internal_dequeue_def release_request_index)
qed

lemma begin_wait_index [simp]: "index_ok cfg (begin_wait r lck_wait t) = index_ok cfg t"
  by (simp add: begin_wait_def Let_def)

lemma deny_enqueue_index:
  assumes "index_ok cfg t" "lbl_type (lcks t (lrq_lock (reqs t r)))"
  shows "index_ok cfg (deny_enqueue r i t)"
  using assms by (simp add: deny_enqueue_def release_request_index)

lemma grant_or_que_index:
  assumes "index_ok cfg t" "lbl_type (lcks t l)"
  shows "index_ok cfg (snd (grant_or_que r l i t))"
  using assms by (simp add: grant_or_que_def Let_def post_pending_index grant_index deny_enqueue_index)

text \<open>What \<open>grant_or_que\<close> does to a request that has just been queued, and to the others.\<close>

lemma grant_or_que_steady:
  assumes "x \<noteq> r"
  shows "steady (reqs t x) (reqs (snd (grant_or_que r l i t)) x)"
proof -
  define t1 where "t1 = mod_req r (\<lambda>q. q\<lparr>lrq_lock := l\<rparr>) t"
  have e: "reqs t1 x = reqs t x" "reqs (grant r l t1) x = reqs t x"
    using assms by (simp_all add: t1_def grant_same)
  have "steady (reqs t x) (reqs (post_pending l (grant r l t1)) x)"
    using post_pending_steady [of "grant r l t1" x l] e by simp
  moreover have "steady (reqs t x) (reqs (deny_enqueue r j t1) x)" for j
    using release_request_steady [OF assms, of "bump_denies j t1"] e by (simp add: deny_enqueue_def)
  moreover have "steady (reqs t x) (reqs (begin_wait r j t1) x)" for j
    using assms e by (simp add: begin_wait_reqs)
  ultimately show ?thesis by (simp add: grant_or_que_def t1_def [symmetric] Let_def)
qed

lemma steady_same:
  assumes "steady q q'"
  shows "lrq_type q' = lrq_type q" "lrq_lock q' = lrq_lock q" "lrq_owner q' = lrq_owner q"
    "lrq_requested q' = lrq_requested q" "(LRQ_repost \<in> lrq_flags q') = (LRQ_repost \<in> lrq_flags q)"
    "(LRQ_rejected \<in> lrq_flags q') = (LRQ_rejected \<in> lrq_flags q)"
    "LRQ_pending \<notin> lrq_flags q \<Longrightarrow> LRQ_pending \<notin> lrq_flags q' \<and> lrq_state q' = lrq_state q"
  using assms by (auto simp: steady_def)

lemma steady_live:
  assumes "steady (reqs t x) (reqs t' x)"
  shows "live_request t' x = live_request t x"
  using steady_same [OF assms] by (simp add: live_request_def)

text \<open>The request that an operation leaves with what it asked for, or waiting for it.\<close>

definition request_at :: "table \<Rightarrow> nat \<Rightarrow> nat \<Rightarrow> nat \<Rightarrow> outcome \<Rightarrow> bool" where
  "request_at t r w type out \<longleftrightarrow>
     (out = Granted r \<or> out = Waiting r \<longrightarrow> live_request t r \<and> lrq_owner (reqs t r) = w \<and>
        lrq_requested (reqs t r) = type) \<and>
     (out = Granted r \<longrightarrow> LRQ_pending \<notin> lrq_flags (reqs t r) \<and> lrq_state (reqs t r) = type) \<and>
     (out = Waiting r \<longrightarrow> LRQ_pending \<in> lrq_flags (reqs t r) \<and> LRQ_rejected \<notin> lrq_flags (reqs t r))"

lemma grant_or_que_outcome:
  assumes "live_request t r" "lrq_owner (reqs t r) = w" "lrq_requested (reqs t r) = type" "lrq_flags (reqs t r) = {}"
  shows "request_at (snd (grant_or_que r l i t)) r w type (fst (grant_or_que r l i t))"
    "fst (grant_or_que r l i t) \<in> {Granted r, Waiting r, Denied (deny_status i)}"
proof -
  define t1 where "t1 = mod_req r (\<lambda>q. q\<lparr>lrq_lock := l\<rparr>) t"
  have f: "LRQ_rejected \<notin> lrq_flags (reqs (grant r l t1) r)" "LRQ_pending \<notin> lrq_flags (reqs (grant r l t1) r)"
    "lrq_state (reqs (grant r l t1) r) = type" "lrq_owner (reqs (grant r l t1) r) = w"
    "lrq_requested (reqs (grant r l t1) r) = type" "live_request (grant r l t1) r"
    using assms by (simp_all add: t1_def grant_same live_request_def)
  note st = post_pending_steady [of "grant r l t1" r l]
  have "request_at (post_pending l (grant r l t1)) r w type (Granted r)"
    using f steady_same [OF st] steady_live [OF st] by (simp add: request_at_def)
  moreover have "request_at (begin_wait r i t1) r w type (Waiting r)"
    using assms by (simp add: request_at_def begin_wait_reqs t1_def live_request_def)
  ultimately show "request_at (snd (grant_or_que r l i t)) r w type (fst (grant_or_que r l i t))"
    by (simp add: grant_or_que_def t1_def [symmetric] Let_def request_at_def)
  show "fst (grant_or_que r l i t) \<in> {Granted r, Waiting r, Denied (deny_status i)}"
    by (simp add: grant_or_que_def Let_def)
qed

text \<open>The table right after a request has been given to its owner.\<close>

definition given :: "nat \<Rightarrow> nat \<Rightarrow> nat \<Rightarrow> nat \<Rightarrow> nat \<Rightarrow> table \<Rightarrow> table" where
  "given r type w ast arg t = mod_own w (\<lambda>q. q\<lparr>own_requests := own_requests q @ [r]\<rparr>)
     (mod_req r (init_request type w ast arg) t)"

lemma given_same [simp]:
  "reqs (given r type w ast arg t) = (reqs t)(r := init_request type w ast arg (reqs t r))"
  "lcks (given r type w ast arg t) = lcks t" "lhb_hash (given r type w ast arg t) = lhb_hash t"
  "lhb_hash_slots (given r type w ast arg t) = lhb_hash_slots t" "lhb_data (given r type w ast arg t) = lhb_data t"
  "index_ok cfg (given r type w ast arg t) = index_ok cfg t" "lhb_free_locks (given r type w ast arg t) = lhb_free_locks t"
  "lhb_used (given r type w ast arg t) = lhb_used t"
  by (simp_all add: given_def)

lemma find_lock_cong:
  "lcks t' = lcks t \<Longrightarrow> lhb_hash t' = lhb_hash t \<Longrightarrow> lhb_hash_slots t' = lhb_hash_slots t \<Longrightarrow>
     find_lock cfg series key t' = find_lock cfg series key t"
  by (simp add: find_lock_def)

text \<open>A request on an existing lock.\<close>

definition on_lock :: "nat \<Rightarrow> nat \<Rightarrow> nat \<Rightarrow> int \<Rightarrow> table \<Rightarrow> table" where
  "on_lock r l series data t = mod_req r (\<lambda>q. q\<lparr>lrq_data := data\<rparr>)
     (mod_lck l (\<lambda>b. b\<lparr>lbl_requests := lbl_requests b @ [r]\<rparr>) (bump_operations series t))"

lemma queued_on_lock:
  "queued r l w type t (mod_req r (\<lambda>q. q\<lparr>lrq_lock := l\<rparr>) (on_lock r l series data (given r type w ast arg t)))"
  by (auto simp: queued_def on_lock_def given_def init_request_def)

lemma on_lock_index [simp]: "index_ok cfg (on_lock r l series data t) = index_ok cfg t"
  by (simp add: on_lock_def)

text \<open>The state after \<open>enqueue\<close>, by the way it goes.\<close>

lemma enqueue_cases:
  assumes "own_count (owns t w) \<noteq> 0" "w \<noteq> 0"
  shows "enqueue cfg prior series key type ast arg data i w t =
     (let t2 = (if prior \<noteq> 0 then internal_dequeue prior (bump Enqs t) else bump Enqs t)
      in case alloc_request cfg t2 of
           (None, t3) \<Rightarrow> (Failed, t3)
         | (Some r, t3) \<Rightarrow>
             (case find_lock cfg series key t3 of
                Some l \<Rightarrow> grant_or_que r l i (on_lock r l series data (given r type w ast arg t3))
              | None \<Rightarrow>
                  (case alloc_lock cfg (length key) (given r type w ast arg t3) of
                     (None, t5) \<Rightarrow> (Failed, drop_request r w t5)
                   | (Some l, t5) \<Rightarrow> (Granted r, new_lock cfg r l series key type data t5))))"
  using assms by (simp add: enqueue_def Let_def given_def [symmetric] on_lock_def [symmetric]
      find_lock_cong [OF given_same(2,3,4)] split: prod.split option.split)


lemma drop_request_inv:
  assumes inv: "lock_inv t" and fr: "fresh_request r t"
  shows "lock_inv (drop_request r w (given r type w ast arg t))" (is "lock_inv ?t")
proof -
  have n: "r \<notin> set (own_requests (owns t v))" for v
    using owner_queues(4) [OF lock_invD(2) [OF inv]] fr by (simp add: fresh_request_def)
  have rs: "reqs ?t = (reqs t)(r := (init_request type w ast arg (reqs t r))\<lparr>lrq_type := False\<rparr>)"
    by (simp add: drop_request_def given_def Let_def)
  have "own_requests (owns ?t v) = own_requests (owns t v)" for v
    using n by (simp add: drop_request_def given_def Let_def remove1_append)
  moreover have "own_pending (owns ?t v) = own_pending (owns t v)" "own_blocks (owns ?t v) = own_blocks (owns t v)" 
     "own_process (owns ?t v) = own_process (owns t v)" for v
    by (simp_all add: drop_request_def given_def Let_def)
  moreover have hd: "lhb_owners ?t = lhb_owners t" "lhb_free_owners ?t = lhb_free_owners t" "lhb_used ?t = lhb_used t"
    "process_part ?t = process_part t" "lhb_free_locks ?t = lhb_free_locks t" "lcks ?t = lcks t"
    "lhb_free_requests ?t = lhb_free_requests t @ [r]"
    by (simp_all add: drop_request_def given_def Let_def)
  ultimately have "owners_ok ?t" "prcs_ok ?t"
    using lock_invD(2,3) [OF inv] fr
    by (auto simp: owners_ok_def owner_ok_def prcs_ok_def rs fresh_request_def)
  moreover have "table_ok ?t"
    unfolding table_ok_def
  proof
    have ok: "table_ok t" by (rule lock_invD(1) [OF inv])
    show "\<forall>l. lock_ok {} ?t l"
    proof
      fix l
      show "lock_ok {} ?t l"
        using table_okD(1) [OF ok, of l] fresh_unqueued [OF ok fr, of l]
        by (subst lock_ok_cong [of _ _ t]) (auto simp: hd rs)
    qed
    show "allocation_ok ?t"
      using table_okD(2) [OF ok] fr by (auto simp: allocation_ok_def hd rs fresh_request_def)
  qed
  ultimately show ?thesis by (simp add: lock_inv_def)
qed

lemma drop_request_index [simp]:
  "index_ok cfg (drop_request r w t) = index_ok cfg t"
  by (simp add: drop_request_def Let_def)

lemma contents_eq:
  "contents t' = contents t \<Longrightarrow> reqs t' = reqs t \<and> lcks t' = lcks t \<and> owns t' = owns t \<and> prcs t' = prcs t"
  by simp

text \<open>The two ways to a lock's block.\<close>

lemma new_lock_ok:
  assumes inv: "lock_inv t" and fr: "fresh_request r t" and w: "w \<in> set (lhb_owners t)" and ty: "type < LCK_max"
    and ix: "index_ok cfg t" and cfg: "config_ok cfg" and none: "find_lock cfg series key t = None"
    and k: "length key < 256" "series < 256"
    and al: "alloc_lock cfg len (given r type w ast arg t) = (Some l, t5)"
  shows "lock_inv (new_lock cfg r l series key type data t5)"
    "index_ok cfg (new_lock cfg r l series key type data t5)"
    "x \<noteq> r \<Longrightarrow> reqs (new_lock cfg r l series key type data t5) x = reqs t x"
    "request_at (new_lock cfg r l series key type data t5) r w type (Granted r)"
    "length (lbl_requests (lcks (new_lock cfg r l series key type data t5) l')) \<le> Suc (length (lbl_requests (lcks t l')))"
proof -
  let ?g = "given r type w ast arg"
  have a: "allocation_ok t" using inv by (simp add: lock_inv_def table_ok_def)
  obtain t' f where t': "lock_inv t'" "fresh_request r t'" "l \<notin> set (lhb_free_locks t')" "l < lhb_used t'"
      "contents t' = contents t" "lhb_owners t' = lhb_owners t" "lhb_hash t' = lhb_hash t"
      "lhb_data t' = lhb_data t" "lhb_hash_slots t' = lhb_hash_slots t" and lt: "\<not> lbl_type (lcks t l)"
    and t5: "t5 = mod_lck l f (?g t')" and f: "\<And>b. lbl_type (f b)"
  proof -
    from al cfg show thesis
    proof (cases rule: alloc_lock_cases)
      case none
      then show thesis by simp
    next
      case (free l1)
      let ?t = "t\<lparr>lhb_free_locks := remove1 l (lhb_free_locks t)\<rparr>"
      have l1: "l1 = l" "l \<in> set (lhb_free_locks t)" using free by auto
      have "lock_inv ?t"
        using a by (intro lock_inv_free_locks [OF inv]) (auto simp: allocation_ok_def set_remove1_subset)
      moreover have "t5 = mod_lck l (\<lambda>b. b\<lparr>lbl_type := True\<rparr>) (?g ?t)"
        using free(3) unfolding l1(1) by (cases t) (simp add: given_def mod_own_def mod_req_def)
      moreover have "\<not> lbl_type (lcks t l)" "l < lhb_used t" "l \<notin> set (lhb_free_locks ?t)" "fresh_request r ?t"
        using a fr l1(2) by (auto simp: allocation_ok_def fresh_request_def)
      ultimately show thesis
        by (intro that [of ?t "\<lambda>b. b\<lparr>lbl_type := True\<rparr>"]) simp_all
    next
      case (grown n m k)
      let ?t = "t\<lparr>lhb_length := n, lhb_used := lhb_used t + m\<rparr>"
      have l1: "l = lhb_used t" using grown by simp
      moreover have "t5 = mod_lck l (\<lambda>b. b\<lparr>lbl_size := k, lbl_type := True\<rparr>) (?g ?t)"
        using grown(3) unfolding l1 by (cases t) (simp add: given_def mod_own_def mod_req_def)
      moreover have "\<not> lbl_type (lcks t l)" "l < lhb_used ?t" "l \<notin> set (lhb_free_locks ?t)" "fresh_request r ?t"
        using a fr l1 grown(2) by (auto simp: allocation_ok_def fresh_request_def)
      moreover have "lock_inv ?t" by (rule lock_inv_grow [OF inv])
      ultimately show thesis
        by (intro that [of ?t "\<lambda>b. b\<lparr>lbl_size := k, lbl_type := True\<rparr>"]) simp_all
    qed
  qed
  note c = contents_eq [OF t'(5)]
  have tn: "t5 = mod_lck l f (mod_own w (\<lambda>q. q\<lparr>own_requests := own_requests q @ [r]\<rparr>)
      (mod_req r (init_request type w ast arg) t'))"
    by (simp add: t5 given_def)
  show "lock_inv (new_lock cfg r l series key type data t5)"
    by (rule new_lock_inv [OF t'(1,2) _ ty _ t'(3,4) tn f]) (use w lt t'(6) c in simp_all)
  show "index_ok cfg (new_lock cfg r l series key type data t5)"
    by (rule new_lock_index [OF ix lt none _ _ _ _ _ k]) (use f c t' in \<open>simp_all add: t5\<close>)
  show "x \<noteq> r \<Longrightarrow> reqs (new_lock cfg r l series key type data t5) x = reqs t x"
    using c by (simp add: new_lock_def Let_def grant_same t5)
  have "lrq_requested (reqs t5 r) = type" "lrq_owner (reqs t5 r) = w" "live_request t5 r" "lrq_flags (reqs t5 r) = {}"
    by (simp_all add: t5 init_request_def live_request_def)
  then show "request_at (new_lock cfg r l series key type data t5) r w type (Granted r)"
    by (simp add: request_at_def new_lock_def Let_def grant_same live_request_def)
  show "length (lbl_requests (lcks (new_lock cfg r l series key type data t5) l')) \<le> Suc (length (lbl_requests (lcks t l')))"
    using c by (simp add: new_lock_def Let_def init_lock_def t5)
qed

text \<open>The request that a table's lock has on its queue shows that the lock is in use.\<close>

lemma found_lock_queue:
  assumes "lock_inv t" "index_ok cfg t" "find_lock cfg series key t = Some l"
  shows "lbl_type (lcks t l)" "lbl_requests (lcks t l) \<noteq> []"
proof -
  show "lbl_type (lcks t l)" using assms(2,3) find_lock_iff by (simp add: index_ok_def)
  then show "lbl_requests (lcks t l) \<noteq> []"
    using table_okD(1) [OF lock_invD(1) [OF assms(1)], of l] by (simp add: lock_ok_def)
qed

lemma on_lock_ok:
  assumes inv: "lock_inv t" and sm: "roomy t" and fr: "fresh_request r t" and w: "w \<in> set (lhb_owners t)"
    and ty: "type < LCK_max" and ix: "index_ok cfg t" and fl: "find_lock cfg series key t = Some l"
    and t1_def: "t1 = on_lock r l series data (given r type w ast arg t)"
  shows "lock_inv (snd (grant_or_que r l i t1))" "index_ok cfg (snd (grant_or_que r l i t1))"
    "x \<noteq> r \<Longrightarrow> steady (reqs t x) (reqs (snd (grant_or_que r l i t1)) x)"
    "request_at (snd (grant_or_que r l i t1)) r w type (fst (grant_or_que r l i t1))"
proof -
  note fd = found_lock_queue [OF inv ix fl]
  let ?t = "mod_req r (\<lambda>q. q\<lparr>lrq_lock := l\<rparr>) t1"
  have qd: "queued r l w type t ?t" by (simp add: t1_def queued_on_lock)
  have i1: "lock_inv ?t" by (rule queued_ok [OF inv fr w fd(2) ty qd])
  have "small ?t"
    unfolding small_def
  proof
    fix l'
    have "length (lbl_requests (lcks t l')) < 2 ^ 16 - 1" using sm by (simp add: roomy_def)
    then show "length (lbl_requests (lcks ?t l')) < 2 ^ 16" by (auto simp: t1_def on_lock_def)
  qed
  moreover have "r \<in> set (lbl_requests (lcks ?t l))" "lrq_state (reqs ?t r) = 0" "LRQ_pending \<notin> lrq_flags (reqs ?t r)"
    by (simp_all add: t1_def on_lock_def init_request_def)
  ultimately show "lock_inv (snd (grant_or_que r l i t1))"
    by (intro grant_or_que_inv [OF i1 _ refl])
  show "index_ok cfg (snd (grant_or_que r l i t1))"
    using fd(1) ix by (intro grant_or_que_index) (simp_all add: t1_def, simp add: on_lock_def)
  show "x \<noteq> r \<Longrightarrow> steady (reqs t x) (reqs (snd (grant_or_que r l i t1)) x)"
    using grant_or_que_steady [of x r t1 l i] by (simp add: t1_def on_lock_def)
  show "request_at (snd (grant_or_que r l i t1)) r w type (fst (grant_or_que r l i t1))"
    by (rule grant_or_que_outcome) (simp_all add: t1_def on_lock_def init_request_def live_request_def)
qed


text \<open>What a call leaves of the table.\<close>

definition call_ok :: "config \<Rightarrow> nat set \<Rightarrow> table \<Rightarrow> table \<Rightarrow> bool" where
  "call_ok cfg X t t' \<longleftrightarrow> lock_inv t' \<and> index_ok cfg t' \<and>
     (\<forall>x. live_request t x \<and> x \<notin> X \<longrightarrow> steady (reqs t x) (reqs t' x))"

lemma call_okD:
  assumes "call_ok cfg X t t'"
  shows "lock_inv t'" "index_ok cfg t'" "live_request t x \<Longrightarrow> x \<notin> X \<Longrightarrow> steady (reqs t x) (reqs t' x)"
  using assms by (simp_all add: call_ok_def)

lemma internal_dequeue_processes [simp]: "same_processes (internal_dequeue r t) t'' = same_processes t t''"
  by (simp add: internal_dequeue_def)

subsection \<open>Converting, dequeueing, downgrading\<close>

lemma live_lock_type:
  assumes "lock_inv t" "live_request t r"
  shows "lbl_type (lcks t (lrq_lock (reqs t r)))"
  by (rule table_ok_req(2) [OF lock_invD(1) [OF assms(1)] live_requestD(1) [OF assms]])

lemma internal_convert_index:
  assumes "lock_inv t" "live_request t r" "index_ok cfg t"
  shows "index_ok cfg (snd (internal_convert r type i ast arg t))"
proof -
  have "index_ok cfg (asked r type t)" using assms(3) by (simp add: asked_def)
  moreover have "index_ok cfg (retracted r type t)" using assms(3) by (simp add: retracted_def asked_def)
  moreover have "index_ok cfg (deny_convert r j t) = index_ok cfg t" for j t by (simp add: deny_convert_def)
  ultimately show ?thesis
    using live_lock_type [OF assms(1,2)]
    by (simp add: internal_convert_cases post_pending_index grant_index retracted_def)
qed

lemma internal_convert_ok:
  assumes "lock_inv t" "index_ok cfg t" "small t" "live_request t r" "type < LCK_max" "LRQ_pending \<notin> lrq_flags (reqs t r)"
  shows "call_ok cfg {r} t (snd (internal_convert r type i ast arg t))"
  using internal_convert_inv [OF assms(1,3-6)] internal_convert_index [OF assms(1,4,2)] internal_convert_steady
  by (simp add: call_ok_def)

lemma internal_convert_outcome:
  assumes "live_request t r" "LRQ_pending \<notin> lrq_flags (reqs t r)"
  shows "request_at (snd (internal_convert r type i ast arg t)) r (lrq_owner (reqs t r)) type
     (fst (internal_convert r type i ast arg t))"
    "fst (internal_convert r type i ast arg t) \<in> {Granted r, Waiting r, Denied (deny_status i)}"
    "fst (internal_convert r type i ast arg t) = Denied d \<Longrightarrow>
       live_request (snd (internal_convert r type i ast arg t)) r \<and>
       lrq_state (reqs (snd (internal_convert r type i ast arg t)) r) = lrq_state (reqs t r)"
proof -
  define t3 where "t3 = mod_req r (\<lambda>q. q\<lparr>lrq_ast_routine := ast, lrq_ast_argument := arg\<rparr>) (retracted r type t)"
  define t4 where "t4 = grant r (lrq_lock (reqs t r)) t3"
  have f: "LRQ_pending \<notin> lrq_flags (reqs t4 r)" "lrq_state (reqs t4 r) = type" "live_request t4 r"
    "lrq_owner (reqs t4 r) = lrq_owner (reqs t r)" "lrq_requested (reqs t4 r) = type"
    using assms by (simp_all add: t4_def grant_same t3_def retracted_def live_request_def)
  note st = post_pending_steady [of t4 r "lrq_lock (reqs t r)"]
  have "request_at (post_pending (lrq_lock (reqs t r)) t4) r (lrq_owner (reqs t r)) type (Granted r)"
    using f steady_same [OF st] steady_live [OF st] by (simp add: request_at_def)
  moreover have "request_at (begin_wait r i (asked r type t)) r (lrq_owner (reqs t r)) type (Waiting r)"
    using assms by (simp add: request_at_def begin_wait_reqs live_request_def)
  ultimately show "request_at (snd (internal_convert r type i ast arg t)) r (lrq_owner (reqs t r)) type
     (fst (internal_convert r type i ast arg t))"
    by (simp add: internal_convert_cases t3_def [symmetric] t4_def [symmetric] request_at_def)
  show "fst (internal_convert r type i ast arg t) \<in> {Granted r, Waiting r, Denied (deny_status i)}"
    by (simp add: internal_convert_cases)
  show "fst (internal_convert r type i ast arg t) = Denied d \<Longrightarrow>
       live_request (snd (internal_convert r type i ast arg t)) r \<and>
       lrq_state (reqs (snd (internal_convert r type i ast arg t)) r) = lrq_state (reqs t r)"
    using assms by (simp add: internal_convert_cases live_request_def split: if_splits)
qed

lemma convert_ok:
  assumes "lock_inv t" "index_ok cfg t" "small t" "live_request t r" "type < LCK_max" "LRQ_pending \<notin> lrq_flags (reqs t r)"
  shows "call_ok cfg {r} t (snd (convert r type i ast arg t))"
    "request_at (snd (convert r type i ast arg t)) r (lrq_owner (reqs t r)) type (fst (convert r type i ast arg t))"
    "fst (convert r type i ast arg t) \<in> {Failed, Granted r, Waiting r, Denied (deny_status i)}"
proof -
  define t1 where "t1 = bump_operations (lbl_series (lcks t (lrq_lock (reqs t r)))) (bump Converts t)"
  have s: "reqs t1 = reqs t" "lock_inv t1" "index_ok cfg t1" "small t1" "live_request t1 r"
    using assms by (simp_all add: t1_def)
  have c: "convert r type i ast arg t = (if own_count (owns t (lrq_owner (reqs t r))) = 0 then (Failed, t)
      else internal_convert r type i ast arg t1)"
    by (simp add: convert_def t1_def)
  have "\<forall>x. live_request t1 x = live_request t x" by (simp add: s(1) live_request_def)
  then show "call_ok cfg {r} t (snd (convert r type i ast arg t))"
    using internal_convert_ok [OF s(2-5) assms(5), of i ast arg] assms by (simp add: c call_ok_def s(1))
  show "request_at (snd (convert r type i ast arg t)) r (lrq_owner (reqs t r)) type (fst (convert r type i ast arg t))"
    "fst (convert r type i ast arg t) \<in> {Failed, Granted r, Waiting r, Denied (deny_status i)}"
    using internal_convert_outcome [of t1 r type i ast arg] assms(6) s(1,5) by (simp_all add: c request_at_def)
qed

lemma dequeue_ok:
  assumes "lock_inv t" "index_ok cfg t" "small t" "live_request t r"
  shows "call_ok cfg {r} t (snd (dequeue r t))"
proof -
  define t1 where "t1 = bump_operations (lbl_series (lcks t (lrq_lock (reqs t r)))) (bump Deqs t)"
  have s: "reqs t1 = reqs t" "lock_inv t1" "index_ok cfg t1" "small t1" "live_request t1 r"
    using assms by (simp_all add: t1_def)
  have "call_ok cfg {r} t (internal_dequeue r t1)"
    using internal_dequeue_inv [OF s(2,4,5)] internal_dequeue_index [OF s(2,5,3)] internal_dequeue_steady [of _ r t1] s(1)
    by (simp add: call_ok_def)
  then show ?thesis using assms by (simp add: dequeue_def t1_def [symmetric] call_ok_def)
qed

lemma downgrade_ok:
  assumes "lock_inv t" "index_ok cfg t" "small t" "live_request t r" "LRQ_pending \<notin> lrq_flags (reqs t r)"
  shows "call_ok cfg {r} t (snd (downgrade r t))"
proof -
  have s: "lock_inv (bump Downgrades t)" "index_ok cfg (bump Downgrades t)" "live_request (bump Downgrades t) r"
    using assms by simp_all
  have "index_ok cfg (snd (downgrade r t))"
    using assms internal_dequeue_index [OF s(1,3,2)] internal_convert_index [OF s(1,3,2)]
    by (auto simp: downgrade_def Let_def)
  moreover have "steady (reqs t x) (reqs (snd (downgrade r t)) x)" if "x \<noteq> r" for x
    using internal_dequeue_steady [OF that, of "bump Downgrades t"]
      internal_convert_steady [OF that, of "bump Downgrades t"] by (auto simp: downgrade_def Let_def)
  ultimately show ?thesis using downgrade_inv [OF assms(1,3-5)] by (simp add: call_ok_def)
qed

lemma finish_enqueue_ok:
  assumes "lock_inv t" "index_ok cfg t" "small t" "live_request t r"
  shows "call_ok cfg {r} t (snd (finish_enqueue r i t))"
  using assms finish_enqueue_inv [OF assms(1,3,4)] release_request_steady [of _ r "bump_denies i t"]
    deny_enqueue_index [OF assms(2) live_lock_type [OF assms(1,4)]]
  by (auto simp: call_ok_def finish_enqueue_def deny_enqueue_def)

lemma finish_convert_ok:
  assumes "lock_inv t" "index_ok cfg t" "small t" "live_request t r"
  shows "call_ok cfg {r} t (snd (finish_convert r i ast t))"
proof -
  have "index_ok cfg (snd (finish_convert r i ast t))"
    using assms(2) live_lock_type [OF assms(1,4)]
    by (simp add: finish_convert_def deny_convert_def post_pending_index split: option.split)
  moreover have "steady (reqs t x) (reqs (snd (finish_convert r i ast t)) x)" if "x \<noteq> r" for x
    using that post_pending_steady by (simp add: finish_convert_def split: option.split)
  ultimately show ?thesis using finish_convert_inv [OF assms(1,3,4)] by (simp add: call_ok_def)
qed

end
