(* ===== verification/LockPurge.thy ===== *)
theory LockPurge
  imports LockIndex
begin

text \<open>
  Owners and processes come and go: creating and purging them keeps the invariants, and a
  purge touches no request of another owner beyond granting it.
\<close>

subsection \<open>Reposted notices\<close>

lemma header_requests [simp]:
  "reqs (t\<lparr>lhb_free_requests := x\<rparr>) = reqs t" "lcks (t\<lparr>lhb_free_requests := x\<rparr>) = lcks t"
  by simp_all

lemma owner_header [simp]:
  "same_index (t\<lparr>lhb_owners := a\<rparr>) t'' = same_index t t''" "same_index (t\<lparr>lhb_free_owners := a\<rparr>) t'' = same_index t t''"
  "same_index (t\<lparr>lhb_processes := a\<rparr>) t'' = same_index t t''" "same_index (t\<lparr>lhb_free_processes := a\<rparr>) t'' = same_index t t''"
  "same_index (t\<lparr>lhb_length := n\<rparr>) t'' = same_index t t''" "same_index (t\<lparr>lhb_used := n\<rparr>) t'' = same_index t t''"
  "index_ok cfg (t\<lparr>lhb_owners := a\<rparr>) = index_ok cfg t" "index_ok cfg (t\<lparr>lhb_free_owners := a\<rparr>) = index_ok cfg t"
  "index_ok cfg (t\<lparr>lhb_processes := a\<rparr>) = index_ok cfg t" "index_ok cfg (t\<lparr>lhb_free_processes := a\<rparr>) = index_ok cfg t"
  "index_ok cfg (t\<lparr>lhb_length := n\<rparr>) = index_ok cfg t" "index_ok cfg (t\<lparr>lhb_used := n\<rparr>) = index_ok cfg t"
  by (simp_all add: same_index_def index_ok_def hash_ok_def data_ok_def)

lemma free_repost_same [simp]:
  "reqs (free_repost r w t) = (reqs t)(r := (reqs t r)\<lparr>lrq_type := False\<rparr>)" "lcks (free_repost r w t) = lcks t"
  "owns (free_repost r w t) = (owns t)(w := (owns t w)\<lparr>own_blocks := remove1 r (own_blocks (owns t w))\<rparr>)"
  "index_ok cfg (free_repost r w t) = index_ok cfg t" "same_processes (free_repost r w t) t'' = same_processes t t''"
  by (simp_all add: free_repost_def Let_def same_owners_mod_own)

lemma table_ok_unlocked:
  assumes ok: "table_ok t" and r: "\<not> live_request t r" and q: "\<not> (lrq_type q \<and> LRQ_repost \<notin> lrq_flags q)"
    and rs: "reqs t' = (reqs t)(r := q)" and lk: "lcks t' = lcks t" and al: "allocation_ok t'"
  shows "table_ok t'"
  unfolding table_ok_def
proof (intro conjI allI al)
  fix l
  have "r \<notin> set (lbl_requests (lcks t l))" using live_requestI [OF ok, of r l] r by blast
  then show "lock_ok {} t' l"
    using table_okD(1) [OF ok, of l] by (subst lock_ok_cong [of _ _ t]) (auto simp: rs lk)
qed

lemma free_repost_inv:
  assumes inv: "lock_inv t" and r: "r \<in> set (own_blocks (owns t w))" "LRQ_repost \<in> lrq_flags (reqs t r)"
  shows "lock_inv (free_repost r w t)"
proof (rule lock_invI)
  have ow: "owners_ok t" by (rule lock_invD(2) [OF inv])
  have ty: "lrq_type (reqs t r)" "lrq_owner (reqs t r) = w" using owner_queues(6) [OF ow] r(1) by simp_all
  have al: "allocation_ok t" using inv by (simp add: lock_inv_def table_ok_def)
  have nf: "r \<notin> set (lhb_free_requests t)" "r < lhb_used t" using al ty by (auto simp: allocation_ok_def)
  have h: "lhb_free_requests (free_repost r w t) = lhb_free_requests t @ [r]"
    "lhb_free_locks (free_repost r w t) = lhb_free_locks t" "lhb_used (free_repost r w t) = lhb_used t"
    "lhb_owners (free_repost r w t) = lhb_owners t" "lhb_free_owners (free_repost r w t) = lhb_free_owners t"
    by (simp_all add: free_repost_def Let_def)
  show "table_ok (free_repost r w t)"
  proof (rule table_ok_unlocked [OF lock_invD(1) [OF inv] _ _ free_repost_same(1,2)])
    show "\<not> live_request t r" using r(2) by (simp add: live_request_def)
    show "allocation_ok (free_repost r w t)" using al nf by (auto simp: allocation_ok_def h)
  qed simp
  show "owners_ok (free_repost r w t)"
    using ow r ty unfolding owners_ok_def owner_ok_def by (auto simp: h in_set_remove1)
  show "prcs_ok (free_repost r w t)"
    using lock_invD(3) [OF inv] by (subst same_processesD [of _ t]) simp_all
qed

lemma free_repost_live [simp]: "LRQ_repost \<in> lrq_flags (reqs t r) \<Longrightarrow> live_request (free_repost r w t) x = live_request t x"
  by (simp add: live_request_def)

text \<open>\<open>repost\<close> gives its owner a new notice.\<close>

lemma repost_ok:
  assumes inv: "lock_inv t" and ix: "index_ok cfg t" and cfg: "config_ok cfg"
    and w: "w \<noteq> 0 \<Longrightarrow> w \<in> set (lhb_owners t)"
  shows "call_ok cfg {} t (snd (repost cfg ast arg w t))"
proof (cases "w = 0")
  case True
  then show ?thesis using inv ix by (simp add: repost_def call_ok_def)
next
  case False
  obtain b t1 where al: "alloc_request cfg t = (b, t1)" by fastforce
  note ar = alloc_request_ok [OF inv al cfg]
  have ix1: "index_ok cfg t1"
    using ix ar(3,6-8) same_indexD(1) [of t1 t cfg] by (simp add: same_index_def)
  show ?thesis
  proof (cases b)
    case None
    then show ?thesis using False ar(1,3) ix1 al by (simp add: repost_def call_ok_def)
  next
    case (Some r)
    have fr: "fresh_request r t1" by (rule ar(2) [OF Some])
    define q where "q = (reqs t1 r)\<lparr>lrq_type := True, lrq_flags := {LRQ_repost}, lrq_ast_routine := ast,
       lrq_ast_argument := arg, lrq_requested := LCK_none, lrq_state := LCK_none, lrq_owner := w, lrq_lock := 0\<rparr>"
    define t3 where "t3 = snd (repost cfg ast arg w t)"
    have t3: "reqs t3 = (reqs t1)(r := q)" "lcks t3 = lcks t1"
      "owns t3 = (owns t1)(w := (owns t1 w)\<lparr>own_blocks := own_blocks (owns t1 w) @ [r]\<rparr>)"
      "allocation t3 = allocation t1" "owner_lists t3 = owner_lists t1" "process_part t3 = process_part t1"
      "same_index t3 t1"
      using False Some al by (auto simp: t3_def repost_def q_def)
    have "table_ok t3"
    proof (rule table_ok_unlocked [OF lock_invD(1) [OF ar(1)] _ _ t3(1,2)])
      show "\<not> live_request t1 r" using fr by (simp add: live_request_def fresh_request_def)
      show "\<not> (lrq_type q \<and> LRQ_repost \<notin> lrq_flags q)" by (simp add: q_def)
      show "allocation_ok t3"
        using table_okD(2) [OF lock_invD(1) [OF ar(1)]] fr t3 unfolding allocation_ok_def fresh_request_def
        by (auto simp: q_def)
    qed
    moreover have "owners_ok t3"
      using lock_invD(2) [OF ar(1)] fr w [OF False] ar(4) t3 unfolding owners_ok_def owner_ok_def fresh_request_def
      by (auto simp: q_def)
    moreover have "prcs_ok t3"
      using lock_invD(3) [OF ar(1)] t3 by (subst prcs_ok_cong [of _ t1]) auto
    moreover have "index_ok cfg t3" using same_indexD(1) [OF t3(7)] ix1 by simp
    moreover have "steady (reqs t x) (reqs t3 x)" if "live_request t x" for x
      using that fr ar(3) t3(1) by (auto simp: live_request_def fresh_request_def)
    ultimately show ?thesis by (simp add: call_ok_def lock_inv_def t3_def [symmetric])
  qed
qed


subsection \<open>Purging an owner\<close>

text \<open>
  What a purge does: requests, owners and processes go but never come, those of owners outside
  \<open>W\<close> and processes outside \<open>G\<close> stay, and what stays is at most granted.
\<close>

definition purge_ok :: "config \<Rightarrow> (nat \<Rightarrow> bool) \<Rightarrow> (nat \<Rightarrow> bool) \<Rightarrow> table \<Rightarrow> table \<Rightarrow> bool" where
  "purge_ok cfg W G t t' \<longleftrightarrow> lock_inv t' \<and> index_ok cfg t' \<and> queues_le t' t \<and>
     (\<forall>x. live_request t x \<and> \<not> W (lrq_owner (reqs t x)) \<longrightarrow> live_request t' x) \<and>
     (\<forall>x. live_request t' x \<longrightarrow> live_request t x \<and> steady (reqs t x) (reqs t' x)) \<and>
     (\<forall>w \<in> set (lhb_owners t'). w \<in> set (lhb_owners t) \<and> own_process (owns t' w) = own_process (owns t w)) \<and>
     (\<forall>w \<in> set (lhb_owners t). \<not> W w \<longrightarrow> w \<in> set (lhb_owners t')) \<and>
     (\<forall>p \<in> set (lhb_processes t'). p \<in> set (lhb_processes t) \<and> prc_process_id (prcs t' p) = prc_process_id (prcs t p)) \<and>
     (\<forall>p \<in> set (lhb_processes t). \<not> G p \<longrightarrow> p \<in> set (lhb_processes t'))"

lemma purge_ok_inv: "purge_ok cfg W G t t' \<Longrightarrow> lock_inv t' \<and> index_ok cfg t' \<and> (small t \<longrightarrow> small t')"
  using queues_le_small by (auto simp: purge_ok_def)

lemma purge_ok_refl: "lock_inv t \<Longrightarrow> index_ok cfg t \<Longrightarrow> purge_ok cfg W G t t"
  by (simp add: purge_ok_def queues_le_def)

lemma purge_ok_mono:
  "purge_ok cfg V F t t' \<Longrightarrow> (\<And>w. V w \<Longrightarrow> W w) \<Longrightarrow> (\<And>p. F p \<Longrightarrow> G p) \<Longrightarrow> purge_ok cfg W G t t'"
  unfolding purge_ok_def by blast

lemma purge_okD:
  assumes "purge_ok cfg W G t t'"
  shows "lock_inv t'" "index_ok cfg t'" "queues_le t' t"
    "live_request t x \<Longrightarrow> \<not> W (lrq_owner (reqs t x)) \<Longrightarrow> live_request t' x"
    "live_request t' x \<Longrightarrow> live_request t x" "live_request t' x \<Longrightarrow> steady (reqs t x) (reqs t' x)"
    "w \<in> set (lhb_owners t') \<Longrightarrow> w \<in> set (lhb_owners t)"
    "w \<in> set (lhb_owners t') \<Longrightarrow> own_process (owns t' w) = own_process (owns t w)"
    "w \<in> set (lhb_owners t) \<Longrightarrow> \<not> W w \<Longrightarrow> w \<in> set (lhb_owners t')"
    "p \<in> set (lhb_processes t') \<Longrightarrow> p \<in> set (lhb_processes t)"
    "p \<in> set (lhb_processes t') \<Longrightarrow> prc_process_id (prcs t' p) = prc_process_id (prcs t p)"
    "p \<in> set (lhb_processes t) \<Longrightarrow> \<not> G p \<Longrightarrow> p \<in> set (lhb_processes t')"
  using assms unfolding purge_ok_def by simp_all

lemma purge_ok_trans:
  assumes a: "purge_ok cfg W G t t'" and b: "purge_ok cfg W G t' t''"
  shows "purge_ok cfg W G t t''"
  unfolding purge_ok_def
proof (intro conjI allI ballI impI)
  note pa = purge_okD [OF a] and pb = purge_okD [OF b]
  show "lock_inv t''" "index_ok cfg t''" by (rule pb)+
  show "queues_le t'' t" by (rule queues_le_trans [OF pb(3) pa(3)])
  show "live_request t'' x" if "live_request t x \<and> \<not> W (lrq_owner (reqs t x))" for x
  proof -
    have l: "live_request t' x" using pa(4) that by simp
    then have "lrq_owner (reqs t' x) = lrq_owner (reqs t x)" by (rule steady_same(3) [OF pa(6)])
    then show ?thesis using pb(4) [OF l] that by simp
  qed
  show "live_request t x" "steady (reqs t x) (reqs t'' x)" if "live_request t'' x" for x
    using pa(5) [OF pb(5) [OF that]] steady_trans [OF pa(6) [OF pb(5) [OF that]] pb(6) [OF that]] by simp_all
  show "w \<in> set (lhb_owners t)" "own_process (owns t'' w) = own_process (owns t w)" if "w \<in> set (lhb_owners t'')" for w
    using pa(7,8) [OF pb(7) [OF that]] pb(8) [OF that] by simp_all
  show "w \<in> set (lhb_owners t'')" if "w \<in> set (lhb_owners t)" "\<not> W w" for w
    by (rule pb(9) [OF pa(9) [OF that] that(2)])
  show "p \<in> set (lhb_processes t)" "prc_process_id (prcs t'' p) = prc_process_id (prcs t p)" if "p \<in> set (lhb_processes t'')" for p
    using pa(10,11) [OF pb(10) [OF that]] pb(11) [OF that] by simp_all
  show "p \<in> set (lhb_processes t'')" if "p \<in> set (lhb_processes t)" "\<not> G p" for p
    by (rule pb(12) [OF pa(12) [OF that] that(2)])
qed

lemma purge_ok_same:
  assumes "lock_inv t'" "index_ok cfg t'" "queues_le t' t" "same_processes t' t"
    "\<And>x. live_request t x \<Longrightarrow> \<not> W (lrq_owner (reqs t x)) \<Longrightarrow> live_request t' x"
    "\<And>x. live_request t' x \<Longrightarrow> live_request t x \<and> steady (reqs t x) (reqs t' x)"
  shows "purge_ok cfg W G t t'"
  using assms by (simp add: purge_ok_def same_processes_def)

lemma release_request_dead: "\<not> live_request (release_request r t) r"
proof -
  define t1 where "t1 = detach_request r t"
  have d: "\<not> lrq_type (reqs t1 r)" by (simp add: t1_def detach_same)
  have "\<not> lrq_type (reqs (post_pending l t2) r)" if "reqs t2 = reqs t1" for l t2
    using steady_same(1) [OF post_pending_steady [of t2 r l]] that d by simp
  then show ?thesis
    using d unfolding release_request_def Let_def t1_def [symmetric] live_request_def
    by (simp add: free_lock_same)
qed

lemma live_after_release: "live_request (release_request r t) x \<longleftrightarrow> live_request t x \<and> x \<noteq> r"
  using release_request_dead [of r t] steady_live [OF release_request_steady [of x r t]] by blast


lemma release_request_purge:
  assumes "lock_inv t" "index_ok cfg t" "small t" "live_request t r" "W (lrq_owner (reqs t r))"
  shows "purge_ok cfg W G t (release_request r t)"
proof (rule purge_ok_same)
  show "lock_inv (release_request r t)" by (rule release_request_inv [OF assms(1,3,4)])
  show "index_ok cfg (release_request r t)"
    by (rule release_request_index [OF assms(2) live_lock_type [OF assms(1,4)]])
  show "live_request (release_request r t) x" if "live_request t x" "\<not> W (lrq_owner (reqs t x))" for x
    using that assms(5) by (auto simp: live_after_release)
  show "live_request t x \<and> steady (reqs t x) (reqs (release_request r t) x)" if "live_request (release_request r t) x" for x
    using that release_request_steady [of x r t] by (simp add: live_after_release)
qed (simp_all add: release_request_le)

text \<open>The requests of an owner are those its queue shows.\<close>

lemma own_requests_set:
  "lock_inv t \<Longrightarrow> set (own_requests (owns t w)) = {r. live_request t r \<and> lrq_owner (reqs t r) = w}"
  using owner_queues(4) [OF lock_invD(2)] by (auto simp: live_request_def)

lemma own_requests_less:
  assumes "lock_inv t" "lock_inv t'" "\<And>x. live_request t' x \<longleftrightarrow> live_request t x \<and> x \<noteq> r"
    "\<And>x. live_request t' x \<Longrightarrow> lrq_owner (reqs t' x) = lrq_owner (reqs t x)" "r \<in> set (own_requests (owns t w))"
  shows "length (own_requests (owns t' w)) < length (own_requests (owns t w))"
proof -
  have "set (own_requests (owns t' w)) = set (own_requests (owns t w)) - {r}"
    unfolding own_requests_set [OF assms(1)] own_requests_set [OF assms(2)] using assms(3,4) by auto
  moreover have "distinct (own_requests (owns t' w))" "distinct (own_requests (owns t w))"
    using owner_queues(1) lock_invD(2) assms(1,2) by blast+
  ultimately show ?thesis
    using assms(5) by (metis card_Diff1_less distinct_card finite_set)
qed

lemma release_requests_purge:
  assumes "lock_inv t" "index_ok cfg t" "small t" "length (own_requests (owns t w)) \<le> n" "W w"
  shows "purge_ok cfg W G t (release_requests n w t) \<and> own_requests (owns (release_requests n w t) w) = [] \<and>
     same_processes (release_requests n w t) t"
  using assms
proof (induction n arbitrary: t)
  case 0
  then show ?case by (simp add: purge_ok_refl)
next
  case (Suc n)
  show ?case
  proof (cases "own_requests (owns t w)")
    case Nil
    then show ?thesis using Suc.prems by (simp add: purge_ok_refl)
  next
    case (Cons r rs)
    define t' where "t' = release_request r t"
    have r: "live_request t r" "lrq_owner (reqs t r) = w"
      using own_requests_set [OF Suc.prems(1), of w] Cons by auto
    have p: "purge_ok cfg W G t t'"
      using release_request_purge [OF Suc.prems(1-3) r(1), of W G] r(2) Suc.prems(5) by (simp add: t'_def)
    then have i: "lock_inv t'" "index_ok cfg t'" "small t'" using purge_ok_inv Suc.prems(3) by blast+
    have own: "lrq_owner (reqs t' x) = lrq_owner (reqs t x)" if "live_request t' x" for x
      using that p steady_same(3) by (auto simp: purge_ok_def)
    have "length (own_requests (owns t' w)) < length (own_requests (owns t w))"
      by (rule own_requests_less [OF Suc.prems(1) i(1) _ own, of r])
        (use Cons in \<open>simp_all add: t'_def live_after_release\<close>)
    then have l: "length (own_requests (owns t' w)) \<le> n" using Suc.prems(4) by simp
    have s: "same_processes t' t" by (simp add: t'_def)
    have e: "release_requests (Suc n) w t = release_requests n w t'" using Cons by (simp add: t'_def)
    note ih = Suc.IH [OF i l Suc.prems(5)]
    have "purge_ok cfg W G t (release_requests n w t')"
      by (rule purge_ok_trans [OF p conjunct1 [OF ih]])
    moreover have "same_processes (release_requests n w t') t" by (rule same_trans(2) [OF _ s]) (use ih in simp)
    ultimately show ?thesis unfolding e using ih by blast
  qed
qed

lemma free_reposts_purge:
  assumes "lock_inv t" "index_ok cfg t" "length (own_blocks (owns t w)) \<le> n" "own_requests (owns t w) = []"
  shows "purge_ok cfg W G t (free_reposts n w t) \<and> own_blocks (owns (free_reposts n w t) w) = [] \<and>
     own_requests (owns (free_reposts n w t) w) = [] \<and> same_processes (free_reposts n w t) t"
  using assms
proof (induction n arbitrary: t)
  case 0
  then show ?case by (simp add: purge_ok_refl)
next
  case (Suc n)
  show ?case
  proof (cases "own_blocks (owns t w)")
    case Nil
    then show ?thesis using Suc.prems by (simp add: purge_ok_refl)
  next
    case (Cons r rs)
    define t' where "t' = free_repost r w t"
    have r: "r \<in> set (own_blocks (owns t w))" using Cons by simp
    have rp: "LRQ_repost \<in> lrq_flags (reqs t r)"
      using owner_queues(4,6) [OF lock_invD(2) [OF Suc.prems(1)], of r w] r Suc.prems(4) by auto
    have s: "same_processes t' t" by (simp add: t'_def)
    have i: "lock_inv t'" using free_repost_inv [OF Suc.prems(1) r rp] by (simp add: t'_def)
    have p: "purge_ok cfg W G t t'"
    proof (rule purge_ok_same [OF i _ _ s])
      show "live_request t x \<and> steady (reqs t x) (reqs t' x)" if "live_request t' x" for x
        using that rp by (auto simp: t'_def live_request_def)
    qed (use Suc.prems(2) rp in \<open>simp_all add: t'_def queues_le_def\<close>)
    have l: "length (own_blocks (owns t' w)) \<le> n" "own_requests (owns t' w) = []" "index_ok cfg t'"
      using Cons Suc.prems(2-4) by (simp_all add: t'_def)
    have e: "free_reposts (Suc n) w t = free_reposts n w t'" using Cons by (simp add: t'_def)
    note ih = Suc.IH [OF i l(3,1,2)]
    have "purge_ok cfg W G t (free_reposts n w t')"
      by (rule purge_ok_trans [OF p conjunct1 [OF ih]])
    moreover have "same_processes (free_reposts n w t') t" by (rule same_trans(2) [OF _ s]) (use ih in simp)
    ultimately show ?thesis unfolding e using ih by blast
  qed
qed

text \<open>The owner's block goes from its queues to the free list.\<close>

lemma drop_owner_inv:
  assumes inv: "lock_inv t" and w: "w \<in> set (lhb_owners t)"
    and e: "own_requests (owns t w) = []" "own_blocks (owns t w) = []"
  defines "t' \<equiv> mod_own w (\<lambda>q. q\<lparr>own_owner_type := 0, own_owner_id := 0, own_process := 0, own_flags := {}\<rparr>)
     (let t3 = mod_prc (own_process (owns t w)) (\<lambda>p. p\<lparr>prc_owners := remove1 w (prc_owners p)\<rparr>) t
      in t3\<lparr>lhb_owners := remove1 w (lhb_owners t3), lhb_free_owners := lhb_free_owners t3 @ [w]\<rparr>)"
  shows "lock_inv t'"
proof -
  have ow: "owners_ok t" and pr: "prcs_ok t" using inv by (simp_all add: lock_inv_def)
  have no: "lrq_owner (reqs t r) \<noteq> w" if "lrq_type (reqs t r)" for r
    using owner_queues(4,6) [OF ow, of r w] e that by auto
  have h: "reqs t' = reqs t" "lcks t' = lcks t" "allocation t' = allocation t"
    "lhb_owners t' = remove1 w (lhb_owners t)" "lhb_free_owners t' = lhb_free_owners t @ [w]"
    "lhb_used t' = lhb_used t" "lhb_processes t' = lhb_processes t" "lhb_free_processes t' = lhb_free_processes t"
    "own_requests (owns t' v) = own_requests (owns t v)" "own_pending (owns t' v) = own_pending (owns t v)"
    "own_blocks (owns t' v) = own_blocks (owns t v)" 
    "own_process (owns t' v) = (if v = w then 0 else own_process (owns t v))"
    "prc_owners (prcs t' p) = (if p = own_process (owns t w) then remove1 w (prc_owners (prcs t p)) else prc_owners (prcs t p))"
    for v p
    by (simp_all add: t'_def Let_def)
  have d: "distinct (lhb_owners t)" "w \<notin> set (lhb_free_owners t)" "w < lhb_used t"
    using ow w by (auto simp: owners_ok_def)
  have "owners_ok t'"
    using ow no d unfolding owners_ok_def owner_ok_def h(1,4-6) by (auto simp: h)
  moreover have "prcs_ok t'"
    unfolding prcs_ok_def
  proof (intro conjI ballI)
    show "distinct (lhb_processes t' @ lhb_free_processes t')" using pr by (simp add: h prcs_ok_def)
    show "p < lhb_used t'" if "p \<in> set (lhb_processes t') \<union> set (lhb_free_processes t')" for p
      using pr that by (simp add: h prcs_ok_def)
    show "own_process (owns t' v) \<in> set (lhb_processes t')" if "v \<in> set (lhb_owners t')" for v
      using pr that d(1) by (auto simp: h prcs_ok_def)
    fix p
    assume p: "p \<in> set (lhb_processes t')"
    then have q: "distinct (prc_owners (prcs t p))"
      "set (prc_owners (prcs t p)) = {v \<in> set (lhb_owners t). own_process (owns t v) = p}"
      using pr by (simp_all add: prcs_ok_def h)
    have po: "prc_owners (prcs t' p) =
        (if p = own_process (owns t w) then remove1 w (prc_owners (prcs t p)) else prc_owners (prcs t p))" by (rule h)
    show "distinct (prc_owners (prcs t' p))" unfolding po using q(1) by (metis distinct_remove1)
    have hs: "set (lhb_owners t') = set (lhb_owners t) - {w}" unfolding h(4) by (rule set_remove1_eq [OF d(1)])
    have pw: "own_process (owns t' v) = (if v = w then 0 else own_process (owns t v))" for v by (rule h)
    have "set (prc_owners (prcs t' p)) = set (prc_owners (prcs t p)) - {w}"
    proof (cases "p = own_process (owns t w)")
      case True
      then show ?thesis unfolding po using set_remove1_eq [OF q(1)] by simp
    next
      case False
      then have "w \<notin> set (prc_owners (prcs t p))" using q(2) by simp
      then show ?thesis unfolding po using False by simp
    qed
    then show "set (prc_owners (prcs t' p)) = {v \<in> set (lhb_owners t'). own_process (owns t' v) = p}"
      unfolding q(2) hs pw by auto
  qed
  moreover have "table_ok t'"
    using lock_invD(1) [OF inv] table_ok_cong [OF h(1-3)] by simp
  ultimately show ?thesis by (simp add: lock_inv_def)
qed


lemma purge_owner_purge:
  assumes inv: "lock_inv t" and ix: "index_ok cfg t" and sm: "small t" and w: "w \<in> set (lhb_owners t)" and W: "W w"
  shows "purge_ok cfg W G t (purge_owner w t)"
    "lhb_processes (purge_owner w t) = lhb_processes t" "lhb_free_processes (purge_owner w t) = lhb_free_processes t"
    "prc_owners (prcs (purge_owner w t) p) =
       (if p = own_process (owns t w) then remove1 w (prc_owners (prcs t p)) else prc_owners (prcs t p))"
proof -
  define t1 where "t1 = release_requests (length (own_requests (owns t w))) w t"
  define t2 where "t2 = free_reposts (length (own_blocks (owns t1 w))) w t1"
  have a: "purge_ok cfg W G t t1" "own_requests (owns t1 w) = []" "same_processes t1 t"
    using release_requests_purge [of t cfg w "length (own_requests (owns t w))" W G] inv ix sm W by (simp_all add: t1_def)
  then have i1: "lock_inv t1" "index_ok cfg t1" by (simp_all add: purge_ok_def)
  have b: "purge_ok cfg W G t1 t2" "own_blocks (owns t2 w) = []" "own_requests (owns t2 w) = []" "same_processes t2 t1"
    using free_reposts_purge [OF i1 le_refl a(2)] by (simp_all add: t2_def)
  have s: "same_processes t2 t" by (rule same_trans(2) [OF b(4) a(3)])
  have h: "lhb_owners t2 = lhb_owners t" "lhb_processes t2 = lhb_processes t" "prcs t2 = prcs t"
    "lhb_free_processes t2 = lhb_free_processes t" "own_process (owns t2 v) = own_process (owns t v)" for v
    using s by (simp_all add: same_processes_def)
  have e: "purge_owner w t = mod_own w (\<lambda>q. q\<lparr>own_owner_type := 0, own_owner_id := 0, own_process := 0, own_flags := {}\<rparr>)
     (let t3 = mod_prc (own_process (owns t2 w)) (\<lambda>p. p\<lparr>prc_owners := remove1 w (prc_owners p)\<rparr>) t2
      in t3\<lparr>lhb_owners := remove1 w (lhb_owners t3), lhb_free_owners := lhb_free_owners t3 @ [w]\<rparr>)"
    by (simp add: purge_owner_def Let_def t1_def [symmetric] t2_def [symmetric])
  have i2: "lock_inv t2" "index_ok cfg t2" using b(1) by (simp_all add: purge_ok_def)
  have i3: "lock_inv (purge_owner w t)"
    unfolding e by (rule drop_owner_inv [OF i2(1) _ b(3,2)]) (simp add: h w)
  have rl: "reqs (purge_owner w t) = reqs t2" "lcks (purge_owner w t) = lcks t2"
    "lhb_owners (purge_owner w t) = remove1 w (lhb_owners t2)"
    "lhb_processes (purge_owner w t) = lhb_processes t2" "prc_process_id (prcs (purge_owner w t) p) = prc_process_id (prcs t2 p)"
    "v \<noteq> w \<Longrightarrow> own_process (owns (purge_owner w t) v) = own_process (owns t2 v)" for p v
    by (simp_all add: e Let_def)
  have ix3: "index_ok cfg (purge_owner w t)"
    using i2(2) by (subst same_indexD(1) [of _ t2]) (simp_all add: e Let_def)
  have dw: "set (remove1 w (lhb_owners t2)) = set (lhb_owners t2) - {w}"
    using i2(1) by (intro set_remove1_eq) (simp add: lock_inv_def owners_ok_def)
  have c: "purge_ok cfg W G t2 (purge_owner w t)"
    unfolding purge_ok_def
  proof (intro conjI allI ballI impI)
    fix v
    assume "v \<in> set (lhb_owners (purge_owner w t))"
    then have "v \<noteq> w" "v \<in> set (lhb_owners t2)" by (simp_all add: rl dw)
    then show "v \<in> set (lhb_owners t2)" "own_process (owns (purge_owner w t) v) = own_process (owns t2 v)"
      by (simp_all add: rl)
  next
    fix v
    assume "v \<in> set (lhb_owners t2)" "\<not> W v"
    then show "v \<in> set (lhb_owners (purge_owner w t))" using W by (auto simp: rl dw)
  qed (use i3 ix3 in \<open>simp_all add: rl queues_le_def live_request_def\<close>)
  show "purge_ok cfg W G t (purge_owner w t)"
    by (rule purge_ok_trans [OF a(1) purge_ok_trans [OF b(1) c]])
  show "lhb_processes (purge_owner w t) = lhb_processes t" "lhb_free_processes (purge_owner w t) = lhb_free_processes t"
    "prc_owners (prcs (purge_owner w t) p) =
       (if p = own_process (owns t w) then remove1 w (prc_owners (prcs t p)) else prc_owners (prcs t p))"
    by (simp_all add: e Let_def h)
qed

subsection \<open>Purging a process\<close>

lemma prc_owners_set:
  assumes "lock_inv t" "p \<in> set (lhb_processes t)"
  shows "set (prc_owners (prcs t p)) = {v \<in> set (lhb_owners t). own_process (owns t v) = p}"
    "distinct (prc_owners (prcs t p))"
  using lock_invD(3) [OF assms(1)] assms(2) by (simp_all add: prcs_ok_def)

lemma purge_owners_purge:
  assumes "lock_inv t" "index_ok cfg t" "small t" "p \<in> set (lhb_processes t)" "length (prc_owners (prcs t p)) \<le> n"
    and W: "\<And>w. w \<in> set (prc_owners (prcs t p)) \<Longrightarrow> W w"
  shows "purge_ok cfg W G t (purge_owners n p t) \<and> prc_owners (prcs (purge_owners n p t) p) = [] \<and>
     lhb_processes (purge_owners n p t) = lhb_processes t \<and> lhb_free_processes (purge_owners n p t) = lhb_free_processes t"
  using assms
proof (induction n arbitrary: t)
  case 0
  then show ?case by (simp add: purge_ok_refl)
next
  case (Suc n)
  show ?case
  proof (cases "prc_owners (prcs t p)")
    case Nil
    then show ?thesis using Suc.prems by (simp add: purge_ok_refl)
  next
    case (Cons w ws)
    define t' where "t' = purge_owner w t"
    have w: "w \<in> set (lhb_owners t)" "own_process (owns t w) = p" "W w"
      using prc_owners_set [OF Suc.prems(1,4)] Cons Suc.prems(6) by auto
    note pw = purge_owner_purge(1) [OF Suc.prems(1-3) w(1), where W = W and G = G, OF w(3), folded t'_def]
      purge_owner_purge(2-4) [OF Suc.prems(1-3) w(1), where W = W, OF w(3), folded t'_def]
    have i: "lock_inv t'" "index_ok cfg t'" "small t'"
      using purge_ok_inv [OF pw(1)] Suc.prems(3) by simp_all
    have po: "prc_owners (prcs t' p) = ws" using pw(4) [of p] w(2) Cons by simp
    have l: "p \<in> set (lhb_processes t')" "length (prc_owners (prcs t' p)) \<le> n"
      using Suc.prems(4,5) Cons pw(2) po by simp_all
    have e: "purge_owners (Suc n) p t = purge_owners n p t'" using Cons by (simp add: t'_def)
    have W': "\<And>v. v \<in> set (prc_owners (prcs t' p)) \<Longrightarrow> W v" using Suc.prems(6) po Cons by simp
    note ih = Suc.IH [OF i l W']
    have "purge_ok cfg W G t (purge_owners n p t')"
      by (rule purge_ok_trans [OF pw(1) conjunct1 [OF ih]])
    then show ?thesis unfolding e using ih pw(2,3) by simp
  qed
qed

lemma purge_process_purge:
  assumes inv: "lock_inv t" and ix: "index_ok cfg t" and sm: "small t" and p: "p \<in> set (lhb_processes t)"
    and W: "\<And>w. w \<in> set (lhb_owners t) \<Longrightarrow> own_process (owns t w) = p \<Longrightarrow> W w" and G: "G p"
  shows "purge_ok cfg W G t (purge_process p t)"
    "lhb_processes (purge_process p t) = remove1 p (lhb_processes t)"
proof -
  define t1 where "t1 = purge_owners (length (prc_owners (prcs t p))) p t"
  have "\<And>w. w \<in> set (prc_owners (prcs t p)) \<Longrightarrow> W w" using prc_owners_set [OF inv p] W by blast
  then have a: "purge_ok cfg W G t t1 \<and> prc_owners (prcs t1 p) = [] \<and> lhb_processes t1 = lhb_processes t"
    using purge_owners_purge [of t cfg p "length (prc_owners (prcs t p))" W G] inv ix sm p by (simp add: t1_def)
  have i1: "lock_inv t1" "index_ok cfg t1" using a by (simp_all add: purge_ok_def)
  have pk: "prcs_ok t1" and pt: "prc_owners (prcs t1 p) = []" "lhb_processes t1 = lhb_processes t"
    using i1(1) a by (simp_all add: lock_inv_def)
  define t' where "t' = purge_process p t"
  have h: "reqs t' = reqs t1" "lcks t' = lcks t1" "owns t' = owns t1" "allocation t' = allocation t1"
    "owner_lists t' = owner_lists t1" "lhb_processes t' = remove1 p (lhb_processes t1)"
    "lhb_free_processes t' = lhb_free_processes t1 @ [p]" "same_index t' t1"
    "prc_owners (prcs t' q) = prc_owners (prcs t1 q)"
    "q \<noteq> p \<Longrightarrow> prc_process_id (prcs t' q) = prc_process_id (prcs t1 q)" for q
    by (simp_all add: t'_def purge_process_def Let_def t1_def [symmetric])
  have d: "distinct (lhb_processes t1 @ lhb_free_processes t1)" "p < lhb_used t1" "p \<in> set (lhb_processes t1)"
    using pk p pt(2) unfolding prcs_ok_def by simp_all
  have hs: "set (lhb_processes t') = set (lhb_processes t1) - {p}" using d(1) by (simp add: h(6) set_remove1_eq)
  have hu: "lhb_owners t' = lhb_owners t1" "lhb_used t' = lhb_used t1" using h(5) by simp_all
  have none: "own_process (owns t1 w) \<noteq> p" if "w \<in> set (lhb_owners t1)" for w
  proof
    assume "own_process (owns t1 w) = p"
    then have "w \<in> set (prc_owners (prcs t1 p))" using pk d(3) that by (simp add: prcs_ok_def)
    then show False using pt(1) by simp
  qed
  have "prcs_ok t'"
    unfolding prcs_ok_def
  proof (intro conjI ballI)
    show "distinct (lhb_processes t' @ lhb_free_processes t')" using d(1,3) by (auto simp: h(6,7) set_remove1_eq)
    show "q < lhb_used t'" if "q \<in> set (lhb_processes t') \<union> set (lhb_free_processes t')" for q
      using that pk d(2) by (auto simp: hs h(7) hu prcs_ok_def)
    show "distinct (prc_owners (prcs t' q))" if "q \<in> set (lhb_processes t')" for q
      using that pk by (simp add: hs h(9) prcs_ok_def)
    show "set (prc_owners (prcs t' q)) = {w \<in> set (lhb_owners t'). own_process (owns t' w) = q}"
      if "q \<in> set (lhb_processes t')" for q
      using that pk by (simp add: hs h(3,9) hu prcs_ok_def)
    show "own_process (owns t' w) \<in> set (lhb_processes t')" if "w \<in> set (lhb_owners t')" for w
      using that pk none by (simp add: hs h(3) hu prcs_ok_def)
  qed
  moreover have "owners_ok t'"
    using i1(1) h(5) by (subst owners_ok_cong [of _ t1]) (simp_all add: h(1,3) lock_inv_def)
  moreover have "table_ok t'"
    using lock_invD(1) [OF i1(1)] h(4) by (subst table_ok_cong [of _ t1]) (simp_all add: h(1,2))
  ultimately have "lock_inv t'" by (simp add: lock_inv_def)
  moreover have "index_ok cfg t'" using same_indexD(1) [OF h(8)] i1(2) by simp
  moreover have "q = p \<or> q \<in> set (lhb_processes t')" if "q \<in> set (lhb_processes t1)" for q using that hs by auto
  ultimately have "purge_ok cfg W G t1 t'"
    using G by (auto simp: purge_ok_def queues_le_def live_request_def h(1-3,10) hu hs)
  then show "purge_ok cfg W G t (purge_process p t)"
    using a purge_ok_trans unfolding t'_def by blast
  show "lhb_processes (purge_process p t) = remove1 p (lhb_processes t)"
    using h(6) pt(2) by (simp add: t'_def)
qed

text \<open>\<open>probe_processes\<close> purges processes that are gone.\<close>

definition gone :: "(nat \<Rightarrow> bool) \<Rightarrow> nat \<Rightarrow> table \<Rightarrow> nat \<Rightarrow> bool" where
  "gone exists pid t p \<longleftrightarrow> prc_process_id (prcs t p) \<noteq> pid \<and> \<not> exists (prc_process_id (prcs t p))"

definition probe_step :: "(nat \<Rightarrow> bool) \<Rightarrow> nat \<Rightarrow> nat \<Rightarrow> bool \<times> table \<Rightarrow> bool \<times> table" where
  "probe_step exists pid p pt = (if gone exists pid (snd pt) p then (True, purge_process p (snd pt)) else pt)"

lemma probe_processes_fold: "probe_processes exists pid t = fold (probe_step exists pid) (lhb_processes t) (False, t)"
  by (auto simp: probe_processes_def probe_step_def gone_def Let_def fun_eq_iff intro!: arg_cong2 [where f = "\<lambda>f. fold f"] fold_cong)

text \<open>The owners of processes that are gone are in \<open>W\<close>, these processes in \<open>G\<close>.\<close>

definition covers :: "(nat \<Rightarrow> bool) \<Rightarrow> (nat \<Rightarrow> bool) \<Rightarrow> (nat \<Rightarrow> bool) \<Rightarrow> nat \<Rightarrow> table \<Rightarrow> bool" where
  "covers W G exists pid t \<longleftrightarrow>
     (\<forall>w \<in> set (lhb_owners t). gone exists pid t (own_process (owns t w)) \<longrightarrow> W w) \<and>
     (\<forall>p \<in> set (lhb_processes t). gone exists pid t p \<longrightarrow> G p)"

lemma purge_covers:
  assumes "purge_ok cfg W G t t'" "covers W G exists pid t"
  shows "covers W G exists pid t'"
proof -
  have p: "p \<in> set (lhb_processes t) \<and> gone exists pid t' p = gone exists pid t p" if "p \<in> set (lhb_processes t')" for p
    using assms(1) that by (simp add: purge_ok_def gone_def)
  have "own_process (owns t' w) \<in> set (lhb_processes t')" if "w \<in> set (lhb_owners t')" for w
  proof -
    have "prcs_ok t'" using assms(1) by (simp add: purge_ok_def lock_inv_def)
    then show ?thesis using that by (simp add: prcs_ok_def)
  qed
  moreover have "w \<in> set (lhb_owners t) \<and> own_process (owns t' w) = own_process (owns t w)" if "w \<in> set (lhb_owners t')" for w
    using assms(1) that by (simp add: purge_ok_def)
  ultimately show ?thesis using assms(2) p unfolding covers_def by metis
qed

lemma probe_purge_aux:
  assumes "lock_inv t" "index_ok cfg t" "small t" "distinct ps" "set ps \<subseteq> set (lhb_processes t)" "covers W G exists pid t"
  shows "purge_ok cfg W G t (snd (fold (probe_step exists pid) ps (b, t)))"
  using assms
proof (induction ps arbitrary: b t)
  case Nil
  then show ?case by (simp add: purge_ok_refl)
next
  case (Cons p ps)
  show ?case
  proof (cases "gone exists pid t p")
    case False
    then show ?thesis using Cons by (simp add: probe_step_def)
  next
    case True
    define t' where "t' = purge_process p t"
    have p: "p \<in> set (lhb_processes t)" using Cons.prems(5) by simp
    have WG: "\<And>w. w \<in> set (lhb_owners t) \<Longrightarrow> own_process (owns t w) = p \<Longrightarrow> W w" "G p"
      using Cons.prems(6) True p by (auto simp: covers_def)
    note pp = purge_process_purge [OF Cons.prems(1-3) p, where W = W and G = G, OF WG, folded t'_def]
    have e: "fold (probe_step exists pid) (p # ps) (b, t) = fold (probe_step exists pid) ps (True, t')"
      using True by (simp add: probe_step_def t'_def)
    have i: "lock_inv t'" "index_ok cfg t'" "small t'"
      using purge_ok_inv [OF pp(1)] Cons.prems(3) by simp_all
    have "set (lhb_processes t') = set (lhb_processes t) - {p}"
      using Cons.prems(1) pp(2) by (simp add: set_remove1_eq lock_inv_def prcs_ok_def)
    then have l: "distinct ps" "set ps \<subseteq> set (lhb_processes t')" using Cons.prems(4,5) by auto
    show ?thesis
      unfolding e by (rule purge_ok_trans [OF pp(1) Cons.IH [OF i l purge_covers [OF pp(1) Cons.prems(6)]]])
  qed
qed

lemma probe_processes_purge:
  assumes "lock_inv t" "index_ok cfg t" "small t" "covers W G exists pid t"
  shows "purge_ok cfg W G t (snd (probe_processes exists pid t))"
proof -
  have "distinct (lhb_processes t)" using assms(1) by (simp add: lock_inv_def prcs_ok_def)
  then show ?thesis unfolding probe_processes_fold by (rule probe_purge_aux [OF assms(1-3) _ subset_refl assms(4)])
qed

subsection \<open>New processes and owners\<close>

text \<open>A block taken from a free list, or allocated.\<close>

lemma take_block:
  assumes inv: "lock_inv t" and len: "0 < len"
    and al: "(case xs of [] \<Rightarrow> alloc m remap len t | x # rest \<Rightarrow> (Some x, f rest)) = (b, t')"
    and f: "\<And>x rest. xs = x # rest \<Longrightarrow> lock_inv (f rest) \<and> same_index (f rest) t \<and> contents (f rest) = contents t \<and>
      lhb_owners (f rest) = lhb_owners t \<and> lhb_processes (f rest) = lhb_processes t \<and> x < lhb_used (f rest) \<and> fresh x (f rest)"
    and g: "\<And>n. fresh (lhb_used t) (t\<lparr>lhb_length := n, lhb_used := lhb_used t + len\<rparr>)"
  shows "lock_inv t' \<and> same_index t' t \<and> contents t' = contents t \<and> lhb_owners t' = lhb_owners t \<and>
    lhb_processes t' = lhb_processes t \<and> (\<forall>x. b = Some x \<longrightarrow> x < lhb_used t' \<and> fresh x t')"
proof (cases xs)
  case Nil
  then have "alloc m remap len t = (b, t')" using al by simp
  then show ?thesis
  proof (cases rule: alloc_cases)
    case 1
    then show ?thesis using inv by simp
  next
    case (2 n)
    then show ?thesis using lock_inv_grow [OF inv, of len n] g [of n] len by simp
  qed
next
  case (Cons x rest)
  then show ?thesis using al f [OF Cons] by auto
qed

definition fresh_process :: "nat \<Rightarrow> table \<Rightarrow> bool" where
  "fresh_process p t \<longleftrightarrow> p \<notin> set (lhb_processes t) \<and> p \<notin> set (lhb_free_processes t)"

definition fresh_owner :: "nat \<Rightarrow> table \<Rightarrow> bool" where
  "fresh_owner w t \<longleftrightarrow> w \<notin> set (lhb_owners t) \<and> w \<notin> set (lhb_free_owners t)"

lemma lock_inv_free_processes:
  assumes "lock_inv t" "lhb_free_processes t = p # ps"
  shows "lock_inv (t\<lparr>lhb_free_processes := ps\<rparr>)"
proof (rule lock_invI)
  show "table_ok (t\<lparr>lhb_free_processes := ps\<rparr>)"
    using lock_invD(1) [OF assms(1)] by (subst table_ok_cong [of _ t]) simp_all
  show "owners_ok (t\<lparr>lhb_free_processes := ps\<rparr>)"
    using lock_invD(2) [OF assms(1)] by (subst owners_ok_cong [of _ t]) simp_all
  show "prcs_ok (t\<lparr>lhb_free_processes := ps\<rparr>)"
    using lock_invD(3) [OF assms(1)] assms(2) by (simp add: prcs_ok_def)
qed

lemma lock_inv_free_owners:
  assumes "lock_inv t" "lhb_free_owners t = w # ws"
  shows "lock_inv (t\<lparr>lhb_free_owners := ws\<rparr>)"
proof (rule lock_invI)
  show "table_ok (t\<lparr>lhb_free_owners := ws\<rparr>)"
    using lock_invD(1) [OF assms(1)] by (subst table_ok_cong [of _ t]) simp_all
  show "owners_ok (t\<lparr>lhb_free_owners := ws\<rparr>)"
    using lock_invD(2) [OF assms(1)] assms(2) by (simp add: owners_ok_def owner_ok_def)
  show "prcs_ok (t\<lparr>lhb_free_owners := ws\<rparr>)"
    using lock_invD(3) [OF assms(1)] by (simp add: prcs_ok_def)
qed

lemma add_process_inv:
  assumes inv: "lock_inv t" and p: "p < lhb_used t" "fresh_process p t"
  shows "lock_inv (let t3 = mod_prc p (\<lambda>q. q\<lparr>prc_process_id := pid, prc_owners := []\<rparr>) t
     in t3\<lparr>lhb_processes := lhb_processes t3 @ [p]\<rparr>)" (is "lock_inv ?t")
proof (rule lock_invI)
  show "table_ok ?t"
    using lock_invD(1) [OF inv] by (subst table_ok_cong [of _ t]) (simp_all add: Let_def)
  show "owners_ok ?t"
    using lock_invD(2) [OF inv] by (subst owners_ok_cong [of _ t]) (simp_all add: Let_def)
  have pk: "prcs_ok t" by (rule lock_invD(3) [OF inv])
  have "{w \<in> set (lhb_owners t). own_process (owns t w) = p} = {}"
    using pk p(2) by (auto simp: prcs_ok_def fresh_process_def)
  then show "prcs_ok ?t"
    using pk p unfolding prcs_ok_def fresh_process_def Let_def by auto
qed

lemma add_owner_inv:
  assumes inv: "lock_inv t" and w: "w < lhb_used t" "fresh_owner w t" and p: "p \<in> set (lhb_processes t)"
  shows "lock_inv (let t3 = mod_own w (init_owner_block p owner_type owner_id) t;
     t4 = t3\<lparr>lhb_owners := lhb_owners t3 @ [w]\<rparr>
     in mod_prc p (\<lambda>q. q\<lparr>prc_owners := prc_owners q @ [w]\<rparr>) t4)" (is "lock_inv ?t")
    "lock_inv (mod_own w (init_owner_block p owner_type owner_id) t)" (is "lock_inv ?u")
proof -
  have ow: "owners_ok t" and pk: "prcs_ok t" by (rule lock_invD [OF inv])+
  have fw: "w \<notin> set (lhb_owners t)" "w \<notin> set (lhb_free_owners t)" using w(2) by (simp_all add: fresh_owner_def)
  have no: "lrq_owner (reqs t r) \<noteq> w" if "lrq_type (reqs t r)" for r
    using ow fw(1) that by (auto simp: owners_ok_def)
  have "r \<notin> set (own_requests (owns t w))" "r \<notin> set (own_pending (owns t w))" "r \<notin> set (own_blocks (owns t w))" for r
    using owner_queues(4,5,6) [OF ow, of r w] no [of r] by auto
  then have e: "own_requests (owns t w) = []" "own_pending (owns t w) = []" "own_blocks (owns t w) = []"
    by (metis list.set_intros(1) neq_Nil_conv)+
  have k: "own_key (init_owner_block p owner_type owner_id (owns t w)) = own_key (owns t w)"
    by (simp add: own_key_def init_owner_block_def e)
  have "table_ok ?u" using lock_invD(1) [OF inv] by simp
  moreover have ou: "owners_ok ?u" using ow k by (subst owners_ok_cong [of _ t]) simp_all
  moreover have "prcs_ok ?u" using pk fw(1) by (auto simp: prcs_ok_def)
  ultimately show "lock_inv ?u" by (simp add: lock_inv_def)
  have "table_ok ?t"
    using lock_invD(1) [OF inv] by (subst table_ok_cong [of _ t]) (simp_all add: Let_def)
  moreover have "owners_ok ?t"
    using ou fw w(1) by (auto simp: owners_ok_def owner_ok_def Let_def)
  moreover have "prcs_ok ?t"
  proof -
    have q: "set (prc_owners (prcs t q)) = {v \<in> set (lhb_owners t). own_process (owns t v) = q}"
      "distinct (prc_owners (prcs t q))" if "q \<in> set (lhb_processes t)" for q
      using pk that by (simp_all add: prcs_ok_def)
    have "own_process (owns ?t v) = (if v = w then p else own_process (owns t v))"
      "prc_owners (prcs ?t q) = (if q = p then prc_owners (prcs t p) @ [w] else prc_owners (prcs t q))"
      "lhb_owners ?t = lhb_owners t @ [w]" for v q
      by (simp_all add: Let_def init_owner_block_def)
    note h = this
    have "set (prc_owners (prcs ?t q)) = {v \<in> set (lhb_owners ?t). own_process (owns ?t v) = q} \<and>
        distinct (prc_owners (prcs ?t q))" if "q \<in> set (lhb_processes t)" for q
      using q [OF that] fw(1) unfolding h by (cases "q = p") auto
    moreover have "lhb_processes ?t = lhb_processes t" "lhb_free_processes ?t = lhb_free_processes t" "lhb_used ?t = lhb_used t"
      by (simp_all add: Let_def)
    moreover have "own_process (owns ?t v) \<in> set (lhb_processes t)" if "v \<in> set (lhb_owners ?t)" for v
      using that pk p unfolding h by (auto simp: prcs_ok_def)
    ultimately show ?thesis using pk unfolding prcs_ok_def by simp
  qed
  ultimately show "lock_inv ?t" by (simp add: lock_inv_def)
qed


end
