(* ===== verification/LockEffects.thy ===== *)
theory LockEffects
  imports LockPurge
begin

text \<open>
  What an operation leaves alone, in the form in which the operations of a system of threads
  compose: the requests of others, the processes of their owners and the process blocks.
\<close>

subsection \<open>Owners' processes\<close>

text \<open>The process of an owner, as the operating system numbers it.\<close>

definition home :: "table \<Rightarrow> nat \<Rightarrow> nat" where
  "home t w = prc_process_id (prcs t (own_process (owns t w)))"

definition ids_ok :: "table \<Rightarrow> bool" where
  "ids_ok t \<longleftrightarrow> (\<forall>p. prc_process_id (prcs t p) \<noteq> 0 \<longrightarrow> p \<in> set (lhb_processes t))"

definition same_homes :: "table \<Rightarrow> table \<Rightarrow> bool" where
  "same_homes t' t \<longleftrightarrow> (\<forall>w. own_process (owns t' w) = own_process (owns t w)) \<and>
     lhb_owners t' = lhb_owners t \<and> lhb_processes t' = lhb_processes t \<and> prcs t' = prcs t"

lemma same_homes_refl [simp]: "same_homes t t"
  by (simp add: same_homes_def)

lemma same_homes_trans: "same_homes t'' t' \<Longrightarrow> same_homes t' t \<Longrightarrow> same_homes t'' t"
  by (simp add: same_homes_def)

lemma same_processes_homes: "same_processes t' t \<Longrightarrow> same_homes t' t"
  by (simp add: same_homes_def same_processes_def)

lemma same_homesD:
  assumes "same_homes t' t"
  shows "home t' w = home t w" "ids_ok t' = ids_ok t" "lhb_processes t' = lhb_processes t" "prcs t' = prcs t"
    "lhb_owners t' = lhb_owners t"
  using assms by (simp_all add: same_homes_def home_def ids_ok_def)

subsection \<open>Effects\<close>

text \<open>What others may do to a request: grant it, or reject it while it waits.\<close>

definition refused :: "lrq \<Rightarrow> lrq \<Rightarrow> bool" where
  "refused q q' \<longleftrightarrow> lrq_type q' = lrq_type q \<and> lrq_lock q' = lrq_lock q \<and> lrq_owner q' = lrq_owner q \<and>
     (LRQ_repost \<in> lrq_flags q' \<longleftrightarrow> LRQ_repost \<in> lrq_flags q) \<and> lrq_requested q' = lrq_requested q \<and>
     lrq_state q' = lrq_state q \<and> LRQ_pending \<in> lrq_flags q \<and> LRQ_pending \<notin> lrq_flags q' \<and> LRQ_rejected \<in> lrq_flags q'"

definition settled :: "lrq \<Rightarrow> lrq \<Rightarrow> bool" where
  "settled q q' \<longleftrightarrow> steady q q' \<or> refused q q'"

lemma steady_settled [simp]: "steady q q' \<Longrightarrow> settled q q'"
  by (simp add: settled_def)

lemma settled_refl [simp]: "settled q q"
  by (simp add: settled_def)

lemma settled_trans: "settled q q' \<Longrightarrow> settled q' q'' \<Longrightarrow> settled q q''"
  unfolding settled_def steady_def refused_def by (elim disjE conjE; simp)

lemma settledD:
  assumes "settled q q'"
  shows "lrq_type q' = lrq_type q" "lrq_lock q' = lrq_lock q" "lrq_owner q' = lrq_owner q"
    "LRQ_repost \<in> lrq_flags q' \<longleftrightarrow> LRQ_repost \<in> lrq_flags q" "lrq_requested q' = lrq_requested q"
    "LRQ_pending \<in> lrq_flags q' \<Longrightarrow> LRQ_pending \<in> lrq_flags q"
    "LRQ_rejected \<in> lrq_flags q \<Longrightarrow> LRQ_rejected \<in> lrq_flags q'"
    "LRQ_pending \<in> lrq_flags q \<Longrightarrow> LRQ_pending \<notin> lrq_flags q' \<Longrightarrow> LRQ_rejected \<in> lrq_flags q' \<or> lrq_state q' = lrq_requested q'"
    "LRQ_pending \<notin> lrq_flags q \<Longrightarrow> lrq_state q' = lrq_state q"
  using assms by (auto simp: settled_def steady_def refused_def)

text \<open>
  An operation that may release the requests in \<open>X\<close>, create or change those in \<open>N\<close>, purge the
  owners in \<open>W\<close> and the process blocks in \<open>G\<close>, and may have given a number to the process blocks in \<open>P\<close>.
\<close>

definition effect :: "config \<Rightarrow> nat set \<Rightarrow> nat set \<Rightarrow> (nat \<Rightarrow> bool) \<Rightarrow> (nat \<Rightarrow> bool) \<Rightarrow> nat set \<Rightarrow> table \<Rightarrow> table \<Rightarrow> bool" where
  "effect cfg X N W G P t t' \<longleftrightarrow> lock_inv t' \<and> index_ok cfg t' \<and> (ids_ok t \<longrightarrow> ids_ok t') \<and>
     (\<forall>p. p \<notin> P \<longrightarrow> prc_process_id (prcs t' p) = prc_process_id (prcs t p) \<or> prc_process_id (prcs t' p) = 0) \<and>
     (\<forall>p \<in> set (lhb_processes t). \<not> G p \<longrightarrow> p \<in> set (lhb_processes t') \<and> (p \<notin> P \<longrightarrow> prc_process_id (prcs t' p) = prc_process_id (prcs t p))) \<and>
     (\<forall>x. live_request t x \<and> x \<notin> X \<and> \<not> W (lrq_owner (reqs t x)) \<longrightarrow> live_request t' x) \<and>
     (\<forall>x. live_request t' x \<and> x \<notin> N \<longrightarrow> live_request t x \<and> settled (reqs t x) (reqs t' x) \<and>
        home t' (lrq_owner (reqs t x)) = home t (lrq_owner (reqs t x)))"

lemma effectD:
  assumes "effect cfg X N W G P t t'"
  shows "lock_inv t'" "index_ok cfg t'" "ids_ok t \<Longrightarrow> ids_ok t'"
    "p \<notin> P \<Longrightarrow> prc_process_id (prcs t' p) = prc_process_id (prcs t p) \<or> prc_process_id (prcs t' p) = 0"
    "p \<in> set (lhb_processes t) \<Longrightarrow> \<not> G p \<Longrightarrow> p \<in> set (lhb_processes t')"
    "p \<in> set (lhb_processes t) \<Longrightarrow> \<not> G p \<Longrightarrow> p \<notin> P \<Longrightarrow> prc_process_id (prcs t' p) = prc_process_id (prcs t p)"
    "live_request t x \<Longrightarrow> x \<notin> X \<Longrightarrow> \<not> W (lrq_owner (reqs t x)) \<Longrightarrow> live_request t' x"
    "live_request t' x \<Longrightarrow> x \<notin> N \<Longrightarrow> live_request t x" "live_request t' x \<Longrightarrow> x \<notin> N \<Longrightarrow> settled (reqs t x) (reqs t' x)"
    "live_request t' x \<Longrightarrow> x \<notin> N \<Longrightarrow> home t' (lrq_owner (reqs t x)) = home t (lrq_owner (reqs t x))"
  using assms by (simp_all add: effect_def)

lemma effectI:
  assumes "lock_inv t'" "index_ok cfg t'" "ids_ok t \<Longrightarrow> ids_ok t'"
    "\<And>p. p \<notin> P \<Longrightarrow> prc_process_id (prcs t' p) = prc_process_id (prcs t p) \<or> prc_process_id (prcs t' p) = 0"
    "\<And>p. p \<in> set (lhb_processes t) \<Longrightarrow> \<not> G p \<Longrightarrow> p \<in> set (lhb_processes t')"
    "\<And>p. p \<in> set (lhb_processes t) \<Longrightarrow> \<not> G p \<Longrightarrow> p \<notin> P \<Longrightarrow> prc_process_id (prcs t' p) = prc_process_id (prcs t p)"
    "\<And>x. live_request t x \<Longrightarrow> x \<notin> X \<Longrightarrow> \<not> W (lrq_owner (reqs t x)) \<Longrightarrow> live_request t' x"
    "\<And>x. live_request t' x \<Longrightarrow> x \<notin> N \<Longrightarrow> live_request t x" "\<And>x. live_request t' x \<Longrightarrow> x \<notin> N \<Longrightarrow> settled (reqs t x) (reqs t' x)"
    "\<And>x. live_request t' x \<Longrightarrow> x \<notin> N \<Longrightarrow> home t' (lrq_owner (reqs t x)) = home t (lrq_owner (reqs t x))"
  shows "effect cfg X N W G P t t'"
  using assms by (simp add: effect_def)

lemma effect_refl: "lock_inv t \<Longrightarrow> index_ok cfg t \<Longrightarrow> effect cfg X N W G P t t"
  by (simp add: effect_def)

lemma effect_mono:
  assumes e: "effect cfg X N W G P t t'" and le: "X \<subseteq> Y" "N \<subseteq> M" "P \<subseteq> Q" and "\<And>w. W w \<Longrightarrow> V w" "\<And>p. G p \<Longrightarrow> F p"
  shows "effect cfg Y M V F Q t t'"
proof (rule effectI)
  note D = effectD [OF e]
  have n: "x \<notin> Y \<Longrightarrow> x \<notin> X" "x \<notin> M \<Longrightarrow> x \<notin> N" "x \<notin> Q \<Longrightarrow> x \<notin> P" for x using le by auto
  have c: "\<not> V w \<Longrightarrow> \<not> W w" "\<not> F p \<Longrightarrow> \<not> G p" for w p using assms(5,6) by blast+
  show "prc_process_id (prcs t' p) = prc_process_id (prcs t p) \<or> prc_process_id (prcs t' p) = 0" if "p \<notin> Q" for p
    by (rule D(4) [OF n(3) [OF that]])
  show "p \<in> set (lhb_processes t')" if "p \<in> set (lhb_processes t)" "\<not> F p" for p
    by (rule D(5) [OF that(1) c(2) [OF that(2)]])
  show "prc_process_id (prcs t' p) = prc_process_id (prcs t p)" if "p \<in> set (lhb_processes t)" "\<not> F p" "p \<notin> Q" for p
    by (rule D(6) [OF that(1) c(2) [OF that(2)] n(3) [OF that(3)]])
  show "live_request t' x" if "live_request t x" "x \<notin> Y" "\<not> V (lrq_owner (reqs t x))" for x
    by (rule D(7) [OF that(1) n(1) [OF that(2)] c(1) [OF that(3)]])
  show "live_request t x" "settled (reqs t x) (reqs t' x)" "home t' (lrq_owner (reqs t x)) = home t (lrq_owner (reqs t x))"
    if "live_request t' x" "x \<notin> M" for x using D(8-10) [OF that(1) n(2) [OF that(2)]] by simp_all
qed (use effectD(1-3) [OF e] in simp_all)

lemma effect_trans:
  assumes a: "effect cfg X {} W G P t t'" and b: "effect cfg X N W G P t' t''"
  shows "effect cfg X N W G P t t''"
proof -
  note A = effectD [OF a] and B = effectD [OF b]
  have "live_request t'' x" if x: "live_request t x" "x \<notin> X" "\<not> W (lrq_owner (reqs t x))" for x
  proof -
    have l: "live_request t' x" by (rule A(7) [OF x])
    have "lrq_owner (reqs t' x) = lrq_owner (reqs t x)" by (rule settledD(3) [OF A(9) [OF l]]) simp
    then show ?thesis using B(7) [OF l x(2)] x(3) by simp
  qed
  moreover have "live_request t x \<and> settled (reqs t x) (reqs t'' x) \<and> home t'' (lrq_owner (reqs t x)) = home t (lrq_owner (reqs t x))"
    if x: "live_request t'' x" "x \<notin> N" for x
  proof -
    have l: "live_request t' x" by (rule B(8) [OF x])
    have s: "settled (reqs t x) (reqs t' x)" by (rule A(9) [OF l]) simp
    then have "lrq_owner (reqs t' x) = lrq_owner (reqs t x)" by (rule settledD(3))
    then show ?thesis using A(8,10) [OF l] B(9,10) [OF x] settled_trans [OF s] by simp
  qed
  moreover have "prc_process_id (prcs t'' p) = prc_process_id (prcs t p) \<or> prc_process_id (prcs t'' p) = 0" if "p \<notin> P" for p
    using A(4) [OF that] B(4) [OF that] by auto
  moreover have "p \<in> set (lhb_processes t'') \<and> (p \<notin> P \<longrightarrow> prc_process_id (prcs t'' p) = prc_process_id (prcs t p))"
    if "p \<in> set (lhb_processes t)" "\<not> G p" for p
    using A(5,6) [OF that] B(5,6) [OF A(5) [OF that] that(2)] by simp
  ultimately show ?thesis using A(3) B(1-3) by (simp add: effect_def)
qed

text \<open>An operation followed by one that only grants or rejects.\<close>

abbreviation quiet :: "config \<Rightarrow> table \<Rightarrow> table \<Rightarrow> bool" where
  "quiet cfg t t' \<equiv> effect cfg {} {} (\<lambda>_. False) (\<lambda>_. False) {} t t'"

lemma effect_then:
  assumes a: "effect cfg X N W G P t t'" and b: "quiet cfg t' t''"
  shows "effect cfg X N W G P t t''"
proof -
  note A = effectD [OF a] and B = effectD [OF b, simplified]
  have o: "lrq_owner (reqs t' x) = lrq_owner (reqs t x)" if "live_request t'' x" "x \<notin> N" for x
    by (rule settledD(3) [OF A(9) [OF B(8) [OF that(1)] that(2)]])
  show ?thesis
  proof (rule effectI)
    fix x
    assume x: "live_request t'' x" "x \<notin> N"
    note l = B(8) [OF x(1)]
    show "live_request t x" by (rule A(8) [OF l x(2)])
    show "settled (reqs t x) (reqs t'' x)" by (rule settled_trans [OF A(9) [OF l x(2)] B(9) [OF x(1)]])
    show "home t'' (lrq_owner (reqs t x)) = home t (lrq_owner (reqs t x))"
      using A(10) [OF l x(2)] B(10) [OF x(1)] o [OF x] by simp
  next
    show "prc_process_id (prcs t'' p) = prc_process_id (prcs t p) \<or> prc_process_id (prcs t'' p) = 0" if "p \<notin> P" for p
      using A(4) [OF that] B(4) [of p] by auto
  qed (use A(3,5-7) B(1-3,5-7) in simp_all)
qed

lemma effect_call:
  assumes "lock_inv t'" "index_ok cfg t'" "same_homes t' t"
    "\<And>x. settled (reqs t x) (reqs t' x)"
  shows "effect cfg X N W G P t t'"
proof -
  have l: "live_request t' x = live_request t x" for x
    using settledD(1,4) [OF assms(4)] by (simp add: live_request_def)
  note h = same_homesD [OF assms(3)]
  show ?thesis
    by (rule effectI [OF assms(1,2)]) (use assms(4) l in \<open>simp_all add: h\<close>)
qed

subsection \<open>Purging\<close>

lemma release_requests_processes [simp]: "same_processes (release_requests n w t) t'' = same_processes t t''"
  by (induction n w t rule: release_requests.induct) (simp_all split: list.split)

lemma free_reposts_processes [simp]: "same_processes (free_reposts n w t) t'' = same_processes t t''"
  by (induction n w t rule: free_reposts.induct) (simp_all split: list.split)

lemma purge_owner_ids: "prc_process_id (prcs (purge_owner w t) p) = prc_process_id (prcs t p)"
  "lhb_processes (purge_owner w t) = lhb_processes t"
proof -
  define t2 where "t2 = free_reposts (length (own_blocks (owns (release_requests (length (own_requests (owns t w))) w t) w))) w
    (release_requests (length (own_requests (owns t w))) w t)"
  have "same_processes t2 t" by (simp add: t2_def)
  then have s: "prcs t2 = prcs t" "lhb_processes t2 = lhb_processes t" by (simp_all add: same_processes_def)
  show "prc_process_id (prcs (purge_owner w t) p) = prc_process_id (prcs t p)"
    "lhb_processes (purge_owner w t) = lhb_processes t"
    by (simp_all add: purge_owner_def Let_def t2_def [symmetric] s mod_own_def mod_prc_def)
qed

lemma purge_owners_ids: "prc_process_id (prcs (purge_owners n q t) p) = prc_process_id (prcs t p)"
  "lhb_processes (purge_owners n q t) = lhb_processes t"
  by (induction n q t rule: purge_owners.induct) (simp_all add: purge_owner_ids split: list.split)

lemma purge_process_ids: "prc_process_id (prcs (purge_process q t) p) = (if p = q then 0 else prc_process_id (prcs t p))"
  "lhb_processes (purge_process q t) = remove1 q (lhb_processes t)"
  by (simp_all add: purge_process_def Let_def purge_owners_ids mod_prc_def)

text \<open>What a purge does to process numbers.\<close>

definition ids_only_fall :: "table \<Rightarrow> table \<Rightarrow> bool" where
  "ids_only_fall t t' \<longleftrightarrow> (ids_ok t \<longrightarrow> ids_ok t') \<and>
     (\<forall>p. prc_process_id (prcs t' p) = prc_process_id (prcs t p) \<or> prc_process_id (prcs t' p) = 0)"

lemma ids_only_fall_refl: "ids_only_fall t t"
  by (simp add: ids_only_fall_def)

lemma ids_only_fall_trans: "ids_only_fall t t' \<Longrightarrow> ids_only_fall t' t'' \<Longrightarrow> ids_only_fall t t''"
  unfolding ids_only_fall_def by metis

lemma purge_owner_fall: "ids_only_fall t (purge_owner w t)"
  by (simp add: ids_only_fall_def ids_ok_def purge_owner_ids)

lemma purge_process_fall: "ids_only_fall t (purge_process p t)"
proof -
  have "q \<in> set (remove1 p (lhb_processes t))" if "q \<noteq> p" "q \<in> set (lhb_processes t)" for q
    using that by simp
  then show ?thesis by (auto simp: ids_only_fall_def ids_ok_def purge_process_ids)
qed

lemma probe_processes_fall: "ids_only_fall t (snd (probe_processes exists pid t))"
proof -
  have "ids_only_fall t (snd (fold (probe_step exists pid) ps (b, t)))" for ps b
  proof (induction ps arbitrary: b t)
    case (Cons p ps)
    obtain b1 t1 where s: "probe_step exists pid p (b, t) = (b1, t1)" by fastforce
    then have "ids_only_fall t t1" using purge_process_fall ids_only_fall_refl by (auto simp: probe_step_def split: if_splits)
    then show ?case using Cons [of t1 b1] s ids_only_fall_trans by auto
  qed (simp add: ids_only_fall_refl)
  then show ?thesis by (simp add: probe_processes_fold)
qed

lemma effect_purge:
  assumes p: "purge_ok cfg W G t t'" and f: "ids_only_fall t t'"
  shows "effect cfg X {} W G P t t'"
proof -
  note D = purge_okD [OF p]
  have "home t' (lrq_owner (reqs t x)) = home t (lrq_owner (reqs t x))" if x: "live_request t' x" for x
  proof -
    have o: "lrq_owner (reqs t' x) = lrq_owner (reqs t x)" using D(6) [OF x] by (simp add: steady_def)
    have w: "lrq_owner (reqs t x) \<in> set (lhb_owners t')" using live_requestD(3) [OF D(1) x] o by simp
    then have "own_process (owns t' (lrq_owner (reqs t x))) \<in> set (lhb_processes t')"
      using lock_invD(3) [OF D(1)] by (simp add: prcs_ok_def)
    then show ?thesis using D(11) D(8) [OF w] by (simp add: home_def)
  qed
  then show ?thesis using D(1-5,9-) steady_settled [OF D(6)] f unfolding effect_def ids_only_fall_def by simp
qed

lemma purge_owner_effect:
  assumes "lock_inv t" "index_ok cfg t" "small t" "w \<in> set (lhb_owners t)" "W w"
  shows "effect cfg X {} W G P t (purge_owner w t)"
  by (rule effect_purge [OF purge_owner_purge(1) purge_owner_fall]) (use assms in auto)

lemma purge_process_effect:
  assumes "lock_inv t" "index_ok cfg t" "small t" "p \<in> set (lhb_processes t)"
    "\<And>w. w \<in> set (lhb_owners t) \<Longrightarrow> own_process (owns t w) = p \<Longrightarrow> W w" "G p"
  shows "effect cfg X {} W G P t (purge_process p t)"
  by (rule effect_purge [OF purge_process_purge(1) purge_process_fall]) (use assms in auto)

lemma probe_processes_effect:
  assumes "lock_inv t" "index_ok cfg t" "small t" "covers W G exists pid t"
  shows "effect cfg X {} W G P t (snd (probe_processes exists pid t))"
  by (rule effect_purge [OF probe_processes_purge [OF assms] probe_processes_fall])


subsection \<open>Requesting a lock\<close>

lemma given_homes [simp]: "same_homes (given r type w ast arg t) t"
  "same_homes (on_lock r l series data t) t'' = same_homes t t''"
  by (auto simp: same_homes_def given_def on_lock_def bump_operations_def bump_def)

lemma bump_more_processes [simp]:
  "same_processes (bump_operations n t) t'' = same_processes t t''" "same_processes (bump_denies i t) t'' = same_processes t t''"
  by (simp_all add: bump_operations_def bump_denies_def)

lemma begin_wait_processes [simp]: "same_processes (begin_wait r i t) t'' = same_processes t t''"
  by (simp add: begin_wait_def Let_def same_owners_mod_own)

lemma grant_or_que_homes: "same_homes (snd (grant_or_que r l i t)) t"
  by (rule same_processes_homes) (simp add: grant_or_que_def deny_enqueue_def Let_def)

lemma new_lock_homes:
  assumes "alloc_lock cfg len (given r type w ast arg t) = (Some l, t5)" "config_ok cfg"
  shows "same_homes (new_lock cfg r l series key type data t5) t"
proof -
  have "same_homes t5 t"
    using assms
  proof (cases rule: alloc_lock_cases)
    case (free l')
    then show ?thesis using given_homes(1) [of r type w ast arg t] by (simp add: same_homes_def)
  next
    case (grown n m k)
    then show ?thesis using given_homes(1) [of r type w ast arg t] by (simp add: same_homes_def)
  qed simp
  moreover have "same_processes (new_lock cfg r l series key type data t5) t5"
    by (simp add: new_lock_def Let_def insert_data_que_def)
  ultimately show ?thesis using same_processes_homes same_homes_trans by blast
qed

lemma drop_request_homes: "same_homes (drop_request r w (given r type w ast arg t)) t"
  using given_homes(1) [of r type w ast arg t] by (auto simp: drop_request_def Let_def same_homes_def)

text \<open>The requests that a call leaves in the table.\<close>

fun created :: "outcome \<Rightarrow> nat set" where
  "created (Granted r) = {r}"
| "created (Waiting r) = {r}"
| "created _ = {}"

lemma grant_or_que_denied: "fst (grant_or_que r l i t) \<in> {Granted r, Waiting r, Denied (deny_status i)}"
  "created (fst (grant_or_que r l i t)) = {} \<Longrightarrow> \<not> live_request (snd (grant_or_que r l i t)) r"
  by (auto simp: grant_or_que_def Let_def deny_enqueue_def release_request_dead split: if_splits)

lemma enqueue_result:
  assumes inv: "lock_inv t" and ix: "index_ok cfg t" and sm: "roomy t" and cfg: "config_ok cfg"
    and w: "own_count (owns t w) \<noteq> 0 \<Longrightarrow> w \<in> set (lhb_owners t)"
    and prior: "prior \<noteq> 0 \<Longrightarrow> live_request t prior"
    and ty: "type < LCK_max" and k: "length key < 256" "series < 256"
    and enq: "enqueue cfg prior series key type ast arg data i w t = (out, t')"
  obtains (refused) "created out = {}" "lock_inv t'" "index_ok cfg t'" "same_homes t' t"
      "\<And>x. live_request t' x \<Longrightarrow> live_request t x \<and> steady (reqs t x) (reqs t' x)"
      "\<And>x. live_request t x \<Longrightarrow> x \<notin> {prior} - {0} \<Longrightarrow> live_request t' x"
    | (request) r t3 where "same_homes t3 t" "fresh_request r t3"
      "\<And>x. live_request t3 x \<Longrightarrow> live_request t x \<and> steady (reqs t x) (reqs t3 x)"
      "\<And>x. live_request t x \<Longrightarrow> x \<notin> {prior} - {0} \<Longrightarrow> live_request t3 x"
      "lock_inv t'" "index_ok cfg t'" "\<And>x. x \<noteq> r \<Longrightarrow> steady (reqs t3 x) (reqs t' x)" "same_homes t' t3"
      "created out = {r} \<and> (out = Granted r \<or> out = Waiting r) \<and> request_at t' r w type out \<or> created out = {} \<and> \<not> live_request t' r"
proof (cases "own_count (owns t w) = 0 \<or> w = 0")
  case True
  then have "out = Failed" "t' = t" using enq by (auto simp: enqueue_def)
  then show thesis using inv ix by (intro refused) simp_all
next
  case False
  define t2 where "t2 = (if prior \<noteq> 0 then internal_dequeue prior (bump Enqs t) else bump Enqs t)"
  obtain b t3 where al: "alloc_request cfg t2 = (b, t3)" by fastforce
  have lp: "prior \<noteq> 0 \<Longrightarrow> live_request (bump Enqs t) prior" using prior by simp
  have i2: "lock_inv t2" "index_ok cfg t2"
    using inv ix lp roomy_small [OF sm] by (simp_all add: t2_def internal_dequeue_inv internal_dequeue_index)
  have le2: "queues_le t2 t"
    using internal_dequeue_le [of prior "bump Enqs t"] by (simp add: t2_def queues_le_def)
  have st2: "steady (reqs t x) (reqs t2 x)" if "x \<notin> {prior} - {0}" for x
    using internal_dequeue_steady [of x prior "bump Enqs t"] that by (auto simp: t2_def)
  have nl2: "\<not> live_request t2 x" if "x \<in> {prior} - {0}" for x
    using that by (simp add: t2_def internal_dequeue_def release_request_dead)
  have h2: "same_homes t2 t" by (rule same_processes_homes) (simp add: t2_def)
  note ar = alloc_request_ok [OF i2(1) al cfg]
  have r3: "reqs t3 = reqs t2" using ar(3) by simp
  have lv3: "live_request t3 x \<Longrightarrow> live_request t x \<and> steady (reqs t x) (reqs t3 x)"
    "live_request t x \<Longrightarrow> x \<notin> {prior} - {0} \<Longrightarrow> live_request t3 x" for x
  proof -
    have l: "live_request t3 x = live_request t2 x" by (simp add: live_request_def r3)
    then show "live_request t3 x \<Longrightarrow> live_request t x \<and> steady (reqs t x) (reqs t3 x)"
      using nl2 [of x] st2 [of x] steady_live [OF st2, of x] r3 by (cases "x \<in> {prior} - {0}") simp_all
    show "live_request t x \<Longrightarrow> x \<notin> {prior} - {0} \<Longrightarrow> live_request t3 x"
      using steady_live [OF st2] l by blast
  qed
  have h3: "same_homes t3 t" using h2 ar(3-5) by (simp add: same_homes_def)
  have ix3: "index_ok cfg t3"
    using i2(2) ar(3,6-8) same_indexD(1) [of t3 t2 cfg] by (simp add: same_index_def)
  have rm3: "roomy t3" using queues_le_roomy [OF le2 sm] ar(3) by (simp add: roomy_def)
  have en: "(out, t') = (case b of None \<Rightarrow> (Failed, t3)
       | Some r \<Rightarrow>
           (case find_lock cfg series key t3 of
              Some l \<Rightarrow> grant_or_que r l i (on_lock r l series data (given r type w ast arg t3))
            | None \<Rightarrow>
                (case alloc_lock cfg (length key) (given r type w ast arg t3) of
                   (None, t5) \<Rightarrow> (Failed, drop_request r w t5)
                 | (Some l, t5) \<Rightarrow> (Granted r, new_lock cfg r l series key type data t5))))"
    using False enqueue_cases [of t w cfg prior series key type ast arg data i]
    unfolding Let_def t2_def [symmetric] al enq [symmetric] by simp
  show thesis
  proof (cases b)
    case None
    then show thesis using ar(1) ix3 lv3 h3 en by (intro refused) simp_all
  next
    case (Some r)
    have fr: "fresh_request r t3" by (rule ar(2) [OF Some])
    have w3: "w \<in> set (lhb_owners t3)" using w False same_homesD(5) [OF h3] by simp
    note req = request [OF h3 fr lv3]
    show thesis
    proof (cases "find_lock cfg series key t3")
      case fl: (Some l)
      note o = on_lock_ok [OF ar(1) rm3 fr w3 ty ix3 fl refl, where i = i and data = data and ast = ast and arg = arg]
      define u where "u = on_lock r l series data (given r type w ast arg t3)"
      have e: "out = fst (grant_or_que r l i u)" "t' = snd (grant_or_que r l i u)"
        using en by (simp_all add: Some fl u_def prod_eq_iff)
      have "same_homes u t3" by (simp add: u_def)
      then have h: "same_homes t' t3" unfolding e using grant_or_que_homes same_homes_trans by blast
      show thesis
      proof (rule req)
        show "created out = {r} \<and> (out = Granted r \<or> out = Waiting r) \<and> request_at t' r w type out \<or> created out = {} \<and> \<not> live_request t' r"
          using grant_or_que_denied [of r l i u] o(4) unfolding e u_def [symmetric] by auto
      qed (use o(1-3) h in \<open>simp_all add: e u_def\<close>)
    next
      case fl: None
      obtain b5 t5 where al5: "alloc_lock cfg (length key) (given r type w ast arg t3) = (b5, t5)" by fastforce
      show thesis
      proof (cases b5)
        case n5: None
        have t5: "t5 = given r type w ast arg t3"
          using al5 cfg n5 by (cases rule: alloc_lock_cases) auto
        have e: "out = Failed" "t' = drop_request r w (given r type w ast arg t3)"
          using en al5 n5 t5 by (simp_all add: Some fl)
        have "\<not> live_request t' r" by (simp add: e drop_request_def live_request_def Let_def)
        moreover have "reqs t' x = reqs t3 x" if "x \<noteq> r" for x
          using that by (simp add: e drop_request_def Let_def)
        moreover have "index_ok cfg t'" using ix3 by (simp add: e drop_request_def Let_def)
        moreover have "lock_inv t'" "same_homes t' t3"
          unfolding e by (rule drop_request_inv [OF ar(1) fr] drop_request_homes)+
        ultimately show thesis using e(1) by (intro req) simp_all
      next
        case s5: (Some l)
        note o = new_lock_ok [OF ar(1) fr w3 ty ix3 cfg fl k al5 [unfolded s5], where data = data]
        have e: "out = Granted r" "t' = new_lock cfg r l series key type data t5"
          using en al5 s5 by (simp_all add: Some fl)
        show thesis
          by (rule req) (use o new_lock_homes [OF al5 [unfolded s5] cfg] in \<open>simp_all add: e\<close>)
      qed
    qed
  qed
qed

lemma enqueue_effect:
  assumes "lock_inv t" "index_ok cfg t" "roomy t" "config_ok cfg" "own_count (owns t w) \<noteq> 0 \<Longrightarrow> w \<in> set (lhb_owners t)"
    "prior \<noteq> 0 \<Longrightarrow> live_request t prior" "type < LCK_max" "length key < 256" "series < 256"
    and enq: "enqueue cfg prior series key type ast arg data i w t = (out, t')"
  shows "effect cfg ({prior} - {0}) (created out) W G P t t'" (is ?A)
    "r \<in> created out \<Longrightarrow> (out = Granted r \<or> out = Waiting r) \<and> request_at t' r w type out \<and>
       \<not> (live_request t r \<and> r \<notin> {prior} - {0})" (is "_ \<Longrightarrow> ?B")
    "same_homes t' t" (is ?C)
proof -
  have "?A \<and> (r \<in> created out \<longrightarrow> ?B) \<and> ?C"
  proof (rule enqueue_result [OF assms])
    assume none: "created out = {}" "lock_inv t'" "index_ok cfg t'" "same_homes t' t"
      "\<And>x. live_request t' x \<Longrightarrow> live_request t x \<and> steady (reqs t x) (reqs t' x)"
      "\<And>x. live_request t x \<Longrightarrow> x \<notin> {prior} - {0} \<Longrightarrow> live_request t' x"
    have "effect cfg ({prior} - {0}) (created out) W G P t t'"
      by (rule effectI [OF none(2,3)]) (use none(5,6) same_homesD [OF none(4)] in simp_all)
    then show ?thesis using none by simp
  next
    fix r' t3
    assume h3: "same_homes t3 t" and fr: "fresh_request r' t3"
      and lv3: "\<And>x. live_request t3 x \<Longrightarrow> live_request t x \<and> steady (reqs t x) (reqs t3 x)"
        "\<And>x. live_request t x \<Longrightarrow> x \<notin> {prior} - {0} \<Longrightarrow> live_request t3 x"
      and i: "lock_inv t'" "index_ok cfg t'" and st: "\<And>x. x \<noteq> r' \<Longrightarrow> steady (reqs t3 x) (reqs t' x)" and h: "same_homes t' t3"
      and out: "created out = {r'} \<and> (out = Granted r' \<or> out = Waiting r') \<and> request_at t' r' w type out \<or>
        created out = {} \<and> \<not> live_request t' r'"
    have ht: "same_homes t' t" using same_homes_trans [OF h h3] .
    have n3: "\<not> live_request t3 r'" using fr by (simp add: fresh_request_def live_request_def)
    then have nl: "\<not> (live_request t r' \<and> r' \<notin> {prior} - {0})" using lv3(2) by blast
    have l3: "live_request t' x = live_request t3 x" if "x \<noteq> r'" for x using steady_live [OF st [OF that]] .
    have "effect cfg ({prior} - {0}) (created out) W G P t t'"
    proof (rule effectI [OF i])
      show "live_request t' x" if "live_request t x" "x \<notin> {prior} - {0}" for x
        using lv3(2) [OF that] l3 [of x] n3 by (cases "x = r'") auto
      show "live_request t x" "settled (reqs t x) (reqs t' x)" "home t' (lrq_owner (reqs t x)) = home t (lrq_owner (reqs t x))"
        if x: "live_request t' x" "x \<notin> created out" for x
      proof -
        have "x \<noteq> r'" using x out by auto
        then have s: "live_request t x \<and> steady (reqs t x) (reqs t3 x)" "steady (reqs t3 x) (reqs t' x)"
          using lv3(1) l3 x(1) st by auto
        then show "live_request t x" "settled (reqs t x) (reqs t' x)" "home t' (lrq_owner (reqs t x)) = home t (lrq_owner (reqs t x))"
          using steady_trans same_homesD(1) [OF ht] by (auto simp: settled_def)
      qed
    qed (use same_homesD [OF ht] in simp_all)
    then show ?thesis using out nl ht by auto
  qed
  then show ?A "r \<in> created out \<Longrightarrow> ?B" ?C by auto
qed

subsection \<open>The other operations\<close>

lemma internal_convert_processes [simp]: "same_processes (snd (internal_convert r type i ast arg t)) t'' = same_processes t t''"
  by (simp add: internal_convert_def Let_def deny_convert_def)

lemma call_effect:
  assumes ok: "call_ok cfg {r} t t'" and sp: "same_processes t' t" and st: "\<And>x. x \<noteq> r \<Longrightarrow> steady (reqs t x) (reqs t' x)"
    and r: "live_request t r" "r \<notin> X \<Longrightarrow> live_request t' r" "r \<notin> N \<Longrightarrow> live_request t' r \<Longrightarrow> steady (reqs t r) (reqs t' r)"
  shows "effect cfg X N W G P t t'"
proof (rule effectI [OF call_okD(1,2) [OF ok]])
  note h = same_homesD [OF same_processes_homes [OF sp]]
  have l: "live_request t' x = live_request t x" if "x \<noteq> r" for x using steady_live [OF st [OF that]] .
  show "live_request t' x" if "live_request t x" "x \<notin> X" for x using that l r(2) by (cases "x = r") auto
  show "live_request t x" "settled (reqs t x) (reqs t' x)" if "live_request t' x" "x \<notin> N" for x
    using that l st r by (cases "x = r"; auto)+
qed (use same_homesD [OF same_processes_homes [OF sp]] in simp_all)

lemma convert_effect:
  assumes "lock_inv t" "index_ok cfg t" "small t" "live_request t r" "type < LCK_max" "LRQ_pending \<notin> lrq_flags (reqs t r)"
  shows "effect cfg {} {r} W G P t (snd (convert r type i ast arg t))" "same_homes (snd (convert r type i ast arg t)) t"
    "live_request (snd (convert r type i ast arg t)) r"
proof -
  have sp: "same_processes (snd (convert r type i ast arg t)) t" by (simp add: convert_def)
  then show "same_homes (snd (convert r type i ast arg t)) t" by (rule same_processes_homes)
  define t1 where "t1 = bump_operations (lbl_series (lcks t (lrq_lock (reqs t r)))) (bump Converts t)"
  have t1: "reqs t1 = reqs t" "live_request t1 r" using assms(4) by (simp_all add: t1_def)
  have c: "snd (convert r type i ast arg t) = (if own_count (owns t (lrq_owner (reqs t r))) = 0 then t
      else snd (internal_convert r type i ast arg t1))"
    by (simp add: convert_def t1_def)
  note o = internal_convert_outcome [OF t1(2), of type i ast arg]
  have "live_request (snd (internal_convert r type i ast arg t1)) r"
    using o(1,2) o(3) [of "deny_status i"] assms(6) t1(1) by (auto simp: request_at_def)
  then show l: "live_request (snd (convert r type i ast arg t)) r" using assms(4) by (simp add: c)
  have "steady (reqs t x) (reqs (snd (convert r type i ast arg t)) x)" if "x \<noteq> r" for x
    using internal_convert_steady [OF that, of t1] t1(1) by (simp add: c)
  then show "effect cfg {} {r} W G P t (snd (convert r type i ast arg t))"
    using l assms(4) by (intro call_effect [OF convert_ok(1) [OF assms] sp]) simp_all
qed

lemma dequeue_effect:
  assumes "lock_inv t" "index_ok cfg t" "small t" "live_request t r"
  shows "effect cfg {r} {} W G P t (snd (dequeue r t))"
proof (rule call_effect [OF dequeue_ok [OF assms]])
  show "steady (reqs t x) (reqs (snd (dequeue r t)) x)" if "x \<noteq> r" for x
    using internal_dequeue_steady [OF that, of "bump_operations n (bump Deqs t)" for n] by (simp add: dequeue_def)
  show "steady (reqs t r) (reqs (snd (dequeue r t)) r)" if "live_request (snd (dequeue r t)) r"
    using that by (auto simp: dequeue_def internal_dequeue_def release_request_dead split: if_splits)
qed (use assms(4) in \<open>simp_all add: dequeue_def\<close>)

lemma downgrade_effect:
  assumes "lock_inv t" "index_ok cfg t" "small t" "live_request t r" "LRQ_pending \<notin> lrq_flags (reqs t r)"
  shows "effect cfg {r} {r} W G P t (snd (downgrade r t))"
proof (rule call_effect [OF downgrade_ok [OF assms]])
  show "steady (reqs t x) (reqs (snd (downgrade r t)) x)" if "x \<noteq> r" for x
    using internal_dequeue_steady [OF that, of "bump Downgrades t"] internal_convert_steady [OF that, of "bump Downgrades t"]
    by (simp add: downgrade_def Let_def)
qed (use assms(4) in \<open>simp_all add: downgrade_def Let_def\<close>)

lemma downgrade_resolved:
  assumes "live_request t r" "LRQ_pending \<notin> lrq_flags (reqs t r)"
  shows "LRQ_pending \<notin> lrq_flags (reqs (snd (downgrade r t)) r) \<or> \<not> live_request (snd (downgrade r t)) r"
proof -
  have "LRQ_pending \<notin> lrq_flags (reqs (snd (internal_convert r s 0 ast arg (bump Downgrades t))) r)" for s ast arg
  proof -
    note o = internal_convert_outcome [of "bump Downgrades t" r s 0 ast arg]
    have "fst (internal_convert r s 0 ast arg (bump Downgrades t)) \<noteq> Waiting r"
      by (simp add: internal_convert_cases)
    moreover have "fst (internal_convert r s 0 ast arg (bump Downgrades t)) = Granted r \<or>
        snd (internal_convert r s 0 ast arg (bump Downgrades t)) = deny_convert r 0 (asked r s (bump Downgrades t))"
      by (simp add: internal_convert_cases)
    ultimately consider "fst (internal_convert r s 0 ast arg (bump Downgrades t)) = Granted r"
      | "snd (internal_convert r s 0 ast arg (bump Downgrades t)) = deny_convert r 0 (asked r s (bump Downgrades t))"
      by blast
    then show ?thesis
    proof cases
      case 1
      then show ?thesis using o(1) assms by (simp add: request_at_def)
    next
      case 2
      then show ?thesis using assms(2) by simp
    qed
  qed
  then show ?thesis
    using assms(2) by (simp add: downgrade_def Let_def internal_dequeue_def release_request_dead)
qed

lemma finish_enqueue_effect:
  assumes "lock_inv t" "index_ok cfg t" "small t" "live_request t r"
  shows "effect cfg {r} {} W G P t (snd (finish_enqueue r i t))"
    "live_request (snd (finish_enqueue r i t)) r \<longleftrightarrow> fst (finish_enqueue r i t)"
proof -
  show "effect cfg {r} {} W G P t (snd (finish_enqueue r i t))"
  proof (rule call_effect [OF finish_enqueue_ok [OF assms]])
    show "steady (reqs t x) (reqs (snd (finish_enqueue r i t)) x)" if "x \<noteq> r" for x
      using release_request_steady [OF that, of "bump_denies i t"] by (simp add: finish_enqueue_def deny_enqueue_def)
    show "steady (reqs t r) (reqs (snd (finish_enqueue r i t)) r)" if "live_request (snd (finish_enqueue r i t)) r"
      using that by (auto simp: finish_enqueue_def deny_enqueue_def release_request_dead split: if_splits)
  qed (use assms(4) in \<open>simp_all add: finish_enqueue_def deny_enqueue_def\<close>)
  show "live_request (snd (finish_enqueue r i t)) r \<longleftrightarrow> fst (finish_enqueue r i t)"
    using assms(4) by (simp add: finish_enqueue_def deny_enqueue_def release_request_dead)
qed

lemma finish_convert_effect:
  assumes "lock_inv t" "index_ok cfg t" "small t" "live_request t r"
  shows "effect cfg {} {r} W G P t (snd (finish_convert r i ast t))"
    "live_request (snd (finish_convert r i ast t)) r"
    "LRQ_pending \<notin> lrq_flags (reqs t r) \<Longrightarrow> LRQ_pending \<notin> lrq_flags (reqs (snd (finish_convert r i ast t)) r)"
proof -
  have pp: "steady (reqs t x) (reqs (post_pending l t) x)" for x l by (rule post_pending_steady)
  have "live_request (post_pending l t) r" for l using steady_live [OF pp] assms(4) by simp
  then show l: "live_request (snd (finish_convert r i ast t)) r"
    using assms(4) by (auto simp: finish_convert_def deny_convert_def live_request_def split: option.splits)
  show "effect cfg {} {r} W G P t (snd (finish_convert r i ast t))"
  proof (rule call_effect [OF finish_convert_ok [OF assms]])
    show "same_processes (snd (finish_convert r i ast t)) t"
      by (auto simp: finish_convert_def deny_convert_def split: option.splits)
    show "steady (reqs t x) (reqs (snd (finish_convert r i ast t)) x)" if "x \<noteq> r" for x
      using that pp by (auto simp: finish_convert_def deny_convert_def split: option.splits)
  qed (use assms(4) l in simp_all)
  show "LRQ_pending \<notin> lrq_flags (reqs t r) \<Longrightarrow> LRQ_pending \<notin> lrq_flags (reqs (snd (finish_convert r i ast t)) r)"
    using settledD(6) [OF steady_settled [OF pp]] by (auto simp: finish_convert_def deny_convert_def split: option.splits)
qed

lemma repost_effect:
  assumes "lock_inv t" "index_ok cfg t" "config_ok cfg" "w \<noteq> 0 \<Longrightarrow> w \<in> set (lhb_owners t)"
  shows "effect cfg X {} W G P t (snd (repost cfg ast arg w t))"
proof -
  obtain b t1 where al: "alloc_request cfg t = (b, t1)" by fastforce
  note ar = alloc_request_ok [OF assms(1) al assms(3)]
  have h: "same_homes (snd (repost cfg ast arg w t)) t"
    using ar(3-5) by (auto simp: repost_def al Let_def same_homes_def split: option.split)
  have "reqs (snd (repost cfg ast arg w t)) x = reqs t x \<or>
      \<not> live_request (snd (repost cfg ast arg w t)) x \<and> \<not> live_request t x" for x
    using ar(2,3) by (auto simp: repost_def al Let_def live_request_def fresh_request_def split: option.split)
  note cs = this
  note ok = call_okD(1,2) [OF repost_ok [OF assms]]
  show ?thesis
  proof (rule effectI [OF ok])
    show "live_request (snd (repost cfg ast arg w t)) x" if "live_request t x" for x
      using cs [of x] that by (auto simp: live_request_def)
    show "live_request t x" "settled (reqs t x) (reqs (snd (repost cfg ast arg w t)) x)"
      if "live_request (snd (repost cfg ast arg w t)) x" for x using cs [of x] that by (auto simp: live_request_def)
  qed (use same_homesD [OF h] in simp_all)
qed

lemma same_effect:
  assumes "lock_inv t'" "index_ok cfg t'" "same_processes t' t" "reqs t' = reqs t"
  shows "effect cfg X {} W G P t t'"
  by (rule effect_call [OF assms(1,2) same_processes_homes [OF assms(3)]]) (simp add: assms(4))

lemma mod_own_effect:
  assumes "lock_inv t" "index_ok cfg t" "own_key (f (owns t w)) = own_key (owns t w)" "own_process (f (owns t w)) = own_process (owns t w)"
  shows "effect cfg X {} W G P t (mod_own w f t)"
  by (rule same_effect) (use assms in \<open>simp_all add: mod_own_inv same_owners_mod_own\<close>)

lemma read_effects:
  assumes "lock_inv t" "index_ok cfg t"
  shows "effect cfg X {} W G P t (snd (queryData series agg t))" "effect cfg X {} W G P t (snd (readData r t))"
    "effect cfg X {} W G P t (snd (readData2 cfg series key w t))" "effect cfg X {} W G P t (snd (cancelWait w t))"
    "effect cfg X {} W G P t (snd (release_owner w t))"
proof -
  show "effect cfg X {} W G P t (snd (queryData series agg t))"
    by (rule same_effect) (use assms in \<open>simp_all add: queryData_def Let_def\<close>)
  show "effect cfg X {} W G P t (snd (readData r t))"
    by (rule same_effect) (use assms in \<open>simp_all add: readData_def Let_def\<close>)
  show "effect cfg X {} W G P t (snd (readData2 cfg series key w t))"
    by (rule same_effect) (use assms in \<open>simp_all add: readData2_def Let_def\<close>)
  show "effect cfg X {} W G P t (snd (cancelWait w t))"
    by (rule same_effect) (use assms in \<open>simp_all add: cancelWait_def\<close>)
  show "effect cfg X {} W G P t (snd (release_owner w t))"
    unfolding release_owner_def Let_def using assms effect_refl [OF assms]
    by (auto intro!: mod_own_effect simp: own_key_def)
qed

lemma set_data_inv: "lock_inv t \<Longrightarrow> lock_inv (set_data l d t)"
proof -
  assume inv: "lock_inv t"
  have "table_ok (set_data l d t)"
    using lock_invD(1) [OF inv] lock_ok_cong [of "set_data l d t" _ t] by (auto simp: table_ok_def allocation_ok_def)
  then show ?thesis using inv same_inv [of "set_data l d t" t] by (auto simp: lock_inv_def)
qed

lemma writeData_effect:
  assumes "lock_inv t" "index_ok cfg t" "live_request t r"
  shows "effect cfg X {} W G P t (snd (writeData r d t))"
  by (rule same_effect)
    (use assms live_lock_type [OF assms(1,3)] in \<open>simp_all add: writeData_def Let_def set_data_inv set_data_index\<close>)

end
