(* ===== verification/Deadlock.thy ===== *)
theory Deadlock
  imports LockSafe
begin

text \<open>
  The deadlock scan of \<open>src/lock/lock.cpp\<close> (\<open>deadlock_clear\<close>, \<open>deadlock_scan\<close>,
  \<open>deadlock_walk\<close>): a depth-first search of the wait-for graph that marks requests in their
  flags. The recursion carries fuel; one more than the bytes of the table in use is enough,
  because every level of the recursion marks another request of the table.
\<close>

subsection \<open>The search\<close>

definition deadlock_clear :: "table \<Rightarrow> table" where
  "deadlock_clear t = fold (\<lambda>w t. fold (\<lambda>r. mod_req r (clear_flags {LRQ_deadlock, LRQ_scanned}))
     (own_pending (owns t w)) t) (lhb_owners t) t"

text \<open>The requests that the owner of a blocking request waits for; \<open>walk\<close> is the recursive call.\<close>

fun walk_targets :: "(nat \<Rightarrow> bool \<times> table \<Rightarrow> (nat option \<times> bool \<times> table) option) \<Rightarrow> nat list \<Rightarrow>
    bool \<times> table \<Rightarrow> (nat option \<times> bool \<times> table) option" where
  "walk_targets walk [] (m, t) = Some (None, m, t)"
| "walk_targets walk (x # xs) (m, t) =
     (if LRQ_wait_timeout \<in> lrq_flags (reqs t x) then walk_targets walk xs (m, t)
      else case walk x (m, t) of
             None \<Rightarrow> None
           | Some (Some v, m', t') \<Rightarrow> Some (Some v, m', t')
           | Some (None, m', t') \<Rightarrow> walk_targets walk xs (m', t'))"

text \<open>An owner that still has to see or finish a blocking notice may yet let go.\<close>

definition busy :: "table \<Rightarrow> nat \<Rightarrow> bool" where
  "busy t b \<longleftrightarrow> (let w = lrq_owner (reqs t b)
     in OWN_signaled \<in> own_flags (owns t w) \<or> OWN_wakeup \<in> own_flags (owns t w) \<or> own_blocks (owns t w) \<noteq> [] \<or>
        LRQ_just_granted \<in> lrq_flags (reqs t b))"

fun walk_requests :: "(nat \<Rightarrow> bool \<times> table \<Rightarrow> (nat option \<times> bool \<times> table) option) \<Rightarrow> nat \<Rightarrow> bool \<Rightarrow> nat list \<Rightarrow>
    bool \<times> table \<Rightarrow> (nat option \<times> bool \<times> table) option" where
  "walk_requests walk r conversion [] (m, t) = Some (None, m, t)"
| "walk_requests walk r conversion (b # bs) (m, t) =
     (if conversion \<and> (r = b \<or> compatibility (lrq_requested (reqs t r)) (lrq_state (reqs t b)))
      then walk_requests walk r conversion bs (m, t)
      else if \<not> conversion \<and> r = b then Some (None, m, t)
      else if \<not> conversion \<and>
         compatibility (lrq_requested (reqs t r)) (max (lrq_state (reqs t b)) (lrq_requested (reqs t b)))
      then walk_requests walk r conversion bs (m, t)
      else if busy t b then walk_requests walk r conversion bs (True, t)
      else case walk_targets walk (own_pending (owns t (lrq_owner (reqs t b)))) (m, t) of
             None \<Rightarrow> None
           | Some (Some v, m', t') \<Rightarrow> Some (Some v, m', t')
           | Some (None, m', t') \<Rightarrow> walk_requests walk r conversion bs (m', t'))"

primrec deadlock_walk :: "nat \<Rightarrow> nat \<Rightarrow> bool \<times> table \<Rightarrow> (nat option \<times> bool \<times> table) option" where
  "deadlock_walk 0 r mt = None"
| "deadlock_walk (Suc n) r mt =
     (let (m, t) = mt in
      if LRQ_scanned \<in> lrq_flags (reqs t r) then Some (None, m, t)
      else if LRQ_deadlock \<in> lrq_flags (reqs t r) then Some (Some r, m, t)
      else let t1 = mod_req r (set_flag LRQ_deadlock) t;
               conversion = (LCK_null < lrq_state (reqs t1 r))
           in case walk_requests (deadlock_walk n) r conversion (lbl_requests (lcks t1 (lrq_lock (reqs t1 r)))) (m, t1) of
                None \<Rightarrow> None
              | Some (Some v, m', t') \<Rightarrow> Some (Some v, m', t')
              | Some (None, m', t') \<Rightarrow>
                  Some (None, m', mod_req r (\<lambda>q. q\<lparr>lrq_flags := insert LRQ_scanned (lrq_flags q - {LRQ_deadlock})\<rparr>) t'))"

text \<open>Whether there is a victim; \<open>None\<close> stands for fuel that ran out.\<close>

definition deadlock_scan :: "nat \<Rightarrow> nat \<Rightarrow> table \<Rightarrow> (nat option \<times> table) option" where
  "deadlock_scan w r t =
     (let t1 = deadlock_clear (bump Scans t)
      in case deadlock_walk (Suc (lhb_used t1)) r (False, t1) of
           None \<Rightarrow> None
         | Some (victim, maybe, t2) \<Rightarrow>
             Some (victim, if victim = None \<and> \<not> maybe
                           then mod_own w (\<lambda>q. q\<lparr>own_flags := insert OWN_scanned (own_flags q)\<rparr>) t2 else t2))"

subsection \<open>The wait-for graph\<close>

text \<open>The requests on the lock of \<open>r\<close> that keep it from being granted, in the order of the queue.\<close>

definition blockers_of :: "table \<Rightarrow> nat \<Rightarrow> nat list" where
  "blockers_of t r =
     (let rs = lbl_requests (lcks t (lrq_lock (reqs t r)))
      in if LCK_null < lrq_state (reqs t r)
         then filter (\<lambda>b. b \<noteq> r \<and> \<not> compatibility (lrq_requested (reqs t r)) (lrq_state (reqs t b))) rs
         else filter (\<lambda>b. \<not> compatibility (lrq_requested (reqs t r)) (max (lrq_state (reqs t b)) (lrq_requested (reqs t b))))
                (takeWhile (\<lambda>b. b \<noteq> r) rs))"

definition waits_on :: "table \<Rightarrow> nat \<Rightarrow> nat list" where
  "waits_on t b = filter (\<lambda>x. LRQ_wait_timeout \<notin> lrq_flags (reqs t x)) (own_pending (owns t (lrq_owner (reqs t b))))"

text \<open>
  \<open>r\<close> waits for \<open>x\<close> if \<open>x\<close> is what the owner of a request in its way waits for, and that owner
  has nothing left to do that might remove the obstacle.
\<close>

definition wait_graph :: "table \<Rightarrow> (nat \<times> nat) set" where
  "wait_graph t = {(r, x). \<exists>b \<in> set (blockers_of t r). \<not> busy t b \<and> x \<in> set (waits_on t b)}"

text \<open>The graph does not depend on the marks.\<close>

definition unmarked :: "lrq \<Rightarrow> lrq" where
  "unmarked q = q\<lparr>lrq_flags := lrq_flags q - {LRQ_deadlock, LRQ_scanned}\<rparr>"

definition same_graph :: "table \<Rightarrow> table \<Rightarrow> bool" where
  "same_graph g t \<longleftrightarrow> (\<forall>x. unmarked (reqs t x) = unmarked (reqs g x)) \<and> lcks t = lcks g \<and> owns t = owns g"

lemma unmarked_eq:
  assumes "unmarked q = unmarked q'"
  shows "lrq_state q = lrq_state q'" "lrq_requested q = lrq_requested q'" "lrq_lock q = lrq_lock q'"
    "lrq_owner q = lrq_owner q'" "f \<noteq> LRQ_deadlock \<Longrightarrow> f \<noteq> LRQ_scanned \<Longrightarrow> (f \<in> lrq_flags q) = (f \<in> lrq_flags q')"
proof -
  obtain F F' where F: "F = lrq_flags q" "F' = lrq_flags q'" by simp
  show "lrq_state q = lrq_state q'" "lrq_requested q = lrq_requested q'" "lrq_lock q = lrq_lock q'" "lrq_owner q = lrq_owner q'"
    using assms by (cases q; cases q'; simp add: unmarked_def)+
  have "lrq_flags (unmarked q) = lrq_flags (unmarked q')" using assms by simp
  then show "f \<noteq> LRQ_deadlock \<Longrightarrow> f \<noteq> LRQ_scanned \<Longrightarrow> (f \<in> lrq_flags q) = (f \<in> lrq_flags q')"
    by (auto simp: unmarked_def)
qed

lemma same_graph_refl [simp]: "same_graph t t"
  by (simp add: same_graph_def)

lemma same_graph_trans: "same_graph g t \<Longrightarrow> same_graph t t' \<Longrightarrow> same_graph g t'"
  by (simp add: same_graph_def)

lemma same_graph_sym: "same_graph g t \<Longrightarrow> same_graph t g"
  by (simp add: same_graph_def)

lemma same_graph_req:
  assumes "same_graph g t"
  shows "lrq_state (reqs t x) = lrq_state (reqs g x)" "lrq_requested (reqs t x) = lrq_requested (reqs g x)"
    "lrq_lock (reqs t x) = lrq_lock (reqs g x)" "lrq_owner (reqs t x) = lrq_owner (reqs g x)"
    "LRQ_wait_timeout \<in> lrq_flags (reqs t x) \<longleftrightarrow> LRQ_wait_timeout \<in> lrq_flags (reqs g x)"
    "lcks t = lcks g" "owns t = owns g"
proof -
  have u: "unmarked (reqs t x) = unmarked (reqs g x)" and "lcks t = lcks g" "owns t = owns g"
    using assms by (simp_all add: same_graph_def)
  then show "lcks t = lcks g" "owns t = owns g" by simp_all
  show "LRQ_wait_timeout \<in> lrq_flags (reqs t x) \<longleftrightarrow> LRQ_wait_timeout \<in> lrq_flags (reqs g x)"
    by (rule unmarked_eq(5) [OF u]) simp_all
qed (use assms unmarked_eq(1-4) [of "reqs t x" "reqs g x"] in \<open>simp_all add: same_graph_def\<close>)

lemma same_graph_eq:
  assumes "same_graph g t"
  shows "blockers_of t r = blockers_of g r" "busy t b = busy g b" "waits_on t b = waits_on g b"
    "wait_graph t = wait_graph g"
proof -
  note u = unmarked_eq [of "reqs t x" "reqs g x" for x]
  have e: "unmarked (reqs t x) = unmarked (reqs g x)" "lcks t = lcks g" "owns t = owns g" for x
    using assms by (simp_all add: same_graph_def)
  show b: "blockers_of t r = blockers_of g r" for r unfolding blockers_of_def u(1-3) [OF e(1)] e(2) ..
  show bz: "busy t b = busy g b" for b
    using u(4,5) [OF e(1)] e(3) by (simp add: busy_def)
  show w: "waits_on t b = waits_on g b" for b
    using u(4,5) [OF e(1)] e(3) by (simp add: waits_on_def)
  show "wait_graph t = wait_graph g" by (simp add: wait_graph_def b bz w)
qed

lemma unmarked_simps [simp]:
  "unmarked (set_flag LRQ_deadlock q) = unmarked q"
  "unmarked (q\<lparr>lrq_flags := insert LRQ_scanned (lrq_flags q - {LRQ_deadlock})\<rparr>) = unmarked q"
  "unmarked (clear_flags {LRQ_deadlock, LRQ_scanned} q) = unmarked q"
  by (simp_all add: unmarked_def set_flag_def clear_flags_def insert_Diff_if) (simp_all add: Diff_insert [symmetric] insert_commute)

lemma same_graph_mod:
  "unmarked (f (reqs t r)) = unmarked (reqs t r) \<Longrightarrow> same_graph g t \<Longrightarrow> same_graph g (mod_req r f t)"
  by (simp add: same_graph_def)

subsection \<open>Correctness of the search\<close>

text \<open>Requests of \<open>U\<close> on the path to the current one, and those that are done with.\<close>

definition on_path :: "nat set \<Rightarrow> table \<Rightarrow> nat set" where
  "on_path U t = {x \<in> U. LRQ_deadlock \<in> lrq_flags (reqs t x)}"

definition done_with :: "nat set \<Rightarrow> table \<Rightarrow> nat set" where
  "done_with U t = {x \<in> U. LRQ_scanned \<in> lrq_flags (reqs t x)}"

text \<open>Nothing leads out of what is done with, and no cycle goes through it.\<close>

definition search_ok :: "table \<Rightarrow> nat set \<Rightarrow> table \<Rightarrow> bool" where
  "search_ok g U t \<longleftrightarrow> same_graph g t \<and> on_path U t \<inter> done_with U t = {} \<and> wait_graph g `` done_with U t \<subseteq> done_with U t \<and>
     (\<forall>x \<in> done_with U t. (x, x) \<notin> (wait_graph g)\<^sup>+)"

text \<open>A call that finds nothing.\<close>

definition searched :: "table \<Rightarrow> nat set \<Rightarrow> bool \<times> table \<Rightarrow> nat set \<Rightarrow> bool \<times> table \<Rightarrow> bool" where
  "searched g U mt X mt' \<longleftrightarrow> search_ok g U (snd mt') \<and> on_path U (snd mt') = on_path U (snd mt) \<and>
     done_with U (snd mt) \<subseteq> done_with U (snd mt') \<and> X \<subseteq> done_with U (snd mt') \<and> (fst mt \<longrightarrow> fst mt') \<and>
     (\<not> fst mt' \<longrightarrow> (\<forall>x \<in> done_with U (snd mt') - done_with U (snd mt). \<forall>b \<in> set (blockers_of g x). \<not> busy g b))"

definition found :: "table \<Rightarrow> nat set \<Rightarrow> nat \<Rightarrow> table \<Rightarrow> bool" where
  "found g U v t \<longleftrightarrow> same_graph g t \<and> v \<in> U \<and> (v, v) \<in> (wait_graph g)\<^sup>+"

text \<open>A call that runs out of fuel \<open>n\<close> has \<open>n\<close> requests of \<open>U\<close> yet to mark.\<close>

definition search_post :: "table \<Rightarrow> nat set \<Rightarrow> nat \<Rightarrow> bool \<times> table \<Rightarrow> nat set \<Rightarrow> (nat option \<times> bool \<times> table) option \<Rightarrow> bool" where
  "search_post g U n mt X res \<longleftrightarrow>
     (case res of None \<Rightarrow> n \<le> card (U - (on_path U (snd mt) \<union> done_with U (snd mt)))
      | Some (None, mt') \<Rightarrow> searched g U mt X mt' | Some (Some v, _, t') \<Rightarrow> found g U v t')"

lemma searched_refl: "search_ok g U t \<Longrightarrow> searched g U (m, t) {} (m, t)"
  by (simp add: searched_def)

lemma searched_trans:
  assumes "searched g U mt X mt'" "searched g U mt' Y mt''"
  shows "searched g U mt (X \<union> Y) mt''"
  using assms unfolding searched_def by blast

lemma searched_weaken: "searched g U mt X mt' \<Longrightarrow> Y \<subseteq> X \<Longrightarrow> searched g U mt Y mt'"
  unfolding searched_def by blast

lemma on_path_done_mark:
  assumes "r \<in> U"
  shows "on_path U (mod_req r (set_flag LRQ_deadlock) t) = insert r (on_path U t)"
  "done_with U (mod_req r (set_flag LRQ_deadlock) t) = done_with U t"
  "on_path U (mod_req r (\<lambda>q. q\<lparr>lrq_flags := insert LRQ_scanned (lrq_flags q - {LRQ_deadlock})\<rparr>) t) = on_path U t - {r}"
  "done_with U (mod_req r (\<lambda>q. q\<lparr>lrq_flags := insert LRQ_scanned (lrq_flags q - {LRQ_deadlock})\<rparr>) t) = insert r (done_with U t)"
  using assms by (auto simp: on_path_def done_with_def)

text \<open>What a call on a target relies on and brings about.\<close>

definition walk_correct :: "table \<Rightarrow> nat set \<Rightarrow> nat \<Rightarrow> (nat \<Rightarrow> bool \<times> table \<Rightarrow> (nat option \<times> bool \<times> table) option) \<Rightarrow> bool" where
  "walk_correct g U n walk \<longleftrightarrow> (\<forall>x mt. x \<in> U \<and> search_ok g U (snd mt) \<and> (\<forall>y \<in> on_path U (snd mt). (y, x) \<in> (wait_graph g)\<^sup>+) \<longrightarrow>
     search_post g U n mt {x} (walk x mt))"

lemma search_post_bind:
  assumes "search_post g U n mt X r1" "finite U" "\<And>mt'. r1 = Some (None, mt') \<Longrightarrow> search_post g U n mt' Y (k mt')"
  shows "search_post g U n mt (X \<union> Y) (case r1 of None \<Rightarrow> None | Some (Some v, m', t') \<Rightarrow> Some (Some v, m', t')
     | Some (None, m', t') \<Rightarrow> k (m', t'))"
proof (cases r1)
  case None
  then show ?thesis using assms(1) by (simp add: search_post_def)
next
  case (Some a)
  obtain v m t where a: "a = (v, m, t)" by (cases a)
  show ?thesis
  proof (cases v)
    case None
    then have s: "searched g U mt X (m, t)" using assms(1) Some a by (simp add: search_post_def)
    have p: "search_post g U n (m, t) Y (k (m, t))" using assms(3) Some a None by simp
    have "card (U - (on_path U t \<union> done_with U t)) \<le> card (U - (on_path U (snd mt) \<union> done_with U (snd mt)))"
      by (rule card_mono) (use s assms(2) in \<open>auto simp: searched_def\<close>)
    then show ?thesis
      using p searched_trans [OF s, of Y] Some a None unfolding search_post_def
      by (auto split: option.splits prod.splits)
  next
    case (Some v')
    then show ?thesis using assms(1) \<open>r1 = Some a\<close> a by (simp add: search_post_def)
  qed
qed

lemma walk_targets_correct:
  assumes walk: "walk_correct g U n walk" and ok: "search_ok g U t" and U: "finite U"
    and edges: "\<And>x y. x \<in> set xs \<Longrightarrow> LRQ_wait_timeout \<notin> lrq_flags (reqs g x) \<Longrightarrow> y \<in> on_path U t \<Longrightarrow> (y, x) \<in> (wait_graph g)\<^sup>+"
    and inU: "\<And>x. x \<in> set xs \<Longrightarrow> LRQ_wait_timeout \<notin> lrq_flags (reqs g x) \<Longrightarrow> x \<in> U"
  shows "search_post g U n (m, t) {x \<in> set xs. LRQ_wait_timeout \<notin> lrq_flags (reqs g x)} (walk_targets walk xs (m, t))"
  using ok edges inU
proof (induction xs arbitrary: m t)
  case Nil
  then show ?case by (simp add: search_post_def searched_refl)
next
  case (Cons x xs)
  have g: "same_graph g t" using Cons.prems(1) by (simp add: search_ok_def)
  have tm: "LRQ_wait_timeout \<in> lrq_flags (reqs t x) \<longleftrightarrow> LRQ_wait_timeout \<in> lrq_flags (reqs g x)"
    by (rule same_graph_req(5) [OF g])
  show ?case
  proof (cases "LRQ_wait_timeout \<in> lrq_flags (reqs g x)")
    case True
    then have "{y \<in> set (x # xs). LRQ_wait_timeout \<notin> lrq_flags (reqs g y)} =
        {y \<in> set xs. LRQ_wait_timeout \<notin> lrq_flags (reqs g y)}" by auto
    then show ?thesis using Cons.IH [OF Cons.prems(1)] Cons.prems(2,3) True tm by simp
  next
    case False
    let ?Y = "{y \<in> set xs. LRQ_wait_timeout \<notin> lrq_flags (reqs g y)}"
    have wp: "search_post g U n (m, t) {x} (walk x (m, t))"
      using walk Cons.prems False by (simp add: walk_correct_def)
    have "search_post g U n (m, t) ({x} \<union> ?Y) (case walk x (m, t) of None \<Rightarrow> None
        | Some (Some v, m', t') \<Rightarrow> Some (Some v, m', t') | Some (None, m', t') \<Rightarrow> walk_targets walk xs (m', t'))"
    proof (rule search_post_bind [OF wp U])
      fix mt'
      assume w: "walk x (m, t) = Some (None, mt')"
      obtain m' t' where mt': "mt' = (m', t')" by (cases mt')
      have "searched g U (m, t) {x} (m', t')" using wp w by (simp add: search_post_def mt')
      then have st: "search_ok g U t'" "on_path U t' = on_path U t" by (simp_all add: searched_def)
      show "search_post g U n mt' ?Y (walk_targets walk xs mt')"
        unfolding mt' by (rule Cons.IH [OF st(1)]) (use Cons.prems(2,3) in \<open>simp_all add: st(2)\<close>)
    qed
    moreover have "{y \<in> set (x # xs). LRQ_wait_timeout \<notin> lrq_flags (reqs g y)} = {x} \<union> ?Y" using False by auto
    ultimately show ?thesis using False tm by simp
  qed
qed

text \<open>The requests in the way of \<open>r\<close> that are still to be looked at.\<close>

definition rest_blockers :: "table \<Rightarrow> nat \<Rightarrow> bool \<Rightarrow> nat list \<Rightarrow> nat list" where
  "rest_blockers g r conversion bs =
     (if conversion
      then filter (\<lambda>b. b \<noteq> r \<and> \<not> compatibility (lrq_requested (reqs g r)) (lrq_state (reqs g b))) bs
      else filter (\<lambda>b. \<not> compatibility (lrq_requested (reqs g r)) (max (lrq_state (reqs g b)) (lrq_requested (reqs g b))))
             (takeWhile (\<lambda>b. b \<noteq> r) bs))"

definition wait_targets :: "table \<Rightarrow> nat list \<Rightarrow> nat set" where
  "wait_targets g bs = {x. \<exists>b \<in> set bs. \<not> busy g b \<and> x \<in> set (waits_on g b)}"

lemma wait_graph_targets: "wait_graph g `` {r} = wait_targets g (blockers_of g r)"
  by (auto simp: wait_graph_def wait_targets_def)

lemma walk_requests_correct:
  assumes walk: "walk_correct g U n walk" and ok: "search_ok g U t" and U: "finite U"
    and edges: "\<And>x y. x \<in> wait_targets g (rest_blockers g r c bs) \<Longrightarrow> y \<in> on_path U t \<Longrightarrow> (y, x) \<in> (wait_graph g)\<^sup>+"
    and inU: "wait_targets g (rest_blockers g r c bs) \<subseteq> U"
  shows "search_post g U n (m, t) (wait_targets g (rest_blockers g r c bs)) (walk_requests walk r c bs (m, t)) \<and>
     (\<forall>m' t'. walk_requests walk r c bs (m, t) = Some (None, m', t') \<and> \<not> m' \<longrightarrow>
        (\<forall>b \<in> set (rest_blockers g r c bs). \<not> busy g b))"
  using ok edges inU
proof (induction bs arbitrary: m t)
  case Nil
  then show ?case by (simp add: search_post_def searched_refl wait_targets_def rest_blockers_def)
next
  case (Cons b bs)
  have g: "same_graph g t" using Cons.prems(1) by (simp add: search_ok_def)
  have e: "lrq_state (reqs t x) = lrq_state (reqs g x)" "lrq_requested (reqs t x) = lrq_requested (reqs g x)"
    "lrq_owner (reqs t x) = lrq_owner (reqs g x)" "owns t = owns g" for x
    by (rule same_graph_req [OF g])+
  have bz: "busy t b = busy g b" by (rule same_graph_eq(2) [OF g])
  let ?rb = "rest_blockers g r c"
  show ?case
  proof (cases "?rb (b # bs) = ?rb bs \<and> walk_requests walk r c (b # bs) (m, t) = walk_requests walk r c bs (m, t)")
    case True
    then show ?thesis using Cons by simp
  next
    case skip: False
    show ?thesis
    proof (cases "\<not> c \<and> r = b")
      case True
      then have "?rb (b # bs) = []" "walk_requests walk r c (b # bs) (m, t) = Some (None, m, t)"
        by (simp_all add: rest_blockers_def)
      then show ?thesis using searched_refl [OF Cons.prems(1)] by (simp add: search_post_def wait_targets_def)
    next
      case False
      then have rb: "?rb (b # bs) = b # ?rb bs"
        and nc: "\<not> (c \<and> (r = b \<or> compatibility (lrq_requested (reqs t r)) (lrq_state (reqs t b))))"
          "\<not> (\<not> c \<and> compatibility (lrq_requested (reqs t r)) (max (lrq_state (reqs t b)) (lrq_requested (reqs t b))))"
        using skip by (cases c; cases "r = b"; simp add: rest_blockers_def e split: if_splits)+
      let ?ts = "own_pending (owns t (lrq_owner (reqs t b)))"
      have w: "walk_requests walk r c (b # bs) (m, t) = (if busy t b then walk_requests walk r c bs (True, t)
         else case walk_targets walk ?ts (m, t) of None \<Rightarrow> None
           | Some (Some v, m', t') \<Rightarrow> Some (Some v, m', t')
           | Some (None, m', t') \<Rightarrow> walk_requests walk r c bs (m', t'))"
        using nc False by auto
      have wt: "wait_targets g (?rb (b # bs)) =
          (if busy g b then {} else set (waits_on g b)) \<union> wait_targets g (?rb bs)"
        unfolding rb by (auto simp: wait_targets_def)
      show ?thesis
      proof (cases "busy g b")
        case True
        have "search_post g U n (True, t) (wait_targets g (?rb bs)) (walk_requests walk r c bs (True, t)) \<and>
          (\<forall>m' t'. walk_requests walk r c bs (True, t) = Some (None, m', t') \<and> \<not> m' \<longrightarrow> (\<forall>b \<in> set (?rb bs). \<not> busy g b))"
          using Cons.prems by (intro Cons.IH) (auto simp: wt)
        then have p: "search_post g U n (True, t) (wait_targets g (?rb bs)) (walk_requests walk r c bs (True, t))" by simp
        have "fst mt'" if "walk_requests walk r c bs (True, t) = Some (None, mt')" for mt'
          using p that by (simp add: search_post_def searched_def)
        moreover have "search_post g U n (m, t) (wait_targets g (?rb bs)) (walk_requests walk r c bs (True, t))"
          using p by (auto simp: search_post_def searched_def split: option.splits prod.splits)
        moreover have w1: "walk_requests walk r c (b # bs) (m, t) = walk_requests walk r c bs (True, t)"
          unfolding w bz using True by simp
        moreover have "wait_targets g (?rb (b # bs)) = wait_targets g (?rb bs)" unfolding wt using True by simp
        ultimately show ?thesis unfolding w1 by (metis fst_conv)
      next
        case nb: False
        let ?T = "{x \<in> set ?ts. LRQ_wait_timeout \<notin> lrq_flags (reqs g x)}"
        have T: "?T = set (waits_on g b)" by (auto simp: waits_on_def e)
        have tp: "search_post g U n (m, t) ?T (walk_targets walk ?ts (m, t))"
          using nb T Cons.prems(2,3) by (intro walk_targets_correct [OF walk Cons.prems(1) U]) (auto simp: wt)
        have IH: "search_post g U n (m', t') (wait_targets g (?rb bs)) (walk_requests walk r c bs (m', t')) \<and>
            (\<forall>m2 t2. walk_requests walk r c bs (m', t') = Some (None, m2, t2) \<and> \<not> m2 \<longrightarrow> (\<forall>b \<in> set (?rb bs). \<not> busy g b))"
          if "walk_targets walk ?ts (m, t) = Some (None, m', t')" for m' t'
        proof -
          have "searched g U (m, t) ?T (m', t')" using tp that by (simp add: search_post_def)
          then have st: "search_ok g U t'" "on_path U t' = on_path U t" by (simp_all add: searched_def)
          show ?thesis by (rule Cons.IH [OF st(1)]) (use Cons.prems(2,3) in \<open>auto simp: st(2) wt\<close>)
        qed
        have w2: "walk_requests walk r c (b # bs) (m, t) = (case walk_targets walk ?ts (m, t) of None \<Rightarrow> None
           | Some (Some v, m', t') \<Rightarrow> Some (Some v, m', t')
           | Some (None, m', t') \<Rightarrow> walk_requests walk r c bs (m', t'))" unfolding w bz using nb by simp
        have "search_post g U n (m, t) (?T \<union> wait_targets g (?rb bs)) (case walk_targets walk ?ts (m, t) of None \<Rightarrow> None
           | Some (Some v, m', t') \<Rightarrow> Some (Some v, m', t')
           | Some (None, m', t') \<Rightarrow> walk_requests walk r c bs (m', t'))"
          by (rule search_post_bind [OF tp U]) (use IH in auto)
        moreover have "\<forall>b \<in> set (?rb (b # bs)). \<not> busy g b"
          if fin: "walk_requests walk r c (b # bs) (m, t) = Some (None, m2, t2)" "\<not> m2" for m2 t2
        proof -
          obtain m' t' where "walk_targets walk ?ts (m, t) = Some (None, m', t')"
            "walk_requests walk r c bs (m', t') = Some (None, m2, t2)"
            using fin(1) unfolding w2 by (auto split: option.splits)
          then have "\<forall>b \<in> set (?rb bs). \<not> busy g b" using IH fin(2) by blast
          then show ?thesis unfolding rb using nb by simp
        qed
        moreover have "wait_targets g (?rb (b # bs)) = ?T \<union> wait_targets g (?rb bs)" unfolding wt T using nb by simp
        ultimately show ?thesis unfolding w2 by (metis w2)
      qed
    qed
  qed
qed

lemma closed_rtrancl:
  assumes "E `` B \<subseteq> B" "(x, y) \<in> E\<^sup>*" "x \<in> B"
  shows "y \<in> B"
  using assms(2,3) by (induction rule: rtrancl_induct) (use assms(1) in auto)

lemma blockers_rest:
  "blockers_of g r = rest_blockers g r (LCK_null < lrq_state (reqs g r)) (lbl_requests (lcks g (lrq_lock (reqs g r))))"
  by (simp add: blockers_of_def rest_blockers_def Let_def)

text \<open>A request that is done with: all it waits for is.\<close>

lemma search_ok_done:
  assumes ok: "search_ok g U t'" and r: "r \<in> on_path U t'" "wait_graph g `` {r} \<subseteq> done_with U t'"
  shows "search_ok g U (mod_req r (\<lambda>q. q\<lparr>lrq_flags := insert LRQ_scanned (lrq_flags q - {LRQ_deadlock})\<rparr>) t')"
proof -
  have g: "same_graph g t'" and dj: "on_path U t' \<inter> done_with U t' = {}" and cl: "wait_graph g `` done_with U t' \<subseteq> done_with U t'"
    and ac: "\<forall>x \<in> done_with U t'. (x, x) \<notin> (wait_graph g)\<^sup>+"
    using ok by (simp_all add: search_ok_def)
  have rU: "r \<in> U" using r(1) by (simp add: on_path_def)
  have "(r, r) \<notin> (wait_graph g)\<^sup>+"
  proof
    assume "(r, r) \<in> (wait_graph g)\<^sup>+"
    then obtain y where y: "(r, y) \<in> wait_graph g" "(y, r) \<in> (wait_graph g)\<^sup>*" by (metis tranclD)
    then have "y \<in> done_with U t'" using r(2) by auto
    then have "r \<in> done_with U t'" by (rule closed_rtrancl [OF cl y(2)])
    then show False using dj r(1) by auto
  qed
  moreover have "wait_graph g `` insert r (done_with U t') \<subseteq> insert r (done_with U t')" using cl r(2) by auto
  ultimately show ?thesis
    using ac dj same_graph_mod [where f = "\<lambda>q. q\<lparr>lrq_flags := insert LRQ_scanned (lrq_flags q - {LRQ_deadlock})\<rparr>", OF unmarked_simps(2) g, of r]
    unfolding search_ok_def on_path_done_mark [OF rU] by auto
qed

lemma deadlock_walk_correct:
  assumes U: "finite U" and E: "\<And>x. wait_graph g `` {x} \<subseteq> U"
  shows "walk_correct g U n (deadlock_walk n)"
proof (induction n)
  case 0
  show ?case by (simp add: walk_correct_def search_post_def)
next
  case (Suc n)
  show ?case
    unfolding walk_correct_def
  proof (intro allI impI, elim conjE)
    fix r and mt :: "bool \<times> table"
    assume rU: "r \<in> U" and ok: "search_ok g U (snd mt)" and path: "\<forall>y \<in> on_path U (snd mt). (y, r) \<in> (wait_graph g)\<^sup>+"
    obtain m t where mt: "mt = (m, t)" by (cases mt)
    have g: "same_graph g t" using ok by (simp add: mt search_ok_def)
    show "search_post g U (Suc n) mt {r} (deadlock_walk (Suc n) r mt)"
    proof (cases "r \<in> done_with U t")
      case True
      then have "deadlock_walk (Suc n) r mt = Some (None, m, t)" using rU by (simp add: mt done_with_def)
      then show ?thesis using True ok by (simp add: search_post_def searched_def mt)
    next
      case nd: False
      show ?thesis
      proof (cases "r \<in> on_path U t")
        case True
        then have "deadlock_walk (Suc n) r mt = Some (Some r, m, t)" using nd rU by (simp add: mt done_with_def on_path_def)
        then show ?thesis using True path g rU by (simp add: search_post_def found_def mt)
      next
        case np: False
        define t1 where "t1 = mod_req r (set_flag LRQ_deadlock) t"
        define c where "c = (LCK_null < lrq_state (reqs g r))"
        define bs where "bs = lbl_requests (lcks g (lrq_lock (reqs g r)))"
        have p1: "on_path U t1 = insert r (on_path U t)" "done_with U t1 = done_with U t" by (simp_all add: t1_def on_path_done_mark [OF rU])
        have g1: "same_graph g t1" unfolding t1_def by (rule same_graph_mod [where f = "set_flag LRQ_deadlock", OF unmarked_simps(1) g])
        have ok1: "search_ok g U t1" using ok nd g1 by (auto simp: search_ok_def mt p1)
        have bl: "rest_blockers g r c bs = blockers_of g r" by (simp add: blockers_rest c_def bs_def)
        have tg: "wait_targets g (rest_blockers g r c bs) = wait_graph g `` {r}" unfolding bl wait_graph_targets ..
        have ed: "(y, x) \<in> (wait_graph g)\<^sup>+" if "x \<in> wait_targets g (rest_blockers g r c bs)" "y \<in> on_path U t1" for x y
        proof -
          have rx: "(r, x) \<in> wait_graph g" using that(1) by (simp add: tg)
          show ?thesis
          proof (cases "y = r")
            case True
            then show ?thesis using rx by auto
          next
            case False
            then have "(y, r) \<in> (wait_graph g)\<^sup>+" using that(2) path p1 by (simp add: mt)
            then show ?thesis using rx by (rule trancl_into_trancl)
          qed
        qed
        let ?res = "walk_requests (deadlock_walk n) r c bs (m, t1)"
        have inU: "wait_targets g (rest_blockers g r c bs) \<subseteq> U" unfolding tg by (rule E)
        have "search_post g U n (m, t1) (wait_targets g (rest_blockers g r c bs)) ?res \<and>
          (\<forall>m' t'. ?res = Some (None, m', t') \<and> \<not> m' \<longrightarrow> (\<forall>b \<in> set (rest_blockers g r c bs). \<not> busy g b))"
          by (rule walk_requests_correct [OF Suc.IH ok1 U]) (use ed inU in auto)
        note wr = this [unfolded tg, unfolded bl]
        have post: "search_post g U n (m, t1) (wait_graph g `` {r}) ?res"
          and clean: "\<And>m' t'. ?res = Some (None, m', t') \<Longrightarrow> \<not> m' \<Longrightarrow> \<forall>b \<in> set (blockers_of g r). \<not> busy g b"
          using wr by blast+
        have dw: "deadlock_walk (Suc n) r mt = (case ?res of None \<Rightarrow> None
              | Some (Some v, m', t') \<Rightarrow> Some (Some v, m', t')
              | Some (None, m', t') \<Rightarrow> Some (None, m',
                  mod_req r (\<lambda>q. q\<lparr>lrq_flags := insert LRQ_scanned (lrq_flags q - {LRQ_deadlock})\<rparr>) t'))"
          using nd np rU same_graph_req(1,3) [OF g1, of r] same_graph_req(6) [OF g1]
          by (simp add: mt done_with_def on_path_def Let_def t1_def [symmetric] c_def bs_def)
        show ?thesis
        proof (cases ?res)
          case None
          have "card (U - (on_path U t \<union> done_with U t)) = Suc (card (U - (on_path U t1 \<union> done_with U t1)))"
          proof -
            have "U - (on_path U t \<union> done_with U t) = insert r (U - (on_path U t1 \<union> done_with U t1))" using rU nd np p1 by auto
            moreover have "r \<notin> U - (on_path U t1 \<union> done_with U t1)" using p1 by simp
            ultimately show ?thesis using U by simp
          qed
          then show ?thesis using None post unfolding dw by (simp add: search_post_def mt)
        next
          case (Some a)
          obtain v m' t' where a: "a = (v, m', t')" by (cases a)
          show ?thesis
          proof (cases v)
            case (Some v')
            then show ?thesis using \<open>?res = Some a\<close> a post unfolding dw by (simp add: search_post_def)
          next
            case vn: None
            define t2 where "t2 = mod_req r (\<lambda>q. q\<lparr>lrq_flags := insert LRQ_scanned (lrq_flags q - {LRQ_deadlock})\<rparr>) t'"
            have s: "searched g U (m, t1) (wait_graph g `` {r}) (m', t')" using post Some a vn by (simp add: search_post_def)
            have p2: "on_path U t2 = on_path U t' - {r}" "done_with U t2 = insert r (done_with U t')"
              by (simp_all add: t2_def on_path_done_mark [OF rU])
            have pt': "on_path U t' = insert r (on_path U t)" "done_with U t \<subseteq> done_with U t'" "search_ok g U t'"
              using s p1 by (simp_all add: searched_def)
            have "search_ok g U t2" unfolding t2_def
            proof (rule search_ok_done [OF pt'(3)])
              show "r \<in> on_path U t'" by (simp add: pt'(1))
              show "wait_graph g `` {r} \<subseteq> done_with U t'" using s by (simp add: searched_def)
            qed
            moreover have "\<forall>b \<in> set (blockers_of g x). \<not> busy g b" if "\<not> m'" "x \<in> done_with U t2 - done_with U t" for x
            proof (cases "x = r")
              case True
              then show ?thesis using clean [of m' t'] Some a vn that(1) by simp
            next
              case False
              then show ?thesis using s that p1 p2 by (simp add: searched_def)
            qed
            ultimately have "searched g U mt {r} (m', t2)"
              using s pt' p2 np by (auto simp: searched_def mt)
            then show ?thesis using Some a vn unfolding dw by (simp add: search_post_def t2_def)
          qed
        qed
      qed
    qed
  qed
qed

subsection \<open>The scan\<close>

lemma fold_clear:
  "fold (\<lambda>r. mod_req r (clear_flags F)) rs t = t\<lparr>reqs := \<lambda>x. if x \<in> set rs then clear_flags F (reqs t x) else reqs t x\<rparr>"
  by (induction rs arbitrary: t) (auto simp: mod_req_def clear_flags_def fun_eq_iff Diff_idemp)

lemma fold_clear_owners:
  "fold (\<lambda>w t. fold (\<lambda>r. mod_req r (clear_flags F)) (own_pending (owns t w)) t) ws t =
     t\<lparr>reqs := \<lambda>x. if \<exists>w \<in> set ws. x \<in> set (own_pending (owns t w)) then clear_flags F (reqs t x) else reqs t x\<rparr>"
  by (induction ws arbitrary: t) (auto simp: fold_clear clear_flags_def fun_eq_iff)

definition pendings :: "table \<Rightarrow> nat set" where
  "pendings t = {x. lrq_type (reqs t x) \<and> LRQ_pending \<in> lrq_flags (reqs t x)}"

lemma pending_somewhere:
  assumes "owners_ok t"
  shows "(\<exists>w \<in> set (lhb_owners t). x \<in> set (own_pending (owns t w))) \<longleftrightarrow> x \<in> pendings t"
  using assms by (auto simp: owners_ok_def owner_ok_def pendings_def)

lemma deadlock_clear_eq:
  assumes "owners_ok t"
  shows "deadlock_clear t = t\<lparr>reqs := \<lambda>x. if x \<in> pendings t then clear_flags {LRQ_deadlock, LRQ_scanned} (reqs t x) else reqs t x\<rparr>"
  unfolding deadlock_clear_def fold_clear_owners pending_somewhere [OF assms] by simp

lemma finite_pendings:
  assumes "table_ok t"
  shows "finite (pendings t)" "card (pendings t) \<le> lhb_used t"
proof -
  have s: "pendings t \<subseteq> {..<lhb_used t}" using assms by (auto simp: table_ok_def allocation_ok_def pendings_def)
  then show "finite (pendings t)" by (rule finite_subset) simp
  show "card (pendings t) \<le> lhb_used t" using card_mono [OF _ s] by simp
qed

lemma waits_pendings:
  assumes "owners_ok t"
  shows "set (waits_on t b) \<subseteq> pendings t" "wait_graph t `` {x} \<subseteq> pendings t"
proof -
  show w: "set (waits_on t b) \<subseteq> pendings t" for b
    using assms by (auto simp: owners_ok_def owner_ok_def waits_on_def pendings_def)
  show "wait_graph t `` {x} \<subseteq> pendings t" using w by (auto simp: wait_graph_def)
qed

lemma deadlock_walk_scan:
  assumes "lock_inv t" "r \<in> pendings t" "t1 = deadlock_clear (bump Scans t)"
  shows "same_graph t t1" "search_post t1 (pendings t) (Suc (lhb_used t1)) (False, t1) {r} (deadlock_walk (Suc (lhb_used t1)) r (False, t1))"
    "on_path (pendings t) t1 = {}" "done_with (pendings t) t1 = {}" "lhb_used t1 = lhb_used t" "owners_ok t1"
    "t1 = t\<lparr>reqs := reqs t1, lhb_stats := lhb_stats t1\<rparr>"
proof -
  have ow: "owners_ok t" "table_ok t" "owners_ok (bump Scans t)"
    using assms(1) by (simp_all add: lock_inv_def owners_ok_def owner_ok_def bump_def)
  have rq: "reqs (bump Scans t) x = reqs t x" for x by (simp add: bump_def)
  have pe: "pendings (bump Scans t) = pendings t" by (simp add: pendings_def bump_def)
  have t1: "t1 = (bump Scans t)\<lparr>reqs := \<lambda>x. if x \<in> pendings t then clear_flags {LRQ_deadlock, LRQ_scanned} (reqs t x) else reqs t x\<rparr>"
    unfolding assms(3) deadlock_clear_eq [OF ow(3)] pe rq ..
  show g: "same_graph t t1" by (simp add: same_graph_def t1 bump_def)
  show m: "on_path (pendings t) t1 = {}" "done_with (pendings t) t1 = {}"
    by (auto simp: on_path_def done_with_def t1 clear_flags_def)
  show "lhb_used t1 = lhb_used t" by (simp add: t1 bump_def)
  show "t1 = t\<lparr>reqs := reqs t1, lhb_stats := lhb_stats t1\<rparr>" by (simp add: t1 bump_def)
  have "req_key (reqs t1 x) = req_key (reqs t x)" for x by (simp add: t1 req_key_def clear_flags_def)
  moreover have "own_key (owns t1 x) = own_key (owns t x)" "owner_lists t1 = owner_lists t" for x
    by (simp_all add: t1 bump_def)
  ultimately show o1: "owners_ok t1" using owners_ok_cong [of t1 t] ow(1) by simp
  have E: "wait_graph t1 `` {x} \<subseteq> pendings t" for x
    unfolding same_graph_eq(4) [OF g] by (rule waits_pendings(2) [OF ow(1)])
  have "search_ok t1 (pendings t) t1" by (simp add: search_ok_def m)
  then show "search_post t1 (pendings t) (Suc (lhb_used t1)) (False, t1) {r} (deadlock_walk (Suc (lhb_used t1)) r (False, t1))"
    using deadlock_walk_correct [OF finite_pendings(1) [OF ow(2)] E, of "Suc (lhb_used t1)"] assms(2) m
    by (simp add: walk_correct_def)
qed

text \<open>The graph that takes the owners with something left to do for stuck, too.\<close>

definition full_graph :: "table \<Rightarrow> (nat \<times> nat) set" where
  "full_graph t = {(r, x). \<exists>b \<in> set (blockers_of t r). x \<in> set (waits_on t b)}"

lemma full_graph_eq: "\<forall>b \<in> set (blockers_of t r). \<not> busy t b \<Longrightarrow> full_graph t `` {r} = wait_graph t `` {r}"
  by (auto simp: full_graph_def wait_graph_def)

lemma closed_no_cycle:
  assumes "E' `` D \<subseteq> D" "\<And>x. x \<in> D \<Longrightarrow> E' `` {x} = E `` {x}" "\<And>x. x \<in> D \<Longrightarrow> (x, x) \<notin> E\<^sup>+" "r \<in> D" "(r, x) \<in> E'\<^sup>*"
  shows "(x, x) \<notin> E'\<^sup>+"
proof
  have D: "x \<in> D" by (rule closed_rtrancl [OF assms(1,5,4)])
  assume "(x, x) \<in> E'\<^sup>+"
  moreover have "y \<in> D \<and> (x, y) \<in> E\<^sup>+" if "(x, y) \<in> E'\<^sup>+" for y
    using that
  proof (induction rule: trancl_induct)
    case (base y)
    then have "(x, y) \<in> E" using assms(2) [OF D] by auto
    then show ?case using base assms(1) D by auto
  next
    case (step y z)
    then have "(y, z) \<in> E" using assms(2) [of y] by auto
    then show ?case using step assms(1) by (meson Image_singleton_iff ImageI subsetD trancl_into_trancl)
  qed
  ultimately show False using assms(3) [OF D] by blast
qed

text \<open>What a scan changes: marks of pending requests, one flag of the owner and a counter.\<close>

definition only_marks :: "table \<Rightarrow> table \<Rightarrow> bool" where
  "only_marks t t' \<longleftrightarrow> t' = t\<lparr>reqs := reqs t'\<rparr>"

lemma only_marks_refl [simp]: "only_marks t t"
  by (simp add: only_marks_def)

lemma only_marks_mod [simp]: "only_marks t (mod_req r f t') = only_marks t t'"
  by (cases t; cases t'; auto simp: only_marks_def mod_req_def)

lemma only_marks_trans: "only_marks t t' \<Longrightarrow> only_marks t' t'' \<Longrightarrow> only_marks t t''"
  by (cases t; cases t'; cases t''; simp add: only_marks_def)

definition walk_marks :: "(nat \<Rightarrow> bool \<times> table \<Rightarrow> (nat option \<times> bool \<times> table) option) \<Rightarrow> bool" where
  "walk_marks walk \<longleftrightarrow> (\<forall>x m t v m' t'. walk x (m, t) = Some (v, m', t') \<longrightarrow> only_marks t t')"

lemma walk_targets_marks:
  assumes "walk_marks walk"
  shows "walk_targets walk xs (m, t) = Some (v, m', t') \<Longrightarrow> only_marks t t'"
proof (induction xs arbitrary: m t)
  case (Cons x xs)
  show ?case
  proof (cases "LRQ_wait_timeout \<in> lrq_flags (reqs t x)")
    case False
    then obtain u m1 t1 where w: "walk x (m, t) = Some (u, m1, t1)" using Cons.prems by (auto split: option.splits)
    have "only_marks t t1" using assms w unfolding walk_marks_def by blast
    moreover have "only_marks t1 t'" if "u = None"
      using Cons.IH [of m1 t1] Cons.prems w False that by simp
    ultimately show ?thesis using only_marks_trans Cons.prems w False by (cases u) auto
  qed (use Cons in simp)
qed simp

lemma walk_requests_marks:
  assumes "walk_marks walk"
  shows "walk_requests walk r c bs (m, t) = Some (v, m', t') \<Longrightarrow> only_marks t t'"
proof (induction bs arbitrary: m t)
  case (Cons b bs)
  let ?w = "walk_targets walk (own_pending (owns t (lrq_owner (reqs t b)))) (m, t)"
  have W: "only_marks t t1" if "?w = Some (u, m1, t1)" for u m1 t1
    by (rule walk_targets_marks [OF assms that])
  have k: "only_marks t t'" if "?w = Some (None, mt)" "walk_requests walk r c bs mt = Some (v, m', t')" for mt
  proof -
    obtain m1 t1 where "mt = (m1, t1)" by (cases mt)
    then show ?thesis using W [of None m1 t1] Cons.IH [of m1 t1] that by (auto intro: only_marks_trans)
  qed
  show ?case using Cons.prems Cons.IH W k by (simp split: if_splits option.splits prod.splits)
qed simp

lemma deadlock_walk_marks: "walk_marks (deadlock_walk n)"
proof (induction n)
  case (Suc n)
  show ?case
    unfolding walk_marks_def
  proof (intro allI impI)
    fix r m t v m' t'
    define t1 where "t1 = mod_req r (set_flag LRQ_deadlock) t"
    let ?w = "walk_requests (deadlock_walk n) r (LCK_null < lrq_state (reqs t1 r)) (lbl_requests (lcks t1 (lrq_lock (reqs t1 r)))) (m, t1)"
    assume "deadlock_walk (Suc n) r (m, t) = Some (v, m', t')"
    moreover have "only_marks t t2" if "?w = Some (u, m1, t2)" for u m1 t2
      using walk_requests_marks [OF Suc.IH that] by (rule only_marks_trans [rotated]) (simp add: t1_def)
    ultimately show "only_marks t t'"
      by (auto simp: Let_def t1_def [symmetric] split: if_splits option.splits)
  qed
qed (simp add: walk_marks_def)

lemma deadlock_scan_effects:
  assumes inv: "lock_inv t" and r: "r \<in> pendings t" and scan: "deadlock_scan w r t = Some (victim, t')"
  shows "unmarked (reqs t' x) = unmarked (reqs t x)"
    "t' = t\<lparr>reqs := reqs t', owns := owns t', lhb_stats := lhb_stats t'\<rparr>"
    "owns t' = (owns t)(w := (owns t w)\<lparr>own_flags := own_flags (owns t' w)\<rparr>)"
    "own_flags (owns t' w) - {OWN_scanned} = own_flags (owns t w) - {OWN_scanned}"
proof -
  define t1 where "t1 = deadlock_clear (bump Scans t)"
  note d = deadlock_walk_scan [OF inv r t1_def]
  obtain m t2 where w: "deadlock_walk (Suc (lhb_used t1)) r (False, t1) = Some (victim, m, t2)"
    and t': "t' = (if victim = None \<and> \<not> m then mod_own w (\<lambda>q. q\<lparr>own_flags := insert OWN_scanned (own_flags q)\<rparr>) t2 else t2)"
    using scan by (auto simp: deadlock_scan_def t1_def [symmetric] Let_def split: option.splits prod.splits)
  have "only_marks t1 t2" using deadlock_walk_marks w unfolding walk_marks_def by blast
  then have "t2 = t1\<lparr>reqs := reqs t2\<rparr>" by (simp add: only_marks_def)
  moreover have "t1 = t\<lparr>reqs := reqs t1, lhb_stats := lhb_stats t1\<rparr>" by (rule d(7))
  ultimately have t2: "t2 = t\<lparr>reqs := reqs t2, lhb_stats := lhb_stats t2\<rparr>" by (cases t; cases t1; cases t2; simp)
  have g2: "same_graph t1 t2"
    using d(2) w by (cases victim) (simp_all add: search_post_def found_def searched_def search_ok_def)
  have rq: "reqs t' = reqs t2" by (simp add: t')
  show "unmarked (reqs t' x) = unmarked (reqs t x)"
    using same_graph_trans [OF d(1) g2] by (simp add: rq same_graph_def)
  have o2: "owns t2 = owns t" using same_graph_req(7) [OF same_graph_trans [OF d(1) g2]] .
  show "t' = t\<lparr>reqs := reqs t', owns := owns t', lhb_stats := lhb_stats t'\<rparr>"
    using t2 o2 unfolding t' by (cases t; cases t2; simp add: mod_own_def)
  show "owns t' = (owns t)(w := (owns t w)\<lparr>own_flags := own_flags (owns t' w)\<rparr>)" 
    "own_flags (owns t' w) - {OWN_scanned} = own_flags (owns t w) - {OWN_scanned}"
    by (auto simp: t' o2)
qed

lemma unmarked_type: "unmarked q = unmarked q' \<Longrightarrow> lrq_type q = lrq_type q'"
  by (cases q; cases q'; simp add: unmarked_def)

lemma deadlock_scan_safe:
  assumes inv: "lock_inv t" and r: "r \<in> pendings t" and scan: "deadlock_scan w r t = Some (victim, t')"
  shows "lock_inv t'" "steady (reqs t x) (reqs t' x)" "lcks t' = lcks t"
proof -
  note e = deadlock_scan_effects [OF assms]
  obtain F where F: "owns t' = (owns t)(w := (owns t w)\<lparr>own_flags := F\<rparr>)" using e(3) by blast
  obtain R W S where T: "t' = t\<lparr>reqs := R, owns := W, lhb_stats := S\<rparr>" using e(2) by blast
  show l: "lcks t' = lcks t" by (simp add: T)
  note u = unmarked_eq [OF e(1)]
  have st: "same_request (reqs t' x) (reqs t x)" "req_key (reqs t' x) = req_key (reqs t x)" "steady (reqs t x) (reqs t' x)" for x
    using u(1-4) [of x] u(5) [of LRQ_repost x] u(5) [of LRQ_pending x] u(5) [of LRQ_rejected x] u(5) [of LRQ_blocking x]
      unmarked_type [OF e(1) [of x]]
    by (simp_all add: same_request_def req_key_def steady_def)
  show "steady (reqs t x) (reqs t' x)" by (rule st(3))
  have "table_ok t'"
    by (rule table_ok_same_requests [OF lock_invD(1) [OF inv] st(1) l]) (simp add: T)
  moreover have "own_key (owns t' x) = own_key (owns t x) \<and> own_process (owns t' x) = own_process (owns t x)" for x
    by (simp add: F own_key_def)
  moreover have "owner_lists t' = owner_lists t" "process_part t' = process_part t"
    by (simp_all add: T)
  ultimately show "lock_inv t'"
    using inv st(2) by (subst same_inv [of _ t]) (simp_all add: same_owners_def lock_inv_def)
qed

theorem deadlock_scan_terminates:
  assumes inv: "lock_inv t" and r: "r \<in> pendings t"
  shows "\<exists>victim t'. deadlock_scan w r t = Some (victim, t')"
proof -
  define t1 where "t1 = deadlock_clear (bump Scans t)"
  note d = deadlock_walk_scan [OF inv r t1_def]
  have "deadlock_walk (Suc (lhb_used t1)) r (False, t1) \<noteq> None"
  proof
    assume "deadlock_walk (Suc (lhb_used t1)) r (False, t1) = None"
    then have "Suc (lhb_used t1) \<le> card (pendings t)" using d(2) by (simp only: search_post_def d(3,4) snd_conv) simp
    then show False using finite_pendings(2) [OF lock_invD(1) [OF inv]] d(5) by simp
  qed
  then show ?thesis by (auto simp: deadlock_scan_def t1_def [symmetric] Let_def)
qed

theorem deadlock_scan_victim:
  assumes inv: "lock_inv t" and r: "r \<in> pendings t" and scan: "deadlock_scan w r t = Some (Some v, t')"
  shows "v \<in> pendings t" "(v, v) \<in> (wait_graph t)\<^sup>+"
proof -
  define t1 where "t1 = deadlock_clear (bump Scans t)"
  note d = deadlock_walk_scan [OF inv r t1_def]
  obtain m t2 where w: "deadlock_walk (Suc (lhb_used t1)) r (False, t1) = Some (Some v, m, t2)"
    using scan by (auto simp: deadlock_scan_def t1_def [symmetric] Let_def split: option.splits prod.splits)
  then show "v \<in> pendings t" "(v, v) \<in> (wait_graph t)\<^sup>+"
    using d(2) by (simp_all add: search_post_def found_def same_graph_eq(4) [OF d(1)])
qed

theorem deadlock_scan_complete:
  assumes inv: "lock_inv t" and r: "r \<in> pendings t" and scan: "deadlock_scan w r t = Some (None, t')"
  shows "(r, x) \<in> (wait_graph t)\<^sup>* \<Longrightarrow> (x, x) \<notin> (wait_graph t)\<^sup>+"
    "OWN_scanned \<notin> own_flags (owns t w) \<Longrightarrow> OWN_scanned \<in> own_flags (owns t' w) \<Longrightarrow>
       (r, x) \<in> (full_graph t)\<^sup>* \<Longrightarrow> (x, x) \<notin> (full_graph t)\<^sup>+"
proof -
  define t1 where "t1 = deadlock_clear (bump Scans t)"
  note d = deadlock_walk_scan [OF inv r t1_def]
  have o1: "owns t1 = owns t" by (rule same_graph_req(7) [OF d(1)])
  obtain m t2 where w: "deadlock_walk (Suc (lhb_used t1)) r (False, t1) = Some (None, m, t2)"
    and t': "t' = (if \<not> m then mod_own w (\<lambda>q. q\<lparr>own_flags := insert OWN_scanned (own_flags q)\<rparr>) t2 else t2)"
    using scan by (auto simp: deadlock_scan_def t1_def [symmetric] Let_def split: option.splits prod.splits)
  define D where "D = done_with (pendings t) t2"
  have s: "searched t1 (pendings t) (False, t1) {r} (m, t2)" using d(2) w by (simp add: search_post_def)
  have o2: "owns t2 = owns t"
    using s same_graph_req(7) [of t1 t2] by (simp add: searched_def search_ok_def o1)
  have rD: "r \<in> D" and ac: "\<forall>x \<in> D. (x, x) \<notin> (wait_graph t)\<^sup>+" and cl: "wait_graph t `` D \<subseteq> D"
    and nb: "\<not> m \<Longrightarrow> \<forall>x \<in> D. \<forall>b \<in> set (blockers_of t x). \<not> busy t b"
    using s by (auto simp: searched_def search_ok_def D_def d(4) same_graph_eq [OF d(1)])
  show "(r, x) \<in> (wait_graph t)\<^sup>* \<Longrightarrow> (x, x) \<notin> (wait_graph t)\<^sup>+"
    using closed_rtrancl [OF cl _ rD] ac by blast
  assume f: "OWN_scanned \<notin> own_flags (owns t w)" "OWN_scanned \<in> own_flags (owns t' w)" "(r, x) \<in> (full_graph t)\<^sup>*"
  then have nm: "\<not> m" by (auto simp: t' o2 split: if_splits)
  have eq: "full_graph t `` {x} = wait_graph t `` {x}" if "x \<in> D" for x
    by (rule full_graph_eq) (use nb [OF nm] that in auto)
  have fcl: "full_graph t `` D \<subseteq> D" using eq cl by blast
  show "(x, x) \<notin> (full_graph t)\<^sup>+"
    by (rule closed_no_cycle [OF fcl eq _ rD f(3)]) (use ac in auto)
qed

end
