(* ===== verification/LockWait.thy ===== *)
theory LockWait
  imports LockEffects Deadlock
begin

text \<open>
  Waiting for a lock in \<open>src/lock/lock.cpp\<close>: the segments of \<open>wait_for_request\<close>,
  \<open>post_blockage\<close>, \<open>signal_owner\<close> and \<open>blocking_action\<close>, each from one point where the mutex
  of the table is acquired to the next where it is released or another function is entered.
  \<open>LockSystem\<close> strings them together.
\<close>

subsection \<open>Blocking notices\<close>

definition mark_blocking :: "nat \<Rightarrow> table \<Rightarrow> table" where
  "mark_blocking b t =
     mod_req b (\<lambda>q. q\<lparr>lrq_flags := insert LRQ_blocking (lrq_flags q) - {LRQ_blocking_seen, LRQ_just_granted}\<rparr>)
       (mod_own (lrq_owner (reqs t b)) (\<lambda>q. q\<lparr>own_blocks := own_blocks q @ [b]\<rparr>) t)"

text \<open>The first loop of \<open>post_blockage\<close>: the owners to notify, among the requests of the lock.\<close>

fun blockers :: "nat \<Rightarrow> nat list \<Rightarrow> table \<Rightarrow> nat list \<times> table" where
  "blockers r [] t = ([], t)"
| "blockers r (b # bs) t =
     (if b = r \<or> lrq_owner (reqs t b) = lrq_owner (reqs t r) \<or>
         compatibility (lrq_requested (reqs t r)) (lrq_state (reqs t b)) \<or>
         lrq_ast_routine (reqs t b) = 0 \<or> LRQ_blocking_seen \<in> lrq_flags (reqs t b)
      then blockers r bs t
      else let t1 = (if LRQ_blocking \<in> lrq_flags (reqs t b) then t else mark_blocking b t);
               rest = (if lrq_state (reqs t1 b) = LCK_EX then ([], t1) else blockers r bs t1)
           in (lrq_owner (reqs t1 b) # fst rest, snd rest))"

definition post_blockage :: "nat \<Rightarrow> table \<Rightarrow> nat list \<times> table" where
  "post_blockage r t = blockers r (lbl_requests (lcks t (lrq_lock (reqs t r)))) t"

text \<open>
  \<open>signal_owner\<close>: whether the owner is of the calling process \<open>pid\<close>, which then runs
  \<open>blocking_action\<close>, and otherwise whether the event could be posted (\<open>posted\<close>).
\<close>

datatype delivery = Local | Posted | Undelivered

definition signal_owner :: "nat \<Rightarrow> bool \<Rightarrow> nat \<Rightarrow> table \<Rightarrow> delivery \<times> table" where
  "signal_owner pid posted w t =
     (let t1 = mod_own w (\<lambda>q. q\<lparr>own_flags := insert OWN_signaled (own_flags q)\<rparr>) t
      in if prc_process_id (prcs t1 (own_process (owns t1 w))) = pid then (Local, t1)
         else if posted then (Posted, t1)
         else (Undelivered, mod_own w (\<lambda>q. q\<lparr>own_flags := own_flags q - {OWN_signaled}\<rparr>) t1))"

text \<open>
  A turn of the loop of \<open>blocking_action\<close>, up to the call of the AST routine, which runs with
  the mutex released, or up to the end of the loop.
\<close>

datatype action = Finished | Next | Run_ast nat nat

definition take_block :: "nat \<Rightarrow> table \<Rightarrow> action \<times> table" where
  "take_block w t =
     (if own_count (owns t w) \<noteq> 0 \<and> own_blocks (owns t w) \<noteq> []
      then let b = hd (own_blocks (owns t w)); routine = lrq_ast_routine (reqs t b); arg = lrq_ast_argument (reqs t b);
               t1 = mod_own w (\<lambda>q. q\<lparr>own_blocks := remove1 b (own_blocks q)\<rparr>) t;
               t2 = (if LRQ_blocking \<in> lrq_flags (reqs t1 b)
                     then bump Blocks (mod_req b (\<lambda>q. q\<lparr>lrq_flags := insert LRQ_blocking_seen (lrq_flags q - {LRQ_blocking})\<rparr>) t1)
                     else if LRQ_repost \<in> lrq_flags (reqs t1 b)
                     then let t3 = mod_req b (\<lambda>q. q\<lparr>lrq_type := False\<rparr>) t1
                          in t3\<lparr>lhb_free_requests := lhb_free_requests t3 @ [b]\<rparr>
                     else t1)
           in if routine \<noteq> 0
              then (Run_ast routine arg, mod_own w (\<lambda>q. q\<lparr>own_ast_count := own_ast_count q + 1\<rparr>) t2)
              else (Next, t2)
      else (Finished, mod_own w (\<lambda>q. q\<lparr>own_flags := own_flags q - {OWN_signaled}\<rparr>) t))"

definition ast_done :: "nat \<Rightarrow> table \<Rightarrow> table" where
  "ast_done w t = mod_own w (\<lambda>q. q\<lparr>own_ast_count := own_ast_count q - 1\<rparr>) t"

subsection \<open>Sleeping and waking\<close>

text \<open>Times are in seconds.\<close>

record timers =
  lock_timeout :: int
  deadlock_timeout :: int
  current_time :: int

definition start_timers :: "int \<Rightarrow> int \<Rightarrow> nat \<Rightarrow> timers" where
  "start_timers lck_wait now interval =
     \<lparr>lock_timeout = (if lck_wait < 0 then now + (- lck_wait) else 0), deadlock_timeout = now + int interval,
      current_time = now\<rparr>"

definition wake_time :: "int \<Rightarrow> timers \<Rightarrow> int" where
  "wake_time lck_wait tm =
     (if lck_wait < 0 \<and> lock_timeout tm < deadlock_timeout tm then lock_timeout tm else deadlock_timeout tm)"

definition reject :: "nat \<Rightarrow> table \<Rightarrow> table" where
  "reject r t = unpend r (lrq_lock (reqs t r)) (mod_req r (set_flag LRQ_rejected) t)"

definition break_deadlock :: "nat \<Rightarrow> nat \<Rightarrow> table \<Rightarrow> table" where
  "break_deadlock r victim t =
     (let t1 = reject victim (bump Deadlocks t); w = lrq_owner (reqs t1 victim);
          t2 = mod_own w (\<lambda>q. q\<lparr>own_flags := own_flags q - {OWN_scanned}\<rparr>) t1
      in if victim \<noteq> r then post_wakeup w t2 else t2)"

text \<open>
  What a waiting request comes to when its owner has woken up: the end of the wait, or another
  turn of the loop, after new blocking notices or at once.
\<close>

datatype verdict = Resolved | Again timers | Repost timers

text \<open>What the system tells: the time, the cancel state, the living processes, the scan interval.\<close>

record view =
  now :: int
  cancelled :: bool
  exists_process :: "nat \<Rightarrow> bool"
  interval :: nat

text \<open>The loop of \<open>wait_for_request\<close> from the end of the sleep; \<open>None\<close> if a scan ran out of fuel.\<close>

definition wake :: "nat \<Rightarrow> nat \<Rightarrow> int \<Rightarrow> timers \<Rightarrow> view \<Rightarrow> table \<Rightarrow> (verdict \<times> table) option" where
  "wake pid r lck_wait tm v t =
     (if LRQ_pending \<notin> lrq_flags (reqs t r) then Some (Resolved, t)
      else let w = lrq_owner (reqs t r); woken = (OWN_wakeup \<in> own_flags (owns t w));
               timeout = wake_time lck_wait tm; tm1 = tm\<lparr>current_time := now v\<rparr>
           in if \<not> woken \<and> now v + 1 < timeout then Some (Again tm1, t)
              else let t1 = mod_own w (\<lambda>q. q\<lparr>own_flags := own_flags q - {OWN_wakeup}\<rparr>) t
                   in if cancelled v \<or> (lck_wait < 0 \<and> lock_timeout tm \<le> now v)
                      then Some (Resolved, snd (probe_processes (exists_process v) pid (reject r t1)))
                      else let tm2 = tm1\<lparr>deadlock_timeout := now v + int (interval v)\<rparr>
                           in if woken then Some (Repost tm2, t1)
                              else let (purged, t2) = probe_processes (exists_process v) pid t1
                                   in if purged \<and> LRQ_pending \<notin> lrq_flags (reqs t2 r) then Some (Resolved, t2)
                                      else if OWN_scanned \<in> own_flags (owns t2 w) \<or>
                                              LRQ_wait_timeout \<in> lrq_flags (reqs t2 r)
                                      then Some (Repost tm2, t2)
                                      else case deadlock_scan w r t2 of
                                             None \<Rightarrow> None
                                           | Some (None, t3) \<Rightarrow> Some (Repost tm2, t3)
                                           | Some (Some victim, t3) \<Rightarrow> Some (Again tm2, break_deadlock r victim t3))"

definition end_wait :: "nat \<Rightarrow> table \<Rightarrow> table" where
  "end_wait r t = mod_own (lrq_owner (reqs t r)) (\<lambda>q. q\<lparr>own_waits := own_waits q - 1\<rparr>)
     (mod_req r (clear_flags {LRQ_wait_timeout}) t)"

subsection \<open>Effects\<close>

lemma lock_inv_marks:
  assumes inv: "lock_inv t" and ow: "owners_ok t'" and sp: "same_processes t' t" and lk: "lcks t' = lcks t"
    and al: "allocation t' = allocation t" and rq: "\<And>x. same_request (reqs t' x) (reqs t x)"
  shows "lock_inv t'"
  using table_ok_same_requests [OF lock_invD(1) [OF inv] rq lk al] ow same_processesD [OF sp] lock_invD(3) [OF inv]
  by (simp add: lock_inv_def)

lemma mark_blocking_inv:
  assumes inv: "lock_inv t" and b: "live_request t b" "LRQ_blocking \<notin> lrq_flags (reqs t b)"
  shows "lock_inv (mark_blocking b t)"
proof (rule lock_inv_marks [OF inv])
  note q = owner_queues [OF lock_invD(2) [OF inv]]
  show "owners_ok (mark_blocking b t)"
    using lock_invD(2) [OF inv] b unfolding owners_ok_def owner_ok_def mark_blocking_def live_request_def by auto
qed (simp_all add: mark_blocking_def same_owners_mod_own same_request_def)

lemma mark_blocking_steady: "steady (reqs t x) (reqs (mark_blocking b t) x)"
  by (simp add: mark_blocking_def steady_def)

lemma mark_blocking_effect:
  assumes "lock_inv t" "index_ok cfg t" "live_request t b" "LRQ_blocking \<notin> lrq_flags (reqs t b)"
  shows "effect cfg X {} W G P t (mark_blocking b t)" "lcks (mark_blocking b t) = lcks t"
proof -
  show "effect cfg X {} W G P t (mark_blocking b t)"
  proof (rule effect_call [OF mark_blocking_inv [OF assms(1,3,4)]])
    show "same_homes (mark_blocking b t) t"
      by (rule same_processes_homes) (simp add: mark_blocking_def same_owners_mod_own)
  qed (use assms(2) mark_blocking_steady in \<open>simp_all add: mark_blocking_def\<close>)
qed (simp add: mark_blocking_def)

lemma blockers_effect:
  assumes "lock_inv t" "index_ok cfg t" "\<And>b. b \<in> set bs \<Longrightarrow> live_request t b"
  shows "effect cfg X {} W G P t (snd (blockers r bs t)) \<and> lcks (snd (blockers r bs t)) = lcks t"
  using assms
proof (induction bs arbitrary: t)
  case Nil
  then show ?case by (simp add: effect_refl)
next
  case (Cons b bs)
  show ?case
  proof (cases "b = r \<or> lrq_owner (reqs t b) = lrq_owner (reqs t r) \<or>
      compatibility (lrq_requested (reqs t r)) (lrq_state (reqs t b)) \<or>
      lrq_ast_routine (reqs t b) = 0 \<or> LRQ_blocking_seen \<in> lrq_flags (reqs t b)")
    case True
    then have e: "blockers r (b # bs) t = blockers r bs t" by simp
    show ?thesis unfolding e by (rule Cons.IH) (use Cons.prems in auto)
  next
    case False
    define t1 where "t1 = (if LRQ_blocking \<in> lrq_flags (reqs t b) then t else mark_blocking b t)"
    have e: "snd (blockers r (b # bs) t) = (if lrq_state (reqs t1 b) = LCK_EX then t1 else snd (blockers r bs t1))"
      using False by (simp add: t1_def [symmetric] Let_def)
    have t1: "effect cfg X {} W G P t t1" "lcks t1 = lcks t"
      using mark_blocking_effect [OF Cons.prems(1,2)] Cons.prems effect_refl by (auto simp: t1_def)
    have "live_request t1 x = live_request t x" for x
      using steady_live [OF mark_blocking_steady] by (simp add: t1_def)
    then have "effect cfg X {} W G P t1 (snd (blockers r bs t1)) \<and> lcks (snd (blockers r bs t1)) = lcks t1"
      using Cons.prems(3) by (intro Cons.IH effectD(1,2) [OF t1(1)]) simp
    then show ?thesis unfolding e using t1 effect_trans by auto
  qed
qed

lemma queue_live:
  assumes "lock_inv t" "b \<in> set (lbl_requests (lcks t l))"
  shows "live_request t b" "lrq_lock (reqs t b) = l"
  using table_ok_req(1) [OF lock_invD(1) [OF assms(1)] assms(2)] by (simp_all add: req_ok_def live_request_def)

lemma post_blockage_effect:
  assumes "lock_inv t" "index_ok cfg t"
  shows "effect cfg X {} W G P t (snd (post_blockage r t))" "lcks (snd (post_blockage r t)) = lcks t"
  using blockers_effect [OF assms, of "lbl_requests (lcks t (lrq_lock (reqs t r)))" X W G P r] queue_live(1) [OF assms(1)]
  by (simp_all add: post_blockage_def)

lemma own_change_effect:
  assumes "lock_inv t" "index_ok cfg t" "\<And>q. own_key (f q) = own_key q \<and> own_process (f q) = own_process q"
  shows "effect cfg X {} W G P t (mod_own w f t)"
  by (rule mod_own_effect) (use assms in simp_all)

lemma signal_owner_effect:
  assumes "lock_inv t" "index_ok cfg t"
  shows "effect cfg X {} W G P t (snd (signal_owner pid posted w t))" "lcks (snd (signal_owner pid posted w t)) = lcks t"
proof -
  define t1 where "t1 = mod_own w (\<lambda>q. q\<lparr>own_flags := insert OWN_signaled (own_flags q)\<rparr>) t"
  have a: "effect cfg X {} W G P t t1"
    unfolding t1_def by (rule own_change_effect [OF assms]) (simp add: own_key_def)
  have b: "effect cfg X {} W G P t1 (mod_own w (\<lambda>q. q\<lparr>own_flags := own_flags q - {OWN_signaled}\<rparr>) t1)"
    by (rule own_change_effect [OF effectD(1,2) [OF a]]) (simp add: own_key_def)
  show "effect cfg X {} W G P t (snd (signal_owner pid posted w t))"
    using a effect_trans [OF a b] by (simp add: signal_owner_def t1_def [symmetric] Let_def)
qed (simp add: signal_owner_def Let_def)

lemma ast_done_effect:
  assumes "lock_inv t" "index_ok cfg t"
  shows "effect cfg X {} W G P t (ast_done w t)"
  unfolding ast_done_def by (rule own_change_effect [OF assms]) (simp add: own_key_def)

lemma end_wait_effect:
  assumes "lock_inv t" "index_ok cfg t"
  shows "effect cfg X {} W G P t (end_wait r t)" "lcks (end_wait r t) = lcks t"
    "steady (reqs t x) (reqs (end_wait r t) x)"
proof -
  define t1 where "t1 = mod_req r (clear_flags {LRQ_wait_timeout}) t"
  have s: "steady (reqs t x) (reqs t1 x)" for x by (simp add: t1_def steady_def clear_flags_def)
  have i: "lock_inv t1"
    unfolding t1_def by (rule mod_req_inv [OF assms(1)]) (simp_all add: same_request_def req_key_def clear_flags_def)
  have ix: "index_ok cfg t1" using assms(2) by (simp add: t1_def)
  have h: "same_processes t1 t" by (simp add: t1_def)
  have "effect cfg X {} W G P t t1" by (rule effect_call [OF i ix same_processes_homes [OF h]]) (simp add: s)
  moreover have "effect cfg X {} W G P t1 (mod_own (lrq_owner (reqs t r)) (\<lambda>q. q\<lparr>own_waits := own_waits q - 1\<rparr>) t1)"
    by (rule own_change_effect [OF i ix]) (simp add: own_key_def)
  ultimately show "effect cfg X {} W G P t (end_wait r t)"
    using effect_trans unfolding end_wait_def t1_def by blast
  show "steady (reqs t x) (reqs (end_wait r t) x)" using s by (simp add: end_wait_def t1_def)
qed (simp add: end_wait_def)

text \<open>Taking a notice off an owner's queue.\<close>

lemma seen_inv:
  assumes inv: "lock_inv t" and b: "LRQ_blocking \<in> lrq_flags (reqs t b)" "lrq_type (reqs t b)" "lrq_owner (reqs t b) = w"
    and F: "F = (\<lambda>q. q\<lparr>lrq_flags := insert LRQ_blocking_seen (lrq_flags q - {LRQ_blocking})\<rparr>)"
  shows "lock_inv (mod_req b F (mod_own w (\<lambda>q. q\<lparr>own_blocks := remove1 b (own_blocks q)\<rparr>) t))" (is "lock_inv ?t")
proof (rule lock_inv_marks [OF inv])
  note q = owner_queues [OF lock_invD(2) [OF inv]]
  have nr: "LRQ_repost \<notin> lrq_flags (reqs t b)" using lock_invD(2) [OF inv] b by (auto simp: owners_ok_def)
  show "owners_ok ?t"
    using lock_invD(2) [OF inv] b nr unfolding owners_ok_def owner_ok_def F by (auto simp: set_remove1_eq)
qed (simp_all add: same_owners_mod_own same_request_def F)

lemma take_block_effect:
  assumes inv: "lock_inv t" and ix: "index_ok cfg t"
  shows "effect cfg X {} W G P t (snd (take_block w t))" (is ?A)
    "length (lbl_requests (lcks (snd (take_block w t)) l)) = length (lbl_requests (lcks t l))" (is ?B)
proof -
  define b where "b = hd (own_blocks (owns t w))"
  define t1 where "t1 = mod_own w (\<lambda>q. q\<lparr>own_blocks := remove1 b (own_blocks q)\<rparr>) t"
  define F :: "lrq \<Rightarrow> lrq" where "F = (\<lambda>q. q\<lparr>lrq_flags := insert LRQ_blocking_seen (lrq_flags q - {LRQ_blocking})\<rparr>)"
  define t2 where "t2 = (if LRQ_blocking \<in> lrq_flags (reqs t1 b) then bump Blocks (mod_req b F t1)
     else if LRQ_repost \<in> lrq_flags (reqs t1 b) then free_repost b w t else t1)"
  have tb: "snd (take_block w t) = (if own_count (owns t w) \<noteq> 0 \<and> own_blocks (owns t w) \<noteq> []
      then if lrq_ast_routine (reqs t b) \<noteq> 0 then mod_own w (\<lambda>q. q\<lparr>own_ast_count := own_ast_count q + 1\<rparr>) t2 else t2
      else mod_own w (\<lambda>q. q\<lparr>own_flags := own_flags q - {OWN_signaled}\<rparr>) t)"
    by (simp add: take_block_def t2_def t1_def F_def b_def free_repost_def Let_def)
  have t2: "effect cfg X {} W G P t t2" if ne: "own_blocks (owns t w) \<noteq> []"
  proof -
    have b: "b \<in> set (own_blocks (owns t w))" using ne by (simp add: b_def)
    note q = owner_queues(6) [OF lock_invD(2) [OF inv], THEN iffD1, OF b]
    show ?thesis
    proof (cases "LRQ_blocking \<in> lrq_flags (reqs t b)")
      case True
      then have e: "t2 = bump Blocks (mod_req b F t1)" by (simp add: t2_def t1_def)
      have "lock_inv (mod_req b F t1)"
        unfolding t1_def by (rule seen_inv [OF inv True _ _ F_def]) (use q in simp_all)
      moreover have "steady (reqs t x) (reqs t2 x)" for x by (simp add: e t1_def F_def steady_def)
      moreover have "same_homes t2 t"
        by (rule same_processes_homes) (simp add: e t1_def same_owners_mod_own)
      ultimately show ?thesis using ix by (intro effect_call) (simp_all add: e t1_def)
    next
      case False
      then have r: "LRQ_repost \<in> lrq_flags (reqs t b)" using q by simp
      then have e: "t2 = free_repost b w t" using False by (simp add: t2_def t1_def)
      show ?thesis
        unfolding e
      proof (rule effectI)
        have h: "same_homes (free_repost b w t) t" by (rule same_processes_homes) simp
        show "settled (reqs t x) (reqs (free_repost b w t) x)" if "live_request (free_repost b w t) x" for x
          using that r by (cases "x = b") (auto simp: live_request_def)
      qed (use free_repost_inv [OF inv b r] ix r same_homesD [OF same_processes_homes, of "free_repost b w t" t] in simp_all)
    qed
  qed
  show ?A
    unfolding tb using t2 effectD(1,2) [OF t2] own_change_effect [OF inv ix]
    by (auto simp: own_key_def intro!: effect_trans [OF t2] own_change_effect)
  show ?B by (simp add: tb t2_def t1_def)
qed

lemma reject_reqs:
  "reqs (reject r t) = (reqs t)(r := (reqs t r)\<lparr>lrq_flags := insert LRQ_rejected (lrq_flags (reqs t r)) - {LRQ_pending}\<rparr>)"
  by (auto simp: reject_def unpend_def set_flag_def clear_flags_def fun_eq_iff)

lemma reject_effect:
  assumes inv: "lock_inv t" and ix: "index_ok cfg t" and r: "live_request t r" "LRQ_pending \<in> lrq_flags (reqs t r)"
  shows "effect cfg X {} W G P t (reject r t)" "lbl_requests (lcks (reject r t) l) = lbl_requests (lcks t l)"
proof -
  define t1 where "t1 = mod_req r (set_flag LRQ_rejected) t"
  define l0 where "l0 = lrq_lock (reqs t r)"
  have e: "reject r t = unpend r l0 t1" by (simp add: reject_def t1_def l0_def)
  have i1: "lock_inv t1"
    unfolding t1_def by (rule mod_req_inv [OF inv]) (simp_all add: same_request_def req_key_def set_flag_def)
  have "r \<in> set (lbl_requests (lcks t1 l0))" using live_requestD(1) [OF inv r(1)] by (simp add: t1_def l0_def)
  then have "table_ok (reject r t)"
    unfolding e using r(2) by (intro unpend_ok lock_invD(1) [OF i1]) (simp_all add: t1_def set_flag_def)
  moreover have "owners_ok (reject r t)" unfolding e by (rule unpend_owners [OF lock_invD(2) [OF i1]])
  moreover have sp: "same_processes (reject r t) t" by (simp add: e t1_def)
  ultimately have "lock_inv (reject r t)" using lock_invD(3) [OF inv] same_processesD [OF sp] by (simp add: lock_inv_def)
  moreover have "settled (reqs t x) (reqs (reject r t) x)" for x
    using r(2) by (auto simp: reject_reqs settled_def refused_def)
  ultimately show "effect cfg X {} W G P t (reject r t)"
    using ix by (intro effect_call same_processes_homes [OF sp]) (simp_all add: e t1_def)
  show "lbl_requests (lcks (reject r t) l) = lbl_requests (lcks t l)" by (simp add: reject_def unpend_def)
qed

lemma break_deadlock_effect:
  assumes inv: "lock_inv t" and ix: "index_ok cfg t" and v: "live_request t v" "LRQ_pending \<in> lrq_flags (reqs t v)"
  shows "effect cfg X {} W G P t (break_deadlock r v t)" "lbl_requests (lcks (break_deadlock r v t) l) = lbl_requests (lcks t l)"
proof -
  define t1 where "t1 = reject v (bump Deadlocks t)"
  define t2 where "t2 = mod_own (lrq_owner (reqs t1 v)) (\<lambda>q. q\<lparr>own_flags := own_flags q - {OWN_scanned}\<rparr>) t1"
  have e: "break_deadlock r v t = (if v \<noteq> r then post_wakeup (lrq_owner (reqs t1 v)) t2 else t2)"
    by (simp add: break_deadlock_def t1_def t2_def Let_def)
  have a: "effect cfg X {} W G P t (bump Deadlocks t)" by (rule same_effect) (use inv ix in simp_all)
  have b: "effect cfg X {} W G P (bump Deadlocks t) t1"
    unfolding t1_def by (rule reject_effect [OF effectD(1,2) [OF a]]) (use v in simp_all)
  note ab = effect_trans [OF a b]
  have c: "effect cfg X {} W G P t1 t2"
    unfolding t2_def by (rule own_change_effect [OF effectD(1,2) [OF ab]]) (simp add: own_key_def)
  note abc = effect_trans [OF ab c]
  have d: "effect cfg X {} W G P t2 (post_wakeup w t2)" for w
    by (rule same_effect) (use effectD(1,2) [OF abc] in simp_all)
  show "effect cfg X {} W G P t (break_deadlock r v t)" unfolding e using abc effect_trans [OF abc d] by simp
  show "lbl_requests (lcks (break_deadlock r v t) l) = lbl_requests (lcks t l)"
    by (simp add: e t2_def t1_def reject_def unpend_def)
qed

text \<open>A turn of the loop.\<close>

lemma probe_unpurged:
  assumes "probe_processes exists pid t = (False, t')"
  shows "t' = t"
proof -
  have "fst (fold (probe_step exists pid) ps (True, t)) = True" for ps t
    by (induction ps arbitrary: t) (auto simp: probe_step_def)
  note T = this
  have "fold (probe_step exists pid) ps (False, t) = (False, t') \<Longrightarrow> t' = t" for ps
  proof (induction ps arbitrary: t)
    case (Cons p ps)
    show ?case
    proof (cases "gone exists pid t p")
      case True
      then have "fold (probe_step exists pid) ps (True, purge_process p t) = (False, t')"
        using Cons.prems by (simp add: probe_step_def [of _ _ p "(False, t)"])
      then show ?thesis using T [of ps "purge_process p t"] by simp
    next
      case False
      then show ?thesis using Cons by (simp add: probe_step_def)
    qed
  qed simp
  then show ?thesis using assms by (simp add: probe_processes_fold)
qed

lemma covers_same_homes: "same_homes t' t \<Longrightarrow> covers W G exists pid t' = covers W G exists pid t"
  by (simp add: covers_def gone_def same_homes_def)

lemma scan_effect:
  assumes inv: "lock_inv t" and ix: "index_ok cfg t" and r: "r \<in> pendings t" and scan: "deadlock_scan w r t = Some (victim, t')"
  shows "effect cfg X {} W G P t t'" "lcks t' = lcks t"
proof -
  note s = deadlock_scan_safe [OF inv r scan] and e = deadlock_scan_effects [OF inv r scan]
  obtain F where F: "owns t' = (owns t)(w := (owns t w)\<lparr>own_flags := F\<rparr>)" using e(3) by blast
  obtain R V S where T: "t' = t\<lparr>reqs := R, owns := V, lhb_stats := S\<rparr>" using e(2) by blast
  have "index_ok cfg t' = index_ok cfg t" by (rule same_indexD(1)) (simp add: T same_index_def)
  moreover have "own_process (owns t' x) = own_process (owns t x)" for x by (simp add: F)
  then have "same_homes t' t" by (simp add: T same_homes_def)
  ultimately show "effect cfg X {} W G P t t'" using s(1,2) ix by (intro effect_call) simp_all
qed (rule deadlock_scan_safe(3) [OF inv r scan])

lemma pendings_live: "lock_inv t \<Longrightarrow> x \<in> pendings t \<longleftrightarrow> live_request t x \<and> LRQ_pending \<in> lrq_flags (reqs t x)"
  using lock_invD(2) [of t] by (auto simp: pendings_def live_request_def owners_ok_def)

lemma same_requests_le: "(\<And>l. lbl_requests (lcks t' l) = lbl_requests (lcks t l)) \<Longrightarrow> queues_le t' t"
  by (simp add: queues_le_def)

lemma wake_result:
  assumes inv: "lock_inv t" and ix: "index_ok cfg t" and sm: "roomy t" and r: "live_request t r"
    and W: "covers W G (exists_process v) pid t" "\<not> W (lrq_owner (reqs t r))"
  shows "\<exists>vd t'. wake pid r i tm v t = Some (vd, t') \<and> effect cfg X {} W G P t t' \<and> queues_le t' t \<and>
     live_request t' r \<and> (vd = Resolved \<longrightarrow> LRQ_pending \<notin> lrq_flags (reqs t' r))"
proof (cases "LRQ_pending \<in> lrq_flags (reqs t r)")
  case False
  then show ?thesis using effect_refl [OF inv ix] r by (simp add: wake_def queues_le_def)
next
  case pd: True
  define w where "w = lrq_owner (reqs t r)"
  define t1 where "t1 = mod_own w (\<lambda>q. q\<lparr>own_flags := own_flags q - {OWN_wakeup}\<rparr>) t"
  have e1: "effect cfg X {} W G P t t1"
    unfolding t1_def by (rule own_change_effect [OF inv ix]) (simp add: own_key_def)
  note i1 = effectD(1,2) [OF e1]
  have h1: "same_homes t1 t"
    by (rule same_processes_homes) (simp add: t1_def same_owners_mod_own)
  have q1: "lcks t1 = lcks t" "reqs t1 = reqs t" by (simp_all add: t1_def)
  have l1: "live_request t1 r" using r by (simp add: live_request_def q1)
  define tj where "tj = reject r t1"
  have ej: "effect cfg X {} W G P t1 tj" "lbl_requests (lcks tj l) = lbl_requests (lcks t1 l)" for l
    unfolding tj_def by (rule reject_effect [OF i1 l1]; simp add: q1 pd)+
  note ij = effectD(1,2) [OF ej(1)]
  have smj: "small tj" "small t1" using roomy_small [OF sm] by (simp_all add: small_def ej(2) q1)
  have hj: "same_homes tj t1" by (rule same_processes_homes) (simp add: tj_def reject_def)
  define tp where "tp = snd (probe_processes (exists_process v) pid tj)"
  have pj: "purge_ok cfg W G tj tp"
    unfolding tp_def by (rule probe_processes_purge [OF ij smj(1)])
      (use W covers_same_homes [OF h1] covers_same_homes [OF hj] in simp)
  have ep: "effect cfg X {} W G P t tp"
    using effect_trans [OF effect_trans [OF e1 ej(1)]] effect_purge [OF pj] probe_processes_fall by (simp add: tp_def)
  have rj: "lrq_owner (reqs tj r) = lrq_owner (reqs t r)" "LRQ_pending \<notin> lrq_flags (reqs tj r)" "live_request tj r"
    using l1 by (auto simp: tj_def reject_reqs q1 live_request_def)
  have lp: "live_request tp r" using purge_okD(4) [OF pj rj(3)] W(2) rj(1) by simp
  have np: "LRQ_pending \<notin> lrq_flags (reqs tp r)"
    using settledD(6) [OF steady_settled [OF purge_okD(6) [OF pj lp]]] rj(2) by blast
  have qp: "queues_le tp t" using purge_okD(3) [OF pj] by (simp add: queues_le_def ej(2) q1)
  obtain purged t2 where pr: "probe_processes (exists_process v) pid t1 = (purged, t2)" by fastforce
  have p2: "purge_ok cfg W G t1 t2"
    using probe_processes_purge [OF i1 smj(2), of W G "exists_process v" pid] W covers_same_homes [OF h1] pr by simp
  have e2: "effect cfg X {} W G P t t2"
    using effect_trans [OF e1 effect_purge [OF p2]] probe_processes_fall [of t1 "exists_process v" pid] pr by simp
  have l2: "live_request t2 r" using purge_okD(4) [OF p2 l1] W(2) by (simp add: q1)
  have q2: "queues_le t2 t" using purge_okD(3) [OF p2] by (simp add: queues_le_def q1)
  note i2 = effectD(1,2) [OF e2]
  define Q where "Q vd t' \<longleftrightarrow> effect cfg X {} W G P t t' \<and> queues_le t' t \<and>
     live_request t' r \<and> (vd = Resolved \<longrightarrow> LRQ_pending \<notin> lrq_flags (reqs t' r))" for vd t'
  have Q: "Q (Again x) t" "Q Resolved tp" "Q (Repost x) t1" "Q (Repost x) t2" for x
    using effect_refl [OF inv ix] e1 ep e2 l2 lp np l1 r qp q2 q1 by (simp_all add: Q_def queues_le_def)
  have Q2: "LRQ_pending \<notin> lrq_flags (reqs t2 r) \<Longrightarrow> Q Resolved t2" using e2 l2 q2 by (simp add: Q_def)
  define woken tm1 tm2 where "woken = (OWN_wakeup \<in> own_flags (owns t w))" and "tm1 = tm\<lparr>current_time := now v\<rparr>"
    and "tm2 = tm1\<lparr>deadlock_timeout := now v + int (interval v)\<rparr>"
  define scan where "scan = (case deadlock_scan w r t2 of None \<Rightarrow> None | Some (None, t3) \<Rightarrow> Some (Repost tm2, t3)
     | Some (Some victim, t3) \<Rightarrow> Some (Again tm2, break_deadlock r victim t3))"
  have wk: "wake pid r i tm v t = (if \<not> woken \<and> now v + 1 < wake_time i tm then Some (Again tm1, t)
     else if cancelled v \<or> (i < 0 \<and> lock_timeout tm \<le> now v) then Some (Resolved, tp)
     else if woken then Some (Repost tm2, t1)
     else if purged \<and> LRQ_pending \<notin> lrq_flags (reqs t2 r) then Some (Resolved, t2)
     else if OWN_scanned \<in> own_flags (owns t2 w) \<or> LRQ_wait_timeout \<in> lrq_flags (reqs t2 r) then Some (Repost tm2, t2)
     else scan)"
    unfolding wake_def Let_def w_def [symmetric] t1_def [symmetric] tj_def [symmetric] tp_def [symmetric] pr prod.case
      woken_def [symmetric] tm1_def [symmetric] tm2_def [symmetric] scan_def [symmetric]
    using pd by simp
  have S: "\<exists>vd t'. scan = Some (vd, t') \<and> Q vd t'" if notp: "\<not> (purged \<and> LRQ_pending \<notin> lrq_flags (reqs t2 r))"
  proof -
    have "t2 = t1" if "\<not> purged" using probe_unpurged [of _ _ t1 t2] pr that by simp
    then have pd2: "LRQ_pending \<in> lrq_flags (reqs t2 r)" using notp pd q1 by (cases purged) simp_all
    have rp: "r \<in> pendings t2" using pendings_live [OF i2(1)] l2 pd2 by simp
    obtain victim t3 where sc: "deadlock_scan w r t2 = Some (victim, t3)"
      using deadlock_scan_terminates [OF i2(1) rp] by blast
    have e3: "effect cfg X {} W G P t t3" using effect_trans [OF e2 scan_effect(1) [OF i2 rp sc]] .
    have q3: "lcks t3 = lcks t2" by (rule scan_effect(2) [OF i2 rp sc])
    note st = deadlock_scan_safe(2) [OF i2(1) rp sc]
    have l3: "live_request t3 x = live_request t2 x" for x by (rule steady_live [OF st])
    show ?thesis
    proof (cases victim)
      case None
      then show ?thesis using e3 q2 q3 l2 l3 by (simp add: scan_def sc Q_def queues_le_def)
    next
      case (Some u)
      have "u \<in> pendings t2" using deadlock_scan_victim(1) [OF i2(1) rp] sc Some by simp
      then have u2: "live_request t2 u" "LRQ_pending \<in> lrq_flags (reqs t2 u)" using pendings_live [OF i2(1)] by simp_all
      have u3: "live_request t3 u" "LRQ_pending \<in> lrq_flags (reqs t3 u)"
        using u2 l3 unmarked_eq(5) [OF deadlock_scan_effects(1) [OF i2(1) rp sc, of u], of LRQ_pending] by simp_all
      note b = break_deadlock_effect [OF effectD(1,2) [OF e3] u3]
      have "quiet cfg t3 (break_deadlock r u t3)" by (rule b(1))
      then have "live_request (break_deadlock r u t3) r" using effectD(7) l2 l3 by auto
      then show ?thesis
        using effect_trans [OF e3 b(1)] b(2) q2 q3 Some by (simp add: scan_def sc Q_def queues_le_def)
    qed
  qed
  have "\<exists>vd t'. wake pid r i tm v t = Some (vd, t') \<and> Q vd t'"
    unfolding wk using Q S Q2 by (cases "purged \<and> LRQ_pending \<notin> lrq_flags (reqs t2 r)") (auto simp: np)
  then show ?thesis by (simp add: Q_def)
qed

end
