(* ===== verification/LockStart.thy ===== *)
theory LockStart
  imports LockEffects
begin

text \<open>
  What starting a process and an owner does to the others (\<open>create_process\<close>, \<open>create_owner\<close> of
  \<open>src/lock/lock.cpp\<close>): blocks of the same number or identifier are purged first, then a fresh
  block is filled in, and processes that are gone are looked for.
\<close>

definition add_process :: "nat \<Rightarrow> nat \<Rightarrow> table \<Rightarrow> table" where
  "add_process p pid t = (let t3 = mod_prc p (\<lambda>q. q\<lparr>prc_process_id := pid, prc_owners := []\<rparr>) t
     in t3\<lparr>lhb_processes := lhb_processes t3 @ [p]\<rparr>)"

definition add_owner :: "nat \<Rightarrow> nat \<Rightarrow> nat \<Rightarrow> nat \<Rightarrow> table \<Rightarrow> table" where
  "add_owner w p owner_type owner_id t = (let t3 = mod_own w (init_owner_block p owner_type owner_id) t;
     t4 = t3\<lparr>lhb_owners := lhb_owners t3 @ [w]\<rparr>
     in mod_prc p (\<lambda>q. q\<lparr>prc_owners := prc_owners q @ [w]\<rparr>) t4)"

lemma grow_effect:
  assumes "lock_inv t2 \<and> same_index t2 t1 \<and> contents t2 = contents t1 \<and> lhb_owners t2 = lhb_owners t1 \<and>
    lhb_processes t2 = lhb_processes t1" "index_ok cfg t1"
  shows "effect cfg X {} W G P t1 t2" "queues_le t2 t1"
proof -
  show "effect cfg X {} W G P t1 t2"
    by (rule effectI) (use assms same_indexD(1) [of t2 t1 cfg] in \<open>auto simp: live_request_def home_def ids_ok_def\<close>)
  show "queues_le t2 t1" using assms by (simp add: queues_le_def)
qed

lemma fresh_process_home:
  assumes "lock_inv t" "fresh_process p t" "live_request t x"
  shows "own_process (owns t (lrq_owner (reqs t x))) \<noteq> p"
  using live_requestD(3) [OF assms(1,3)] lock_invD(3) [OF assms(1)] assms(2) by (auto simp: prcs_ok_def fresh_process_def)

lemma add_process_effect:
  assumes "lock_inv t" "index_ok cfg t" "p < lhb_used t" "fresh_process p t"
  shows "effect cfg X {} W G {p} t (add_process p pid t)" "queues_le (add_process p pid t) t"
    "p \<in> set (lhb_processes (add_process p pid t))" "prc_process_id (prcs (add_process p pid t) q) = (if q = p then pid else prc_process_id (prcs t q))"
    "reqs (add_process p pid t) = reqs t" "lhb_processes (add_process p pid t) = lhb_processes t @ [p]"
proof -
  have r: "reqs (add_process p pid t) = reqs t" "owns (add_process p pid t) = owns t"
    "prcs (add_process p pid t) = (prcs t)(p := (prcs t p)\<lparr>prc_process_id := pid, prc_owners := []\<rparr>)"
    "lhb_processes (add_process p pid t) = lhb_processes t @ [p]" "lcks (add_process p pid t) = lcks t"
    by (simp_all add: add_process_def Let_def mod_prc_def)
  have ix: "index_ok cfg (add_process p pid t)"
    using assms(2) same_indexD(1) [of "add_process p pid t" t cfg] by (simp add: same_index_def add_process_def Let_def mod_prc_def)
  have l: "live_request (add_process p pid t) x = live_request t x" for x by (simp add: live_request_def r)
  show "effect cfg X {} W G {p} t (add_process p pid t)"
  proof (rule effectI)
    show "lock_inv (add_process p pid t)" unfolding add_process_def by (rule add_process_inv [OF assms(1,3,4)])
    show "home (add_process p pid t) (lrq_owner (reqs t x)) = home t (lrq_owner (reqs t x))" if "live_request (add_process p pid t) x" for x
      using fresh_process_home [OF assms(1,4)] that by (simp add: l home_def r)
  qed (use ix in \<open>auto simp: l r ids_ok_def\<close>)
  show "queues_le (add_process p pid t) t" by (simp add: queues_le_def r)
qed (simp_all add: add_process_def Let_def mod_prc_def)

lemma init_owner_effect:
  assumes "lock_inv t" "index_ok cfg t" "w < lhb_used t" "fresh_owner w t" "p \<in> set (lhb_processes t)"
  shows "effect cfg X {} W G P t (mod_own w (init_owner_block p owner_type owner_id) t)" (is ?A)
    "effect cfg X {} W G P t (add_owner w p owner_type owner_id t)" (is ?B)
    "queues_le (add_owner w p owner_type owner_id t) t"
    "covers V F exists pid t \<Longrightarrow> prc_process_id (prcs t p) = pid \<Longrightarrow> covers V F exists pid (add_owner w p owner_type owner_id t)"
proof -
  have n: "lrq_owner (reqs t x) \<noteq> w" if "live_request t x" for x
    using live_requestD(3) [OF assms(1) that] assms(4) by (auto simp: fresh_owner_def)
  note ai = add_owner_inv [OF assms(1,3-5), of owner_type owner_id, folded add_owner_def]
  show ?A
  proof (rule effectI [OF ai(2)])
    show "index_ok cfg (mod_own w (init_owner_block p owner_type owner_id) t)" using assms(2) by simp
  qed (use n in \<open>auto simp: live_request_def home_def ids_ok_def\<close>)
  have r: "reqs (add_owner w p owner_type owner_id t) = reqs t"
    "owns (add_owner w p owner_type owner_id t) = (owns t)(w := init_owner_block p owner_type owner_id (owns t w))"
    "prc_process_id (prcs (add_owner w p owner_type owner_id t) q) = prc_process_id (prcs t q)"
    "lhb_processes (add_owner w p owner_type owner_id t) = lhb_processes t" for q
    by (simp_all add: add_owner_def Let_def mod_prc_def mod_own_def)
  show ?B
  proof (rule effectI [OF ai(1)])
    show "index_ok cfg (add_owner w p owner_type owner_id t)"
      using assms(2) same_indexD(1) [of "add_owner w p owner_type owner_id t" t cfg]
      by (simp add: same_index_def add_owner_def Let_def mod_prc_def mod_own_def)
  qed (use n in \<open>auto simp: live_request_def home_def ids_ok_def r\<close>)
  show "queues_le (add_owner w p owner_type owner_id t) t" by (simp add: queues_le_def add_owner_def Let_def)
  have "lhb_owners (add_owner w p owner_type owner_id t) = lhb_owners t @ [w]" by (simp add: add_owner_def Let_def)
  then show "covers V F exists pid (add_owner w p owner_type owner_id t)"
    if "covers V F exists pid t" "prc_process_id (prcs t p) = pid"
    using that by (auto simp: covers_def gone_def r init_owner_block_def)
qed

lemma create_process_cases:
  assumes inv: "lock_inv t" and ix: "index_ok cfg t" and sm: "small t" and cfg: "config_ok cfg"
    and c: "create_process cfg init_ok pid t = (p, t')"
    and W: "\<And>w. w \<in> set (lhb_owners t) \<Longrightarrow> prc_process_id (prcs t (own_process (owns t w))) = pid \<Longrightarrow> W w"
    and G: "\<And>q. prc_process_id (prcs t q) = pid \<Longrightarrow> G q"
  obtains (none) "p = 0" "effect cfg {} {} W G {} t t'"
    | (added) p1 t2 where "effect cfg {} {} W G {} t t2" "queues_le t2 t" "p1 < lhb_used t2" "fresh_process p1 t2" "t' = add_process p1 pid t2"
        "p = (if init_ok then p1 else 0)"
proof -
  define t1 where "t1 = (case List.find (\<lambda>p. prc_process_id (prcs t p) = pid) (lhb_processes t) of
                  Some p \<Rightarrow> purge_process p t | None \<Rightarrow> t)"
  have a: "purge_ok cfg W G t t1"
  proof (cases "List.find (\<lambda>p. prc_process_id (prcs t p) = pid) (lhb_processes t)")
    case None
    then show ?thesis using purge_ok_refl [OF inv ix] by (simp add: t1_def)
  next
    case (Some p1)
    then have p1: "p1 \<in> set (lhb_processes t)" "prc_process_id (prcs t p1) = pid" by (auto dest: find_SomeD)
    have "purge_ok cfg W G t (purge_process p1 t)"
      by (rule purge_process_purge(1) [OF inv ix sm p1(1)]) (use W G p1(2) in auto)
    then show ?thesis using Some by (simp add: t1_def)
  qed
  have f: "ids_only_fall t t1" unfolding t1_def by (simp add: ids_only_fall_refl purge_process_fall split: option.split)
  have i1: "lock_inv t1" "index_ok cfg t1" using purge_okD [OF a] by simp_all
  have len: "0 < FB_ALIGN (sizeof_prc cfg) 8"
    using cfg FB_ALIGN_bounds(1) [of "sizeof_prc cfg"] by (simp add: config_ok_def)
  obtain b t2 where al: "(case lhb_free_processes t1 of
              [] \<Rightarrow> alloc (memory_size cfg) (can_remap cfg) (FB_ALIGN (sizeof_prc cfg) 8) t1
            | p # rest \<Rightarrow> (Some p, t1\<lparr>lhb_free_processes := rest\<rparr>)) = (b, t2)" by fastforce
  have b: "lock_inv t2 \<and> same_index t2 t1 \<and> contents t2 = contents t1 \<and> lhb_owners t2 = lhb_owners t1 \<and>
    lhb_processes t2 = lhb_processes t1 \<and> (\<forall>x. b = Some x \<longrightarrow> x < lhb_used t2 \<and> fresh_process x t2)"
  proof (rule take_block [OF i1(1) len al])
    fix x rest
    assume x: "lhb_free_processes t1 = x # rest"
    then show "lock_inv (t1\<lparr>lhb_free_processes := rest\<rparr>) \<and> same_index (t1\<lparr>lhb_free_processes := rest\<rparr>) t1 \<and>
        contents (t1\<lparr>lhb_free_processes := rest\<rparr>) = contents t1 \<and>
        lhb_owners (t1\<lparr>lhb_free_processes := rest\<rparr>) = lhb_owners t1 \<and>
        lhb_processes (t1\<lparr>lhb_free_processes := rest\<rparr>) = lhb_processes t1 \<and>
        x < lhb_used (t1\<lparr>lhb_free_processes := rest\<rparr>) \<and> fresh_process x (t1\<lparr>lhb_free_processes := rest\<rparr>)"
      using lock_inv_free_processes [OF i1(1) x] lock_invD(3) [OF i1(1)] by (auto simp: prcs_ok_def fresh_process_def)
  next
    fix n
    show "fresh_process (lhb_used t1) (t1\<lparr>lhb_length := n, lhb_used := lhb_used t1 + FB_ALIGN (sizeof_prc cfg) 8\<rparr>)"
      using lock_invD(3) [OF i1(1)] by (auto simp: prcs_ok_def fresh_process_def)
  qed
  have p2: "effect cfg {} {} W G {} t t2"
    by (rule effect_trans [OF effect_purge [OF a f] grow_effect(1) [OF _ i1(2)]]) (use b in blast)
  have q2: "queues_le t2 t"
    by (rule queues_le_trans [OF grow_effect(2) [OF _ i1(2)] purge_okD(3) [OF a]]) (use b in blast)
  have d: "create_process cfg init_ok pid t = (case b of
           None \<Rightarrow> (0, t2) | Some p \<Rightarrow> (if init_ok then p else 0, add_process p pid t2))"
    unfolding create_process_def Let_def t1_def [symmetric] al by (simp add: add_process_def split: option.split)
  show thesis
  proof (cases b)
    case None
    then show thesis using c d p2 none by simp
  next
    case (Some p1)
    then show thesis using c d p2 q2 b added [of t2 p1] by simp
  qed
qed

text \<open>A new owner: an old one with the same identifier goes, and so do processes that are gone.\<close>

definition replaced :: "nat \<Rightarrow> nat \<Rightarrow> table \<Rightarrow> nat \<Rightarrow> bool" where
  "replaced owner_id owner_type t w \<longleftrightarrow>
     w \<in> set (lhb_owners t) \<and> own_owner_id (owns t w) = owner_id \<and> own_owner_type (owns t w) = owner_type"

lemma create_owner_cases:
  assumes inv: "lock_inv t" and ix: "index_ok cfg t" and sm: "small t" and cfg: "config_ok cfg"
    and c: "create_owner cfg exists init_ok pid p owner_id owner_type t = (w, t')"
    and W: "\<And>v. replaced owner_id owner_type t v \<Longrightarrow> W v"
  obtains (none) "w = 0" "effect cfg {} {} W G {} t t'"
    | (failed) u t2 where "effect cfg {} {} W G {} t t2" "queues_le t2 t" "u < lhb_used t2" "fresh_owner u t2"
        "t' = mod_own u (init_owner_block p owner_type owner_id) t2" "w = 0"
    | (added) t2 where "effect cfg {} {} W G {} t t2" "queues_le t2 t" "w < lhb_used t2" "fresh_owner w t2"
        "t' = snd (probe_processes exists pid (add_owner w p owner_type owner_id t2))"
        "\<forall>exists pid. covers W G exists pid t \<longrightarrow> covers W G exists pid t2"
proof -
  define t1 where "t1 = (case List.find (\<lambda>w. own_owner_id (owns t w) = owner_id \<and> own_owner_type (owns t w) = owner_type)
                       (lhb_owners t) of Some w \<Rightarrow> purge_owner w t | None \<Rightarrow> t)"
  have a: "purge_ok cfg W G t t1"
  proof (cases "List.find (\<lambda>w. own_owner_id (owns t w) = owner_id \<and> own_owner_type (owns t w) = owner_type) (lhb_owners t)")
    case None
    then show ?thesis using purge_ok_refl [OF inv ix] by (simp add: t1_def)
  next
    case (Some u)
    then have u: "u \<in> set (lhb_owners t)" "replaced owner_id owner_type t u" by (auto dest: find_SomeD simp: replaced_def)
    show ?thesis using Some purge_owner_purge(1) [OF inv ix sm u(1), of W G] W [OF u(2)] by (simp add: t1_def)
  qed
  have f: "ids_only_fall t t1" unfolding t1_def by (simp add: ids_only_fall_refl purge_owner_fall split: option.split)
  have i1: "lock_inv t1" "index_ok cfg t1" using purge_okD [OF a] by simp_all
  have len: "0 < FB_ALIGN (sizeof_own cfg) 8"
    using cfg FB_ALIGN_bounds(1) [of "sizeof_own cfg"] by (simp add: config_ok_def)
  obtain b t2 where al: "(case lhb_free_owners t1 of
              [] \<Rightarrow> alloc (memory_size cfg) (can_remap cfg) (FB_ALIGN (sizeof_own cfg) 8) t1
            | w # rest \<Rightarrow> (Some w, t1\<lparr>lhb_free_owners := rest\<rparr>)) = (b, t2)" by fastforce
  have b: "lock_inv t2 \<and> same_index t2 t1 \<and> contents t2 = contents t1 \<and> lhb_owners t2 = lhb_owners t1 \<and>
    lhb_processes t2 = lhb_processes t1 \<and> (\<forall>x. b = Some x \<longrightarrow> x < lhb_used t2 \<and> fresh_owner x t2)"
  proof (rule take_block [OF i1(1) len al])
    fix x rest
    assume x: "lhb_free_owners t1 = x # rest"
    then show "lock_inv (t1\<lparr>lhb_free_owners := rest\<rparr>) \<and> same_index (t1\<lparr>lhb_free_owners := rest\<rparr>) t1 \<and>
        contents (t1\<lparr>lhb_free_owners := rest\<rparr>) = contents t1 \<and>
        lhb_owners (t1\<lparr>lhb_free_owners := rest\<rparr>) = lhb_owners t1 \<and>
        lhb_processes (t1\<lparr>lhb_free_owners := rest\<rparr>) = lhb_processes t1 \<and>
        x < lhb_used (t1\<lparr>lhb_free_owners := rest\<rparr>) \<and> fresh_owner x (t1\<lparr>lhb_free_owners := rest\<rparr>)"
      using lock_inv_free_owners [OF i1(1) x] lock_invD(2) [OF i1(1)] by (auto simp: owners_ok_def fresh_owner_def)
  next
    fix n
    show "fresh_owner (lhb_used t1) (t1\<lparr>lhb_length := n, lhb_used := lhb_used t1 + FB_ALIGN (sizeof_own cfg) 8\<rparr>)"
      using lock_invD(2) [OF i1(1)] by (auto simp: owners_ok_def fresh_owner_def)
  qed
  have p2: "effect cfg {} {} W G {} t t2"
    by (rule effect_trans [OF effect_purge [OF a f] grow_effect(1) [OF _ i1(2)]]) (use b in blast)
  have cv: "\<forall>exists pid. covers W G exists pid t \<longrightarrow> covers W G exists pid t2"
    using purge_covers [OF a] b by (simp add: covers_def gone_def)
  have q2: "queues_le t2 t"
    by (rule queues_le_trans [OF grow_effect(2) [OF _ i1(2)] purge_okD(3) [OF a]]) (use b in blast)
  have d: "create_owner cfg exists init_ok pid p owner_id owner_type t = (case b of
           None \<Rightarrow> (0, t2)
         | Some w \<Rightarrow> if init_ok then (w, snd (probe_processes exists pid (add_owner w p owner_type owner_id t2)))
                     else (0, mod_own w (init_owner_block p owner_type owner_id) t2))"
    unfolding create_owner_def Let_def t1_def [symmetric] al by (simp add: add_owner_def split: option.split)
  show thesis
  proof (cases b)
    case None
    then show thesis using c d p2 none by simp
  next
    case (Some u)
    then show thesis
      using c d p2 q2 cv b failed [of t2 u] added [of t2] by (cases init_ok) auto
  qed
qed

end
