(* ===== verification/LockSystem.thy ===== *)
theory LockSystem
  imports LockWait LockStart
begin

text \<open>
  The lock managers of several processes on one table: each thread has a stack of the
  functions of \<open>src/lock/lock.cpp\<close> it is in, and makes a step from one point where the mutex is
  acquired to the next where it is released or another function is entered. A routine that
  runs with the mutex released (an AST) may call the lock manager again. Threads interleave
  in any order; the mutex itself is not modelled, so some of the interleavings are of steps
  the code makes without letting go of it.
\<close>

subsection \<open>Threads\<close>

text \<open>
  What a waiting call has to do once it is answered, for whom it waits, and how long. The code has no
  \<open>c_held\<close>: it records, for the theorems, the level that the request held when the call was made.
\<close>

datatype finish = By_enqueue | By_convert "(nat \<times> nat) option"

record call =
  c_request :: nat
  c_level :: nat
  c_wait :: int
  c_finish :: finish
  c_held :: nat

definition finish_call :: "call \<Rightarrow> table \<Rightarrow> bool \<times> table" where
  "finish_call c t = (case c_finish c of
       By_enqueue \<Rightarrow> finish_enqueue (c_request c) (c_wait c) t
     | By_convert ast \<Rightarrow> finish_convert (c_request c) (c_wait c) ast t)"

text \<open>
  \<open>Blockage\<close>: the owners \<open>post_blockage\<close> still has to signal, and the process blocks it found
  dead. \<open>Action\<close>, \<open>Ast\<close>: \<open>blocking_action\<close> for an owner, and an AST routine it has called.
  \<open>Entering\<close>, \<open>Loop\<close>, \<open>Sleep\<close>: \<open>wait_for_request\<close> before its loop, at its head and asleep.
  \<open>Shutdown\<close>: \<open>shutdownOwner\<close> waiting for AST routines.
\<close>

datatype frame = Blockage "nat list" "nat list" | Action nat | Ast nat
  | Entering call | Loop call timers | Sleep call timers | Shutdown nat

fun call_of :: "frame \<Rightarrow> call option" where
  "call_of (Entering c) = Some c"
| "call_of (Loop c tm) = Some c"
| "call_of (Sleep c tm) = Some c"
| "call_of _ = None"

definition calls_of :: "frame list \<Rightarrow> call list" where
  "calls_of st = List.map_filter call_of st"

text \<open>A thread may call the lock manager when it is in none of its functions, or in an AST routine.\<close>

fun idle :: "frame list \<Rightarrow> bool" where
  "idle [] = True"
| "idle (Ast w # st) = True"
| "idle _ = False"

text \<open>\<open>offset\<close> is the \<open>m_processOffset\<close> of the lock manager of a process.\<close>

record system =
  tab :: table
  stacks :: "nat \<Rightarrow> frame list"
  offset :: "nat \<Rightarrow> nat"
  dead :: "nat set"

definition waited :: "system \<Rightarrow> nat set" where
  "waited s = {c_request c | c. \<exists>th. c \<in> set (calls_of (stacks s th))}"

definition set_stack :: "nat \<Rightarrow> frame list \<Rightarrow> table \<Rightarrow> system \<Rightarrow> system" where
  "set_stack th st t s = s\<lparr>tab := t, stacks := (stacks s)(th := st)\<rparr>"

text \<open>A call that has to wait goes on with \<open>post_blockage\<close>.\<close>

definition answer :: "nat \<Rightarrow> nat \<Rightarrow> int \<Rightarrow> finish \<Rightarrow> outcome \<Rightarrow> table \<Rightarrow> system \<Rightarrow> system" where
  "answer th level lck_wait fin out t s =
     (case out of
        Waiting r \<Rightarrow> (let (bs, t1) = post_blockage r t in set_stack th (Blockage bs [] #
            Entering \<lparr>c_request = r, c_level = level, c_wait = lck_wait, c_finish = fin, c_held = lrq_state (reqs (tab s) r)\<rparr> # stacks s th) t1 s)
      | _ \<Rightarrow> s\<lparr>tab := t\<rparr>)"

definition leave :: "nat \<Rightarrow> call \<Rightarrow> frame list \<Rightarrow> table \<Rightarrow> system \<Rightarrow> system" where
  "leave th c st t s = set_stack th st (snd (finish_call c (end_wait (c_request c) t))) s"

definition signalled :: "nat \<Rightarrow> nat \<Rightarrow> frame list \<Rightarrow> delivery \<times> table \<Rightarrow> system \<Rightarrow> system" where
  "signalled th w st dt s = set_stack th (if fst dt = Local then Action w # st else st) (snd dt) s"

subsection \<open>Steps\<close>

text \<open>
  What the code relies on: the engine uses a request or an owner only in the process it is
  of, does not touch a request that a call waits for, and gives an owner up when none of its
  requests is waited for; a process is reported gone, or its event cannot be posted, only when
  it is dead; the block of a dead process is not given to another while its offset is still in
  a list of dead processes. \<open>pid_of\<close> is the process of a thread.
\<close>

definition usable :: "nat \<Rightarrow> nat \<Rightarrow> system \<Rightarrow> bool" where
  "usable pid r s \<longleftrightarrow> live_request (tab s) r \<and> r \<notin> waited s \<and> home (tab s) (lrq_owner (reqs (tab s) r)) = pid"

definition truthful :: "(nat \<Rightarrow> bool) \<Rightarrow> system \<Rightarrow> bool" where
  "truthful exists s \<longleftrightarrow> (\<forall>pid. pid \<notin> dead s \<longrightarrow> exists pid)"

definition in_dead_list :: "nat \<Rightarrow> system \<Rightarrow> bool" where
  "in_dead_list p s \<longleftrightarrow> (\<exists>th ws ds. Blockage ws ds \<in> set (stacks s th) \<and> p \<in> set ds)"

text \<open>
  The guards: an owner that \<open>post_blockage\<close> signals, the dead process block it purges, the end of
  \<open>shutdownOwner\<close>'s wait, and the owner that \<open>blocking_action_thread\<close> finds to serve.
\<close>

definition to_signal :: "nat \<Rightarrow> table \<Rightarrow> bool" where
  "to_signal w t \<longleftrightarrow> own_count (owns t w) \<noteq> 0 \<and> OWN_signaled \<notin> own_flags (owns t w)"

definition bury :: "nat \<Rightarrow> table \<Rightarrow> table" where
  "bury p t = (if prc_process_id (prcs t p) \<noteq> 0 then purge_process p t else t)"

definition notices_done :: "nat \<Rightarrow> table \<Rightarrow> bool" where
  "notices_done w t \<longleftrightarrow> own_ast_count (owns t w) = 0"

definition next_signaled :: "nat \<Rightarrow> nat \<Rightarrow> table \<Rightarrow> nat option" where
  "next_signaled pid p t =
     (if p = 0 \<or> prc_process_id (prcs t p) \<noteq> pid then None
      else List.find (\<lambda>w. OWN_signaled \<in> own_flags (owns t w)) (prc_owners (prcs t p)))"

inductive step :: "config \<Rightarrow> (nat \<Rightarrow> nat) \<Rightarrow> system \<Rightarrow> system \<Rightarrow> bool" for cfg pid_of where
  Enqueue: "step cfg pid_of s (answer th type i By_enqueue out t s)"
    if "pid_of th \<notin> dead s" "idle (stacks s th)"
      "own_count (owns (tab s) w) \<noteq> 0 \<Longrightarrow> w \<in> set (lhb_owners (tab s)) \<and> home (tab s) w = pid_of th"
      "prior \<noteq> 0 \<Longrightarrow> usable (pid_of th) prior s" "type < LCK_max" "length key < 256" "series < 256"
      "enqueue cfg prior series key type ast arg data i w (tab s) = (out, t)"
| Convert: "step cfg pid_of s (answer th type i (By_convert (new_ast ast arg (reqs (tab s) r))) out t s)"
    if "pid_of th \<notin> dead s" "idle (stacks s th)" "usable (pid_of th) r s" "type < LCK_max"
      "convert r type i ast arg (tab s) = (out, t)"
| Downgrade: "step cfg pid_of s (s\<lparr>tab := snd (downgrade r (tab s))\<rparr>)"
    if "pid_of th \<notin> dead s" "idle (stacks s th)" "usable (pid_of th) r s"
| Dequeue: "step cfg pid_of s (s\<lparr>tab := snd (dequeue r (tab s))\<rparr>)"
    if "pid_of th \<notin> dead s" "idle (stacks s th)" "usable (pid_of th) r s"
| Repost: "step cfg pid_of s (case w' of None \<Rightarrow> s\<lparr>tab := t\<rparr>
      | Some w' \<Rightarrow> signalled th w' (stacks s th) (signal_owner (pid_of th) posted w' t) s)"
    if "pid_of th \<notin> dead s" "idle (stacks s th)" "w \<noteq> 0 \<Longrightarrow> w \<in> set (lhb_owners (tab s))"
      "repost cfg ast arg w (tab s) = (w', t)"
| Cancel: "step cfg pid_of s (s\<lparr>tab := snd (cancelWait w (tab s))\<rparr>)"
    if "pid_of th \<notin> dead s" "idle (stacks s th)"
| Query: "step cfg pid_of s (s\<lparr>tab := snd (queryData series agg (tab s))\<rparr>)"
    if "pid_of th \<notin> dead s" "idle (stacks s th)"
| Read: "step cfg pid_of s (s\<lparr>tab := snd (readData r (tab s))\<rparr>)"
    if "pid_of th \<notin> dead s" "idle (stacks s th)" "live_request (tab s) r"
| Read2: "step cfg pid_of s (s\<lparr>tab := snd (readData2 cfg series key w (tab s))\<rparr>)"
    if "pid_of th \<notin> dead s" "idle (stacks s th)"
| Write: "step cfg pid_of s (s\<lparr>tab := snd (writeData r d (tab s))\<rparr>)"
    if "pid_of th \<notin> dead s" "idle (stacks s th)" "live_request (tab s) r"
| Reuse: "step cfg pid_of s (s\<lparr>tab := t, offset := (offset s)(pid_of th := p)\<rparr>)"
    if "pid_of th \<notin> dead s" "idle (stacks s th)" "handle \<noteq> 0"
      "initializeOwner cfg exists prc_ok own_ok (pid_of th) (offset s (pid_of th)) owner_id owner_type handle (tab s) = (w, p, t)"
| Attach: "step cfg pid_of s (s\<lparr>tab := t, offset := (offset s)(pid_of th := p)\<rparr>)"
    if "pid_of th \<notin> dead s" "idle (stacks s th)" "pid_of th \<noteq> 0" "offset s (pid_of th) = 0"
      "create_process cfg prc_ok (pid_of th) (tab s) = (p, t)"
      "\<And>x. x \<in> waited s \<Longrightarrow> home (tab s) (lrq_owner (reqs (tab s) x)) \<noteq> pid_of th"
      "\<And>q. in_dead_list q s \<Longrightarrow> prc_process_id (prcs t q) \<in> {0, prc_process_id (prcs (tab s) q)}"
| New_owner: "step cfg pid_of s (s\<lparr>tab := t\<rparr>)"
    if "pid_of th \<notin> dead s" "idle (stacks s th)" "offset s (pid_of th) \<noteq> 0" "truthful exists s"
      "create_owner cfg exists own_ok (pid_of th) (offset s (pid_of th)) owner_id owner_type (tab s) = (w, t)"
      "\<And>x. x \<in> waited s \<Longrightarrow> \<not> replaced owner_id owner_type (tab s) (lrq_owner (reqs (tab s) x))"
| Release: "step cfg pid_of s (s\<lparr>tab := t\<rparr>)"
    if "pid_of th \<notin> dead s" "idle (stacks s th)" "release_owner w (tab s) = (False, t)"
| Shut: "step cfg pid_of s (set_stack th (Shutdown w # stacks s th) t s)"
    if "pid_of th \<notin> dead s" "idle (stacks s th)" "release_owner w (tab s) = (True, t)"
| Purge: "step cfg pid_of s (set_stack th st (purge_owner w (tab s)) s)"
    if "stacks s th = Shutdown w # st" "notices_done w (tab s)" "w \<in> set (lhb_owners (tab s))"
      "\<And>x. x \<in> waited s \<Longrightarrow> lrq_owner (reqs (tab s) x) \<noteq> w"
| Skip: "step cfg pid_of s (set_stack th (Blockage ws ds # st) (tab s) s)"
    if "stacks s th = Blockage (w # ws) ds # st"
      "\<not> to_signal w (tab s)"
| Signal: "step cfg pid_of s (signalled th w (Blockage ws (if fst dt = Undelivered then ds @ [own_process (owns (snd dt) w)] else ds) # st) dt s)"
    if "stacks s th = Blockage (w # ws) ds # st"
      "to_signal w (tab s)"
      "dt = signal_owner (pid_of th) posted w (tab s)" "fst dt = Undelivered \<Longrightarrow> home (tab s) w \<in> insert 0 (dead s)"
| Bury: "step cfg pid_of s (set_stack th (Blockage [] ds # st) (bury p (tab s)) s)"
    if "stacks s th = Blockage [] (p # ds) # st"
| Notified: "step cfg pid_of s (set_stack th st (tab s) s)"
    if "stacks s th = Blockage [] [] # st"
| Act: "step cfg pid_of s (set_stack th (case a of Finished \<Rightarrow> st | Next \<Rightarrow> Action w # st | Run_ast routine arg \<Rightarrow> Ast w # Action w # st) t s)"
    if "stacks s th = Action w # st" "take_block w (tab s) = (a, t)"
| Ast_done: "step cfg pid_of s (set_stack th st (ast_done w (tab s)) s)"
    if "stacks s th = Ast w # st"
| Thread: "step cfg pid_of s (set_stack th [Action w] (tab s) s)"
    if "pid_of th \<notin> dead s" "stacks s th = []" "next_signaled (pid_of th) (offset s (pid_of th)) (tab s) = Some w"
| Enter: "step cfg pid_of s (set_stack th (Loop c (start_timers (c_wait c) n k) # st) (tab s) s)"
    if "stacks s th = Entering c # st"
| Doze: "step cfg pid_of s (set_stack th (Sleep c tm # st) (tab s) s)"
    if "stacks s th = Loop c tm # st" "LRQ_pending \<in> lrq_flags (reqs (tab s) (c_request c))"
| Settled: "step cfg pid_of s (leave th c st (tab s) s)"
    if "stacks s th = Loop c tm # st" "LRQ_pending \<notin> lrq_flags (reqs (tab s) (c_request c))"
| Wake: "step cfg pid_of s (case vd of
        Resolved \<Rightarrow> leave th c st t s
      | Again tm' \<Rightarrow> set_stack th (Loop c tm' # st) t s
      | Repost tm' \<Rightarrow> set_stack th (Blockage (fst (post_blockage (c_request c) t)) [] # Loop c tm' # st)
                          (snd (post_blockage (c_request c) t)) s)"
    if "stacks s th = Sleep c tm # st" "wake (pid_of th) (c_request c) (c_wait c) tm v (tab s) = Some (vd, t)"
      "truthful (exists_process v) s"
| Die: "step cfg pid_of s (s\<lparr>dead := insert pid (dead s), stacks := (\<lambda>th. if pid_of th = pid then [] else stacks s th)\<rparr>)"

text \<open>
  A table as \<open>initialize\<close> leaves it: nothing is queued, no block is in use. The runs considered
  keep fewer requests on a lock than its 16-bit counts can tell.
\<close>

definition empty_table :: "nat \<Rightarrow> nat \<Rightarrow> nat \<Rightarrow> table \<Rightarrow> bool" where
  "empty_table slots len used t \<longleftrightarrow> lhb_owners t = [] \<and> lhb_processes t = [] \<and> lhb_free_processes t = [] \<and>
     lhb_free_owners t = [] \<and> lhb_free_locks t = [] \<and> lhb_free_requests t = [] \<and> lhb_length t = len \<and> lhb_used t = used \<and>
     lhb_hash_slots t = slots \<and> lhb_hash t = (\<lambda>_. []) \<and> lhb_data t = (\<lambda>_. []) \<and>
     (\<forall>r. \<not> lrq_type (reqs t r)) \<and> (\<forall>l. \<not> lbl_type (lcks t l) \<and> lbl_requests (lcks t l) = []) \<and>
     (\<forall>w. own_requests (owns t w) = [] \<and> own_pending (owns t w) = [] \<and> own_blocks (owns t w) = []) \<and>
     (\<forall>p. prc_process_id (prcs t p) = 0)"

inductive reach :: "config \<Rightarrow> (nat \<Rightarrow> nat) \<Rightarrow> system \<Rightarrow> bool" for cfg pid_of where
  start: "reach cfg pid_of s"
    if "empty_table slots len used (tab s)" "stacks s = (\<lambda>_. [])" "offset s = (\<lambda>_. 0)" "dead s = {}"
| next_step: "reach cfg pid_of s'"
    if "reach cfg pid_of s" "step cfg pid_of s s'" "roomy (tab s')"

subsection \<open>The invariant\<close>

text \<open>A request that a call of process \<open>pid\<close> waits for. Until it is granted, one that is converted keeps its level.\<close>

definition call_inv :: "table \<Rightarrow> nat \<Rightarrow> call \<Rightarrow> bool" where
  "call_inv t pid c \<longleftrightarrow> live_request t (c_request c) \<and> lrq_requested (reqs t (c_request c)) = c_level c \<and>
     home t (lrq_owner (reqs t (c_request c))) = pid \<and>
     (LRQ_pending \<in> lrq_flags (reqs t (c_request c)) \<or> LRQ_rejected \<in> lrq_flags (reqs t (c_request c)) \<or>
      lrq_state (reqs t (c_request c)) = c_level c) \<and>
     \<not> {LRQ_pending, LRQ_rejected} \<subseteq> lrq_flags (reqs t (c_request c)) \<and>
     (c_finish c \<noteq> By_enqueue \<and> {LRQ_pending, LRQ_rejected} \<inter> lrq_flags (reqs t (c_request c)) \<noteq> {} \<longrightarrow>
      lrq_state (reqs t (c_request c)) = c_held c)"

definition calls_distinct :: "(nat \<Rightarrow> frame list) \<Rightarrow> bool" where
  "calls_distinct sts \<longleftrightarrow> (\<forall>th. distinct (map c_request (calls_of (sts th)))) \<and>
     (\<forall>th th' c c'. c \<in> set (calls_of (sts th)) \<and> c' \<in> set (calls_of (sts th')) \<and> c_request c = c_request c' \<longrightarrow> th = th')"

definition dead_lists_ok :: "system \<Rightarrow> bool" where
  "dead_lists_ok s \<longleftrightarrow> (\<forall>p. in_dead_list p s \<longrightarrow> prc_process_id (prcs (tab s) p) \<in> insert 0 (dead s))"

definition offsets_ok :: "system \<Rightarrow> bool" where
  "offsets_ok s \<longleftrightarrow> (\<forall>pid. pid \<notin> dead s \<and> offset s pid \<noteq> 0 \<longrightarrow>
     offset s pid \<in> set (lhb_processes (tab s)) \<and> prc_process_id (prcs (tab s) (offset s pid)) = pid)"

definition sys_inv :: "config \<Rightarrow> (nat \<Rightarrow> nat) \<Rightarrow> system \<Rightarrow> bool" where
  "sys_inv cfg pid_of s \<longleftrightarrow> lock_inv (tab s) \<and> index_ok cfg (tab s) \<and> ids_ok (tab s) \<and>
     (\<forall>th. \<forall>c \<in> set (calls_of (stacks s th)). call_inv (tab s) (pid_of th) c) \<and>
     calls_distinct (stacks s) \<and>
     (\<forall>x \<in> pendings (tab s). x \<in> waited s \<or> home (tab s) (lrq_owner (reqs (tab s) x)) \<in> dead s) \<and>
     (\<forall>th. pid_of th \<in> dead s \<longrightarrow> stacks s th = []) \<and> dead_lists_ok s \<and> offsets_ok s"

lemma sys_invD:
  assumes "sys_inv cfg pid_of s"
  shows "lock_inv (tab s)" "index_ok cfg (tab s)" "ids_ok (tab s)"
    "c \<in> set (calls_of (stacks s th)) \<Longrightarrow> call_inv (tab s) (pid_of th) c" "calls_distinct (stacks s)"
    "x \<in> pendings (tab s) \<Longrightarrow> x \<in> waited s \<or> home (tab s) (lrq_owner (reqs (tab s) x)) \<in> dead s"
    "pid_of th \<in> dead s \<Longrightarrow> stacks s th = []" "dead_lists_ok s" "offsets_ok s"
  using assms by (simp_all add: sys_inv_def)

lemma calls_of_simps [simp]:
  "calls_of [] = []" "calls_of (Blockage ws ds # st) = calls_of st" "calls_of (Action w # st) = calls_of st"
  "calls_of (Ast w # st) = calls_of st" "calls_of (Shutdown w # st) = calls_of st"
  "calls_of (Entering c # st) = c # calls_of st" "calls_of (Loop c tm # st) = c # calls_of st"
  "calls_of (Sleep c tm # st) = c # calls_of st"
  by (simp_all add: calls_of_def List.map_filter_def)

lemma calls_distinct_cong: "(\<And>th. calls_of (sts' th) = calls_of (sts th)) \<Longrightarrow> calls_distinct sts' = calls_distinct sts"
  by (simp add: calls_distinct_def)

lemma call_inv_effect:
  assumes e: "effect cfg X N W G P t t'" and c: "call_inv t pid c" "c_request c \<notin> X" "c_request c \<notin> N" "\<not> W (lrq_owner (reqs t (c_request c)))"
  shows "call_inv t' pid c"
proof -
  have l: "live_request t' (c_request c)" using effectD(7) [OF e] c by (simp add: call_inv_def)
  note st = effectD(9) [OF e l c(3)] and h = effectD(10) [OF e l c(3)]
  define q q' where "q = reqs t (c_request c)" and "q' = reqs t' (c_request c)"
  have "lrq_owner q' = lrq_owner q" "lrq_requested q' = lrq_requested q" using settledD(3,5) [OF st] by (simp_all add: q_def q'_def)
  moreover have "steady q q' \<or> refused q q'" using st by (simp add: settled_def q_def q'_def)
  then have "(LRQ_pending \<in> lrq_flags q' \<or> LRQ_rejected \<in> lrq_flags q' \<or> lrq_state q' = c_level c) \<and>
      \<not> {LRQ_pending, LRQ_rejected} \<subseteq> lrq_flags q' \<and>
      (c_finish c \<noteq> By_enqueue \<and> {LRQ_pending, LRQ_rejected} \<inter> lrq_flags q' \<noteq> {} \<longrightarrow> lrq_state q' = c_held c)"
    using c(1) unfolding call_inv_def q_def [symmetric] steady_def refused_def by (elim disjE) auto
  ultimately show ?thesis using c(1) l h by (simp add: call_inv_def q_def q'_def)
qed

lemma waited_call: "x \<in> waited s \<longleftrightarrow> (\<exists>th. \<exists>c \<in> set (calls_of (stacks s th)). c_request c = x)"
  by (auto simp: waited_def)

text \<open>
  A step that changes the table by an effect, where the requests it removes or changes are not
  waited for, and the calls of one thread go from \<open>cs\<close> to \<open>cs'\<close>.
\<close>

lemma sys_inv_step:
  assumes inv: "sys_inv cfg pid_of s" and e: "effect cfg X N W G {} (tab s) t"
    and new: "\<And>c. c \<in> set (calls_of st) \<Longrightarrow> c \<in> set (calls_of (stacks s th)) \<and> c_request c \<notin> X \<union> N \<or> call_inv t (pid_of th) c"
    and others: "\<And>x th' c. th' \<noteq> th \<Longrightarrow> c \<in> set (calls_of (stacks s th')) \<Longrightarrow> c_request c \<notin> X \<union> N"
    and W: "\<And>x. x \<in> waited s \<Longrightarrow> \<not> W (lrq_owner (reqs (tab s) x))"
    and d: "calls_distinct ((stacks s)(th := st))"
    and pend: "\<And>x. x \<in> pendings t \<Longrightarrow> x \<in> N \<or> (\<exists>c \<in> set (calls_of (stacks s th)). c_request c = x) \<Longrightarrow> \<exists>c \<in> set (calls_of st). c_request c = x"
    and alive: "pid_of th \<notin> dead s"
    and G: "\<And>p pid. G p \<Longrightarrow> offset s pid = p \<Longrightarrow> pid \<notin> dead s \<Longrightarrow> prc_process_id (prcs (tab s) p) = pid \<Longrightarrow> p = 0"
    and ds: "\<And>ws ds p. Blockage ws ds \<in> set st \<Longrightarrow> p \<in> set ds \<Longrightarrow> in_dead_list p s \<or> prc_process_id (prcs t p) \<in> insert 0 (dead s)"
  shows "sys_inv cfg pid_of (set_stack th st t s)"
proof -
  note I = sys_invD [OF inv] and E = effectD [OF e]
  let ?s = "set_stack th st t s"
  have sel: "tab ?s = t" "stacks ?s = (stacks s)(th := st)" "dead ?s = dead s" "offset ?s = offset s"
    by (simp_all add: set_stack_def)
  have keep: "call_inv t (pid_of th') c" if "c \<in> set (calls_of (stacks s th'))" "c_request c \<notin> X \<union> N" for c th'
    by (rule call_inv_effect [OF e I(4) [OF that(1)]]) (use that W in \<open>auto simp: waited_call\<close>)
  have "call_inv t (pid_of th') c" if "c \<in> set (calls_of (((stacks s)(th := st)) th'))" for c th'
  proof (cases "th' = th")
    case True
    then show ?thesis using new [of c] keep [of c th] that by auto
  next
    case False
    then show ?thesis using keep [of c th'] others [of th' c] that by auto
  qed
  moreover have "x \<in> waited ?s \<or> home t (lrq_owner (reqs t x)) \<in> dead s" if x: "x \<in> pendings t" for x
  proof (cases "x \<in> N \<or> (\<exists>c \<in> set (calls_of (stacks s th)). c_request c = x)")
    case True
    then show ?thesis using pend [OF x] by (auto simp: waited_call sel intro!: exI [of _ th])
  next
    case False
    have l: "live_request t x" "LRQ_pending \<in> lrq_flags (reqs t x)" using x pendings_live [OF E(1)] by simp_all
    have n: "x \<notin> N" using False by simp
    note st = E(9) [OF l(1) n] and h = E(10) [OF l(1) n]
    have "x \<in> pendings (tab s)" using E(8) [OF l(1) n] settledD(6) [OF st l(2)] pendings_live [OF I(1)] by simp
    then have "x \<in> waited s \<or> home (tab s) (lrq_owner (reqs (tab s) x)) \<in> dead s" by (rule I(6))
    moreover have "x \<in> waited ?s" if xw: "x \<in> waited s"
    proof -
      obtain th' c where c: "c \<in> set (calls_of (stacks s th'))" "c_request c = x" using xw by (auto simp: waited_call)
      then have "th' \<noteq> th" using False by auto
      then show ?thesis using c by (auto simp: waited_call sel intro!: exI [of _ th'])
    qed
    ultimately show ?thesis using h settledD(3) [OF st] by auto
  qed
  moreover have "prc_process_id (prcs t p) \<in> insert 0 (dead s)" if "in_dead_list p ?s" for p
  proof -
    have "in_dead_list p s \<or> prc_process_id (prcs t p) \<in> insert 0 (dead s)"
      using that ds unfolding in_dead_list_def sel by (metis fun_upd_def)
    moreover have "prc_process_id (prcs (tab s) p) \<in> insert 0 (dead s)" if "in_dead_list p s"
      using I(8) that by (simp add: dead_lists_ok_def)
    ultimately show ?thesis using E(4) [of p] by auto
  qed
  moreover have "offset s pid \<in> set (lhb_processes t) \<and> prc_process_id (prcs t (offset s pid)) = pid"
    if "pid \<notin> dead s" "offset s pid \<noteq> 0" for pid
  proof -
    have o: "offset s pid \<in> set (lhb_processes (tab s))" "prc_process_id (prcs (tab s) (offset s pid)) = pid"
      using I(9) that by (simp_all add: offsets_ok_def)
    have "\<not> G (offset s pid)" using G [of "offset s pid" pid] that o(2) by auto
    then show ?thesis using E(5,6) [OF o(1)] o(2) by simp
  qed
  moreover have "((stacks s)(th := st)) th' = []" if "pid_of th' \<in> dead s" for th'
    using I(7) [OF that] that alive by auto
  ultimately show ?thesis
    using E(1,2) E(3) [OF I(3)] d by (simp add: sys_inv_def sel dead_lists_ok_def offsets_ok_def)
qed

lemma sys_inv_same_calls:
  assumes inv: "sys_inv cfg pid_of s" and e: "effect cfg X N W G {} (tab s) t"
    and st: "calls_of st = calls_of (stacks s th)" and alive: "pid_of th \<notin> dead s"
    and XN: "\<And>x. x \<in> waited s \<Longrightarrow> x \<notin> X \<and> x \<notin> N" and pend: "\<And>x. x \<in> N \<Longrightarrow> x \<notin> pendings t"
    and W: "\<And>x. x \<in> waited s \<Longrightarrow> \<not> W (lrq_owner (reqs (tab s) x))"
    and G: "\<And>p pid. G p \<Longrightarrow> offset s pid = p \<Longrightarrow> pid \<notin> dead s \<Longrightarrow> prc_process_id (prcs (tab s) p) = pid \<Longrightarrow> p = 0"
    and ds: "\<And>ws ds p. Blockage ws ds \<in> set st \<Longrightarrow> p \<in> set ds \<Longrightarrow> in_dead_list p s \<or> prc_process_id (prcs t p) \<in> insert 0 (dead s)"
  shows "sys_inv cfg pid_of (set_stack th st t s)"
proof (rule sys_inv_step [OF inv e])
  have nw: "c_request c \<notin> X \<union> N" if "c \<in> set (calls_of (stacks s th'))" for c th'
    using XN [of "c_request c"] that by (auto simp: waited_call)
  show "c \<in> set (calls_of (stacks s th)) \<and> c_request c \<notin> X \<union> N \<or> call_inv t (pid_of th) c" if "c \<in> set (calls_of st)" for c
    using that st nw by simp
  show "c_request c \<notin> X \<union> N" if "c \<in> set (calls_of (stacks s th'))" for th' c by (rule nw [OF that])
  show "calls_distinct ((stacks s)(th := st))"
    using sys_invD(5) [OF inv] calls_distinct_cong [of "(stacks s)(th := st)" "stacks s"] st by simp
  show "\<exists>c \<in> set (calls_of st). c_request c = x"
    if "x \<in> pendings t" "x \<in> N \<or> (\<exists>c \<in> set (calls_of (stacks s th)). c_request c = x)" for x
    using that pend st by auto
  show "in_dead_list p s \<or> prc_process_id (prcs t p) \<in> insert 0 (dead s)" if "Blockage ws ds \<in> set st" "p \<in> set ds" for ws ds p
    by (rule ds [OF that])
qed (use W alive G in auto)

lemma set_tab: "(s::system)\<lparr>tab := t\<rparr> = set_stack th (stacks s th) t s"
  by (simp add: set_stack_def)

lemma same_dead_lists: "Blockage ws ds \<in> set (stacks s th) \<Longrightarrow> p \<in> set ds \<Longrightarrow> in_dead_list p s"
  by (auto simp: in_dead_list_def)

lemma running: "sys_inv cfg pid_of s \<Longrightarrow> stacks s th = f # st \<Longrightarrow> pid_of th \<notin> dead s"
  using sys_invD(7) by fastforce

lemma usable_not_pending:
  assumes "sys_inv cfg pid_of s" "usable pid r s" "pid \<notin> dead s"
  shows "LRQ_pending \<notin> lrq_flags (reqs (tab s) r)" "live_request (tab s) r" "r \<notin> waited s"
  using sys_invD(6) [OF assms(1), of r] assms(2,3) pendings_live [OF sys_invD(1) [OF assms(1)]]
  by (auto simp: usable_def)

text \<open>An operation that changes only the table.\<close>

lemma table_step:
  assumes inv: "sys_inv cfg pid_of s" and e: "effect cfg X N (\<lambda>_. False) (\<lambda>_. False) {} (tab s) t" and alive: "pid_of th \<notin> dead s"
    and XN: "\<And>x. x \<in> waited s \<Longrightarrow> x \<notin> X \<and> x \<notin> N" and pend: "\<And>x. x \<in> N \<Longrightarrow> x \<notin> pendings t"
  shows "sys_inv cfg pid_of (s\<lparr>tab := t\<rparr>)"
  unfolding set_tab [where s = s and th = th]
  by (rule sys_inv_same_calls [OF inv e]) (use alive XN pend same_dead_lists in auto)

text \<open>An operation that changes the functions a thread is in, too.\<close>

lemma quiet_step:
  assumes "sys_inv cfg pid_of s" "quiet cfg (tab s) t" "calls_of st = calls_of (stacks s th)" "pid_of th \<notin> dead s"
    "\<And>ws ds p. Blockage ws ds \<in> set st \<Longrightarrow> p \<in> set ds \<Longrightarrow> in_dead_list p s \<or> prc_process_id (prcs t p) \<in> insert 0 (dead s)"
  shows "sys_inv cfg pid_of (set_stack th st t s)"
  by (rule sys_inv_same_calls [OF assms(1-4)]) (use assms(5) in auto)

lemma signalled_step:
  assumes inv: "sys_inv cfg pid_of s" and e: "quiet cfg (tab s) (snd dt)" and st: "calls_of st = calls_of (stacks s th)"
    and alive: "pid_of th \<notin> dead s"
    and ds: "\<And>ws ds p. Blockage ws ds \<in> set st \<Longrightarrow> p \<in> set ds \<Longrightarrow> in_dead_list p s \<or> prc_process_id (prcs (snd dt) p) \<in> insert 0 (dead s)"
  shows "sys_inv cfg pid_of (signalled th w st dt s)"
  unfolding signalled_def by (rule quiet_step [OF inv e _ alive]) (use st ds in \<open>auto split: if_splits\<close>)

text \<open>The answer to a call: \<open>N\<close> holds the request it is about.\<close>

lemma answer_step:
  assumes inv: "sys_inv cfg pid_of s" and e: "effect cfg X N (\<lambda>_. False) (\<lambda>_. False) {} (tab s) t" and alive: "pid_of th \<notin> dead s"
    and XN: "\<And>x. x \<in> waited s \<Longrightarrow> x \<notin> X \<and> x \<notin> N" and pend: "\<And>x. x \<in> N \<Longrightarrow> x \<in> pendings t \<Longrightarrow> out = Waiting x"
    and wait: "\<And>r. out = Waiting r \<Longrightarrow> r \<in> N \<and> N = {r} \<and> live_request t r \<and> lrq_requested (reqs t r) = level \<and>
      home t (lrq_owner (reqs t r)) = pid_of th \<and> LRQ_pending \<in> lrq_flags (reqs t r) \<and> LRQ_rejected \<notin> lrq_flags (reqs t r)"
    and held: "\<And>r. out = Waiting r \<Longrightarrow> fin \<noteq> By_enqueue \<Longrightarrow> lrq_state (reqs t r) = lrq_state (reqs (tab s) r)"
  shows "sys_inv cfg pid_of (answer th level i fin out t s)"
proof (cases "\<exists>r. out = Waiting r")
  case False
  then have "answer th level i fin out t s = s\<lparr>tab := t\<rparr>" by (cases out) (auto simp: answer_def)
  then show ?thesis using table_step [OF inv e alive XN] pend False by auto
next
  case True
  then obtain r where out: "out = Waiting r" by blast
  obtain bs t1 where pb: "post_blockage r t = (bs, t1)" by fastforce
  define c where "c = \<lparr>c_request = r, c_level = level, c_wait = i, c_finish = fin, c_held = lrq_state (reqs (tab s) r)\<rparr>"
  have q: "quiet cfg t t1" using post_blockage_effect(1) [OF effectD(1,2) [OF e], of _ _ _ _ r] pb by (metis snd_conv)
  have N: "N = {r}" and rw: "r \<notin> waited s" using wait [OF out] XN by auto
  have "call_inv t (pid_of th) c" using wait [OF out] held [OF out] by (simp add: call_inv_def c_def)
  then have ci: "call_inv t1 (pid_of th) c" by (rule call_inv_effect [OF q]) simp_all
  have "sys_inv cfg pid_of (set_stack th (Blockage bs [] # Entering c # stacks s th) t1 s)"
  proof (rule sys_inv_step [OF inv effect_then [OF e q]])
    have nw: "c_request c' \<notin> X \<union> N" if "c' \<in> set (calls_of (stacks s th'))" for c' th'
      using XN [of "c_request c'"] that by (auto simp: waited_call)
    show "c' \<in> set (calls_of (stacks s th)) \<and> c_request c' \<notin> X \<union> N \<or> call_inv t1 (pid_of th) c'"
      if "c' \<in> set (calls_of (Blockage bs [] # Entering c # stacks s th))" for c'
      using that nw ci by auto
    show "c_request c' \<notin> X \<union> N" if "c' \<in> set (calls_of (stacks s th'))" for th' c' by (rule nw [OF that])
    have cr: "c_request c \<noteq> c_request c'" if "c' \<in> set (calls_of (stacks s th'))" for c' th'
      using that rw by (auto simp: waited_call c_def)
    show "calls_distinct ((stacks s)(th := Blockage bs [] # Entering c # stacks s th))"
      using sys_invD(5) [OF inv] cr unfolding calls_distinct_def by (simp add: image_iff) metis
    show "\<exists>c' \<in> set (calls_of (Blockage bs [] # Entering c # stacks s th)). c_request c' = x"
      if "x \<in> pendings t1" "x \<in> N \<or> (\<exists>c' \<in> set (calls_of (stacks s th)). c_request c' = x)" for x
      using that N by (auto simp: c_def)
    show "in_dead_list p s \<or> prc_process_id (prcs t1 p) \<in> insert 0 (dead s)"
      if "Blockage ws ds \<in> set (Blockage bs [] # Entering c # stacks s th)" "p \<in> set ds" for ws ds p
      using that same_dead_lists by auto
  qed (use alive in auto)
  then show ?thesis by (simp add: answer_def out pb c_def)
qed

text \<open>The end of a wait.\<close>

lemma leave_step:
  assumes inv: "sys_inv cfg pid_of s" and st: "calls_of (stacks s th) = c # calls_of st" and sb: "set st \<subseteq> set (stacks s th)"
    and e: "effect cfg {} {} W G {} (tab s) t" and sm: "small t" and np: "LRQ_pending \<notin> lrq_flags (reqs t (c_request c))"
    and W: "\<And>x. x \<in> waited s \<Longrightarrow> \<not> W (lrq_owner (reqs (tab s) x))"
    and G: "\<And>p. G p \<Longrightarrow> prc_process_id (prcs (tab s) p) \<in> dead s"
    and alive: "pid_of th \<notin> dead s"
  shows "sys_inv cfg pid_of (leave th c st t s)"
proof -
  define r where "r = c_request c"
  have cw: "r \<in> waited s" using st by (auto simp: waited_call r_def intro!: exI [of _ th])
  have l: "live_request t r"
    using sys_invD(4) [OF inv, of c th] st W [OF cw] effectD(7) [OF e] by (simp add: call_inv_def r_def)
  define t1 where "t1 = end_wait r t"
  have q1: "effect cfg {} {} W G {} t t1" "quiet cfg t t1"
    unfolding t1_def by (rule end_wait_effect(1) [OF effectD(1,2) [OF e]])+
  have l1: "live_request t1 r" using effectD(7) [OF q1(2) l] by simp
  have s1: "small t1" using sm by (simp add: small_def t1_def end_wait_effect(2) [OF effectD(1,2) [OF e]])
  have n1: "LRQ_pending \<notin> lrq_flags (reqs t1 r)"
    using settledD(6) [OF effectD(9) [OF q1(2) l1]] np by (auto simp: r_def)
  have e1: "effect cfg {} {} W G {} (tab s) t1" by (rule effect_trans [OF e q1(1)])
  note i1 = effectD(1,2) [OF e1]
  define t2 where "t2 = snd (finish_call c t1)"
  have f: "effect cfg {r} {r} W G {} t1 t2 \<and> (live_request t2 r \<longrightarrow> LRQ_pending \<notin> lrq_flags (reqs t2 r))"
  proof (cases "c_finish c")
    case By_enqueue
    then have t2: "t2 = snd (finish_enqueue r (c_wait c) t1)" by (simp add: t2_def finish_call_def r_def)
    note fe = finish_enqueue_effect [OF i1 s1 l1]
    have "effect cfg {r} {} W G {} t1 t2" unfolding t2 by (rule fe(1))
    moreover have "LRQ_pending \<notin> lrq_flags (reqs t2 r)" if "live_request t2 r"
      using that fe(2) n1 by (auto simp: t2 finish_enqueue_def split: if_splits)
    ultimately show ?thesis using effect_mono [of cfg "{r}" "{}" W G "{}" t1 t2 "{r}" "{r}" "{}" W G] by simp
  next
    case (By_convert ast)
    then have t2: "t2 = snd (finish_convert r (c_wait c) ast t1)" by (simp add: t2_def finish_call_def r_def)
    note fc = finish_convert_effect [OF i1 s1 l1]
    have "effect cfg {} {r} W G {} t1 t2" unfolding t2 by (rule fc(1))
    then show ?thesis using fc(3) [OF n1] t2 effect_mono [of cfg "{}" "{r}" W G "{}" t1 t2 "{r}" "{r}" "{}" W G] by simp
  qed
  have e1r: "effect cfg {r} {} W G {} (tab s) t1" by (rule effect_mono [OF e1]) simp_all
  have e2: "effect cfg {r} {r} W G {} (tab s) t2" using effect_trans [OF e1r] f by blast
  have lv: "leave th c st t s = set_stack th st t2 s" by (simp add: leave_def t2_def t1_def r_def)
  have cm: "c \<in> set (calls_of (stacks s th))" using st by simp
  have D: "distinct (map c_request (calls_of (stacks s th)))"
    using sys_invD(5) [OF inv] unfolding calls_distinct_def by blast
  have D2: "th' = th" if "c' \<in> set (calls_of (stacks s th'))" "c_request c' = r" for th' c'
    using sys_invD(5) [OF inv] cm that unfolding calls_distinct_def r_def by blast
  have ot: "c_request c' \<noteq> r" if "c' \<in> set (calls_of st)" for c' using D imageI [OF that, of c_request] by (auto simp: st r_def)
  show ?thesis
    unfolding lv
  proof (rule sys_inv_step [OF inv e2])
    show "c' \<in> set (calls_of (stacks s th)) \<and> c_request c' \<notin> {r} \<union> {r} \<or> call_inv t2 (pid_of th) c'"
      if "c' \<in> set (calls_of st)" for c' using ot [OF that] that by (simp add: st)
    show "c_request c' \<notin> {r} \<union> {r}" if "th' \<noteq> th" "c' \<in> set (calls_of (stacks s th'))" for th' c'
      using D2 [OF that(2)] that(1) by auto
    show "calls_distinct ((stacks s)(th := st))"
      unfolding calls_distinct_def
    proof (intro conjI allI impI)
      have sub: "set (calls_of (((stacks s)(th := st)) th')) \<subseteq> set (calls_of (stacks s th'))" for th' using st by auto
      show "distinct (map c_request (calls_of (((stacks s)(th := st)) th')))" for th'
        using sys_invD(5) [OF inv] D st by (auto simp: calls_distinct_def)
      show "th' = th''" if "c1 \<in> set (calls_of (((stacks s)(th := st)) th')) \<and>
          c2 \<in> set (calls_of (((stacks s)(th := st)) th'')) \<and> c_request c1 = c_request c2" for th' th'' c1 c2
        using sys_invD(5) [OF inv] sub that unfolding calls_distinct_def by blast
    qed
    show "\<exists>c' \<in> set (calls_of st). c_request c' = x"
      if "x \<in> pendings t2" "x \<in> {r} \<or> (\<exists>c' \<in> set (calls_of (stacks s th)). c_request c' = x)" for x
      using that f pendings_live [OF effectD(1) [OF e2]] by (auto simp: st r_def)
    show "in_dead_list p s \<or> prc_process_id (prcs t2 p) \<in> insert 0 (dead s)" if "Blockage ws ds \<in> set st" "p \<in> set ds" for ws ds p
      using that sb same_dead_lists by blast
    show "p = 0" if "G p" "offset s pid = p" "pid \<notin> dead s" "prc_process_id (prcs (tab s) p) = pid" for p pid
      using G [OF that(1)] that by simp
  qed (use W alive in auto)
qed

subsection \<open>Every step keeps the invariant\<close>

lemma leave_simple:
  assumes inv: "sys_inv cfg pid_of s" and st: "stacks s th = Loop c tm # st" and sm: "small (tab s)"
    and np: "LRQ_pending \<notin> lrq_flags (reqs (tab s) (c_request c))"
  shows "sys_inv cfg pid_of (leave th c st (tab s) s)"
  by (rule leave_step [OF inv _ _ effect_refl [OF sys_invD(1,2) [OF inv], of "{}" "{}" "\<lambda>_. False" "\<lambda>_. False"] sm np])
    (use st running [OF inv st] in auto)

text \<open>The owners and processes that a process may find dead.\<close>

lemma waited_home:
  assumes inv: "sys_inv cfg pid_of s" and x: "x \<in> waited s"
  shows "home (tab s) (lrq_owner (reqs (tab s) x)) \<notin> dead s" "live_request (tab s) x"
proof -
  obtain th c where c: "c \<in> set (calls_of (stacks s th))" "c_request c = x" using x by (auto simp: waited_call)
  then have "stacks s th \<noteq> []" by auto
  then have "pid_of th \<notin> dead s" using sys_invD(7) [OF inv] by blast
  then show "home (tab s) (lrq_owner (reqs (tab s) x)) \<notin> dead s" "live_request (tab s) x"
    using sys_invD(4) [OF inv c(1)] c(2) by (auto simp: call_inv_def)
qed

lemma truthful_covers:
  assumes "truthful exists s"
  shows "covers (\<lambda>w. home (tab s) w \<in> dead s) (\<lambda>p. prc_process_id (prcs (tab s) p) \<in> dead s) exists pid (tab s)"
  using assms by (auto simp: covers_def gone_def truthful_def home_def)

lemma wake_step:
  assumes inv: "sys_inv cfg pid_of s" and sm: "roomy (tab s)" and st: "stacks s th = Sleep c tm # st"
    and w: "wake (pid_of th) (c_request c) (c_wait c) tm v (tab s) = Some (vd, t)" and tr: "truthful (exists_process v) s"
  shows "sys_inv cfg pid_of (case vd of
        Resolved \<Rightarrow> leave th c st t s
      | Again tm' \<Rightarrow> set_stack th (Loop c tm' # st) t s
      | Repost tm' \<Rightarrow> set_stack th (Blockage (fst (post_blockage (c_request c) t)) [] # Loop c tm' # st)
                          (snd (post_blockage (c_request c) t)) s)"
proof -
  define W G where "W w \<longleftrightarrow> home (tab s) w \<in> dead s" and "G p \<longleftrightarrow> prc_process_id (prcs (tab s) p) \<in> dead s" for w p
  note I = sys_invD(1,2) [OF inv]
  have cw: "c_request c \<in> waited s" using st by (auto simp: waited_call intro!: exI [of _ th])
  note h = waited_home [OF inv cw]
  have cv: "covers W G (exists_process v) (pid_of th) (tab s)"
    using truthful_covers [OF tr, of "pid_of th"] by (simp add: W_def [abs_def] G_def [abs_def])
  have nW: "\<not> W (lrq_owner (reqs (tab s) (c_request c)))" using h by (simp add: W_def)
  note r = wake_result [OF I sm h(2) cv nW, where i = "c_wait c" and tm = tm]
  have e: "effect cfg X {} W G {} (tab s) t" and le: "queues_le t (tab s)"
    and np: "vd = Resolved \<Longrightarrow> LRQ_pending \<notin> lrq_flags (reqs t (c_request c))" for X
    using r [of X "{}"] w by auto
  note alive = running [OF inv st]
  have WW: "\<not> W (lrq_owner (reqs (tab s) x))" if "x \<in> waited s" for x using waited_home(1) [OF inv that] by (simp add: W_def)
  have sm': "small t" using queues_le_small [OF le roomy_small [OF sm]] .
  have pb: "effect cfg {} {} W G {} t (snd (post_blockage (c_request c) t))"
    by (rule post_blockage_effect(1) [OF effectD(1,2) [OF e]])
  have sd: "in_dead_list p s" if "Blockage ws ds \<in> set st" "p \<in> set ds" for ws ds p
    using that st by (intro same_dead_lists [of ws ds s th]) simp_all
  show ?thesis
  proof (cases vd)
    case Resolved
    have "sys_inv cfg pid_of (leave th c st t s)"
      by (rule leave_step [OF inv _ _ e sm' np [OF Resolved] WW _ alive]) (auto simp: st G_def)
    then show ?thesis by (simp add: Resolved)
  next
    case (Again tm')
    have "sys_inv cfg pid_of (set_stack th (Loop c tm' # st) t s)"
      by (rule sys_inv_same_calls [OF inv e]) (use alive WW sd in \<open>auto simp: st G_def\<close>)
    then show ?thesis by (simp add: Again)
  next
    case (Repost tm')
    have "sys_inv cfg pid_of (set_stack th (Blockage (fst (post_blockage (c_request c) t)) [] # Loop c tm' # st)
        (snd (post_blockage (c_request c) t)) s)"
      by (rule sys_inv_same_calls [OF inv effect_trans [OF e pb]]) (use alive WW sd in \<open>auto simp: st G_def\<close>)
    then show ?thesis by (simp add: Repost)
  qed
qed

lemma bury_step:
  assumes inv: "sys_inv cfg pid_of s" and sm: "roomy (tab s)" and st: "stacks s th = Blockage [] (p # ds) # st"
  shows "sys_inv cfg pid_of (set_stack th (Blockage [] ds # st) (bury p (tab s)) s)"
  unfolding bury_def
proof (rule sys_inv_same_calls [OF inv])
  define W G where "W w \<longleftrightarrow> home (tab s) w \<in> dead s" and "G q \<longleftrightarrow> prc_process_id (prcs (tab s) q) \<in> dead s" for w q
  have "in_dead_list p s" using st by (intro same_dead_lists [of "[]" "p # ds" s th]) simp_all
  then have id: "prc_process_id (prcs (tab s) p) \<in> insert 0 (dead s)"
    using sys_invD(8) [OF inv] by (simp add: dead_lists_ok_def)
  show "effect cfg {} {} W G {} (tab s) (if prc_process_id (prcs (tab s) p) \<noteq> 0 then purge_process p (tab s) else tab s)"
  proof (cases "prc_process_id (prcs (tab s) p) = 0")
    case True
    then show ?thesis using effect_refl [OF sys_invD(1,2) [OF inv]] by simp
  next
    case False
    then have "p \<in> set (lhb_processes (tab s))" using sys_invD(3) [OF inv] by (simp add: ids_ok_def)
    then have "effect cfg {} {} W G {} (tab s) (purge_process p (tab s))"
      using id False by (intro purge_process_effect sys_invD(1,2) [OF inv] roomy_small [OF sm]) (auto simp: W_def G_def home_def)
    then show ?thesis using False by simp
  qed
  show "\<not> W (lrq_owner (reqs (tab s) x))" if "x \<in> waited s" for x using waited_home(1) [OF inv that] by (simp add: W_def)
  show "in_dead_list q s \<or> prc_process_id (prcs (if prc_process_id (prcs (tab s) p) \<noteq> 0 then purge_process p (tab s) else tab s) q) \<in> insert 0 (dead s)"
    if "Blockage ws ds' \<in> set (Blockage [] ds # st)" "q \<in> set ds'" for ws ds' q
    using that st same_dead_lists [of "[]" "p # ds" s th q] same_dead_lists [of ws ds' s th q] by auto
qed (use running [OF inv st] in \<open>auto simp: st\<close>)

lemma purge_step:
  assumes inv: "sys_inv cfg pid_of s" and sm: "roomy (tab s)" and st: "stacks s th = Shutdown w # st"
    and w: "w \<in> set (lhb_owners (tab s))" and nw: "\<And>x. x \<in> waited s \<Longrightarrow> lrq_owner (reqs (tab s) x) \<noteq> w"
  shows "sys_inv cfg pid_of (set_stack th st (purge_owner w (tab s)) s)"
proof (rule sys_inv_same_calls [OF inv])
  show "effect cfg {} {} (\<lambda>v. v = w) (\<lambda>_. False) {} (tab s) (purge_owner w (tab s))"
    by (rule purge_owner_effect [OF sys_invD(1,2) [OF inv] roomy_small [OF sm] w]) simp
  show "in_dead_list p s \<or> prc_process_id (prcs (purge_owner w (tab s)) p) \<in> insert 0 (dead s)"
    if "Blockage ws ds \<in> set st" "p \<in> set ds" for ws ds p
    using that st by (intro disjI1 same_dead_lists [of ws ds s th]) simp_all
qed (use running [OF inv st] nw st in auto)

text \<open>The offset that a process keeps of its block.\<close>

lemma offset_step:
  assumes inv: "sys_inv cfg pid_of s" and p: "p \<noteq> 0 \<Longrightarrow> p \<in> set (lhb_processes (tab s)) \<and> prc_process_id (prcs (tab s) p) = pid"
  shows "sys_inv cfg pid_of (s\<lparr>offset := (offset s)(pid := p)\<rparr>)"
proof -
  have "waited (s\<lparr>offset := (offset s)(pid := p)\<rparr>) = waited s" "in_dead_list q (s\<lparr>offset := (offset s)(pid := p)\<rparr>) = in_dead_list q s" for q
    by (simp_all add: waited_def in_dead_list_def)
  then show ?thesis using inv p by (simp add: sys_inv_def dead_lists_ok_def offsets_ok_def)
qed

lemma add_process_step:
  assumes inv: "sys_inv cfg pid_of s" and p: "p < lhb_used (tab s)" "fresh_process p (tab s)"
    and nd: "in_dead_list p s \<Longrightarrow> pid \<in> insert 0 (dead s)"
  shows "sys_inv cfg pid_of (s\<lparr>tab := add_process p pid (tab s)\<rparr>)" (is "sys_inv _ _ ?s")
proof -
  note I = sys_invD [OF inv]
  note a = add_process_effect [OF I(1,2) p, where pid = pid]
  note E = effectD [OF a(1) [where X = "{}" and W = "\<lambda>_. False" and G = "\<lambda>_. False"]]
  have w: "waited ?s = waited s" "in_dead_list q ?s = in_dead_list q s" for q
    by (simp_all add: waited_def in_dead_list_def)
  have "call_inv (tab ?s) (pid_of th) c" if "c \<in> set (calls_of (stacks s th))" for c th
    using call_inv_effect [OF a(1) [where X = "{}" and W = "\<lambda>_. False" and G = "\<lambda>_. False"] I(4) [OF that]] by simp
  moreover have "x \<in> waited s \<or> home (tab ?s) (lrq_owner (reqs (tab ?s) x)) \<in> dead s" if "x \<in> pendings (tab ?s)" for x
  proof -
    have l: "live_request (tab ?s) x" "LRQ_pending \<in> lrq_flags (reqs (tab ?s) x)"
      using that E(1) by (simp_all add: pendings_live)
    have "x \<in> pendings (tab s)" using l E(8) [of x] a(5) I(1) by (simp add: pendings_live)
    then show ?thesis using I(6) [of x] E(10) [of x] l(1) a(5) by simp
  qed
  moreover have "prc_process_id (prcs (tab ?s) q) \<in> insert 0 (dead s)" if "in_dead_list q s" for q
    using I(8) that nd by (cases "q = p") (simp_all add: dead_lists_ok_def a(4))
  moreover have "offset s pid' \<in> set (lhb_processes (tab ?s)) \<and> prc_process_id (prcs (tab ?s) (offset s pid')) = pid'"
    if "pid' \<notin> dead s" "offset s pid' \<noteq> 0" for pid'
    using I(9) that p(2) by (auto simp: offsets_ok_def a(4,6) fresh_process_def)
  ultimately show ?thesis
    using I(1,2,3,5,7) E(1,2) E(3) by (simp add: sys_inv_def w dead_lists_ok_def offsets_ok_def)
qed

lemma attach_step:
  assumes inv: "sys_inv cfg pid_of s" and sm: "roomy (tab s)" and cfg: "config_ok cfg" and alive: "pid_of th \<notin> dead s"
    and pid: "pid_of th \<noteq> 0" "offset s (pid_of th) = 0" and c: "create_process cfg prc_ok (pid_of th) (tab s) = (p, t)"
    and nw: "\<And>x. x \<in> waited s \<Longrightarrow> home (tab s) (lrq_owner (reqs (tab s) x)) \<noteq> pid_of th"
    and nd: "\<And>q. in_dead_list q s \<Longrightarrow> prc_process_id (prcs t q) \<in> {0, prc_process_id (prcs (tab s) q)}"
  shows "sys_inv cfg pid_of (s\<lparr>tab := t, offset := (offset s)(pid_of th := p)\<rparr>)"
proof -
  define W G where "W w \<longleftrightarrow> home (tab s) w = pid_of th" and "G q \<longleftrightarrow> prc_process_id (prcs (tab s) q) = pid_of th" for w q
  note I = sys_invD [OF inv]
  have keep: "sys_inv cfg pid_of (s\<lparr>tab := t2\<rparr>)" if e: "effect cfg {} {} W G {} (tab s) t2" for t2
    unfolding set_tab [where s = s and th = th]
    by (rule sys_inv_same_calls [OF inv e]) (use alive nw pid same_dead_lists in \<open>auto simp: W_def G_def\<close>)
  have split: "s\<lparr>tab := t, offset := (offset s)(pid_of th := p)\<rparr> = (s\<lparr>tab := t\<rparr>)\<lparr>offset := (offset (s\<lparr>tab := t\<rparr>))(pid_of th := p)\<rparr>"
    by simp
  show ?thesis
  proof (rule create_process_cases [OF I(1,2) roomy_small [OF sm] cfg c, where W = W and G = G])
    show "W w" if "prc_process_id (prcs (tab s) (own_process (owns (tab s) w))) = pid_of th" for w
      using that by (simp add: W_def home_def)
    show "G q" if "prc_process_id (prcs (tab s) q) = pid_of th" for q using that by (simp add: G_def)
  next
    assume "p = 0" "effect cfg {} {} W G {} (tab s) t"
    then show ?thesis unfolding split by (intro offset_step keep) simp_all
  next
    fix p1 t2
    assume e: "effect cfg {} {} W G {} (tab s) t2" and p1: "p1 < lhb_used t2" "fresh_process p1 t2"
      and t: "t = add_process p1 (pid_of th) t2" and p: "p = (if prc_ok then p1 else 0)"
    note i2 = keep [OF e]
    note a = add_process_effect [OF effectD(1,2) [OF e] p1, where pid = "pid_of th"]
    have "in_dead_list p1 (s\<lparr>tab := t2\<rparr>) = in_dead_list p1 s" by (simp add: in_dead_list_def)
    moreover have "pid_of th \<in> insert 0 (dead s)" if "in_dead_list p1 s"
      using nd [OF that] I(8) that by (auto simp: t a(4) dead_lists_ok_def)
    ultimately have "sys_inv cfg pid_of ((s\<lparr>tab := t2\<rparr>)\<lparr>tab := add_process p1 (pid_of th) (tab (s\<lparr>tab := t2\<rparr>))\<rparr>)"
      by (intro add_process_step [OF i2]) (use p1 in simp_all)
    then have "sys_inv cfg pid_of (s\<lparr>tab := t\<rparr>)" by (simp add: t)
    then show ?thesis unfolding split by (rule offset_step) (use p a(3,4) in \<open>auto simp: t split: if_splits\<close>)
  qed
qed

lemma new_owner_effect:
  assumes inv: "lock_inv t" and ix: "index_ok cfg t" and sm: "roomy t" and cfg: "config_ok cfg" and p: "p \<in> set (lhb_processes t)" "\<not> G p"
    and c: "create_owner cfg exists own_ok pid p owner_id owner_type t = (w, t')"
    and W: "\<And>v. replaced owner_id owner_type t v \<Longrightarrow> W v" and cv: "covers W G exists pid t" and pp: "prc_process_id (prcs t p) = pid"
  shows "effect cfg {} {} W G {} t t'"
proof (rule create_owner_cases [OF inv ix roomy_small [OF sm] cfg c, where W = W and G = G])
  fix u t2
  assume e: "effect cfg {} {} W G {} t t2" and u: "u < lhb_used t2" "fresh_owner u t2"
    and t': "t' = mod_own u (init_owner_block p owner_type owner_id) t2"
  show ?thesis unfolding t'
    by (rule effect_trans [OF e init_owner_effect(1) [OF effectD(1,2) [OF e] u]]) (rule effectD(5) [OF e p])
next
  fix t2
  assume e: "effect cfg {} {} W G {} t t2" and q: "queues_le t2 t" and u: "w < lhb_used t2" "fresh_owner w t2"
    and t': "t' = snd (probe_processes exists pid (add_owner w p owner_type owner_id t2))"
    and co: "\<forall>exists pid. covers W G exists pid t \<longrightarrow> covers W G exists pid t2"
  define t3 where "t3 = add_owner w p owner_type owner_id t2"
  have p2: "p \<in> set (lhb_processes t2)" by (rule effectD(5) [OF e p])
  note io = init_owner_effect [OF effectD(1,2) [OF e] u p2, where owner_type = owner_type and owner_id = owner_id, folded t3_def]
  have e3: "effect cfg {} {} W G {} t t3" by (rule effect_trans [OF e io(2)])
  have "small t3" using queues_le_small [OF queues_le_trans [OF io(3) q] roomy_small [OF sm]] .
  moreover have "covers W G exists pid t3"
    using io(4) [of W G exists pid] co cv effectD(6) [OF e p] pp by simp
  ultimately have "effect cfg {} {} W G {} t3 t'" unfolding t' t3_def [symmetric]
    by (intro probe_processes_effect effectD(1,2) [OF e3])
  then show ?thesis by (rule effect_trans [OF e3])
qed (use W in simp_all)

lemma new_owner_step:
  assumes inv: "sys_inv cfg pid_of s" and sm: "roomy (tab s)" and cfg: "config_ok cfg" and alive: "pid_of th \<notin> dead s"
    and o: "offset s (pid_of th) \<noteq> 0" and tr: "truthful exists s"
    and c: "create_owner cfg exists own_ok (pid_of th) (offset s (pid_of th)) owner_id owner_type (tab s) = (w, t)"
    and nw: "\<And>x. x \<in> waited s \<Longrightarrow> \<not> replaced owner_id owner_type (tab s) (lrq_owner (reqs (tab s) x))"
  shows "sys_inv cfg pid_of (s\<lparr>tab := t\<rparr>)"
proof -
  define W G where "W v \<longleftrightarrow> replaced owner_id owner_type (tab s) v \<or> home (tab s) v \<in> dead s"
    and "G p \<longleftrightarrow> prc_process_id (prcs (tab s) p) \<in> dead s" for v p
  note I = sys_invD [OF inv]
  have p: "offset s (pid_of th) \<in> set (lhb_processes (tab s))" "prc_process_id (prcs (tab s) (offset s (pid_of th))) = pid_of th"
    using I(9) alive o by (simp_all add: offsets_ok_def)
  have e: "effect cfg {} {} W G {} (tab s) t"
  proof (rule new_owner_effect [OF I(1,2) sm cfg p(1) _ c _ _ p(2)])
    show "covers W G exists (pid_of th) (tab s)"
      using truthful_covers [OF tr, of "pid_of th"] by (auto simp: covers_def W_def G_def)
  qed (use alive p in \<open>simp_all add: G_def W_def\<close>)
  show ?thesis
    unfolding set_tab [where s = s and th = th]
    by (rule sys_inv_same_calls [OF inv e])
      (use alive nw waited_home(1) [OF inv] same_dead_lists in \<open>auto simp: W_def G_def\<close>)
qed

lemma die_step:
  assumes inv: "sys_inv cfg pid_of s"
  shows "sys_inv cfg pid_of (s\<lparr>dead := insert pid (dead s), stacks := (\<lambda>th. if pid_of th = pid then [] else stacks s th)\<rparr>)"
    (is "sys_inv _ _ ?s")
proof -
  note I = sys_invD [OF inv]
  have d: "in_dead_list p s" if "in_dead_list p ?s" for p
    using that by (auto simp: in_dead_list_def split: if_splits)
  have c: "x \<in> waited ?s \<or> home (tab s) (lrq_owner (reqs (tab s) x)) = pid" if x: "x \<in> waited s" for x
  proof -
    obtain th c where c: "c \<in> set (calls_of (stacks s th))" "c_request c = x" using x by (auto simp: waited_call)
    then have "home (tab s) (lrq_owner (reqs (tab s) x)) = pid_of th" using I(4) [OF c(1)] by (simp add: call_inv_def)
    then show ?thesis using c by (cases "pid_of th = pid") (auto simp: waited_call intro!: exI [of _ th])
  qed
  have "x \<in> waited ?s \<or> home (tab s) (lrq_owner (reqs (tab s) x)) \<in> insert pid (dead s)" if "x \<in> pendings (tab s)" for x
    using I(6) [OF that] c [of x] by auto
  moreover have "calls_distinct (stacks ?s)"
    using I(5) unfolding calls_distinct_def by auto
  moreover have "call_inv (tab s) (pid_of th) c" if "c \<in> set (calls_of (stacks ?s th))" for th c
    using I(4) [of c th] that by (auto split: if_splits)
  moreover have "stacks ?s th = []" if "pid_of th \<in> insert pid (dead s)" for th using I(7) [of th] that by auto
  moreover have "prc_process_id (prcs (tab s) p) \<in> insert 0 (insert pid (dead s))" if "in_dead_list p ?s" for p
    using d [OF that] I(8) unfolding dead_lists_ok_def by blast
  then have "dead_lists_ok ?s" by (simp add: dead_lists_ok_def)
  moreover have "offsets_ok ?s" using I(9) by (simp add: offsets_ok_def)
  ultimately show ?thesis using I(1-3) by (simp add: sys_inv_def)
qed

text \<open>The calls that may have to wait.\<close>

lemma enqueue_step:
  assumes inv: "sys_inv cfg pid_of s" and sm: "roomy (tab s)" and cfg: "config_ok cfg" and alive: "pid_of th \<notin> dead s"
    and w: "own_count (owns (tab s) w) \<noteq> 0 \<Longrightarrow> w \<in> set (lhb_owners (tab s)) \<and> home (tab s) w = pid_of th"
    and pr: "prior \<noteq> 0 \<Longrightarrow> usable (pid_of th) prior s" and a: "type < LCK_max" "length key < 256" "series < 256"
    and enq: "enqueue cfg prior series key type ast arg data i w (tab s) = (out, t)"
  shows "sys_inv cfg pid_of (answer th type i By_enqueue out t s)"
proof -
  note I = sys_invD(1,2) [OF inv]
  have p: "effect cfg ({prior} - {0}) (created out) (\<lambda>_. False) (\<lambda>_. False) {} (tab s) t" (is ?A) and
    q: "\<forall>r. r \<in> created out \<longrightarrow> (out = Granted r \<or> out = Waiting r) \<and> request_at t r w type out \<and>
       \<not> (live_request (tab s) r \<and> r \<notin> {prior} - {0})" (is ?B) and h: "same_homes t (tab s)" (is ?C)
  proof -
    have wl: "own_count (owns (tab s) w) \<noteq> 0 \<Longrightarrow> w \<in> set (lhb_owners (tab s))" using w by simp
    have pl: "prior \<noteq> 0 \<Longrightarrow> live_request (tab s) prior" using pr by (simp add: usable_def)
    show ?A by (rule enqueue_effect(1) [OF I sm cfg _ _ a enq]) (fact wl pl)+
    show ?B by (intro allI impI, rule enqueue_effect(2) [OF I sm cfg _ _ a enq]) (fact wl pl | (erule wl) | (erule pl) | assumption)+
    show ?C by (rule enqueue_effect(3) [OF I sm cfg _ _ a enq]) (fact wl pl)+
  qed
  note e = p q h
  have at: "out = Granted r \<or> out = Waiting r" "request_at t r w type out" "\<not> (live_request (tab s) r \<and> r \<notin> {prior} - {0})"
    if "r \<in> created out" for r using q that by blast+
  show ?thesis
  proof (rule answer_step [OF inv e(1) alive])
    show "x \<notin> {prior} - {0} \<and> x \<notin> created out" if "x \<in> waited s" for x
    proof -
      have "x \<notin> {prior} - {0}" using pr that by (auto simp: usable_def)
      then show ?thesis using at(3) waited_home(2) [OF inv that] by blast
    qed
    show "out = Waiting x" if "x \<in> created out" "x \<in> pendings t" for x
      using at [OF that(1)] that(2) pendings_live [OF effectD(1) [OF e(1)]] by (auto simp: request_at_def)
    fix r
    assume o: "out = Waiting r"
    have oc: "own_count (owns (tab s) w) \<noteq> 0" using enq o by (auto simp: enqueue_def)
    show "r \<in> created out \<and> created out = {r} \<and> live_request t r \<and> lrq_requested (reqs t r) = type \<and>
        home t (lrq_owner (reqs t r)) = pid_of th \<and> LRQ_pending \<in> lrq_flags (reqs t r) \<and> LRQ_rejected \<notin> lrq_flags (reqs t r)"
      using at(2) [of r] o w [OF oc] same_homesD(1) [OF h] by (simp add: request_at_def)
  qed simp
qed

lemma convert_pending:
  assumes r: "live_request t r" "LRQ_pending \<notin> lrq_flags (reqs t r)" "LRQ_pending \<in> lrq_flags (reqs (snd (convert r type i ast arg t)) r)"
  shows "fst (convert r type i ast arg t) = Waiting r"
proof -
  define t1 where "t1 = bump_operations (lbl_series (lcks t (lrq_lock (reqs t r)))) (bump Converts t)"
  have t1: "reqs t1 = reqs t" "live_request t1 r" using r(1) by (simp_all add: t1_def)
  have c: "convert r type i ast arg t = (if own_count (owns t (lrq_owner (reqs t r))) = 0 then (Failed, t)
      else internal_convert r type i ast arg t1)"
    by (simp add: convert_def t1_def)
  have pd: "LRQ_pending \<in> lrq_flags (reqs (snd (internal_convert r type i ast arg t1)) r)"
    "own_count (owns t (lrq_owner (reqs t r))) \<noteq> 0"
    using r(2,3) by (auto simp: c split: if_splits)
  have "fst (internal_convert r type i ast arg t1) \<in> {Granted r, Waiting r} \<or>
      snd (internal_convert r type i ast arg t1) = deny_convert r i (asked r type t1)"
    by (simp add: internal_convert_cases)
  moreover have "LRQ_pending \<notin> lrq_flags (reqs (deny_convert r i (asked r type t1)) r)" using r(2) t1(1) by simp
  moreover have "fst (internal_convert r type i ast arg t1) \<noteq> Granted r"
    using internal_convert_outcome(1) [OF t1(2), of type i ast arg] r(2) t1(1) pd(1) by (auto simp: request_at_def)
  ultimately show ?thesis using pd by (auto simp: c)
qed

lemma convert_keeps_level:
  "fst (convert r type i ast arg t) = Waiting r' \<Longrightarrow> lrq_state (reqs (snd (convert r type i ast arg t)) r') = lrq_state (reqs t r')"
  by (auto simp: convert_def internal_convert_def begin_wait_def Let_def split: if_splits)

lemma convert_step:
  assumes inv: "sys_inv cfg pid_of s" and sm: "roomy (tab s)" and alive: "pid_of th \<notin> dead s"
    and u: "usable (pid_of th) r s" and a: "type < LCK_max" and c: "convert r type i ast arg (tab s) = (out, t)"
  shows "sys_inv cfg pid_of (answer th type i fin out t s)"
proof -
  note I = sys_invD(1,2) [OF inv]
  note n = usable_not_pending [OF inv u alive]
  note e = convert_effect [OF I roomy_small [OF sm] n(2) a n(1), where i = i and ast = ast and arg = arg, unfolded c snd_conv]
  note k = convert_ok(2,3) [OF I roomy_small [OF sm] n(2) a n(1), of i ast arg, unfolded c fst_conv snd_conv]
  show ?thesis
  proof (rule answer_step [OF inv e(1) alive])
    show "x \<notin> {} \<and> x \<notin> {r}" if "x \<in> waited s" for x using n(3) that by auto
    show "out = Waiting x" if "x \<in> {r}" "x \<in> pendings t" for x
      using convert_pending [OF n(2,1), of type i ast arg] that pendings_live [OF effectD(1) [OF e(1)]] c by auto
    fix r'
    assume "out = Waiting r'"
    then show "r' \<in> {r} \<and> {r} = {r'} \<and> live_request t r' \<and> lrq_requested (reqs t r') = type \<and>
        home t (lrq_owner (reqs t r')) = pid_of th \<and> LRQ_pending \<in> lrq_flags (reqs t r') \<and> LRQ_rejected \<notin> lrq_flags (reqs t r')"
      using k e(3) same_homesD(1) [OF e(2)] u by (auto simp: request_at_def usable_def)
  next
    show "lrq_state (reqs t r') = lrq_state (reqs (tab s) r')" if "out = Waiting r'" for r'
      using convert_keeps_level [of r type i ast arg "tab s" r'] that c by simp
  qed
qed

lemma signal_owner_homes: "same_homes (snd (signal_owner pid posted w t)) t"
  by (rule same_processes_homes) (simp add: signal_owner_def Let_def same_owners_mod_own)

lemma signal_step:
  assumes inv: "sys_inv cfg pid_of s" and st: "stacks s th = Blockage (w # ws) ds # st"
    and dt: "dt = signal_owner (pid_of th) posted w (tab s)"
    and h: "fst dt = Undelivered \<Longrightarrow> home (tab s) w \<in> insert 0 (dead s)"
  shows "sys_inv cfg pid_of (signalled th w (Blockage ws (if fst dt = Undelivered then ds @ [own_process (owns (snd dt) w)] else ds) # st) dt s)"
proof (rule signalled_step [OF inv])
  show "quiet cfg (tab s) (snd dt)" unfolding dt by (rule signal_owner_effect(1) [OF sys_invD(1,2) [OF inv]])
  have "home (snd dt) w = home (tab s) w" using same_homesD(1) [OF signal_owner_homes] by (simp add: dt)
  then have hw: "prc_process_id (prcs (snd dt) (own_process (owns (snd dt) w))) = home (tab s) w" by (simp add: home_def)
  show "in_dead_list p s \<or> prc_process_id (prcs (snd dt) p) \<in> insert 0 (dead s)"
    if "Blockage ws' ds' \<in> set (Blockage ws (if fst dt = Undelivered then ds @ [own_process (owns (snd dt) w)] else ds) # st)"
      "p \<in> set ds'" for ws' ds' p
  proof (cases "Blockage ws' ds' \<in> set st \<or> p \<in> set ds")
    case True
    then show ?thesis
      using that st same_dead_lists [of "w # ws" ds s th p] same_dead_lists [of ws' ds' s th p] by auto
  next
    case False
    then have "fst dt = Undelivered" "p = own_process (owns (snd dt) w)" using that by (auto split: if_splits)
    then show ?thesis using h hw by simp
  qed
qed (use running [OF inv st] st in simp_all)

lemma repost_step:
  assumes inv: "sys_inv cfg pid_of s" and cfg: "config_ok cfg" and alive: "pid_of th \<notin> dead s"
    and w: "w \<noteq> 0 \<Longrightarrow> w \<in> set (lhb_owners (tab s))" and rp: "repost cfg ast arg w (tab s) = (w', t)"
  shows "sys_inv cfg pid_of (case w' of None \<Rightarrow> s\<lparr>tab := t\<rparr>
      | Some w' \<Rightarrow> signalled th w' (stacks s th) (signal_owner (pid_of th) posted w' t) s)"
proof -
  have e: "quiet cfg (tab s) t" using repost_effect [OF sys_invD(1,2) [OF inv] cfg w] rp by (metis snd_conv)
  have n: "sys_inv cfg pid_of (s\<lparr>tab := t\<rparr>)" by (rule table_step [OF inv e alive]) simp_all
  have "sys_inv cfg pid_of (signalled th v (stacks s th) (signal_owner (pid_of th) posted v t) s)" for v
  proof (rule signalled_step [OF inv _ _ alive])
    show "quiet cfg (tab s) (snd (signal_owner (pid_of th) posted v t))"
      by (rule effect_trans [OF e signal_owner_effect(1) [OF effectD(1,2) [OF e]]])
  qed (use same_dead_lists in auto)
  then show ?thesis using n by (cases w') simp_all
qed

lemma reuse_step:
  assumes inv: "sys_inv cfg pid_of s" and alive: "pid_of th \<notin> dead s" and h: "handle \<noteq> 0"
    and c: "initializeOwner cfg exists prc_ok own_ok (pid_of th) (offset s (pid_of th)) owner_id owner_type handle (tab s) = (w, p, t)"
  shows "sys_inv cfg pid_of (s\<lparr>tab := t, offset := (offset s)(pid_of th := p)\<rparr>)"
proof -
  have t: "t = mod_own handle (\<lambda>q. q\<lparr>own_count := own_count q + 1\<rparr>) (tab s)" "p = offset s (pid_of th)"
    using c h by (auto simp: initializeOwner_def)
  have "sys_inv cfg pid_of (s\<lparr>tab := t\<rparr>)"
    unfolding t by (rule table_step [OF inv mod_own_effect [where X = "{}"] alive]) (use sys_invD(1,2) [OF inv] in \<open>simp_all add: own_key_def\<close>)
  moreover have "s\<lparr>tab := t, offset := (offset s)(pid_of th := p)\<rparr> = s\<lparr>tab := t\<rparr>" using t(2) by simp
  ultimately show ?thesis by simp
qed

lemma downgrade_step:
  assumes inv: "sys_inv cfg pid_of s" and sm: "roomy (tab s)" and alive: "pid_of th \<notin> dead s" and u: "usable (pid_of th) r s"
  shows "sys_inv cfg pid_of (s\<lparr>tab := snd (downgrade r (tab s))\<rparr>)"
proof -
  note n = usable_not_pending [OF inv u alive]
  have e: "effect cfg {r} {r} (\<lambda>_. False) (\<lambda>_. False) {} (tab s) (snd (downgrade r (tab s)))"
    by (rule downgrade_effect [OF sys_invD(1,2) [OF inv] roomy_small [OF sm] n(2,1)])
  show ?thesis
    by (rule table_step [OF inv e alive])
      (use n(3) downgrade_resolved [OF n(2,1)] pendings_live [OF effectD(1) [OF e]] in auto)
qed

text \<open>The steps that change no call and release nothing.\<close>

lemma plain_step:
  assumes inv: "sys_inv cfg pid_of s" and alive: "pid_of th \<notin> dead s" and e: "quiet cfg (tab s) t"
  shows "sys_inv cfg pid_of (s\<lparr>tab := t\<rparr>)"
    "calls_of st = calls_of (stacks s th) \<Longrightarrow>
       (\<And>ws ds p. Blockage ws ds \<in> set st \<Longrightarrow> p \<in> set ds \<Longrightarrow> in_dead_list p s) \<Longrightarrow> sys_inv cfg pid_of (set_stack th st t s)"
  using table_step [OF inv e alive] quiet_step [OF inv e _ alive] by auto

lemma step_inv:
  assumes "step cfg pid_of s s'" "sys_inv cfg pid_of s" "roomy (tab s)" "config_ok cfg"
  shows "sys_inv cfg pid_of s'"
  using assms
proof (induction rule: step.induct)
  case (Enqueue th s w prior type key series ast arg data i out t)
  then show ?case by (intro enqueue_step)
next
  case (Convert th s r type i ast arg out t)
  then show ?case by (intro convert_step)
next
  case (Downgrade th s r)
  then show ?case by (intro downgrade_step)
next
  case (Dequeue th s r)
  note n = usable_not_pending [OF Dequeue(4,3,1)]
  show ?case
    by (rule table_step [OF Dequeue(4) dequeue_effect [OF sys_invD(1,2) [OF Dequeue(4)] roomy_small [OF Dequeue(5)] n(2)] Dequeue(1)])
      (use n(3) in auto)
next
  case (Repost th s w ast arg w' t posted)
  then show ?case by (intro repost_step)
next
  case (Cancel th s w)
  show ?case by (rule plain_step(1) [OF Cancel(3,1) read_effects(4) [OF sys_invD(1,2) [OF Cancel(3)]]])
next
  case (Query th s series agg)
  show ?case by (rule plain_step(1) [OF Query(3,1) read_effects(1) [OF sys_invD(1,2) [OF Query(3)]]])
next
  case (Read th s r)
  show ?case by (rule plain_step(1) [OF Read(4,1) read_effects(2) [OF sys_invD(1,2) [OF Read(4)]]])
next
  case (Read2 th s series key w)
  show ?case by (rule plain_step(1) [OF Read2(3,1) read_effects(3) [OF sys_invD(1,2) [OF Read2(3)]]])
next
  case (Write th s r d)
  show ?case by (rule plain_step(1) [OF Write(4,1) writeData_effect [OF sys_invD(1,2) [OF Write(4)] Write(3)]])
next
  case (Reuse th s handle exists prc_ok own_ok owner_id owner_type w p t)
  then show ?case by (intro reuse_step)
next
  case (Attach th s prc_ok p t)
  show ?case by (rule attach_step [OF Attach(8,9,10,1,3-7)])
next
  case (New_owner th s exists own_ok owner_id owner_type w t)
  show ?case by (rule new_owner_step [OF New_owner(7,8,9,1,3-6)])
next
  case (Release th s w t)
  then have e: "quiet cfg (tab s) t" using read_effects(5) [OF sys_invD(1,2) [OF Release(4)]] by (metis snd_conv)
  show ?case by (rule plain_step(1) [OF Release(4,1) e])
next
  case (Shut th s w t)
  then have e: "quiet cfg (tab s) t" using read_effects(5) [OF sys_invD(1,2) [OF Shut(4)]] by (metis snd_conv)
  show ?case by (rule plain_step(2) [OF Shut(4,1) e]) (use same_dead_lists in auto)
next
  case (Purge s th w st)
  then show ?case by (intro purge_step)
next
  case (Skip s th w ws ds st)
  have "in_dead_list p s" if "Blockage ws' ds' \<in> set (Blockage ws ds # st)" "p \<in> set ds'" for ws' ds' p
    using that Skip(1) same_dead_lists [of "w # ws" ds s th p] same_dead_lists [of ws' ds' s th p] by auto
  then show ?case
    by (intro plain_step(2) [OF Skip(3) running [OF Skip(3,1)] effect_refl [OF sys_invD(1,2) [OF Skip(3)]]]) (use Skip(1) in simp_all)
next
  case (Signal s th w ws ds st dt posted)
  show ?case by (rule signal_step [OF Signal(5,1,3,4)])
next
  case (Bury s th p ds st)
  then show ?case by (intro bury_step)
next
  case (Notified s th st)
  have "in_dead_list p s" if "Blockage ws' ds' \<in> set st" "p \<in> set ds'" for ws' ds' p
    using that Notified(1) same_dead_lists [of ws' ds' s th p] by auto
  then show ?case
    by (intro plain_step(2) [OF Notified(2) running [OF Notified(2,1)] effect_refl [OF sys_invD(1,2) [OF Notified(2)]]])
      (use Notified(1) in simp_all)
next
  case (Act s th w st a t)
  have e: "quiet cfg (tab s) t" using take_block_effect(1) [OF sys_invD(1,2) [OF Act(3)]] Act(2) by (metis snd_conv)
  have "in_dead_list p s" if "Blockage ws' ds' \<in> set st" "p \<in> set ds'" for ws' ds' p
    using that Act(1) same_dead_lists [of ws' ds' s th p] by auto
  then show ?case
    by (intro plain_step(2) [OF Act(3) running [OF Act(3,1)] e]) (use Act(1) in \<open>auto split: action.splits\<close>)
next
  case (Ast_done s th w st)
  have "in_dead_list p s" if "Blockage ws' ds' \<in> set st" "p \<in> set ds'" for ws' ds' p
    using that Ast_done(1) same_dead_lists [of ws' ds' s th p] by auto
  then show ?case
    by (intro plain_step(2) [OF Ast_done(2) running [OF Ast_done(2,1)] ast_done_effect [OF sys_invD(1,2) [OF Ast_done(2)]]])
      (use Ast_done(1) in simp_all)
next
  case (Thread th s w)
  show ?case
    by (rule plain_step(2) [OF Thread(4,1) effect_refl [OF sys_invD(1,2) [OF Thread(4)]]]) (use Thread(2) in simp_all)
next
  case (Enter s th c st n k)
  have "in_dead_list p s" if "Blockage ws' ds' \<in> set st" "p \<in> set ds'" for ws' ds' p
    using that Enter(1) same_dead_lists [of ws' ds' s th p] by auto
  then show ?case
    by (intro plain_step(2) [OF Enter(2) running [OF Enter(2,1)] effect_refl [OF sys_invD(1,2) [OF Enter(2)]]])
      (use Enter(1) in simp_all)
next
  case (Doze s th c tm st)
  have "in_dead_list p s" if "Blockage ws' ds' \<in> set st" "p \<in> set ds'" for ws' ds' p
    using that Doze(1) same_dead_lists [of ws' ds' s th p] by auto
  then show ?case
    by (intro plain_step(2) [OF Doze(3) running [OF Doze(3,1)] effect_refl [OF sys_invD(1,2) [OF Doze(3)]]])
      (use Doze(1) in simp_all)
next
  case (Settled s th c tm st)
  then show ?case by (intro leave_simple roomy_small)
next
  case (Wake s th c tm st v vd t)
  show ?case by (rule wake_step [OF Wake(4,5,1,2,3)])
next
  case (Die s pid)
  then show ?case by (intro die_step)
qed

subsection \<open>Reachable states\<close>

lemma empty_table_inv:
  assumes "empty_table slots len used t"
  shows "lock_inv t" "index_ok cfg t" "ids_ok t" "roomy t" "pendings t = {}"
proof -
  have "table_ok t" using assms by (simp add: empty_table_def table_ok_def lock_ok_def allocation_ok_def)
  moreover have "owners_ok t" using assms by (simp add: empty_table_def owners_ok_def owner_ok_def)
  moreover have "prcs_ok t" using assms by (simp add: empty_table_def prcs_ok_def)
  ultimately show "lock_inv t" by (simp add: lock_inv_def)
  show "index_ok cfg t" using assms by (simp add: empty_table_def index_ok_def hash_ok_def data_ok_def)
  show "ids_ok t" "roomy t" using assms by (simp_all add: empty_table_def ids_ok_def roomy_def)
  show "pendings t = {}" using assms by (simp add: empty_table_def pendings_def)
qed

lemma reach_inv:
  assumes "reach cfg pid_of s" "config_ok cfg"
  shows "sys_inv cfg pid_of s \<and> roomy (tab s)"
  using assms
proof (induction rule: reach.induct)
  case (start slots len used s)
  have "waited s = {}" "\<not> in_dead_list p s" for p using start by (simp_all add: waited_def in_dead_list_def)
  then show ?case
    using empty_table_inv [OF start(1)] start
    by (simp add: sys_inv_def dead_lists_ok_def offsets_ok_def calls_distinct_def)
next
  case (next_step s s')
  then show ?case using step_inv [OF next_step(2)] by blast
qed

end
