(* ===== verification/LockExample.thy ===== *)
theory LockExample
  imports LockSystem
begin

text \<open>
  A run of the lock manager, on which the theorems of \<open>LockTheorems\<close> are tried: two owners of
  one process get a lock for shared reading. Then each asks for exclusive use and waits for the
  other (\<open>T7\<close>), or the second gives its lock up and the first is granted what it waits for (\<open>T8\<close>).
\<close>

definition demo_cfg :: config where
  "demo_cfg = \<lparr>sizeof_lrq = 64, sizeof_lbl = 96, sizeof_own = 80, sizeof_prc = 40, hash_fn = (\<lambda>_ _. 0), memory_size = 4096, can_remap = True\<rparr>"

definition demo_table :: table where
  "demo_table = \<lparr>reqs = (\<lambda>_. \<lparr>lrq_type = False, lrq_requested = 0, lrq_state = 0, lrq_flags = {}, lrq_owner = 0,
       lrq_lock = 0, lrq_data = 0, lrq_ast_routine = 0, lrq_ast_argument = 0\<rparr>),
     lcks = (\<lambda>_. \<lparr>lbl_type = False, lbl_state = 0, lbl_size = 0, lbl_length = 0, lbl_key = [], lbl_series = 0, lbl_data = 0,
       lbl_pending_lrq_count = 0, lbl_counts = (\<lambda>_. 0), lbl_requests = []\<rparr>),
     owns = (\<lambda>_. \<lparr>own_owner_type = 0, own_owner_id = 0, own_count = 0, own_process = 0, own_requests = [], own_blocks = [],
       own_pending = [], own_waits = 0, own_ast_count = 0, own_flags = {}\<rparr>),
     prcs = (\<lambda>_. \<lparr>prc_process_id = 0, prc_owners = []\<rparr>),
     lhb_owners = [], lhb_processes = [], lhb_free_processes = [], lhb_free_owners = [], lhb_free_locks = [],
     lhb_free_requests = [], lhb_length = 4096, lhb_used = 512, lhb_hash_slots = 11, lhb_hash = (\<lambda>_. []), lhb_data = (\<lambda>_. []),
     lhb_stats = (\<lambda>_. 0)\<rparr>"



lemma demo_sel:
  "prcs demo_table p = \<lparr>prc_process_id = 0, prc_owners = []\<rparr>"
  "owns demo_table w = \<lparr>own_owner_type = 0, own_owner_id = 0, own_count = 0, own_process = 0, own_requests = [], own_blocks = [],
       own_pending = [], own_waits = 0, own_ast_count = 0, own_flags = {}\<rparr>"
  "reqs demo_table r = \<lparr>lrq_type = False, lrq_requested = 0, lrq_state = 0, lrq_flags = {}, lrq_owner = 0,
       lrq_lock = 0, lrq_data = 0, lrq_ast_routine = 0, lrq_ast_argument = 0\<rparr>"
  "lcks demo_table l = \<lparr>lbl_type = False, lbl_state = 0, lbl_size = 0, lbl_length = 0, lbl_key = [], lbl_series = 0, lbl_data = 0,
       lbl_pending_lrq_count = 0, lbl_counts = (\<lambda>_. 0), lbl_requests = []\<rparr>"
  "lhb_owners demo_table = []" "lhb_processes demo_table = []" "lhb_free_processes demo_table = []" "lhb_free_owners demo_table = []"
  "lhb_free_locks demo_table = []" "lhb_free_requests demo_table = []" "lhb_length demo_table = 4096" "lhb_used demo_table = 512"
  "lhb_hash_slots demo_table = 11" "lhb_hash demo_table h = []" "lhb_data demo_table h = []"
  by (simp_all add: demo_table_def)

lemma cfg_sel: "sizeof_lrq demo_cfg = 64" "sizeof_lbl demo_cfg = 96" "sizeof_own demo_cfg = 80" "sizeof_prc demo_cfg = 40"
  "hash_fn demo_cfg k n = 0" "memory_size demo_cfg = 4096" "can_remap demo_cfg"
  by (simp_all add: demo_cfg_def)

lemmas start_defs = create_process_def create_owner_def alloc_def FB_ALIGN_def mod_prc_def mod_own_def MAX_TABLE_LENGTH_def
  init_owner_block_def probe_processes_def Let_def

definition owner1 :: own where
  "owner1 = \<lparr>own_owner_type = 1, own_owner_id = 11, own_count = 1, own_process = 512, own_requests = [], own_blocks = [],
       own_pending = [], own_waits = 0, own_ast_count = 0, own_flags = {}\<rparr>"

definition lock1 :: lbl where
  "lock1 = \<lparr>lbl_type = True, lbl_state = 3, lbl_size = 8, lbl_length = 3, lbl_key = [1, 2, 3], lbl_series = 1, lbl_data = 0,
       lbl_pending_lrq_count = 0, lbl_counts = (\<lambda>_. 0)(3 := 1), lbl_requests = [712]\<rparr>"

definition req1 :: lrq where
  "req1 = \<lparr>lrq_type = True, lrq_requested = 3, lrq_state = 3, lrq_flags = {}, lrq_owner = 552, lrq_lock = 776, lrq_data = 0,
     lrq_ast_routine = 0, lrq_ast_argument = 0\<rparr>"

definition T1 :: table where
  "T1 = demo_table\<lparr>prcs := (prcs demo_table)(512 := \<lparr>prc_process_id = 1, prc_owners = []\<rparr>), lhb_processes := [512], lhb_used := 552\<rparr>"

definition T2 :: table where
  "T2 = demo_table\<lparr>prcs := (prcs demo_table)(512 := \<lparr>prc_process_id = 1, prc_owners = [552]\<rparr>), lhb_processes := [512],
   owns := (owns demo_table)(552 := owner1), lhb_owners := [552], lhb_used := 632\<rparr>"

definition T3 :: table where
  "T3 = demo_table\<lparr>prcs := (prcs demo_table)(512 := \<lparr>prc_process_id = 1, prc_owners = [552, 632]\<rparr>), lhb_processes := [512],
   owns := (owns demo_table)(552 := owner1, 632 := owner1\<lparr>own_owner_id := 12\<rparr>), lhb_owners := [552, 632], lhb_used := 712\<rparr>"

definition T4 :: table where
  "T4 = T3\<lparr>owns := (owns T3)(552 := owner1\<lparr>own_requests := [712]\<rparr>), reqs := (reqs T3)(712 := req1),
     lcks := (lcks T3)(776 := lock1), lhb_hash := (lhb_hash T3)(0 := [776]), lhb_used := 880,
     lhb_stats := (lhb_stats demo_table)(Enqs := 1, Operations 1 := 1)\<rparr>"

definition T5 :: table where
  "T5 = T4\<lparr>owns := (owns T4)(632 := owner1\<lparr>own_owner_id := 12, own_requests := [880]\<rparr>),
     reqs := (reqs T4)(880 := req1\<lparr>lrq_owner := 632\<rparr>),
     lcks := (lcks T4)(776 := lock1\<lparr>lbl_counts := (\<lambda>_. 0)(3 := 2), lbl_requests := [712, 880]\<rparr>), lhb_used := 944,
     lhb_stats := (lhb_stats demo_table)(Enqs := 2, Operations 1 := 2)\<rparr>"

lemma attach_demo: "create_process demo_cfg True 1 demo_table = (512, T1)"
  by (simp add: start_defs demo_sel cfg_sel T1_def)

lemma owner_demo1: "create_owner demo_cfg (\<lambda>_. True) True 1 512 11 1 T1 = (552, T2)"
  by (simp add: start_defs demo_sel cfg_sel T1_def T2_def owner1_def)

lemma owner_demo2: "create_owner demo_cfg (\<lambda>_. True) True 1 512 12 1 T2 = (632, T3)"
  by (simp add: start_defs demo_sel cfg_sel T3_def T2_def owner1_def)

lemma stats_sel: "lhb_stats demo_table n = 0" "Suc (Suc 0) = 2"
  by (simp_all add: demo_table_def)

lemma enqueue_demo1: "enqueue demo_cfg 0 1 [1, 2, 3] LCK_PR 0 0 0 0 552 T3 = (Granted 712, T4)"
proof -
  define t3 where "t3 = T3\<lparr>lhb_used := 776, lhb_stats := (lhb_stats demo_table)(Enqs := 1)\<rparr>"
  define t4 where "t4 = t3\<lparr>reqs := (reqs T3)(712 := req1\<lparr>lrq_state := 0, lrq_lock := 0\<rparr>), owns := (owns T3)(552 := owner1\<lparr>own_requests := [712]\<rparr>)\<rparr>"
  define t5 where "t5 = t4\<lparr>lhb_used := 880, lcks := (lcks T3)(776 := (lcks demo_table 776)\<lparr>lbl_size := 8, lbl_type := True\<rparr>)\<rparr>"
  have a: "alloc_request demo_cfg (bump Enqs T3) = (Some 712, t3)"
    by (simp add: t3_def alloc_request_def alloc_def FB_ALIGN_def bump_def demo_sel cfg_sel stats_sel T3_def Let_def)
  have b: "mod_own 552 (\<lambda>q. q\<lparr>own_requests := own_requests q @ [712]\<rparr>) (mod_req 712 (init_request LCK_PR 552 0 0) t3) = t4"
    by (simp add: t4_def t3_def T3_def mod_own_def mod_req_def init_request_def req1_def demo_sel owner1_def)
  have c: "find_lock demo_cfg 1 [1, 2, 3] t4 = None"
    by (simp add: find_lock_def t4_def t3_def T3_def demo_sel cfg_sel)
  have d: "alloc_lock demo_cfg 3 t4 = (Some 776, t5)"
    by (simp add: t5_def alloc_lock_def alloc_def FB_ALIGN_def mod_lck_def t4_def t3_def T3_def demo_sel cfg_sel Let_def)
  have e: "new_lock demo_cfg 712 776 1 [1, 2, 3] LCK_PR 0 t5 = T4"
    by (simp add: new_lock_def insert_data_que_def init_lock_def grant_def add_count_def lock_state_def post_wakeup_def mod_lck_def
        mod_req_def demo_sel cfg_sel stats_sel bump_def bump_operations_def t5_def t4_def t3_def T3_def T4_def owner1_def req1_def lock1_def)
  have "own_count (owns T3 552) \<noteq> 0" by (simp add: T3_def owner1_def)
  then show ?thesis unfolding enqueue_def Let_def using b c d [unfolded numeral_3_eq_3] e by (simp add: a)
qed

lemma enqueue_demo2: "enqueue demo_cfg 0 1 [1, 2, 3] LCK_PR 0 0 0 0 632 T4 = (Granted 880, T5)"
proof -
  define t3 where "t3 = T4\<lparr>lhb_used := 944, lhb_stats := (lhb_stats demo_table)(Operations 1 := 1, Enqs := 2)\<rparr>"
  define t4 where "t4 = t3\<lparr>reqs := (reqs T4)(880 := req1\<lparr>lrq_state := 0, lrq_lock := 0, lrq_owner := 632\<rparr>),
    owns := (owns T4)(632 := owner1\<lparr>own_owner_id := 12, own_requests := [880]\<rparr>)\<rparr>"
  define t6 where "t6 = t4\<lparr>lcks := (lcks T4)(776 := lock1\<lparr>lbl_requests := [712, 880]\<rparr>),
    lhb_stats := (lhb_stats demo_table)(Enqs := 2, Operations 1 := 2)\<rparr>"
  note T = T3_def T4_def
  have a: "alloc_request demo_cfg (bump Enqs T4) = (Some 880, t3)"
    by (simp add: t3_def alloc_request_def alloc_def FB_ALIGN_def bump_def demo_sel cfg_sel stats_sel T Let_def)
  have b: "mod_own 632 (\<lambda>q. q\<lparr>own_requests := own_requests q @ [880]\<rparr>) (mod_req 880 (init_request LCK_PR 632 0 0) t3) = t4"
    by (simp add: t4_def t3_def T mod_own_def mod_req_def init_request_def req1_def demo_sel owner1_def)
  have c: "find_lock demo_cfg 1 [1, 2, 3] t4 = Some 776"
    by (simp add: find_lock_def t4_def t3_def T demo_sel cfg_sel lock1_def)
  have d: "mod_req 880 (\<lambda>q. q\<lparr>lrq_data := 0\<rparr>) (mod_lck 776 (\<lambda>b. b\<lparr>lbl_requests := lbl_requests b @ [880]\<rparr>) (bump_operations 1 t4)) = t6"
    by (simp add: t6_def t4_def t3_def T mod_lck_def mod_req_def bump_operations_def bump_def stats_sel lock1_def req1_def)
  have e: "grant_or_que 880 776 0 t6 = (Granted 880, T5)"
    by (simp add: grant_or_que_def compatibility_def post_pending_def grant_def add_count_def lock_state_def post_wakeup_def mod_lck_def
        mod_req_def demo_sel cfg_sel stats_sel t6_def t4_def t3_def T T5_def owner1_def req1_def lock1_def)
  have "own_count (owns T4 632) \<noteq> 0" by (simp add: T owner1_def)
  then show ?thesis unfolding enqueue_def Let_def using b c d e by (simp add: a)
qed

text \<open>Both ask for exclusive use: each waits for the other.\<close>

definition T6 :: table where
  "T6 = T5\<lparr>owns := (owns T5)(552 := owner1\<lparr>own_requests := [712], own_pending := [712], own_waits := 1\<rparr>),
     reqs := (reqs T5)(712 := req1\<lparr>lrq_requested := 6, lrq_flags := {LRQ_pending}\<rparr>),
     lcks := (lcks T5)(776 := lock1\<lparr>lbl_counts := (\<lambda>_. 0)(3 := 2), lbl_requests := [712, 880], lbl_pending_lrq_count := 1\<rparr>),
     lhb_stats := (lhb_stats T5)(Converts := 1, Operations 1 := 3, Waits := 1)\<rparr>"


lemmas call_defs = convert_def internal_convert_def begin_wait_def dequeue_def internal_dequeue_def release_request_def
  detach_request_def post_pending_def grant_def unpend_def set_flag_def clear_flags_def compatibility_def add_count_def
  lock_state_def post_wakeup_def mod_lck_def mod_own_def mod_req_def demo_sel cfg_sel stats_sel T3_def T4_def T5_def T6_def
  owner1_def req1_def lock1_def Let_def bump_def bump_operations_def

lemma convert_demo1: "convert 712 LCK_EX 1 0 0 T5 = (Waiting 712, T6)"
  by (simp add: call_defs)

definition T7 :: table where
  "T7 = T6\<lparr>owns := (owns T6)(632 := owner1\<lparr>own_owner_id := 12, own_requests := [880], own_pending := [880], own_waits := 1\<rparr>),
     reqs := (reqs T6)(880 := req1\<lparr>lrq_requested := 6, lrq_flags := {LRQ_pending}, lrq_owner := 632\<rparr>),
     lcks := (lcks T6)(776 := lock1\<lparr>lbl_counts := (\<lambda>_. 0)(3 := 2), lbl_requests := [712, 880], lbl_pending_lrq_count := 2\<rparr>),
     lhb_stats := (lhb_stats T6)(Converts := 2, Operations 1 := 4, Waits := 2)\<rparr>"

lemma convert_demo2: "convert 880 LCK_EX 1 0 0 T6 = (Waiting 880, T7)"
  by (simp add: call_defs T7_def)

text \<open>Or the second owner gives its lock up, and the first gets what it asked for.\<close>

definition T8 :: table where
  "T8 = T6\<lparr>owns := (owns T6)(632 := owner1\<lparr>own_owner_id := 12\<rparr>,
       552 := owner1\<lparr>own_requests := [712], own_waits := 1, own_flags := {OWN_wakeup}\<rparr>),
     reqs := (reqs T6)(880 := req1\<lparr>lrq_type := False, lrq_owner := 632\<rparr>, 712 := req1\<lparr>lrq_requested := 6, lrq_state := 6\<rparr>),
     lcks := (lcks T6)(776 := lock1\<lparr>lbl_state := 6, lbl_counts := (\<lambda>_. 0)(3 := 0, 6 := 1), lbl_requests := [712]\<rparr>),
     lhb_free_requests := [880], lhb_stats := (lhb_stats T6)(Deqs := 1, Operations 1 := 4, Wakeups := 1)\<rparr>"

lemma dequeue_demo: "dequeue 880 T6 = (True, T8)"
  by (simp add: call_defs T8_def)

subsection \<open>The states\<close>

definition demo_state :: "(nat \<Rightarrow> frame list) \<Rightarrow> table \<Rightarrow> system" where
  "demo_state sts t = \<lparr>tab = t, stacks = sts, offset = (\<lambda>_. 0)(1 := 512), dead = {}\<rparr>"

definition call1 :: call where
  "call1 = \<lparr>c_request = 712, c_level = LCK_EX, c_wait = 1, c_finish = By_convert None, c_held = LCK_PR\<rparr>"

definition call2 :: call where
  "call2 = \<lparr>c_request = 880, c_level = LCK_EX, c_wait = 1, c_finish = By_convert None, c_held = LCK_PR\<rparr>"

definition asleep :: "nat \<Rightarrow> frame list" where
  "asleep = (\<lambda>_. [])(0 := [Blockage [] [], Entering call1])"

lemma demo_used: "lhb_used T1 = 552" "lhb_used T2 = 632" "lhb_used T3 = 712" "lhb_used T4 = 880" "lhb_used T5 = 944"
  "lhb_used T6 = 944" "lhb_used T7 = 944" "lhb_used T8 = 944"
  by (simp_all add: T1_def T2_def T3_def T4_def T5_def T6_def T7_def T8_def)

lemma demo_homes: "home T3 552 = 1" "home T4 632 = 1" "home T5 552 = 1" "home T6 632 = 1"
  "lhb_owners T3 = [552, 632]" "lhb_owners T4 = [552, 632]"
  by (simp_all add: home_def T3_def T4_def T5_def T6_def owner1_def)

lemma demo_reqs: "reqs T5 712 = req1" "reqs T6 880 = req1\<lparr>lrq_owner := 632\<rparr>"
  "lrq_ast_routine (reqs T6 b) = 0" "lrq_ast_routine (reqs T7 b) = 0"
  by (simp_all add: T3_def T4_def T5_def T6_def T7_def demo_sel req1_def)

lemma demo_live: "live_request T5 712" "live_request T6 880"
  by (simp_all add: live_request_def demo_reqs req1_def)

lemma small_roomy:
  assumes "lock_inv t" "lhb_used t < 2 ^ 16 - 1"
  shows "roomy t"
  unfolding roomy_def
proof
  fix l
  let ?q = "lbl_requests (lcks t l)"
  have "distinct ?q" using lock_invD(1) [OF assms(1)] by (simp add: table_ok_def lock_ok_def)
  moreover have "set ?q \<subseteq> {..<lhb_used t}"
    using lock_invD(1) [OF assms(1)] by (auto simp: table_ok_def lock_ok_def req_ok_def allocation_ok_def)
  ultimately have "length ?q \<le> lhb_used t" by (metis card_lessThan card_mono distinct_card finite_lessThan)
  then show "length ?q < 2 ^ 16 - 1" using assms(2) by simp
qed

lemma reach_on:
  assumes "reach cfg pid_of s" "step cfg pid_of s s'" "config_ok cfg" "lhb_used (tab s') < 2 ^ 16 - 1"
  shows "reach cfg pid_of s'"
proof (rule reach.next_step [OF assms(1,2)])
  have "sys_inv cfg pid_of s'" using step_inv [OF assms(2)] reach_inv [OF assms(1,3)] assms(3) by blast
  then show "roomy (tab s')" using small_roomy assms(4) by (simp add: sys_inv_def)
qed

lemma demo_cfg_ok: "config_ok demo_cfg"
  by (simp add: config_ok_def cfg_sel)

lemma demo_sel_state [simp]: "tab (demo_state sts t) = t" "stacks (demo_state sts t) = sts" "dead (demo_state sts t) = {}"
  "offset (demo_state sts t) p = (if p = 1 then 512 else 0)" "(demo_state sts t)\<lparr>tab := t'\<rparr> = demo_state sts t'"
  "set_stack th st t' (demo_state sts t) = demo_state (sts(th := st)) t'"
  by (simp_all add: demo_state_def set_stack_def)

lemma demo_waited: "x \<in> waited (demo_state sts t) \<longleftrightarrow> (\<exists>th. x \<in> c_request ` set (calls_of (sts th)))"
  by (auto simp: waited_def)

lemma reach_demo0: "reach demo_cfg (\<lambda>_. 1) \<lparr>tab = demo_table, stacks = (\<lambda>_. []), offset = (\<lambda>_. 0), dead = {}\<rparr>"
  by (rule reach.start [of 11 4096 512]) (auto simp: empty_table_def demo_sel)

lemma reach_demo1: "reach demo_cfg (\<lambda>_. 1) (demo_state (\<lambda>_. []) T1)"
proof (rule reach_on [OF reach_demo0 _ demo_cfg_ok])
  have "step demo_cfg (\<lambda>_. 1) \<lparr>tab = demo_table, stacks = (\<lambda>_. []), offset = (\<lambda>_. 0), dead = {}\<rparr>
    (\<lparr>tab = demo_table, stacks = (\<lambda>_. []), offset = (\<lambda>_. 0), dead = {}\<rparr>\<lparr>tab := T1, offset := ((\<lambda>_. 0)(1 := 512))\<rparr>)"
    using step.Attach [where pid_of = "\<lambda>_. 1" and cfg = demo_cfg and th = 0 and prc_ok = True and p = 512 and t = T1
      and s = "\<lparr>tab = demo_table, stacks = (\<lambda>_. []), offset = (\<lambda>_. 0), dead = {}\<rparr>"] attach_demo
    by (simp add: waited_def in_dead_list_def)
  then show "step demo_cfg (\<lambda>_. 1) \<lparr>tab = demo_table, stacks = (\<lambda>_. []), offset = (\<lambda>_. 0), dead = {}\<rparr> (demo_state (\<lambda>_. []) T1)"
    by (simp add: demo_state_def)
qed (simp add: demo_used)

lemma demo_owner_step:
  assumes "create_owner demo_cfg (\<lambda>_. True) True 1 512 i 1 t = (w, t')"
  shows "step demo_cfg (\<lambda>_. 1) (demo_state (\<lambda>_. []) t) (demo_state (\<lambda>_. []) t')"
  using step.New_owner [where pid_of = "\<lambda>_. 1" and cfg = demo_cfg and th = 0 and exists = "\<lambda>_. True" and own_ok = True
      and owner_id = i and owner_type = 1 and w = w and t = t' and s = "demo_state (\<lambda>_. []) t"] assms
  by (simp add: truthful_def demo_waited)

lemma reach_demo3: "reach demo_cfg (\<lambda>_. 1) (demo_state (\<lambda>_. []) T3)"
  by (rule reach_on [OF reach_on [OF reach_demo1 demo_owner_step [OF owner_demo1] demo_cfg_ok] demo_owner_step [OF owner_demo2] demo_cfg_ok])
    (simp_all add: demo_used)

lemma demo_enqueue_step:
  assumes "enqueue demo_cfg 0 1 [1, 2, 3] LCK_PR 0 0 0 0 w t = (Granted r, t')" "w \<in> set (lhb_owners t)" "home t w = 1"
  shows "step demo_cfg (\<lambda>_. 1) (demo_state (\<lambda>_. []) t) (demo_state (\<lambda>_. []) t')"
  using step.Enqueue [where pid_of = "\<lambda>_. 1" and cfg = demo_cfg and th = 0 and s = "demo_state (\<lambda>_. []) t" and w = w and prior = 0
      and series = 1 and key = "[1, 2, 3]" and type = LCK_PR and ast = 0 and arg = 0 and data = 0 and i = 0 and out = "Granted r" and t = t'] assms
  by (simp add: answer_def)

lemma reach_demo5: "reach demo_cfg (\<lambda>_. 1) (demo_state (\<lambda>_. []) T5)"
  by (rule reach_on [OF reach_on [OF reach_demo3 demo_enqueue_step [OF enqueue_demo1] demo_cfg_ok] demo_enqueue_step [OF enqueue_demo2] demo_cfg_ok])
    (simp_all add: demo_used demo_homes)

lemma demo_convert_step:
  assumes "convert r LCK_EX 1 0 0 t = (Waiting r, t')" "usable 1 r (demo_state sts t)" "post_blockage r t' = ([], t')" "sts th = []"
    "lrq_ast_routine (reqs t r) = 0" "lrq_ast_argument (reqs t r) = 0" "lrq_state (reqs t r) = h"
  shows "step demo_cfg (\<lambda>_. 1) (demo_state sts t)
     (demo_state (sts(th := [Blockage [] [], Entering \<lparr>c_request = r, c_level = LCK_EX, c_wait = 1, c_finish = By_convert None,
        c_held = h\<rparr>])) t')"
  using step.Convert [where pid_of = "\<lambda>_. 1" and cfg = demo_cfg and th = th and s = "demo_state sts t" and r = r
      and type = LCK_EX and ast = 0 and arg = 0 and i = 1 and out = "Waiting r" and t = t'] assms
  by (simp add: answer_def new_ast_def)

lemma no_blockers: "(\<And>b. lrq_ast_routine (reqs t b) = 0) \<Longrightarrow> post_blockage r t = ([], t)"
proof -
  assume a: "\<And>b. lrq_ast_routine (reqs t b) = 0"
  have "blockers r bs t = ([], t)" for bs by (induction bs) (simp_all add: a)
  then show ?thesis by (simp add: post_blockage_def)
qed

lemma reach_demo6: "reach demo_cfg (\<lambda>_. 1) (demo_state asleep T6)"
proof (rule reach_on [OF reach_demo5 _ demo_cfg_ok])
  show "step demo_cfg (\<lambda>_. 1) (demo_state (\<lambda>_. []) T5) (demo_state asleep T6)"
    unfolding asleep_def call1_def
    by (rule demo_convert_step [OF convert_demo1])
      (auto simp: usable_def demo_live demo_reqs demo_homes demo_waited req1_def intro!: no_blockers)
qed (simp add: demo_used)

lemma reach_demo7: "reach demo_cfg (\<lambda>_. 1) (demo_state (asleep(1 := [Blockage [] [], Entering call2])) T7)"
proof (rule reach_on [OF reach_demo6 _ demo_cfg_ok])
  show "step demo_cfg (\<lambda>_. 1) (demo_state asleep T6) (demo_state (asleep(1 := [Blockage [] [], Entering call2])) T7)"
    unfolding call2_def
    by (rule demo_convert_step [OF convert_demo2])
      (auto simp: asleep_def call1_def usable_def demo_live demo_reqs demo_homes demo_waited req1_def intro!: no_blockers)
qed (simp add: demo_used)

lemma reach_demo8: "reach demo_cfg (\<lambda>_. 1) (demo_state ((\<lambda>_. [])(0 := [Loop call1 (start_timers 1 100 10)])) T8)"
proof -
  have u: "usable 1 880 (demo_state asleep T6)"
    by (auto simp: asleep_def call1_def usable_def demo_live demo_reqs demo_homes demo_waited req1_def)
  have "step demo_cfg (\<lambda>_. 1) (demo_state asleep T6) (demo_state asleep T8)"
    using step.Dequeue [where pid_of = "\<lambda>_. 1" and cfg = demo_cfg and th = 1 and s = "demo_state asleep T6" and r = 880] u
    by (simp add: dequeue_demo asleep_def)
  then have r: "reach demo_cfg (\<lambda>_. 1) (demo_state asleep T8)"
    by (rule reach_on [OF reach_demo6 _ demo_cfg_ok]) (simp add: demo_used)
  have "step demo_cfg (\<lambda>_. 1) (demo_state asleep T8) (demo_state ((\<lambda>_. [])(0 := [Entering call1])) T8)"
    using step.Notified [where pid_of = "\<lambda>_. 1" and cfg = demo_cfg and th = 0 and s = "demo_state asleep T8" and st = "[Entering call1]"]
    by (simp add: asleep_def)
  then have "reach demo_cfg (\<lambda>_. 1) (demo_state ((\<lambda>_. [])(0 := [Entering call1])) T8)"
    by (rule reach_on [OF r _ demo_cfg_ok]) (simp add: demo_used)
  then show ?thesis
    by (rule reach_on [OF _ _ demo_cfg_ok])
      (use step.Enter [where pid_of = "\<lambda>_. 1" and cfg = demo_cfg and th = 0 and st = "[]" and c = call1 and n = 100 and k = 10
         and s = "demo_state ((\<lambda>_. [])(0 := [Entering call1])) T8"] in \<open>simp_all add: demo_used call1_def\<close>)
qed

end
