(* ===== verification/LockTheorems.thy ===== *)
theory LockTheorems
  imports LockExample
begin

text \<open>
  What the lock manager of \<open>src/lock/lock.cpp\<close> guarantees in every state that threads and
  processes can bring about (\<open>reach\<close> of \<open>LockSystem\<close>), with \<open>LockExample\<close> as the run on which the
  statements are tried.
\<close>

subsection \<open>What holds in every state\<close>

lemma reachD:
  assumes "reach cfg pid_of s" "config_ok cfg"
  shows "sys_inv cfg pid_of s" "roomy (tab s)" "small (tab s)" "lock_inv (tab s)" "index_ok cfg (tab s)"
  using reach_inv [OF assms] roomy_small by (simp_all add: sys_inv_def)

lemma demo_reach [simp]: "reach demo_cfg (\<lambda>_. 1) (demo_state (\<lambda>_. []) T5)" "config_ok demo_cfg"
  by (rule reach_demo5 demo_cfg_ok)+

lemma demo5_reqs:
  "reqs T5 712 = req1" "reqs T5 880 = req1\<lparr>lrq_owner := 632\<rparr>"
  "lcks T5 776 = lock1\<lparr>lbl_counts := (\<lambda>_. 0)(3 := 2), lbl_requests := [712, 880]\<rparr>"
  by (simp_all add: T3_def T4_def T5_def)

lemma demo5_live: "live_request T5 712" "live_request T5 880"
  by (simp_all add: live_request_def demo5_reqs req1_def)

text \<open>
  C1. Safety: the levels that two requests hold on one lock are compatible, whatever calls,
  waits, time-outs, deadlocks and deaths of processes led there.
\<close>

theorem granted_levels_compatible:
  assumes "reach cfg pid_of s" "config_ok cfg" "live_request (tab s) r" "live_request (tab s) r'" "r \<noteq> r'"
    "lrq_lock (reqs (tab s) r) = lrq_lock (reqs (tab s) r')"
  shows "compatibility (lrq_state (reqs (tab s) r)) (lrq_state (reqs (tab s) r'))"
proof -
  note I = reachD [OF assms(1,2)]
  have q: "r \<in> set (lbl_requests (lcks (tab s) (lrq_lock (reqs (tab s) r))))"
    "r' \<in> set (lbl_requests (lcks (tab s) (lrq_lock (reqs (tab s) r))))"
    using live_requestD(1) [OF I(4) assms(3)] live_requestD(1) [OF I(4) assms(4)] by (simp_all only: assms(6))
  show ?thesis
    using table_ok_req(5) [OF lock_invD(1) [OF I(4)] q(1)] q assms(5) by (simp add: compatible_on_def)
qed

theorem granted_levels_compatible_witness: "compatibility (lrq_state (reqs T5 712)) (lrq_state (reqs T5 880)) \<and> lrq_state (reqs T5 712) = LCK_PR"
  using granted_levels_compatible [OF demo_reach, of 712 880] demo5_live by (simp add: demo5_reqs req1_def)

text \<open>
  C29. Well-formedness: a request in use is queued exactly once on its lock, which is in use, and
  once on its owner, which is a registered owner of a registered process; its levels are
  levels, and it is not on the list of free blocks.
\<close>

theorem requests_well_formed:
  assumes "reach cfg pid_of s" "config_ok cfg" "live_request (tab s) r" "q = reqs (tab s) r"
  shows "lbl_type (lcks (tab s) (lrq_lock q)) \<and> r \<in> set (lbl_requests (lcks (tab s) (lrq_lock q))) \<and>
    distinct (lbl_requests (lcks (tab s) (lrq_lock q))) \<and> r \<in> set (own_requests (owns (tab s) (lrq_owner q))) \<and>
    distinct (own_requests (owns (tab s) (lrq_owner q))) \<and> lrq_owner q \<in> set (lhb_owners (tab s)) \<and>
    own_process (owns (tab s) (lrq_owner q)) \<in> set (lhb_processes (tab s)) \<and>
    lrq_requested q < LCK_max \<and> lrq_state q < LCK_max \<and> r \<notin> set (lhb_free_requests (tab s))"
proof -
  note I = reachD [OF assms(1,2)] and L = live_requestD [OF reachD(4) [OF assms(1,2)] assms(3)]
  note T = table_ok_req [OF lock_invD(1) [OF I(4)] L(1)]
  have "r \<notin> set (lhb_free_requests (tab s))"
    using lock_invD(1) [OF I(4)] assms(3) by (auto simp: table_ok_def allocation_ok_def live_request_def)
  moreover have "own_process (owns (tab s) (lrq_owner q)) \<in> set (lhb_processes (tab s))"
    using lock_invD(3) [OF I(4)] L(3) assms(4) by (simp add: prcs_ok_def)
  moreover have "r \<in> set (own_requests (owns (tab s) (lrq_owner q)))"
    using owner_queues(4) [OF lock_invD(2) [OF I(4)], of r "lrq_owner q"] assms(3,4) by (simp add: live_request_def)
  ultimately show ?thesis
    using L T(1-3) owner_queues(1) [OF lock_invD(2) [OF I(4)]] assms(4) by (simp add: req_ok_def)
qed

theorem requests_well_formed_witness: "lrq_owner (reqs T5 712) \<in> set (lhb_owners T5) \<and> 712 \<in> set (lbl_requests (lcks T5 776))"
  using requests_well_formed [OF demo_reach, of 712 req1] demo5_live by (simp add: demo5_reqs req1_def)

lemma count_unat:
  assumes "n < 2 ^ 16"
  shows "unat (of_nat n :: ushort) = n" "(of_nat n :: ushort) = 0 \<longleftrightarrow> n = 0"
proof -
  show u: "unat (of_nat n :: ushort) = n" using assms by (simp add: unat_of_nat)
  show "(of_nat n :: ushort) = 0 \<longleftrightarrow> n = 0"
  proof
    assume "(of_nat n :: ushort) = 0"
    then show "n = 0" using u by (simp only: unat_0)
  qed simp
qed

text \<open>
  C24. The counts of a lock in use say how many requests hold each level and how many wait, and
  its state is the highest level held.
\<close>

theorem lock_counts_exact:
  assumes "reach cfg pid_of s" "config_ok cfg" "lbl_type (lcks (tab s) l)" "1 \<le> k" "k < LCK_max"
  shows "unat (lbl_counts (lcks (tab s) l) k) = length (filter (\<lambda>r. lrq_state (reqs (tab s) r) = k) (lbl_requests (lcks (tab s) l))) \<and>
    unat (lbl_pending_lrq_count (lcks (tab s) l)) =
      length (filter (\<lambda>r. LRQ_pending \<in> lrq_flags (reqs (tab s) r)) (lbl_requests (lcks (tab s) l))) \<and>
    lbl_state (lcks (tab s) l) = Max ((\<lambda>r. lrq_state (reqs (tab s) r)) ` set (lbl_requests (lcks (tab s) l)))"
proof -
  note I = reachD [OF assms(1,2)]
  let ?q = "lbl_requests (lcks (tab s) l)" and ?b = "lcks (tab s) l" and ?s = "\<lambda>r. lrq_state (reqs (tab s) r)"
  have ne: "?q \<noteq> []" using lock_invD(1) [OF I(4)] assms(3) by (simp add: table_ok_def lock_ok_def)
  then obtain r where r: "r \<in> set ?q" by (meson list.set_sel(1))
  note T = table_ok_req [OF lock_invD(1) [OF I(4)] r]
  have le: "length (filter P ?q) < 2 ^ 16" for P
    by (rule le_less_trans [OF length_filter_le]) (use I(3) in \<open>simp add: small_def\<close>)
  have c: "lbl_counts ?b m = of_nat (length (filter (\<lambda>r. ?s r = m) ?q))" if "1 \<le> m" "m < 7" for m
    using T(4) that by (simp add: counts_ok_def)
  have z: "lbl_counts ?b m \<noteq> 0 \<longleftrightarrow> m \<in> ?s ` set ?q" if "1 \<le> m" "m < 7" for m
  proof -
    have "lbl_counts ?b m \<noteq> 0 \<longleftrightarrow> filter (\<lambda>r. ?s r = m) ?q \<noteq> []"
      using count_unat(2) [OF le [of "\<lambda>r. ?s r = m"]] by (simp add: c [OF that])
    then show ?thesis by (auto simp: filter_empty_conv)
  qed
  have lt: "?s x < 7" if "x \<in> set ?q" for x
    using table_ok_req(1) [OF lock_invD(1) [OF I(4)] that] by (simp add: req_ok_def)
  have "lock_state ?b = Max (?s ` set ?q)"
  proof (rule Max_eqI [symmetric])
    show "m \<le> lock_state ?b" if "m \<in> ?s ` set ?q" for m
      using that lt z [of m] levels [of m] by (auto simp: lock_state_def)
    show "lock_state ?b \<in> ?s ` set ?q"
    proof (cases "lock_state ?b = 0")
      case True
      then have "x \<in> set ?q \<Longrightarrow> ?s x = 0" for x using lt [of x] z [of "?s x"] levels [of "?s x"] by (auto simp: lock_state_def split: if_splits)
      then show ?thesis using r True by force
    next
      case False
      then have "lbl_counts ?b (lock_state ?b) \<noteq> 0" by (auto simp: lock_state_def split: if_splits)
      then show ?thesis using z [of "lock_state ?b"] False lock_state_less [of ?b] by simp
    qed
  qed simp
  then have "lbl_state ?b = Max (?s ` set ?q)" by (simp add: T(7))
  moreover have "unat (lbl_counts ?b k) = length (filter (\<lambda>r. ?s r = k) ?q)"
    using c [of k] assms(4,5) count_unat(1) [OF le [of "\<lambda>r. ?s r = k"]] by simp
  moreover have "unat (lbl_pending_lrq_count ?b) = length (filter (\<lambda>r. LRQ_pending \<in> lrq_flags (reqs (tab s) r)) ?q)"
    using T(6) count_unat(1) [OF le [of "\<lambda>r. LRQ_pending \<in> lrq_flags (reqs (tab s) r)"]] by (simp add: pending_ok_def)
  ultimately show ?thesis by blast
qed

theorem lock_counts_exact_witness: "unat (lbl_counts (lcks T5 776) 3) = 2 \<and> lbl_state (lcks T5 776) = 3"
  using lock_counts_exact [OF demo_reach, of 776 3] by (simp add: demo5_reqs lock1_def req1_def)

text \<open>
  C4. Nothing is lost: a pending request of a process that lives is one that a call in one of
  the threads of the process waits for, and no two calls wait for the same request.
\<close>

theorem pending_is_waited_for:
  assumes "reach cfg pid_of s" "config_ok cfg" "live_request (tab s) r" "LRQ_pending \<in> lrq_flags (reqs (tab s) r)"
    "home (tab s) (lrq_owner (reqs (tab s) r)) \<notin> dead s"
  shows "(\<exists>!th. r \<in> c_request ` set (calls_of (stacks s th))) \<and>
    (\<exists>th. pid_of th = home (tab s) (lrq_owner (reqs (tab s) r)) \<and> r \<in> c_request ` set (calls_of (stacks s th)))"
proof -
  note I = reachD [OF assms(1,2)]
  note S = sys_invD [OF I(1)]
  have "r \<in> waited s" using S(6) [of r] pendings_live [OF I(4)] assms(3-5) by auto
  then obtain th c where c: "c \<in> set (calls_of (stacks s th))" "c_request c = r" by (auto simp: waited_call)
  have "th' = th" if "r \<in> c_request ` set (calls_of (stacks s th'))" for th'
    using that S(5) c unfolding calls_distinct_def by blast
  then have "\<exists>!th. r \<in> c_request ` set (calls_of (stacks s th))" using c by (intro ex1I [of _ th]) auto
  moreover have "pid_of th = home (tab s) (lrq_owner (reqs (tab s) r))" using S(4) [OF c(1)] c(2) by (simp add: call_inv_def)
  moreover have "r \<in> c_request ` set (calls_of (stacks s th))" using c by auto
  ultimately show ?thesis by (intro conjI exI [of _ th])
qed

lemma demo7_req: "reqs T7 712 = req1\<lparr>lrq_requested := 6, lrq_flags := {LRQ_pending}\<rparr>" "reqs T7 880 = req1\<lparr>lrq_requested := 6, lrq_flags := {LRQ_pending}, lrq_owner := 632\<rparr>"
  "home T7 552 = 1" "home T7 632 = 1"
  by (simp_all add: T3_def T4_def T5_def T6_def T7_def home_def owner1_def)

theorem pending_is_waited_for_witness: "\<exists>!th. 712 \<in> c_request ` set (calls_of ((asleep(1 := [Blockage [] [], Entering call2])) th))"
proof -
  let ?s = "demo_state (asleep(1 := [Blockage [] [], Entering call2])) T7"
  have "live_request (tab ?s) 712" "LRQ_pending \<in> lrq_flags (reqs (tab ?s) 712)" "home (tab ?s) (lrq_owner (reqs (tab ?s) 712)) \<notin> dead ?s"
    by (simp_all add: live_request_def demo7_req req1_def)
  from conjunct1 [OF pending_is_waited_for [OF reach_demo7 demo_cfg_ok this]] show ?thesis by (simp only: demo_sel_state)
qed





subsection \<open>The calls\<close>





text \<open>
  C26. The hash table implements a map: \<open>find_lock\<close> finds the lock of a series and key exactly
  when there is one, and there is at most one.
\<close>

theorem find_lock_refines:
  assumes "reach cfg pid_of s" "config_ok cfg"
  shows "find_lock cfg series key (tab s) = Some l \<longleftrightarrow>
     lbl_type (lcks (tab s) l) \<and> lbl_series (lcks (tab s) l) = series \<and> lock_key (lcks (tab s) l) = key"
  using find_lock_iff reachD(5) [OF assms] by (simp add: index_ok_def)

theorem find_lock_refines_witness: "find_lock demo_cfg 1 [1, 2, 3] T5 = Some 776"
  using find_lock_refines [OF demo_reach, of 1 "[1, 2, 3]" 776] by (simp add: demo5_reqs lock1_def lock_key_def)

text \<open>
  \<open>queryData\<close>: least and greatest of the data of a series, their number and sum, although it
  looks only at the ends of a queue or walks along it.
\<close>

theorem query_data:
  assumes "reach cfg pid_of s" "config_ok cfg" "series < LCK_MAX_SERIES"
    "L = {l. lbl_type (lcks (tab s) l) \<and> lbl_series (lcks (tab s) l) = series \<and> lbl_data (lcks (tab s) l) \<noteq> 0}"
  shows "fst (queryData series LCK_MIN (tab s)) = (if L = {} then 0 else Min ((\<lambda>l. lbl_data (lcks (tab s) l)) ` L)) \<and>
    fst (queryData series LCK_MAX (tab s)) = (if L = {} then 0 else Max ((\<lambda>l. lbl_data (lcks (tab s) l)) ` L)) \<and>
    fst (queryData series LCK_CNT (tab s)) = int (card L) \<and>
    fst (queryData series LCK_SUM (tab s)) = (\<Sum>l \<in> L. lbl_data (lcks (tab s) l)) \<and>
    fst (queryData series LCK_ANY (tab s)) = (if L = {} then 0 else 1)"
proof -
  have d: "data_ok (tab s)" using reachD(5) [OF assms(1,2)] by (simp add: index_ok_def)
  define D where "D = (\<lambda>l. lbl_data (lcks (tab s) l))"
  define q where "q = lhb_data (tab s) series"
  have q: "set q = L" "distinct q" "sorted (map D q)"
    using d assms(3) by (auto simp: data_ok_def q_def D_def assms(4))
  have cnt: "foldl (\<lambda>c d. c + 1) a xs = a + int (length xs)" for xs :: "int list" and a
    by (induction xs arbitrary: a) simp_all
  have sum: "foldl (\<lambda>c d. c + d) a xs = a + sum_list xs" for xs :: "int list" and a
    by (induction xs arbitrary: a) simp_all
  have ne: "q = [] \<longleftrightarrow> L = {}" using q(1) by auto
  have lo: "hd (map D q) = Min (D ` L)" if "q \<noteq> []"
    using that q(1,3) by (cases q) (auto intro!: Min_eqI [symmetric] simp: hd_map)
  have hi: "List.last (map D q) = Max (D ` L)" if "q \<noteq> []"
  proof (rule Max_eqI [symmetric])
    obtain q' x where x: "q = q' @ [x]" using \<open>q \<noteq> []\<close> by (metis append_butlast_last_id)
    show "y \<le> List.last (map D q)" if "y \<in> D ` L" for y using that q(1,3) by (auto simp: x sorted_append)
    show "List.last (map D q) \<in> D ` L" using q(1) by (auto simp: x)
    show "finite (D ` L)" using q(1) by (metis finite_imageI finite_set)
  qed
  have "length q = card L" "sum_list (map D q) = sum D L"
    using q(1,2) distinct_card [of q] sum_list_distinct_conv_sum_set [of q D] by simp_all
  moreover have "fst (queryData series agg (tab s)) = (case agg of
                 LCK_CNT \<Rightarrow> foldl (\<lambda>n d. n + 1) 0 (map D q)
               | LCK_SUM \<Rightarrow> foldl (\<lambda>data d. data + d) 0 (map D q)
               | LCK_AVG \<Rightarrow> (case foldl (\<lambda>(data, n) d. (data + d, n + 1)) (0, 0) (map D q) of
                    (data, n) \<Rightarrow> if n \<noteq> 0 then data sdiv n else 0)
               | LCK_ANY \<Rightarrow> if map D q \<noteq> [] then 1 else 0
               | LCK_MIN \<Rightarrow> if map D q \<noteq> [] then hd (map D q) else 0
               | LCK_MAX \<Rightarrow> if map D q \<noteq> [] then List.last (map D q) else 0)" for agg
    using assms(3) by (simp add: queryData_def Let_def D_def q_def bump_def del: LCK_MAX_SERIES_def split: aggregate.split)
  ultimately show ?thesis using lo hi ne by (simp add: cnt sum D_def)
qed

theorem query_data_witness: "fst (queryData 1 LCK_MIN T5) = 0 \<and> fst (queryData 1 LCK_CNT T5) = int (card {l. lbl_type (lcks T5 l) \<and> lbl_series (lcks T5 l) = 1 \<and> lbl_data (lcks T5 l) \<noteq> 0})"
proof -
  have "{l. lbl_type (lcks T5 l) \<and> lbl_series (lcks T5 l) = 1 \<and> lbl_data (lcks T5 l) \<noteq> 0} = {}"
    by (auto simp: T5_def T4_def T3_def lock1_def demo_sel)
  then show ?thesis using query_data [OF demo_reach, of 1, OF _ refl] by simp
qed




subsection \<open>Deadlocks\<close>

lemma demo7_pending: "712 \<in> pendings T7" "880 \<in> pendings T7"
  by (simp_all add: pendings_def demo7_req req1_def)

lemma demo7_table:
  "lcks T7 776 = lock1\<lparr>lbl_counts := (\<lambda>_. 0)(3 := 2), lbl_requests := [712, 880], lbl_pending_lrq_count := 2\<rparr>"
  "owns T7 552 = owner1\<lparr>own_requests := [712], own_pending := [712], own_waits := 1\<rparr>"
  "owns T7 632 = owner1\<lparr>own_owner_id := 12, own_requests := [880], own_pending := [880], own_waits := 1\<rparr>"
  by (simp_all add: T3_def T4_def T5_def T6_def T7_def)

lemma demo7_cycle: "(712, 880) \<in> wait_graph T7" "(880, 712) \<in> wait_graph T7"
  by (simp_all add: wait_graph_def blockers_of_def waits_on_def busy_def demo7_req demo7_table req1_def lock1_def owner1_def compatibility_def)

text \<open>
  C28. The deadlock scan ends: its recursion, bounded in the model, never runs out of fuel.
\<close>

theorem scan_terminates:
  assumes "reach cfg pid_of s" "config_ok cfg" "r \<in> pendings (tab s)"
  shows "\<exists>victim t. deadlock_scan w r (tab s) = Some (victim, t)"
  by (rule deadlock_scan_terminates [OF reachD(4) [OF assms(1,2)] assms(3)])

theorem scan_terminates_witness: "\<exists>victim t. deadlock_scan 552 712 T7 = Some (victim, t)"
  using scan_terminates [OF reach_demo7 demo_cfg_ok, of 712 552] demo7_pending by simp

text \<open>
  C2. The scan from a pending request picks no victim only if no request reachable from it waits,
  directly or through others, for itself; a victim it picks is a pending request that does: no
  deadlock is missed, and none is broken that is not one. As in the code, waits with a time limit, and
  requests of owners that still have something to do, make no edges.
\<close>

theorem scan_finds_deadlocks:
  assumes "reach cfg pid_of s" "config_ok cfg" "r \<in> pendings (tab s)" "deadlock_scan w r (tab s) = Some (victim, t)"
  shows "case victim of
      None \<Rightarrow> \<forall>x. (r, x) \<in> (wait_graph (tab s))\<^sup>* \<longrightarrow> (x, x) \<notin> (wait_graph (tab s))\<^sup>+
    | Some v \<Rightarrow> v \<in> pendings (tab s) \<and> (v, v) \<in> (wait_graph (tab s))\<^sup>+"
proof (cases victim)
  case None
  then show ?thesis using deadlock_scan_complete(1) [OF reachD(4) [OF assms(1,2)] assms(3)] assms(4) by simp
next
  case (Some v)
  then show ?thesis using deadlock_scan_victim [OF reachD(4) [OF assms(1,2)] assms(3)] assms(4) by simp
qed

theorem scan_finds_deadlocks_witness: "\<exists>v t. deadlock_scan 552 712 T7 = Some (Some v, t) \<and> v \<in> pendings T7 \<and> (v, v) \<in> (wait_graph T7)\<^sup>+"
proof -
  have l: "lock_inv T7" using reachD(4) [OF reach_demo7 demo_cfg_ok] by simp
  obtain victim t where s: "deadlock_scan 552 712 T7 = Some (victim, t)"
    using deadlock_scan_terminates [OF l demo7_pending(1)] by blast
  note f = scan_finds_deadlocks [OF reach_demo7 demo_cfg_ok, of 712 552 victim t]
  have "(712, 712) \<in> (wait_graph T7)\<^sup>+" using demo7_cycle by (meson trancl.simps)
  then show ?thesis using f s demo7_pending(1) by (cases victim) auto
qed

text \<open>
  A waiting call that wakes up always gets to a decision, and one that is through has a
  request that is no longer pending.
\<close>

theorem wake_terminates:
  assumes "reach cfg pid_of s" "config_ok cfg" "stacks s th = Sleep c tm # st" "truthful (exists_process v) s"
  shows "\<exists>vd t. wake (pid_of th) (c_request c) (c_wait c) tm v (tab s) = Some (vd, t) \<and> live_request t (c_request c) \<and>
    (vd = Resolved \<longrightarrow> LRQ_pending \<notin> lrq_flags (reqs t (c_request c)))"
proof -
  note I = reachD [OF assms(1,2)]
  have cw: "c_request c \<in> waited s" using assms(3) by (auto simp: waited_call intro!: exI [of _ th])
  note h = waited_home [OF I(1) cw]
  show ?thesis
    using wake_result [OF I(4,5,2) h(2) truthful_covers [OF assms(4)], of "pid_of th" "c_wait c" tm "{}" "{}"] h(1) by blast
qed

text \<open>
  C27. A call with a time limit does not sleep beyond it: woken after the limit, it ends its wait
  then and there, whatever else happens.
\<close>

theorem timed_wait_ends:
  assumes "reach cfg pid_of s" "config_ok cfg" "stacks s th = Sleep c tm # st" "truthful (exists_process v) s"
    "c_wait c < 0" "lock_timeout tm \<le> now v"
  shows "\<exists>t. wake (pid_of th) (c_request c) (c_wait c) tm v (tab s) = Some (Resolved, t) \<and>
    LRQ_pending \<notin> lrq_flags (reqs t (c_request c))"
proof -
  note I = reachD [OF assms(1,2)]
  have cw: "c_request c \<in> waited s" using assms(3) by (auto simp: waited_call intro!: exI [of _ th])
  note h = waited_home [OF I(1) cw]
  obtain vd t where w: "wake (pid_of th) (c_request c) (c_wait c) tm v (tab s) = Some (vd, t)"
    and np: "vd = Resolved \<Longrightarrow> LRQ_pending \<notin> lrq_flags (reqs t (c_request c))"
    using wake_result [OF I(4,5,2) h(2) truthful_covers [OF assms(4)], of "pid_of th" "c_wait c" tm "{}" "{}"] h(1) by blast
  have "\<not> now v + 1 < wake_time (c_wait c) tm" using assms(5,6) by (simp add: wake_time_def)
  then have "vd = Resolved" using w assms(5,6) by (auto simp: wake_def Let_def split: if_splits)
  then show ?thesis using w np by simp
qed

lemma reach_demo9: "reach demo_cfg (\<lambda>_. 1) (demo_state (asleep(0 := [Sleep call1 (start_timers 1 100 10)])) T6)"
proof -
  have a: "step demo_cfg (\<lambda>_. 1) (demo_state asleep T6) (demo_state (asleep(0 := [Entering call1])) T6)"
    using step.Notified [where pid_of = "\<lambda>_. 1" and cfg = demo_cfg and th = 0 and s = "demo_state asleep T6" and st = "[Entering call1]"]
    by (simp add: asleep_def)
  have b: "step demo_cfg (\<lambda>_. 1) (demo_state (asleep(0 := [Entering call1])) T6) (demo_state (asleep(0 := [Loop call1 (start_timers 1 100 10)])) T6)"
    using step.Enter [where pid_of = "\<lambda>_. 1" and cfg = demo_cfg and th = 0 and st = "[]" and c = call1 and n = 100 and k = 10
         and s = "demo_state (asleep(0 := [Entering call1])) T6"] by (simp add: call1_def)
  have p: "LRQ_pending \<in> lrq_flags (reqs T6 712)" by (simp add: T6_def T5_def)
  have c: "step demo_cfg (\<lambda>_. 1) (demo_state (asleep(0 := [Loop call1 (start_timers 1 100 10)])) T6) (demo_state (asleep(0 := [Sleep call1 (start_timers 1 100 10)])) T6)"
    using step.Doze [where pid_of = "\<lambda>_. 1" and cfg = demo_cfg and th = 0 and st = "[]" and c = call1 and tm = "start_timers 1 100 10"
         and s = "demo_state (asleep(0 := [Loop call1 (start_timers 1 100 10)])) T6"] p by (simp add: call1_def)
  show ?thesis
    by (rule reach_on [OF reach_on [OF reach_on [OF reach_demo6 a demo_cfg_ok] b demo_cfg_ok] c demo_cfg_ok])
      (simp_all add: demo_used)
qed

definition T9 :: table where
  "T9 = T6\<lparr>reqs := (reqs T6)(712 := req1\<lparr>lrq_requested := 6, lrq_flags := {LRQ_wait_timeout, LRQ_pending}\<rparr>)\<rparr>"

definition call3 :: call where
  "call3 = \<lparr>c_request = 712, c_level = LCK_EX, c_wait = -5, c_finish = By_convert None, c_held = LCK_PR\<rparr>"

lemma convert_demo3: "convert 712 LCK_EX (-5) 0 0 T5 = (Waiting 712, T9)"
proof -
  have "convert 712 LCK_EX (-5) 0 0 T5 = (Waiting 712, mod_req 712 (set_flag LRQ_wait_timeout) (snd (convert 712 LCK_EX 1 0 0 T5)))"
    using convert_demo1 by (auto simp: convert_def internal_convert_def begin_wait_def Let_def split: if_splits)
  also have "mod_req 712 (set_flag LRQ_wait_timeout) (snd (convert 712 LCK_EX 1 0 0 T5)) = T9"
    unfolding convert_demo1 by (simp add: T9_def T6_def mod_req_def set_flag_def)
  finally show ?thesis .
qed

lemma reach_demo10: "reach demo_cfg (\<lambda>_. 1) (demo_state ((\<lambda>_. [])(0 := [Sleep call3 (start_timers (-5) 100 10)])) T9)"
proof -
  define e where "e = (\<lambda>_::nat. []::frame list)"
  have pb: "post_blockage 712 T9 = ([], T9)"
    by (rule no_blockers) (simp add: T9_def demo_reqs(3) req1_def)
  have "step demo_cfg (\<lambda>_. 1) (demo_state e T5) (demo_state (e(0 := [Blockage [] [], Entering call3])) T9)"
    using step.Convert [where pid_of = "\<lambda>_. 1" and cfg = demo_cfg and th = 0 and s = "demo_state e T5" and r = 712
        and type = LCK_EX and ast = 0 and arg = 0 and i = "-5" and out = "Waiting 712" and t = T9] convert_demo3 pb
    by (simp add: answer_def new_ast_def e_def usable_def demo_live demo_reqs demo_homes demo_waited req1_def call3_def)
  then have a: "reach demo_cfg (\<lambda>_. 1) (demo_state (e(0 := [Blockage [] [], Entering call3])) T9)"
    by (intro reach_on [OF reach_demo5 [folded e_def] _ demo_cfg_ok]) (simp_all add: T9_def demo_used)
  have b: "step demo_cfg (\<lambda>_. 1) (demo_state (e(0 := [Blockage [] [], Entering call3])) T9) (demo_state (e(0 := [Entering call3])) T9)"
    using step.Notified [where pid_of = "\<lambda>_. 1" and cfg = demo_cfg and th = 0 and s = "demo_state (e(0 := [Blockage [] [], Entering call3])) T9" and st = "[Entering call3]"]
    by simp
  have c: "step demo_cfg (\<lambda>_. 1) (demo_state (e(0 := [Entering call3])) T9) (demo_state (e(0 := [Loop call3 (start_timers (-5) 100 10)])) T9)"
    using step.Enter [where pid_of = "\<lambda>_. 1" and cfg = demo_cfg and th = 0 and st = "[]" and c = call3 and n = 100 and k = 10
         and s = "demo_state (e(0 := [Entering call3])) T9"] by (simp add: call3_def)
  have p: "LRQ_pending \<in> lrq_flags (reqs T9 712)" by (simp add: T9_def)
  have d: "step demo_cfg (\<lambda>_. 1) (demo_state (e(0 := [Loop call3 (start_timers (-5) 100 10)])) T9) (demo_state (e(0 := [Sleep call3 (start_timers (-5) 100 10)])) T9)"
    using step.Doze [where pid_of = "\<lambda>_. 1" and cfg = demo_cfg and th = 0 and st = "[]" and c = call3 and tm = "start_timers (-5) 100 10"
         and s = "demo_state (e(0 := [Loop call3 (start_timers (-5) 100 10)])) T9"] p by (simp add: call3_def)
  show ?thesis unfolding e_def [symmetric]
    by (rule reach_on [OF reach_on [OF reach_on [OF a b demo_cfg_ok] c demo_cfg_ok] d demo_cfg_ok]) (simp_all add: T9_def demo_used)
qed

theorem timed_wait_ends_witness: "\<exists>t. wake 1 712 (-5) (start_timers (-5) 100 10)
   \<lparr>now = 105, cancelled = False, exists_process = (\<lambda>_. True), interval = 10\<rparr> T9 = Some (Resolved, t) \<and> LRQ_pending \<notin> lrq_flags (reqs t 712)"
  using timed_wait_ends [OF reach_demo10 demo_cfg_ok, of 0 call3 "start_timers (-5) 100 10" "[]" "\<lparr>now = 105, cancelled = False, exists_process = (\<lambda>_. True), interval = 10\<rparr>"]
  by (simp add: truthful_def call3_def start_timers_def)

theorem wake_terminates_witness: "\<exists>vd t. wake 1 712 1 (start_timers 1 100 10)
   \<lparr>now = 110, cancelled = False, exists_process = (\<lambda>_. True), interval = 10\<rparr> T6 = Some (vd, t) \<and> live_request t 712"
  using wake_terminates [OF reach_demo9 demo_cfg_ok, of 0 call1 "start_timers 1 100 10" "[]" "\<lparr>now = 110, cancelled = False, exists_process = (\<lambda>_. True), interval = 10\<rparr>"]
  by (auto simp: asleep_def truthful_def call1_def)

subsection \<open>Blocking notices\<close>

lemma blockers_other: "x \<notin> set bs \<Longrightarrow> reqs (snd (blockers r bs t)) x = reqs t x"
  by (induction r bs t rule: blockers.induct) (auto simp: mark_blocking_def Let_def)

lemma mark_blocking_req:
  "reqs (mark_blocking b t) x = (if x = b then (reqs t b)\<lparr>lrq_flags := insert LRQ_blocking (lrq_flags (reqs t b)) - {LRQ_blocking_seen, LRQ_just_granted}\<rparr>
     else reqs t x)"
  by (simp add: mark_blocking_def)

definition in_the_way :: "table \<Rightarrow> nat \<Rightarrow> nat \<Rightarrow> bool" where
  "in_the_way t r b \<longleftrightarrow> b \<noteq> r \<and> lrq_owner (reqs t b) \<noteq> lrq_owner (reqs t r) \<and>
     \<not> compatibility (lrq_requested (reqs t r)) (lrq_state (reqs t b)) \<and> lrq_ast_routine (reqs t b) \<noteq> 0 \<and>
     LRQ_blocking_seen \<notin> lrq_flags (reqs t b)"

lemma blockers_notify:
  assumes "b \<in> set bs" "distinct bs" "in_the_way t r b" "\<And>x. x \<in> set bs \<Longrightarrow> x \<noteq> b \<Longrightarrow> lrq_state (reqs t x) \<noteq> LCK_EX"
  shows "lrq_owner (reqs t b) \<in> set (fst (blockers r bs t)) \<and> LRQ_blocking \<in> lrq_flags (reqs (snd (blockers r bs t)) b)"
  using assms
proof (induction bs arbitrary: t)
  case (Cons a bs)
  define t1 where "t1 = (if LRQ_blocking \<in> lrq_flags (reqs t a) then t else mark_blocking a t)"
  have t1: "reqs t1 x = reqs t x" if "x \<noteq> a" for x using that by (simp add: t1_def mark_blocking_req)
  have ta: "lrq_state (reqs t1 a) = lrq_state (reqs t a)" "lrq_owner (reqs t1 x) = lrq_owner (reqs t x)"
    "lrq_requested (reqs t1 r) = lrq_requested (reqs t r)" for x by (simp_all add: t1_def mark_blocking_req)
  have B: "blockers r (a # bs) t = (if \<not> in_the_way t r a then blockers r bs t
      else let rest = (if lrq_state (reqs t1 a) = LCK_EX then ([], t1) else blockers r bs t1)
           in (lrq_owner (reqs t1 a) # fst rest, snd rest))"
    by (simp add: in_the_way_def t1_def Let_def)
  show ?case
  proof (cases "a = b")
    case True
    have "LRQ_blocking \<in> lrq_flags (reqs t1 b)" using True by (auto simp: t1_def mark_blocking_req)
    moreover have "in_the_way t r a" "b \<notin> set bs" using Cons.prems True by auto
    ultimately show ?thesis using True blockers_other [of b bs r t1] unfolding B by (simp add: ta Let_def)
  next
    case False
    then have b: "b \<in> set bs" "distinct bs" using Cons.prems by auto
    have w: "in_the_way t1 r b" using Cons.prems(3) False t1 ta by (simp add: in_the_way_def)
    have ex: "lrq_state (reqs t1 x) \<noteq> LCK_EX" if "x \<in> set bs" "x \<noteq> b" for x
      using Cons.prems(4) [of x] that t1 [of x] ta(1) by (cases "x = a") auto
    have na: "lrq_state (reqs t1 a) \<noteq> LCK_EX" using Cons.prems(4) [of a] False ta(1) by simp
    have "lrq_owner (reqs t b) \<in> set (fst (blockers r bs t)) \<and> LRQ_blocking \<in> lrq_flags (reqs (snd (blockers r bs t)) b)"
      by (rule Cons.IH [OF b Cons.prems(3)]) (use Cons.prems(4) in simp)
    moreover have "lrq_owner (reqs t1 b) \<in> set (fst (blockers r bs t1)) \<and> LRQ_blocking \<in> lrq_flags (reqs (snd (blockers r bs t1)) b)"
      by (rule Cons.IH [OF b w ex])
    ultimately show ?thesis using na by (simp add: B ta Let_def del: blockers.simps)
  qed
qed simp

text \<open>
  C31. Every request of another owner that stands in the way of a waiting one, has an AST and has
  not been told yet is marked, and its owner is among those to be signalled: stopping the search
  at the first exclusive lock misses none.
\<close>

theorem blockers_are_notified:
  assumes I: "lock_inv t" and a: "live_request t r" "live_request t b"
    "lrq_lock (reqs t b) = lrq_lock (reqs t r)" "in_the_way t r b" "post_blockage r t = (ws, t')"
  shows "lrq_owner (reqs t b) \<in> set ws \<and> LRQ_blocking \<in> lrq_flags (reqs t' b)"
proof -
  let ?q = "lbl_requests (lcks t (lrq_lock (reqs t r)))"
  have b: "b \<in> set ?q" using live_requestD(1) [OF I a(2)] by (simp add: a(3))
  note T = table_ok_req [OF lock_invD(1) [OF I] b]
  have rl: "lrq_requested (reqs t r) < 7" using live_requestD(2) [OF I a(1)] by (simp add: req_ok_def)
  have bl: "lrq_state (reqs t b) < 7" using T(1) by (simp add: req_ok_def)
  have "lrq_state (reqs t x) \<noteq> LCK_EX" if "x \<in> set ?q" "x \<noteq> b" for x
  proof
    assume "lrq_state (reqs t x) = LCK_EX"
    moreover have "compatibility (lrq_state (reqs t x)) (lrq_state (reqs t b))"
      using T(5) that b by (simp add: compatible_on_def)
    ultimately have "lrq_state (reqs t b) \<le> 1"
      using levels [OF bl] by (auto simp: compatibility_def)
    then have "compatibility (lrq_requested (reqs t r)) (lrq_state (reqs t b))"
      using levels [OF rl] levels [OF bl] by (auto simp: compatibility_def)
    then show False using a(4) by (simp add: in_the_way_def)
  qed
  then show ?thesis using blockers_notify [OF b T(3) a(4)] a(5) by (simp add: post_blockage_def)
qed

theorem blockers_are_notified_witness: "632 \<in> set (fst (post_blockage 712 (mod_req 880 (\<lambda>q. q\<lparr>lrq_ast_routine := 7\<rparr>) T6)))"
proof -
  let ?t = "mod_req 880 (\<lambda>q. q\<lparr>lrq_ast_routine := 7\<rparr>) T6"
  have l: "lock_inv ?t"
    by (rule mod_req_inv) (use reachD(4) [OF reach_demo6 demo_cfg_ok] in \<open>simp_all add: same_request_def req_key_def\<close>)
  have r: "reqs T6 712 = req1\<lparr>lrq_requested := 6, lrq_flags := {LRQ_pending}\<rparr>" by (simp add: T6_def)
  have "live_request ?t 712" "live_request ?t 880" by (simp_all add: live_request_def r demo_reqs req1_def)
  then show ?thesis
    using blockers_are_notified [OF l, of 712 880 "fst (post_blockage 712 ?t)" "snd (post_blockage 712 ?t)"]
    by (simp add: r demo_reqs req1_def in_the_way_def compatibility_def)
qed

subsection \<open>Downgrading\<close>

lemma lower_level: "lower_level ps k \<le> k" "lower_level ps k = 0 \<or> compatibility ps (lower_level ps k)"
  by (induction k) auto

lemma lower_compatible:
  assumes "compatibility a m" "a < 7" "m < 7" "k \<le> a" "\<not> (a = LCK_SW \<and> k = LCK_PR)"
  shows "compatibility k m"
  using levels [OF assms(2)] levels [OF assms(3)] levels [of k] assms
  by (auto simp: compatibility_def)

lemma filter_single: "distinct xs \<Longrightarrow> r \<in> set xs \<Longrightarrow> filter (\<lambda>x. x = r) xs = [r]"
  by (induction xs) (auto simp: filter_empty_conv)

lemma others_state:
  assumes inv: "lock_inv t" and sm: "small t" and r: "live_request t r" and m: "m = lock_state (lcks (retracted r type t) (lrq_lock (reqs t r)))"
  shows "compatibility (lrq_state (reqs t r)) m" "m < 7"
proof -
  let ?l = "lrq_lock (reqs t r)" and ?q = "lbl_requests (lcks t (lrq_lock (reqs t r)))" and ?s = "\<lambda>x. lrq_state (reqs t x)"
  note q = live_requestD(1) [OF inv r]
  note T = table_ok_req [OF lock_invD(1) [OF inv] q]
  show m7: "m < 7" using lock_state_less [of "lcks (retracted r type t) ?l"] m by simp
  have sr: "?s r < 7" using T(1) by (simp add: req_ok_def)
  show "compatibility (?s r) m"
  proof (cases "m = 0")
    case True
    then show ?thesis using levels [OF sr] by (auto simp: compatibility_def)
  next
    case False
    have c: "lbl_counts (lcks t ?l) m = of_nat (length (filter (\<lambda>x. ?s x = m) ?q))"
      using T(4) False m7 by (simp add: counts_ok_def)
    have nz: "lbl_counts (lcks (retracted r type t) ?l) m \<noteq> 0"
      using False m by (auto simp: lock_state_def split: if_splits)
    have "\<exists>x \<in> set ?q. x \<noteq> r \<and> ?s x = m"
    proof (rule ccontr)
      assume n: "\<not> (\<exists>x \<in> set ?q. x \<noteq> r \<and> ?s x = m)"
      have f: "filter (\<lambda>x. ?s x = m) ?q = filter (\<lambda>x. x = r \<and> ?s r = m) ?q"
        by (rule filter_cong) (use n in auto)
      have "length (filter (\<lambda>x. x = r) ?q) = 1" using filter_single [OF T(3) q] by simp
      then have "lbl_counts (lcks t ?l) m = (if ?s r = m then 1 else 0)" unfolding c f by (cases "?s r = m") simp_all
      then show False using nz by (auto simp: retracted_def split: if_splits)
    qed
    then show ?thesis using T(5) q by (auto simp: compatible_on_def)
  qed
qed

text \<open>
  \<open>downgrade\<close> never raises a level. If it returns a level other than \<open>LCK_none\<close>, the request
  holds exactly that level, except when it goes from \<open>LCK_SW\<close> to \<open>LCK_PR\<close>, which are not comparable;
  if it returns \<open>LCK_none\<close>, the request is gone (or the owner is not in use).
\<close>

theorem downgrade_level:
  assumes "reach cfg pid_of s" "config_ok cfg" "live_request (tab s) r" "LRQ_pending \<notin> lrq_flags (reqs (tab s) r)"
    "own_count (owns (tab s) (lrq_owner (reqs (tab s) r))) \<noteq> 0" "downgrade r (tab s) = (k, t)"
    "\<not> (lrq_state (reqs (tab s) r) = LCK_SW \<and> k = LCK_PR)"
  shows "k \<le> lrq_state (reqs (tab s) r) \<and> (if k = LCK_none then \<not> live_request t r else live_request t r \<and> lrq_state (reqs t r) = k)"
proof -
  note I = reachD [OF assms(1,2)]
  let ?t1 = "bump Downgrades (tab s)" and ?s = "lrq_state (reqs (tab s) r)"
  define k0 where "k0 = lower_level (pending_level r (lbl_requests (lcks ?t1 (lrq_lock (reqs ?t1 r)))) LCK_none ?t1) ?s"
  have k0: "k0 \<le> ?s" by (simp add: k0_def lower_level(1))
  have d: "downgrade r (tab s) = (if k0 = LCK_none \<or> k0 = LCK_null then (LCK_none, internal_dequeue r ?t1)
      else (k0, snd (internal_convert r k0 0 (lrq_ast_routine (reqs ?t1 r)) (lrq_ast_argument (reqs ?t1 r)) ?t1)))"
    using assms(5) by (simp add: downgrade_def Let_def k0_def)
  show ?thesis
  proof (cases "k0 = LCK_none \<or> k0 = LCK_null")
    case True
    then show ?thesis using assms(6) by (auto simp: d internal_dequeue_def release_request_dead)
  next
    case False
    then have kt: "k = k0" "t = snd (internal_convert r k0 0 (lrq_ast_routine (reqs ?t1 r)) (lrq_ast_argument (reqs ?t1 r)) ?t1)"
      using assms(6) by (auto simp: d)
    define m where "m = lock_state (lcks (retracted r k0 ?t1) (lrq_lock (reqs ?t1 r)))"
    have i1: "lock_inv ?t1" "small ?t1" "live_request ?t1 r" "LRQ_pending \<notin> lrq_flags (reqs ?t1 r)" using I(3,4) assms(3,4) by simp_all
    have s7: "?s < 7" using live_requestD(2) [OF I(4) assms(3)] by (simp add: req_ok_def)
    have "compatibility k0 m"
      by (rule lower_compatible [OF _ s7 _ k0]) (use others_state [OF i1(1-3) m_def] assms(7) kt(1) in simp_all)
    then have "fst (internal_convert r k0 0 (lrq_ast_routine (reqs ?t1 r)) (lrq_ast_argument (reqs ?t1 r)) ?t1) = Granted r"
      by (simp add: internal_convert_cases m_def)
    then have "live_request t r \<and> lrq_state (reqs t r) = k"
      using internal_convert_outcome(1) [OF i1(3,4), of k0 0 "lrq_ast_routine (reqs ?t1 r)" "lrq_ast_argument (reqs ?t1 r)"]
      by (simp add: kt request_at_def)
    then show ?thesis using False kt(1) k0 by simp
  qed
qed

theorem downgrade_level_witness: "fst (downgrade 712 T5) \<le> 3"
proof -
  have "own_count (owns T5 552) = 1" by (simp add: T5_def T4_def T3_def owner1_def)
  then show ?thesis
    using downgrade_level [OF demo_reach, of 712 "fst (downgrade 712 T5)" "snd (downgrade 712 T5)"] demo5_live
    by (simp add: demo5_reqs req1_def)
qed

end
