(* ===== verification/Spec2Isabelle.thy ===== *)
theory Spec2Isabelle
  imports Prelude Compressor DiffRec IndexNode TimeStamp LikeMatch ClumpletTheorems TipCache SrqLinks LockTheorems
begin

text \<open>
  Parts of the Firebird engine (\<open>src/src\<close> of the repository), translated into HOL functions and
  step relations, with the theorems that make them correct.

  \<^bold>\<open>Bytes and records.\<close>
  \<^item> \<open>Prelude\<close>: shorts and longs in byte buffers (\<open>include/memory_routines.h\<close>), what a bugcheck is,
    copies of bytes that are the error \<open>Overrun\<close> where they would leave a buffer (\<open>load_bytes\<close>, \<open>store_at\<close>,
    \<open>append_to\<close>: \<open>memcpy\<close> and \<open>memset\<close>, used by \<open>unpack\<close> and \<open>apply\<close>, whose theorems exclude it), lemmas on bits and buffers, and the locale \<open>codec\<close> of encoders whose output is read back from any
    buffer it is the beginning of, with \<open>codec_array\<close> for sequences of them. Its interpretations are
    shorts and longs here, index nodes and jump nodes in \<open>IndexNode\<close>.
  \<^item> \<open>Compressor\<close>: the run-length compression of records (\<open>jrd/sqz.cpp\<close>, class \<open>Compressor\<close>). A
    compressor is the list of runs with the length they pack to. The constructor finds the runs,
    \<open>pack\<close>, \<open>unpack\<close>, \<open>getUnpackedLength\<close>, \<open>truncate\<close> and \<open>truncateTail\<close> are functions on byte lists;
    a bugcheck is an error value. Packing and unpacking give back the record, the packed length is
    what was announced, truncation keeps the head of the record, nothing is written out of bounds.
  \<^item> \<open>DiffRec\<close>: differences between versions of a record (class \<open>Difference\<close> of the same file).
    Applying what \<open>make\<close> produced to the old version gives the new one.
  \<^item> \<open>IndexNode\<close>: nodes and jump nodes of index pages (\<open>jrd/btn.cpp\<close>, \<open>btn.h\<close>): sizes, writing, reading,
    prefix compression, and the search for a record number among the duplicates of a key.
  \<^item> \<open>TimeStamp\<close>: dates and times (\<open>common/classes/NoThrowTimeStamp.cpp\<close>), against a calendar defined
    by counting days, and against the definition of weeks of ISO 8601.
  \<^item> \<open>StringSearch\<close>: the evaluators of \<open>CONTAINING\<close> and \<open>STARTING WITH\<close> (\<open>jrd/evl_string.h\<close>), fed with chunks
    of a string: the first finds a sublist, by the failure function of Knuth, Morris and Pratt, the second
    a prefix. \<open>LikeEvaluator\<close> and \<open>LikeMatch\<close>: the one of \<open>LIKE\<close>. A pattern is parsed into items and these are
    compiled, which keeps the tokens it stands for up to equal meaning; branches then match in parallel, and
    what a state accepts is the rest of what the pattern does.
  \<^item> Parameter blocks (\<open>common/classes/ClumpletReader.cpp\<close>, \<open>ClumpletWriter.cpp\<close>): \<open>ClumpletTags\<close> has the
    types of clumplets by kind and tag, \<open>Clumplets\<close> the reader, whose state is buffer, offset and the action of
    a service block, \<open>ClumpletWriter\<close> the writer that extends it. Exceptions are error values. \<open>ClumpletBytes\<close>
    relates clumplets and bytes, \<open>ClumpletTheorems\<close> shows that a block implements a list of clumplets with a
    position, for the kinds in which the type of a clumplet depends on its tag alone (\<open>plain_kind\<close>), and that a version
    upgrade keeps the list.

  \<^bold>\<open>States of transactions\<close> (\<open>jrd/tpc.cpp\<close>, \<open>jrd/tpc_proto.h\<close>, class \<open>TipCache\<close>).
  \<^item> \<open>Snapshots\<close>: the slots of snapshots in shared memory, as lists of stores after any of which the process
    may die; \<open>snapshots_reached\<close> are the states that operations and deaths lead to. They implement a map from
    handles to attachment and commit number. \<open>updateActiveSnapshots\<close> makes the list by which garbage
    collection tells which versions are needed; where it reads the slots it misses none, but a snapshot that
    began in a freed slot is missed where it takes them for unchanged.
  \<^item> \<open>TipCache\<close>: the status blocks with the commit number of each transaction, and what a transaction sees
    of another (\<open>TRA_snapshot_state\<close> of \<open>jrd/tra.cpp\<close>). Runs of \<open>setState\<close> and \<open>snapshotState\<close> leave what a
    snapshot sees as it is; the release of old blocks leaves the states of all others.

  \<^bold>\<open>The lock manager\<close> (\<open>lock/lock.cpp\<close>, \<open>lock/lock_proto.h\<close>). Blocks of the shared table are records,
  addressed by their offset; a queue is the list of the offsets of its members, and the table is a
  record of four stores of blocks, the queues of its header and the counters. Type tags are Booleans,
  the 16-bit counts of locks and owners are words. The history that nothing reads is left out.
  \<^item> \<open>LockTable\<close>: the table, allocation, hash lookup, the compatibility matrix, granting, posting of
    pending requests and release of a request.
  \<^item> \<open>LockOps\<close>: \<open>enqueue\<close>, \<open>convert\<close>, \<open>downgrade\<close>, \<open>dequeue\<close>, \<open>repost\<close>, \<open>cancelWait\<close>, the data operations,
    and the creation and purging of owners and processes. An operation is what the code does while
    it holds the mutex of the table; its result says whether it goes on to wait.
  \<^item> \<open>Deadlock\<close>: \<open>deadlock_scan\<close> and \<open>deadlock_walk\<close>, and the graph of who waits for whom.
  \<^item> \<open>LockWait\<close>: \<open>wait_for_request\<close>, \<open>post_blockage\<close>, \<open>signal_owner\<close> and \<open>blocking_action\<close>, cut where the
    mutex is released.
  \<^item> \<open>LockSystem\<close>: threads of several processes on one table. Each has a stack of the functions it is
    in; \<open>step\<close> interleaves them, lets processes die, and \<open>reach\<close> are the states that a fresh table
    leads to. A call that waits records the level held when it was made (\<open>c_held\<close>), which no operation reads. \<open>LockExample\<close> is a run up to a deadlock, a grant after a wait and a timed wait.
  \<^item> \<open>SrqLinks\<close>: how a queue lies in the shared memory, as links between offsets (\<open>jrd/que.h\<close>).
    \<open>insert_tail\<close> and \<open>remove_que\<close> are lists of stores, and a process may die between any two; the
    repair in \<open>acquire_shmem\<close>, made only after a process that had set its owner, may be interrupted in turn.
    Two exceptions are part of the theorems: deaths under \<open>DUMMY_OWNER\<close>, which nothing repairs, and a note
    that an earlier death has left behind. The locale \<open>list_queues\<close> is the view the rest
    has of queues, interpreted on the links.
  \<^item> Invariants: \<open>LockInv\<close> (queues, counts and levels of locks, blocks in use), \<open>LockOwners\<close> (queues of
    owners and processes), \<open>LockSafe\<close> (both together, through every operation), \<open>LockIndex\<close> (hash table
    and data queues), \<open>LockPurge\<close> and \<open>LockStart\<close> (owners and processes come and go). \<open>LockEffects\<close> says of
    each operation which requests it may release or change, and that others are at most granted what
    they ask for, or rejected: \<open>effect\<close> composes, and \<open>LockSystem\<close> keeps the calls that wait intact by it.
  \<^item> \<open>LockTheorems\<close>: what follows for every reachable state: compatible levels, exact counts, no lost
    requests, what a call's answer means, complete and justified deadlock detection, time limits,
    notices to the owners in the way.

  \<^bold>\<open>Fuel.\<close> The recursion of \<open>deadlock_walk\<close> is bounded by one more than the bytes in use: each level
  marks a pending request of its own, and a request takes more than a byte; \<open>scan_terminates\<close> proves
  that it suffices. The loops that take the first member of a queue until it is empty (\<open>purge_owner\<close>,
  \<open>purge_process\<close>) are bounded by its length, which each turn decreases. The falls along the failure function take
  at most as many turns as the pattern is long, and one. An insertion into a parameter block is tried twice
  at most: a block that was upgraded has the newest version. The scan for a free slot ends at \<open>slots_used\<close>. Other loops are recursions on lists or bytes.

  \<^bold>\<open>What is relied on.\<close> Block sizes, hash function and growth of the mapped file are parameters
  (\<open>config\<close>); the sizes are positive. Times, events and the existence of processes are arguments of
  the steps: a process is reported gone only when it is dead. The engine uses requests and owners
  only in their own process, and not while a call of its own waits for them. Reachable states keep
  fewer than \<open>2^16 - 1\<close> requests on a lock, so that its counts do not wrap around. The block of a dead
  process is not handed out again while \<open>post_blockage\<close> has it on its list. Keys are shorter than
  256 bytes and series less than 256, as \<open>UCHAR\<close> fields demand. Commit numbers do not reach the three
  reserved ones at the end of their range; attachment numbers are not 0. Whether the process of a transaction
  or attachment lives, and the states on inventory pages, are arguments. Sums in \<open>queryData\<close> stay within 64 bits.

  \<^bold>\<open>Not modelled.\<close> Mapping and remapping of the shared memory, dump and validation of the lock table;
  a crash inside an operation is modelled for one queue at a time, not for the operation as a whole; the failures of
  \<open>create_process\<close> after it has set \<open>m_processOffset\<close>, and the purge of its process in the destructor of a lock manager.
  Lengths of buffers are natural numbers without the bound of \<open>ULONG\<close>. Operations on
  snapshots are atomic for each other, and \<open>findStates\<close>, the loading of the cache from inventory pages and the locks
  on its blocks are left out. Of the rest of the repository: start and end of transactions,
  record versions, index trees and data pages, the page cache, the compiler and executor of queries,
  conversions between data types, character sets, the remote protocol, the dispatcher and the tools;
  vendored libraries under \<open>extern\<close>. They depend on page buffers, latches, the operating system or large
  graphs of objects; the parts above were chosen because their logic is their own.
\<close>

end
